(* ===== verification/Prelude.thy ===== *)
theory Prelude
  imports Main "HOL-Library.Word"
begin

unbundle bit_operations_syntax

text \<open>
  Shared material: names for the C integer types, the collections the component
  theories hang their rewrite rules on, and the generic lemmas on lists and words
  that more than one of them needs. Nothing in this theory models code.
\<close>

type_synonym u8 = "8 word"
type_synonym u16 = "16 word"
type_synonym u32 = "32 word"
type_synonym u64 = "64 word"

text \<open>
  \<open>lease_simps\<close>, \<open>device_simps\<close> and \<open>session_simps\<close> hold the one-step equations
  of the receiver-control operations. They are unfolded together in the proofs of those components.
\<close>

named_theorems lease_simps
named_theorems device_simps
named_theorems session_simps

subsection \<open>Lists\<close>

lemma take_Suc_update [simp]:
  "n < length xs \<Longrightarrow> take (Suc n) (xs[n := x]) = take n xs @ [x]"
  by (simp add: take_Suc_conv_app_nth)

lemma nth_update_same [simp]: "n < length xs \<Longrightarrow> (xs[n := x]) ! n = x"
  by simp

lemma take_drop_split: "take m xs @ take n (drop m xs) = take (m + n) xs"
  by (simp add: take_add)

lemma foldl_invariant:
  assumes "P s" and "\<And>s x. P s \<Longrightarrow> x \<in> set xs \<Longrightarrow> P (f s x)"
  shows "P (foldl f s xs)"
  using assms by (induction xs arbitrary: s) auto

subsection \<open>Words\<close>

lemma word_xor_self_cancel [simp]: "(a XOR b) XOR b = (a :: 'a::len word)"
  by (simp add: xor.assoc)

lemma unat_Suc_word: "unat n + 1 < 2 ^ LENGTH('a) \<Longrightarrow> unat (n + 1 :: 'a::len word) = unat n + 1"
  by (simp add: unat_word_ariths)

lemma unat_less_succ: "g + 1 \<noteq> 0 \<Longrightarrow> unat g < unat (g + 1 :: 'a::len word)"
  using unatSuc[of g] by (simp add: add.commute)

subsection \<open>The first entry of an array\<close>

definition first_index :: "('a \<Rightarrow> bool) \<Rightarrow> 'a list \<Rightarrow> nat option" where
  "first_index P xs = find (\<lambda>i. P (xs ! i)) [0..<length xs]"

lemma first_index_cases:
  "(first_index P xs = None \<and> (\<forall>x\<in>set xs. \<not> P x)) \<or> (\<exists>k. first_index P xs = Some k \<and> k < length xs \<and> P (xs ! k))"
proof (cases "first_index P xs")
  case None
  then show ?thesis by (auto simp: first_index_def find_None_iff in_set_conv_nth)
next
  case (Some k)
  then show ?thesis by (auto simp: first_index_def find_Some_iff)
qed

lemma first_index_find: "first_index P xs = Some k \<Longrightarrow> find P xs = Some (xs ! k)"
  by (auto simp: first_index_def find_Some_iff)

lemma find_first_update:
  "first_index P xs = Some k \<Longrightarrow> P y \<Longrightarrow> find P (xs[k := y]) = Some y"
  by (auto simp: first_index_def find_Some_iff nth_list_update intro!: exI [of _ k])

end
