(* ===== verification/Receiver_Lease.thy ===== *)
theory Receiver_Lease
  imports Prelude
begin

text \<open>
  \<open>src/src/runtime/receiver_lease.h\<close>: the LIFO stack of tuning snapshots with which
  screens borrow the receiver. The two C arrays of length \<open>RECEIVER_LEASE_MAX\<close> are
  lists of that length updated in place; a C \<open>int\<close> result code is an \<open>int\<close>; the
  operations that write through pointers return the written values.
\<close>

definition RECEIVER_LEASE_MAX :: nat where
  "RECEIVER_LEASE_MAX = 4"

record receiver_tuning =
  center_hz :: u32
  sample_rate_hz :: u32

record receiver_lease_token =
  token_generation :: u32

record receiver_lease =
  saved :: "receiver_tuning list"
  generation :: "u32 list"
  depth :: nat
  next_generation :: u32

definition receiver_lease_reset :: "receiver_lease \<Rightarrow> receiver_lease" where
  "receiver_lease_reset l = l\<lparr>depth := 0, next_generation := 1\<rparr>"

definition receiver_lease_depth :: "receiver_lease \<Rightarrow> nat" where
  "receiver_lease_depth l = depth l"

text \<open>The pointer argument may be NULL in the source, hence the option.\<close>

definition receiver_lease_token_active :: "receiver_lease_token option \<Rightarrow> bool" where
  "receiver_lease_token_active t =
     (case t of None \<Rightarrow> False | Some t \<Rightarrow> token_generation t \<noteq> 0)"

definition receiver_lease_acquire ::
  "receiver_lease \<Rightarrow> receiver_tuning \<Rightarrow> receiver_lease_token
     \<Rightarrow> int \<times> receiver_lease \<times> receiver_lease_token" where
  "receiver_lease_acquire l current t =
     (if depth l \<ge> RECEIVER_LEASE_MAX then (-1, l, t\<lparr>token_generation := 0\<rparr>)
      else
        let l = (if next_generation l = 0 then l\<lparr>next_generation := 1\<rparr> else l);
            g = next_generation l;
            l = l\<lparr>saved := (saved l)[depth l := current],
                 generation := (generation l)[depth l := g]\<rparr>;
            t = t\<lparr>token_generation := g\<rparr>;
            l = l\<lparr>next_generation := g + 1, depth := depth l + 1\<rparr>
        in (0, l, t))"

definition receiver_lease_is_top :: "receiver_lease \<Rightarrow> receiver_lease_token \<Rightarrow> bool" where
  "receiver_lease_is_top l t =
     (depth l > 0 \<and> token_generation t \<noteq> 0 \<and>
      generation l ! (depth l - 1) = token_generation t)"

definition receiver_lease_cancel ::
  "receiver_lease \<Rightarrow> receiver_lease_token \<Rightarrow> int \<times> receiver_lease \<times> receiver_lease_token" where
  "receiver_lease_cancel l t =
     (if \<not> receiver_lease_is_top l t then (-1, l, t)
      else (0, l\<lparr>depth := depth l - 1\<rparr>, t\<lparr>token_generation := 0\<rparr>))"

definition receiver_lease_begin_return ::
  "receiver_lease \<Rightarrow> receiver_lease_token \<Rightarrow> receiver_tuning option" where
  "receiver_lease_begin_return l t =
     (if \<not> receiver_lease_is_top l t then None else Some (saved l ! (depth l - 1)))"

definition receiver_lease_finish_return ::
  "receiver_lease \<Rightarrow> receiver_lease_token \<Rightarrow> int \<times> receiver_lease \<times> receiver_lease_token" where
  "receiver_lease_finish_return l t =
     (if \<not> receiver_lease_is_top l t then (-1, l, t)
      else (0, l\<lparr>depth := depth l - 1\<rparr>, t\<lparr>token_generation := 0\<rparr>))"

definition receiver_lease_commit ::
  "receiver_lease \<Rightarrow> receiver_lease_token \<Rightarrow> int \<times> receiver_lease \<times> receiver_lease_token" where
  "receiver_lease_commit l t =
     (if \<not> receiver_lease_is_top l t then (-1, l, t)
      else (0, l\<lparr>depth := depth l - 1\<rparr>, t\<lparr>token_generation := 0\<rparr>))"


subsection \<open>The stack behind the two arrays\<close>

text \<open>The live claims, newest first: what the two arrays mean up to \<open>depth\<close>.\<close>

definition lease_stack :: "receiver_lease \<Rightarrow> (u32 \<times> receiver_tuning) list" where
  "lease_stack l = rev (zip (take (depth l) (generation l)) (take (depth l) (saved l)))"

text \<open>The representation invariant: array lengths, bounds, live generations non-zero.\<close>

definition lease_wf :: "receiver_lease \<Rightarrow> bool" where
  "lease_wf l \<longleftrightarrow>
     length (saved l) = RECEIVER_LEASE_MAX \<and> length (generation l) = RECEIVER_LEASE_MAX \<and>
     depth l \<le> RECEIVER_LEASE_MAX \<and> (\<forall>i<depth l. generation l ! i \<noteq> 0)"

lemma lease_wf_lengths:
  assumes "lease_wf l"
  shows "depth l \<le> length (saved l)" and "depth l \<le> length (generation l)"
    and "length (saved l) = 4" and "length (generation l) = 4" and "depth l \<le> 4"
  using assms by (auto simp: lease_wf_def RECEIVER_LEASE_MAX_def)

lemma length_lease_stack: "lease_wf l \<Longrightarrow> length (lease_stack l) = depth l"
  by (simp add: lease_stack_def lease_wf_def RECEIVER_LEASE_MAX_def)

lemma lease_stack_top:
  assumes "lease_wf l" and "depth l = Suc d"
  shows "lease_stack l = (generation l ! d, saved l ! d) # lease_stack (l\<lparr>depth := d\<rparr>)"
proof -
  note len = lease_wf_lengths[OF assms(1)]
  have "take (Suc d) (generation l) = take d (generation l) @ [generation l ! d]"
    and "take (Suc d) (saved l) = take d (saved l) @ [saved l ! d]"
    using len assms(2) by (simp_all add: take_Suc_conv_app_nth)
  moreover have "length (take d (generation l)) = length (take d (saved l))"
    using len by simp
  ultimately show ?thesis by (simp add: lease_stack_def assms(2))
qed

lemma lease_is_top_iff:
  assumes "lease_wf l"
  shows "receiver_lease_is_top l t \<longleftrightarrow>
    (case lease_stack l of [] \<Rightarrow> False | (g, _) # _ \<Rightarrow> g = token_generation t)"
proof (cases "depth l")
  case 0
  then show ?thesis by (simp add: receiver_lease_is_top_def lease_stack_def)
next
  case (Suc d)
  moreover from Suc assms have "generation l ! d \<noteq> 0" by (simp add: lease_wf_def)
  ultimately show ?thesis
    using lease_stack_top[OF assms Suc] by (auto simp: receiver_lease_is_top_def)
qed

lemma lease_wf_pop: "lease_wf l \<Longrightarrow> lease_wf (l\<lparr>depth := depth l - 1\<rparr>)"
  by (auto simp: lease_wf_def)

lemma lease_stack_pop:
  assumes "lease_wf l" and "receiver_lease_is_top l t"
  shows "lease_stack (l\<lparr>depth := depth l - 1\<rparr>) = tl (lease_stack l)"
proof -
  from assms(2) obtain d where d: "depth l = Suc d"
    by (cases "depth l") (auto simp: receiver_lease_is_top_def)
  show ?thesis using lease_stack_top[OF assms(1) d] d by simp
qed

lemma lease_begin_return_stack:
  assumes "lease_wf l"
  shows "receiver_lease_begin_return l t =
    (case lease_stack l of [] \<Rightarrow> None
     | (g, v) # _ \<Rightarrow> if g = token_generation t then Some v else None)"
proof (cases "depth l")
  case 0
  then show ?thesis
    by (simp add: receiver_lease_begin_return_def receiver_lease_is_top_def lease_stack_def)
next
  case (Suc d)
  then show ?thesis
    using lease_stack_top[OF assms Suc] lease_is_top_iff[OF assms]
    by (auto simp: receiver_lease_begin_return_def)
qed

lemma lease_acquire_full:
  "depth l \<ge> RECEIVER_LEASE_MAX \<Longrightarrow>
   receiver_lease_acquire l v t = (-1, l, t\<lparr>token_generation := 0\<rparr>)"
  by (simp add: receiver_lease_acquire_def)

text \<open>The generation an acquisition issues: the counter, with zero skipped.\<close>

definition issued_generation :: "receiver_lease \<Rightarrow> u32" where
  "issued_generation l = (if next_generation l = 0 then 1 else next_generation l)"

lemma issued_generation_nonzero [simp]: "issued_generation l \<noteq> 0"
  by (simp add: issued_generation_def)

lemma lease_acquire_room:
  assumes "lease_wf l" and "depth l < RECEIVER_LEASE_MAX"
  obtains l' where
    "receiver_lease_acquire l v t = (0, l', t\<lparr>token_generation := issued_generation l\<rparr>)"
    "lease_wf l'" "lease_stack l' = (issued_generation l, v) # lease_stack l"
    "next_generation l' = issued_generation l + 1"
proof -
  let ?g = "issued_generation l" and ?d = "depth l"
  define l' where "l' = l\<lparr>saved := (saved l)[?d := v], generation := (generation l)[?d := ?g],
    depth := ?d + 1, next_generation := ?g + 1\<rparr>"
  have eq: "receiver_lease_acquire l v t = (0, l', t\<lparr>token_generation := ?g\<rparr>)"
    using assms(2) by (simp add: receiver_lease_acquire_def issued_generation_def l'_def Let_def)
  have wf: "lease_wf l'"
    using assms by (auto simp: l'_def lease_wf_def nth_list_update less_Suc_eq)
  have "lease_stack (l'\<lparr>depth := ?d\<rparr>) = lease_stack l"
    by (simp add: lease_stack_def l'_def)
  then have "lease_stack l' = (?g, v) # lease_stack l"
    using lease_stack_top[OF wf, of ?d] assms lease_wf_lengths[OF assms(1)]
    by (simp add: l'_def RECEIVER_LEASE_MAX_def)
  moreover have "next_generation l' = ?g + 1" by (simp add: l'_def)
  ultimately show ?thesis using eq wf by (intro that)
qed

lemma lease_wf_reset:
  "length (saved l) = RECEIVER_LEASE_MAX \<Longrightarrow> length (generation l) = RECEIVER_LEASE_MAX \<Longrightarrow>
   lease_wf (receiver_lease_reset l)"
  by (simp add: lease_wf_def receiver_lease_reset_def)


subsection \<open>The contract the borrowing screens rely on\<close>

text \<open>
  A stack of claims, each identified by a name and carrying a value: what
  \<open>receiver_borrow\<close>, \<open>receiver_return\<close> and \<open>receiver_commit\<close> use of the lease.
\<close>

locale claim_stack =
  fixes invar :: "'s \<Rightarrow> bool"
    and stack :: "'s \<Rightarrow> ('g \<times> 'v) list"
    and push :: "'s \<Rightarrow> 'v \<Rightarrow> ('g \<times> 's) option"
    and peek :: "'s \<Rightarrow> 'g \<Rightarrow> 'v option"
    and pop :: "'s \<Rightarrow> 'g \<Rightarrow> 's option"
  assumes push_law: "invar s \<Longrightarrow> push s v = Some (g, s') \<Longrightarrow>
      invar s' \<and> stack s' = (g, v) # stack s"
    and peek_law: "invar s \<Longrightarrow>
      peek s g = (case stack s of [] \<Rightarrow> None | (h, v) # _ \<Rightarrow> if h = g then Some v else None)"
    and pop_law: "invar s \<Longrightarrow>
      (case pop s g of
         None \<Rightarrow> (case stack s of [] \<Rightarrow> True | (h, _) # _ \<Rightarrow> h \<noteq> g)
       | Some s' \<Rightarrow> invar s' \<and> (\<exists>v. stack s = (g, v) # stack s'))"
begin

lemma pop_Some: "invar s \<Longrightarrow> pop s g = Some s' \<Longrightarrow> invar s' \<and> (\<exists>v. stack s = (g, v) # stack s')"
  using pop_law[of s g] by simp

lemma push_peek: "invar s \<Longrightarrow> push s v = Some (g, s') \<Longrightarrow> peek s' g = Some v"
  using push_law peek_law by fastforce

lemma push_pop:
  assumes "invar s" and "push s v = Some (g, s')"
  obtains s'' where "pop s' g = Some s''" "stack s'' = stack s" "invar s''"
  using pop_law[of s' g] push_law[OF assms] by (auto split: option.splits)

lemma pop_out_of_order:
  assumes "invar s" and "push s v = Some (g, s')" and "h \<noteq> g"
  shows "pop s' h = None" and "peek s' h = None"
  using pop_law[of s' h] peek_law[of s' h] push_law[OF assms(1,2)] assms(3)
  by (auto split: option.splits)

lemma nested_return:
  assumes "invar s" and "push s v = Some (g, s1)" and "push s1 w = Some (h, s2)"
    and "pop s2 h = Some s3"
  shows "peek s3 g = Some v \<and> invar s3 \<and> stack s3 = stack s1"
proof -
  from assms(1,2) have 1: "invar s1" "stack s1 = (g, v) # stack s" by (simp_all add: push_law)
  with assms(3) have 2: "invar s2" "stack s2 = (h, w) # stack s1" by (simp_all add: push_law)
  with pop_Some[OF _ assms(4)] have 3: "invar s3" "stack s3 = stack s1" by auto
  with 1 show ?thesis by (simp add: peek_law)
qed

end

text \<open>The lease's operations in that shape: a claim is named by its token's generation.\<close>

definition lease_push ::
  "receiver_lease \<Rightarrow> receiver_tuning \<Rightarrow> (u32 \<times> receiver_lease) option" where
  "lease_push l v =
     (case receiver_lease_acquire l v \<lparr>token_generation = 0\<rparr> of
        (rc, l', t) \<Rightarrow> if rc < 0 then None else Some (token_generation t, l'))"

definition lease_peek :: "receiver_lease \<Rightarrow> u32 \<Rightarrow> receiver_tuning option" where
  "lease_peek l g = receiver_lease_begin_return l \<lparr>token_generation = g\<rparr>"

definition lease_pop :: "receiver_lease \<Rightarrow> u32 \<Rightarrow> receiver_lease option" where
  "lease_pop l g =
     (case receiver_lease_finish_return l \<lparr>token_generation = g\<rparr> of
        (rc, l', _) \<Rightarrow> if rc < 0 then None else Some l')"

lemma lease_push_Some:
  assumes "lease_wf l" and "lease_push l v = Some (g, l')"
  shows "lease_wf l' \<and> lease_stack l' = (g, v) # lease_stack l"
proof (cases "depth l < RECEIVER_LEASE_MAX")
  case True
  obtain l2 where l2: "receiver_lease_acquire l v \<lparr>token_generation = 0\<rparr> =
      (0, l2, \<lparr>token_generation = issued_generation l\<rparr>)"
    and "lease_wf l2" "lease_stack l2 = (issued_generation l, v) # lease_stack l"
    using lease_acquire_room[OF assms(1) True, of v "\<lparr>token_generation = 0\<rparr>"] by auto
  with assms(2) show ?thesis by (auto simp: lease_push_def)
next
  case False
  with assms(2) show ?thesis by (simp add: lease_push_def lease_acquire_full)
qed

lemma lease_pop_cases:
  assumes "lease_wf l"
  shows "case lease_pop l g of
         None \<Rightarrow> (case lease_stack l of [] \<Rightarrow> True | (h, _) # _ \<Rightarrow> h \<noteq> g)
       | Some l' \<Rightarrow> lease_wf l' \<and> (\<exists>v. lease_stack l = (g, v) # lease_stack l')"
proof (cases "receiver_lease_is_top l \<lparr>token_generation = g\<rparr>")
  case True
  with lease_is_top_iff[OF assms] obtain v r where s: "lease_stack l = (g, v) # r"
    by (auto split: list.splits)
  then have "lease_stack (l\<lparr>depth := depth l - 1\<rparr>) = r"
    using lease_stack_pop[OF assms True] by simp
  with True s lease_wf_pop[OF assms] show ?thesis
    by (simp add: lease_pop_def receiver_lease_finish_return_def)
next
  case False
  with lease_is_top_iff[OF assms] show ?thesis
    by (auto simp: lease_pop_def receiver_lease_finish_return_def split: list.splits)
qed

interpretation lease: claim_stack lease_wf lease_stack lease_push lease_peek lease_pop
proof unfold_locales
  show "lease_push s v = Some (g, s') \<Longrightarrow> lease_wf s' \<and> lease_stack s' = (g, v) # lease_stack s"
    if "lease_wf s" for s v g s' using that lease_push_Some by blast
  show "lease_peek s g =
      (case lease_stack s of [] \<Rightarrow> None | (h, v) # _ \<Rightarrow> if h = g then Some v else None)"
    if "lease_wf s" for s g
    using lease_begin_return_stack[OF that] by (simp add: lease_peek_def split: list.split)
qed (rule lease_pop_cases)

subsection \<open>Runs of operations\<close>

text \<open>
  Any owner may call any operation with any token it holds, stale copies included;
  a run is a list of such calls.
\<close>

datatype lease_op =
    Op_acquire receiver_tuning
  | Op_cancel receiver_lease_token
  | Op_finish receiver_lease_token
  | Op_commit receiver_lease_token

fun lease_step :: "receiver_lease \<Rightarrow> lease_op \<Rightarrow> receiver_lease" where
  "lease_step l (Op_acquire v) = fst (snd (receiver_lease_acquire l v \<lparr>token_generation = 0\<rparr>))"
| "lease_step l (Op_cancel t) = fst (snd (receiver_lease_cancel l t))"
| "lease_step l (Op_finish t) = fst (snd (receiver_lease_finish_return l t))"
| "lease_step l (Op_commit t) = fst (snd (receiver_lease_commit l t))"

definition lease_run :: "receiver_lease \<Rightarrow> lease_op list \<Rightarrow> receiver_lease" where
  "lease_run l ops = foldl lease_step l ops"

text \<open>Every call is one of three moves of the stack.\<close>

lemma lease_step_cases:
  assumes "lease_wf l"
  obtains (same) "lease_step l op = l"
  | (push) v where "op = Op_acquire v" "lease_wf (lease_step l op)"
      "lease_stack (lease_step l op) = (issued_generation l, v) # lease_stack l"
      "next_generation (lease_step l op) = issued_generation l + 1"
  | (pop) "lease_wf (lease_step l op)" "lease_stack (lease_step l op) = tl (lease_stack l)"
      "lease_stack l \<noteq> []" "next_generation (lease_step l op) = next_generation l"
proof -
  have release: thesis if "op = Op_cancel t \<or> op = Op_finish t \<or> op = Op_commit t" for t
  proof (cases "receiver_lease_is_top l t")
    case True
    with that have "lease_step l op = l\<lparr>depth := depth l - 1\<rparr>"
      by (auto simp: receiver_lease_cancel_def receiver_lease_finish_return_def
          receiver_lease_commit_def)
    moreover have "lease_stack l \<noteq> []"
      using True lease_is_top_iff[OF assms, of t] by (auto split: list.splits)
    ultimately show thesis
      using lease_stack_pop[OF assms True] lease_wf_pop[OF assms] by (intro pop) simp_all
  next
    case False
    with that show thesis
      by (intro same) (auto simp: receiver_lease_cancel_def receiver_lease_finish_return_def
          receiver_lease_commit_def)
  qed
  show thesis
  proof (cases op)
    case (Op_acquire v)
    show thesis
    proof (cases "depth l < RECEIVER_LEASE_MAX")
      case True
      from lease_acquire_room[OF assms True, of v "\<lparr>token_generation = 0\<rparr>"] Op_acquire
      show thesis by (metis push fst_conv snd_conv lease_step.simps(1))
    next
      case False
      with Op_acquire show thesis by (intro same) (simp add: lease_acquire_full)
    qed
  qed (auto intro: release)
qed

lemma lease_step_wf: "lease_wf l \<Longrightarrow> lease_wf (lease_step l op)"
  by (cases rule: lease_step_cases[of l op]) simp_all

text \<open>The number of acquisitions in a run: what the generation counter can have moved by.\<close>

definition acquisitions :: "lease_op list \<Rightarrow> nat" where
  "acquisitions ops = length [op \<leftarrow> ops. case op of Op_acquire _ \<Rightarrow> True | _ \<Rightarrow> False]"

text \<open>
  A property of the stack that pushes of a generation at or above the counter keep, and
  that popping keeps, holds after every run in which the counter does not wrap.
\<close>

definition below_counter :: "u32 \<Rightarrow> receiver_lease \<Rightarrow> bool" where
  "below_counter g l \<longleftrightarrow> lease_wf l \<and> g \<noteq> 0 \<and> unat g < unat (next_generation l)"

lemma below_counter_issued: "below_counter g l \<Longrightarrow> issued_generation l = next_generation l"
  by (auto simp: below_counter_def issued_generation_def)

lemma below_counter_step:
  assumes "below_counter g l"
    and "unat (next_generation l) + acquisitions (op # ops) < 2 ^ 32"
  shows "below_counter g (lease_step l op)"
    and "unat (next_generation (lease_step l op)) + acquisitions ops < 2 ^ 32"
proof -
  have wf: "lease_wf l" using assms(1) by (simp add: below_counter_def)
  have "below_counter g (lease_step l op) \<and>
    unat (next_generation (lease_step l op)) + acquisitions ops < 2 ^ 32"
    using wf
  proof (cases rule: lease_step_cases[of l op])
    case same
    with assms show ?thesis by (auto simp: acquisitions_def split: lease_op.splits)
  next
    case (push v)
    then have "unat (next_generation l) + acquisitions ops + 1 < 2 ^ 32"
      using assms(2) by (simp add: acquisitions_def)
    moreover from this have "unat (next_generation l + 1) = unat (next_generation l) + 1"
      by (intro unat_Suc_word) simp
    ultimately show ?thesis
      using push assms(1) below_counter_issued[OF assms(1)] by (simp add: below_counter_def)
  next
    case pop
    with assms show ?thesis by (auto simp: below_counter_def acquisitions_def split: lease_op.splits)
  qed
  then show "below_counter g (lease_step l op)"
    and "unat (next_generation (lease_step l op)) + acquisitions ops < 2 ^ 32" by simp_all
qed

lemma lease_run_stack_invariant:
  assumes "below_counter g l" and "unat (next_generation l) + acquisitions ops < 2 ^ 32"
    and "P (lease_stack l)"
    and pop: "\<And>x xs. P (x # xs) \<Longrightarrow> P xs"
    and push: "\<And>h v xs. P xs \<Longrightarrow> h \<noteq> g \<Longrightarrow> P ((h, v) # xs)"
  shows "lease_wf (lease_run l ops) \<and> P (lease_stack (lease_run l ops))"
  using assms(1-3)
proof (induction ops arbitrary: l)
  case Nil
  then show ?case by (simp add: lease_run_def below_counter_def)
next
  case (Cons op ops)
  note step = below_counter_step[OF Cons.prems(1,2)]
  have wf: "lease_wf l" using Cons.prems(1) by (simp add: below_counter_def)
  have "P (lease_stack (lease_step l op))"
    using wf
  proof (cases rule: lease_step_cases[of l op])
    case same
    then show ?thesis using Cons.prems(3) by simp
  next
    case (push v)
    have "issued_generation l \<noteq> g"
      using Cons.prems(1) below_counter_issued[OF Cons.prems(1)] by (auto simp: below_counter_def)
    then show ?thesis using push Cons.prems(3) assms(5) by simp
  next
    case pop
    then show ?thesis using Cons.prems(3) assms(4) by (cases "lease_stack l") auto
  qed
  from Cons.IH[OF step this] show ?case by (simp add: lease_run_def)
qed


lemmas lease_release_defs =
  receiver_lease_cancel_def receiver_lease_finish_return_def receiver_lease_commit_def

text \<open>An empty lease, as \<open>receiver_lease_reset\<close> leaves it, and two tunings: used by the witnesses.\<close>

definition fresh_lease :: receiver_lease where
  "fresh_lease = receiver_lease_reset
     \<lparr>saved = replicate 4 \<lparr>center_hz = 0, sample_rate_hz = 0\<rparr>, generation = replicate 4 0,
      depth = 0, next_generation = 0\<rparr>"

lemma fresh_lease_wf: "lease_wf fresh_lease"
  by (simp add: fresh_lease_def lease_wf_reset RECEIVER_LEASE_MAX_def)

subsection \<open>Properties\<close>

text \<open>C6: what an owner puts back is what it found. Whatever calls the other screens make
  between an acquisition and its return (nested borrows, returns out of order, returns with
  stale tokens), if the owner's token is the newest active claim then \<open>begin_return\<close> hands
  out exactly the tuning recorded when that token was issued, as long as the 32-bit
  generation counter has not come round in between.\<close>

theorem lease_snapshot_integrity:
  assumes "lease_wf l"
    and "receiver_lease_acquire l v t = (0, l1, t1)"
    and "unat (next_generation l1) + acquisitions ops < 2 ^ 32" and "next_generation l1 \<noteq> 0"
    and "\<forall>h \<in> set (lease_stack l). fst h \<noteq> token_generation t1"
    and "receiver_lease_is_top (lease_run l1 ops) t1"
  shows "receiver_lease_begin_return (lease_run l1 ops) t1 = Some v"
proof -
  have room: "depth l < RECEIVER_LEASE_MAX"
    using assms(2) lease_acquire_full[of l v t] by (cases "depth l < RECEIVER_LEASE_MAX") auto
  obtain l' where "receiver_lease_acquire l v t = (0, l', t\<lparr>token_generation := issued_generation l\<rparr>)"
    and l': "lease_wf l'" "lease_stack l' = (issued_generation l, v) # lease_stack l"
      "next_generation l' = issued_generation l + 1"
    by (rule lease_acquire_room[OF assms(1) room])
  with assms(2) have "l' = l1" and g: "token_generation t1 = issued_generation l" by auto
  with l' have l1: "lease_wf l1" "lease_stack l1 = (issued_generation l, v) # lease_stack l"
    "next_generation l1 = issued_generation l + 1" by simp_all
  let ?g = "token_generation t1"
  have "below_counter ?g l1"
    using l1 g assms(4) unat_less_succ[of "issued_generation l"] by (simp add: below_counter_def)
  moreover have "\<forall>(h, w) \<in> set (lease_stack l1). h = ?g \<longrightarrow> w = v"
    using l1 g assms(5) by auto
  ultimately have "lease_wf (lease_run l1 ops) \<and>
      (\<forall>(h, w) \<in> set (lease_stack (lease_run l1 ops)). h = ?g \<longrightarrow> w = v)"
    using assms(3) by (intro lease_run_stack_invariant) auto
  then show ?thesis
    using assms(6) lease_is_top_iff[of "lease_run l1 ops" t1]
      lease_begin_return_stack[of "lease_run l1 ops" t1]
    by (auto split: list.splits)
qed

theorem lease_snapshot_integrity_witness:
  "\<exists>l1 t1 l2. receiver_lease_acquire fresh_lease \<lparr>center_hz = 100, sample_rate_hz = 2\<rparr>
       \<lparr>token_generation = 0\<rparr> = (0, l1, t1) \<and>
     l2 = lease_run l1 [Op_acquire \<lparr>center_hz = 7, sample_rate_hz = 3\<rparr>,
        Op_finish t1, Op_commit \<lparr>token_generation = 2\<rparr>] \<and>
     receiver_lease_begin_return l2 t1 = Some \<lparr>center_hz = 100, sample_rate_hz = 2\<rparr>"
proof -
  let ?v = "\<lparr>center_hz = 100, sample_rate_hz = 2\<rparr>" and ?t = "\<lparr>token_generation = 0\<rparr>"
  let ?ops = "[Op_acquire \<lparr>center_hz = 7, sample_rate_hz = 3\<rparr>,
        Op_finish \<lparr>token_generation = 1\<rparr>, Op_commit \<lparr>token_generation = 2\<rparr>]"
  define l1 where "l1 = fst (snd (receiver_lease_acquire fresh_lease ?v ?t))"
  note defs = l1_def fresh_lease_def receiver_lease_reset_def receiver_lease_acquire_def
    RECEIVER_LEASE_MAX_def Let_def
  have a: "receiver_lease_acquire fresh_lease ?v ?t = (0, l1, \<lparr>token_generation = 1\<rparr>)"
    by (simp add: defs)
  have n: "next_generation l1 = 2" by (simp add: defs)
  have s: "lease_stack fresh_lease = []"
    by (simp add: fresh_lease_def receiver_lease_reset_def lease_stack_def)
  have "receiver_lease_is_top (lease_run l1 ?ops) \<lparr>token_generation = 1\<rparr>"
    by (simp add: lease_run_def defs lease_release_defs receiver_lease_is_top_def
        numeral_eq_Suc)
  then have "receiver_lease_begin_return (lease_run l1 ?ops) \<lparr>token_generation = 1\<rparr> = Some ?v"
    by (intro lease_snapshot_integrity[OF fresh_lease_wf a])
      (simp_all add: n s acquisitions_def)
  then show ?thesis using a by blast
qed

text \<open>C11: a token is good for one return. Once a claim has been returned, no copy of its token
  is ever the newest active claim again, whatever operations follow, until the generation
  counter has come round: a second return is refused instead of restoring somebody
  else's tuning.\<close>

theorem lease_stale_token_refused:
  assumes "lease_wf l" and "distinct (map fst (lease_stack l))"
    and "unat (token_generation t) < unat (next_generation l)"
    and "receiver_lease_finish_return l t = (0, l1, t1)"
    and "unat (next_generation l) + acquisitions ops < 2 ^ 32"
  shows "\<not> receiver_lease_is_top (lease_run l1 ops) t \<and>
    receiver_lease_finish_return (lease_run l1 ops) t = (-1, lease_run l1 ops, t)"
proof -
  have top: "receiver_lease_is_top l t" and l1: "l1 = l\<lparr>depth := depth l - 1\<rparr>"
    using assms(4) by (auto simp: receiver_lease_finish_return_def split: if_splits)
  let ?g = "token_generation t"
  from lease_stack_pop[OF assms(1) top] l1 have st: "lease_stack l1 = tl (lease_stack l)" by simp
  have gone: "?g \<notin> fst ` set (lease_stack l1)"
    using st assms(2) top lease_is_top_iff[OF assms(1), of t]
    by (cases "lease_stack l") force+
  have "below_counter ?g l1"
    using l1 lease_wf_pop[OF assms(1)] assms(3) top
    by (simp add: below_counter_def receiver_lease_is_top_def)
  with gone have "lease_wf (lease_run l1 ops) \<and> ?g \<notin> fst ` set (lease_stack (lease_run l1 ops))"
    using assms(5) l1
    by (intro lease_run_stack_invariant[where P = "\<lambda>xs. ?g \<notin> fst ` set xs"]) auto
  then have "\<not> receiver_lease_is_top (lease_run l1 ops) t"
    using lease_is_top_iff[of "lease_run l1 ops" t]
    by (cases "lease_stack (lease_run l1 ops)") force+
  then show ?thesis by (simp add: receiver_lease_finish_return_def)
qed

theorem lease_stale_token_refused_witness:
  "\<exists>l1 l2. receiver_lease_finish_return l1 \<lparr>token_generation = 1\<rparr> = (0, l2, \<lparr>token_generation = 0\<rparr>) \<and>
     \<not> receiver_lease_is_top (lease_run l2 [Op_acquire \<lparr>center_hz = 7, sample_rate_hz = 3\<rparr>])
        \<lparr>token_generation = 1\<rparr>"
proof -
  define l1 where "l1 = fst (snd (receiver_lease_acquire fresh_lease
      \<lparr>center_hz = 100, sample_rate_hz = 2\<rparr> \<lparr>token_generation = 0\<rparr>))"
  define l2 where "l2 = fst (snd (receiver_lease_finish_return l1 \<lparr>token_generation = 1\<rparr>))"
  note defs = l1_def fresh_lease_def receiver_lease_reset_def receiver_lease_acquire_def
    RECEIVER_LEASE_MAX_def Let_def
  have w: "lease_wf l1"
    unfolding l1_def using lease_step_wf[OF fresh_lease_wf, of "Op_acquire _"] by simp
  have f: "receiver_lease_finish_return l1 \<lparr>token_generation = 1\<rparr> = (0, l2, \<lparr>token_generation = 0\<rparr>)"
    by (simp add: l2_def receiver_lease_finish_return_def receiver_lease_is_top_def defs)
  have "\<not> receiver_lease_is_top (lease_run l2 [Op_acquire \<lparr>center_hz = 7, sample_rate_hz = 3\<rparr>])
        \<lparr>token_generation = 1\<rparr>"
    by (rule conjunct1[OF lease_stale_token_refused[OF w _ _ f]])
      (simp_all add: defs lease_stack_def acquisitions_def)
  with f show ?thesis by blast
qed

text \<open>C1: the two arrays, the depth and the counter implement a bounded stack. An acquisition
  pushes one claim, or refuses with an inactive token and no change when four are held; each
  of cancel, finish and commit pops exactly the newest claim when given its token and
  otherwise refuses and changes nothing; well-formedness is kept by every call.\<close>

theorem lease_refines_stack:
  assumes "lease_wf l"
  shows "(case receiver_lease_acquire l v t of (rc, l', t') \<Rightarrow>
           lease_wf l' \<and>
           (if length (lease_stack l) \<ge> RECEIVER_LEASE_MAX
            then rc = -1 \<and> l' = l \<and> token_generation t' = 0
            else rc = 0 \<and> token_generation t' \<noteq> 0 \<and>
                 lease_stack l' = (token_generation t', v) # lease_stack l)) \<and>
         (\<forall>release \<in> {receiver_lease_cancel, receiver_lease_finish_return, receiver_lease_commit}.
           case release l t of (rc, l', t') \<Rightarrow>
             lease_wf l' \<and>
             (case lease_stack l of
                (g, w) # rest \<Rightarrow>
                  if g = token_generation t
                  then rc = 0 \<and> token_generation t' = 0 \<and> lease_stack l' = rest
                  else rc = -1 \<and> l' = l \<and> t' = t
              | [] \<Rightarrow> rc = -1 \<and> l' = l \<and> t' = t))"
proof -
  have acquire: "case receiver_lease_acquire l v t of (rc, l', t') \<Rightarrow>
           lease_wf l' \<and>
           (if length (lease_stack l) \<ge> RECEIVER_LEASE_MAX
            then rc = -1 \<and> l' = l \<and> token_generation t' = 0
            else rc = 0 \<and> token_generation t' \<noteq> 0 \<and>
                 lease_stack l' = (token_generation t', v) # lease_stack l)"
  proof (cases "depth l < RECEIVER_LEASE_MAX")
    case True
    obtain l' where "receiver_lease_acquire l v t = (0, l', t\<lparr>token_generation := issued_generation l\<rparr>)"
      and "lease_wf l'" "lease_stack l' = (issued_generation l, v) # lease_stack l"
      by (rule lease_acquire_room[OF assms True])
    then show ?thesis using length_lease_stack[OF assms] True by simp
  next
    case False
    then show ?thesis
      using length_lease_stack[OF assms] assms by (simp add: lease_acquire_full)
  qed
  moreover have "case (if \<not> receiver_lease_is_top l t then (-1, l, t)
      else (0, l\<lparr>depth := depth l - 1\<rparr>, t\<lparr>token_generation := 0\<rparr>)) of (rc, l', t') \<Rightarrow>
             lease_wf l' \<and>
             (case lease_stack l of
                (g, w) # rest \<Rightarrow>
                  if g = token_generation t
                  then rc = 0 \<and> token_generation t' = 0 \<and> lease_stack l' = rest
                  else rc = (-1::int) \<and> l' = l \<and> t' = t
              | [] \<Rightarrow> rc = -1 \<and> l' = l \<and> t' = t)"
    using lease_is_top_iff[OF assms, of t] lease_stack_pop[OF assms, of t] lease_wf_pop[OF assms]
      assms by (cases "receiver_lease_is_top l t"; cases "lease_stack l") auto
  ultimately show ?thesis by (simp add: lease_release_defs)
qed

theorem lease_refines_stack_witness:
  "case receiver_lease_acquire fresh_lease \<lparr>center_hz = 5, sample_rate_hz = 6\<rparr>
      \<lparr>token_generation = 0\<rparr> of (rc, l', t') \<Rightarrow>
     rc = 0 \<and> lease_stack l' = [(token_generation t', \<lparr>center_hz = 5, sample_rate_hz = 6\<rparr>)]"
proof -
  have e: "lease_stack fresh_lease = []"
    by (simp add: fresh_lease_def receiver_lease_reset_def lease_stack_def)
  show ?thesis
    using conjunct1[OF lease_refines_stack[OF fresh_lease_wf,
        of "\<lparr>center_hz = 5, sample_rate_hz = 6\<rparr>" "\<lparr>token_generation = 0\<rparr>"]] e
    by (auto simp: RECEIVER_LEASE_MAX_def split: prod.splits)
qed

text \<open>The counter does repeat once it wraps: the generation after the last one is the first.\<close>

lemma issued_generation_repeats: "issued_generation (l\<lparr>next_generation := (-1) + 1\<rparr>) = 1"
  by (simp add: issued_generation_def)

end
