(* ===== verification/Device_Backend.thy ===== *)
theory Device_Backend
  imports Prelude
begin

text \<open>
  \<open>src/src/runtime/device_backend.h\<close>: the receiver's operations behind one table of function
  pointers, and two of the tables: the capture on disk (\<open>backend_capture.c\<close>) and
  the RTL-SDR (\<open>backend_rtlsdr.c\<close>, over librtlsdr, which is not in the repository and is
  a parameter). \<open>'w\<close> is what the session's handle points at together with everything else
  the calls can change. A table entry is \<open>None\<close> for a NULL pointer. A call that writes
  through an \<open>out\<close> pointer takes what was there before and returns what is there after.
  Opening, closing and streaming (pure I/O) are not modelled.
\<close>

record 'w device_backend =
  set_frequency_hz :: "('w \<Rightarrow> u32 \<Rightarrow> int \<times> 'w) option"
  frequency_hz :: "('w \<Rightarrow> u32 \<Rightarrow> (int \<times> u32) \<times> 'w) option"
  set_sample_rate_hz :: "('w \<Rightarrow> u32 \<Rightarrow> int \<times> 'w) option"
  sample_rate_hz_of :: "('w \<Rightarrow> u32 \<Rightarrow> (int \<times> u32) \<times> 'w) option"
  set_ppm :: "('w \<Rightarrow> int \<Rightarrow> int \<times> 'w) option"
  ppm_of :: "('w \<Rightarrow> int \<Rightarrow> (int \<times> int) \<times> 'w) option"
  set_gain :: "('w \<Rightarrow> int \<Rightarrow> int \<Rightarrow> int \<times> 'w) option"
  gain_of :: "('w \<Rightarrow> int \<Rightarrow> (int \<times> int) \<times> 'w) option"
  flush :: "('w \<Rightarrow> int \<times> 'w) option"

record 'w device_session =
  backend :: "'w device_backend option"
  handle :: bool

definition device_session_open :: "'w device_session \<Rightarrow> bool" where
  "device_session_open s = (backend s \<noteq> None \<and> handle s)"

text \<open>\<open>DEVICE_CALL\<close>: the entry to call, or none when the session is closed or the entry NULL.\<close>

definition device_call :: "'w device_session \<Rightarrow> ('w device_backend \<Rightarrow> 'f option) \<Rightarrow> 'f option" where
  "device_call s method =
     (case backend s of None \<Rightarrow> None | Some b \<Rightarrow> if handle s then method b else None)"

definition device_set_frequency_hz :: "'w device_session \<Rightarrow> 'w \<Rightarrow> u32 \<Rightarrow> int \<times> 'w" where
  "device_set_frequency_hz s w hz =
     (case device_call s set_frequency_hz of None \<Rightarrow> (-1, w) | Some f \<Rightarrow> f w hz)"

definition device_frequency_hz :: "'w device_session \<Rightarrow> 'w \<Rightarrow> u32 \<Rightarrow> (int \<times> u32) \<times> 'w" where
  "device_frequency_hz s w out =
     (case device_call s frequency_hz of None \<Rightarrow> ((-1, out), w) | Some f \<Rightarrow> f w out)"

definition device_set_sample_rate_hz :: "'w device_session \<Rightarrow> 'w \<Rightarrow> u32 \<Rightarrow> int \<times> 'w" where
  "device_set_sample_rate_hz s w hz =
     (case device_call s set_sample_rate_hz of None \<Rightarrow> (-1, w) | Some f \<Rightarrow> f w hz)"

definition device_sample_rate_hz :: "'w device_session \<Rightarrow> 'w \<Rightarrow> u32 \<Rightarrow> (int \<times> u32) \<times> 'w" where
  "device_sample_rate_hz s w out =
     (case device_call s sample_rate_hz_of of None \<Rightarrow> ((-1, out), w) | Some f \<Rightarrow> f w out)"

definition device_set_ppm :: "'w device_session \<Rightarrow> 'w \<Rightarrow> int \<Rightarrow> int \<times> 'w" where
  "device_set_ppm s w ppm =
     (case device_call s set_ppm of None \<Rightarrow> (-1, w) | Some f \<Rightarrow> f w ppm)"

definition device_ppm :: "'w device_session \<Rightarrow> 'w \<Rightarrow> int \<Rightarrow> (int \<times> int) \<times> 'w" where
  "device_ppm s w out =
     (case device_call s ppm_of of None \<Rightarrow> ((-1, out), w) | Some f \<Rightarrow> f w out)"

definition device_set_gain :: "'w device_session \<Rightarrow> 'w \<Rightarrow> int \<Rightarrow> int \<Rightarrow> int \<times> 'w" where
  "device_set_gain s w manual val =
     (case device_call s set_gain of None \<Rightarrow> (-1, w) | Some f \<Rightarrow> f w manual val)"

definition device_gain :: "'w device_session \<Rightarrow> 'w \<Rightarrow> int \<Rightarrow> (int \<times> int) \<times> 'w" where
  "device_gain s w out =
     (case device_call s gain_of of None \<Rightarrow> ((-1, out), w) | Some f \<Rightarrow> f w out)"

definition device_flush :: "'w device_session \<Rightarrow> 'w \<Rightarrow> int \<times> 'w" where
  "device_flush s w = (case device_call s flush of None \<Rightarrow> (-1, w) | Some f \<Rightarrow> f w)"

lemmas device_op_defs = device_set_frequency_hz_def device_frequency_hz_def
  device_set_sample_rate_hz_def device_sample_rate_hz_def device_set_ppm_def device_ppm_def
  device_set_gain_def device_gain_def device_flush_def

lemma closed_session_refuses:
  assumes "\<not> device_session_open s"
  shows "device_set_frequency_hz s w hz = (-1, w)" and "device_flush s w = (-1, w)"
    and "device_set_ppm s w p = (-1, w)" and "device_set_gain s w m v = (-1, w)"
    and "device_set_sample_rate_hz s w hz = (-1, w)"
  using assms by (auto simp: device_op_defs device_call_def device_session_open_def
      split: option.splits)

subsection \<open>The contract the receiver transactions rely on\<close>

text \<open>
  What a source holds is observed by \<open>freq\<close>, \<open>rate\<close> and \<open>corr\<close>. A call that succeeds sets
  exactly the thing it names, a call that refuses changes none of the three, and a read
  that succeeds reports them. Gain and flush touch none of them.
\<close>

locale tunable_device =
  fixes s :: "'w device_session"
    and freq :: "'w \<Rightarrow> u32" and rate :: "'w \<Rightarrow> u32" and corr :: "'w \<Rightarrow> int"
  assumes set_frequency_law: "device_set_frequency_hz s w hz = (rc, w') \<Longrightarrow>
      freq w' = (if rc < 0 then freq w else hz) \<and> rate w' = rate w \<and> corr w' = corr w"
    and set_rate_law: "device_set_sample_rate_hz s w hz = (rc, w') \<Longrightarrow>
      rate w' = (if rc < 0 then rate w else hz) \<and> freq w' = freq w \<and> corr w' = corr w"
    and set_ppm_law: "device_set_ppm s w p = (rc, w') \<Longrightarrow>
      corr w' = (if rc < 0 then corr w else p) \<and> freq w' = freq w \<and> rate w' = rate w"
    and set_gain_law: "device_set_gain s w m v = (rc, w') \<Longrightarrow>
      freq w' = freq w \<and> rate w' = rate w \<and> corr w' = corr w"
    and flush_law: "device_flush s w = (rc, w') \<Longrightarrow>
      freq w' = freq w \<and> rate w' = rate w \<and> corr w' = corr w"
    and read_frequency_law: "device_frequency_hz s w o1 = ((rc, hz), w') \<Longrightarrow>
      (rc = 0 \<longrightarrow> hz = freq w) \<and> freq w' = freq w \<and> rate w' = rate w \<and> corr w' = corr w"
    and read_rate_law: "device_sample_rate_hz s w o1 = ((rc, hz), w') \<Longrightarrow>
      (rc = 0 \<longrightarrow> hz = rate w) \<and> freq w' = freq w \<and> rate w' = rate w \<and> corr w' = corr w"
    and read_ppm_law: "device_ppm s w o2 = ((rc, p), w') \<Longrightarrow>
      (rc = 0 \<longrightarrow> p = corr w) \<and> freq w' = freq w \<and> rate w' = rate w \<and> corr w' = corr w"

subsection \<open>A capture on disk\<close>

record capture_handle =
  ch_frequency_hz :: u32
  ch_sample_rate_hz :: u32
  ch_ppm :: int
  ch_stop :: bool

definition capture_refuse_u32 :: "capture_handle \<Rightarrow> u32 \<Rightarrow> int \<times> capture_handle" where
  "capture_refuse_u32 h hz = (-1, h)"

definition capture_refuse_gain :: "capture_handle \<Rightarrow> int \<Rightarrow> int \<Rightarrow> int \<times> capture_handle" where
  "capture_refuse_gain h manual val = (-1, h)"

definition capture_frequency :: "capture_handle \<Rightarrow> u32 \<Rightarrow> (int \<times> u32) \<times> capture_handle" where
  "capture_frequency h out = ((0, ch_frequency_hz h), h)"

definition capture_sample_rate :: "capture_handle \<Rightarrow> u32 \<Rightarrow> (int \<times> u32) \<times> capture_handle" where
  "capture_sample_rate h out = ((0, ch_sample_rate_hz h), h)"

definition capture_set_ppm :: "capture_handle \<Rightarrow> int \<Rightarrow> int \<times> capture_handle" where
  "capture_set_ppm h ppm = (-1, h)"

definition capture_ppm :: "capture_handle \<Rightarrow> int \<Rightarrow> (int \<times> int) \<times> capture_handle" where
  "capture_ppm h out = ((0, ch_ppm h), h)"

definition capture_gain :: "capture_handle \<Rightarrow> int \<Rightarrow> (int \<times> int) \<times> capture_handle" where
  "capture_gain h out = ((-1, out), h)"

definition capture_flush :: "capture_handle \<Rightarrow> int \<times> capture_handle" where
  "capture_flush h = (0, h)"

definition capture_stop :: "capture_handle \<Rightarrow> int \<times> capture_handle" where
  "capture_stop h = (0, h\<lparr>ch_stop := True\<rparr>)"

definition capture_backend :: "capture_handle device_backend" where
  "capture_backend =
     \<lparr>set_frequency_hz = Some capture_refuse_u32,
      frequency_hz = Some capture_frequency,
      set_sample_rate_hz = Some capture_refuse_u32,
      sample_rate_hz_of = Some capture_sample_rate,
      set_ppm = Some capture_set_ppm,
      ppm_of = Some capture_ppm,
      set_gain = Some capture_refuse_gain,
      gain_of = Some capture_gain,
      flush = Some capture_flush\<rparr>"

definition capture_session :: "capture_handle device_session" where
  "capture_session = \<lparr>backend = Some capture_backend, handle = True\<rparr>"

lemma capture_call: "device_call capture_session f = f capture_backend"
  by (simp add: device_call_def capture_session_def)

lemmas capture_defs = capture_refuse_u32_def capture_refuse_gain_def capture_frequency_def
  capture_sample_rate_def capture_set_ppm_def capture_ppm_def capture_gain_def
  capture_flush_def capture_backend_def

lemma capture_ops [device_simps]:
  "device_set_frequency_hz capture_session h hz = (-1, h)"
  "device_set_sample_rate_hz capture_session h hz = (-1, h)"
  "device_set_ppm capture_session h p = (-1, h)"
  "device_set_gain capture_session h m v = (-1, h)"
  "device_flush capture_session h = (0, h)"
  "device_frequency_hz capture_session h o1 = ((0, ch_frequency_hz h), h)"
  "device_sample_rate_hz capture_session h o1 = ((0, ch_sample_rate_hz h), h)"
  "device_ppm capture_session h o2 = ((0, ch_ppm h), h)"
  by (simp_all add: device_op_defs capture_call capture_defs)

interpretation capture: tunable_device capture_session ch_frequency_hz ch_sample_rate_hz ch_ppm
  by unfold_locales (auto simp: device_simps)

subsection \<open>The RTL-SDR\<close>

text \<open>The librtlsdr calls the backend makes, on a device state \<open>'h\<close>.\<close>

record 'h librtlsdr =
  rtlsdr_set_center_freq :: "'h \<Rightarrow> u32 \<Rightarrow> int \<times> 'h"
  rtlsdr_get_center_freq :: "'h \<Rightarrow> u32"
  rtlsdr_set_sample_rate :: "'h \<Rightarrow> u32 \<Rightarrow> int \<times> 'h"
  rtlsdr_get_sample_rate :: "'h \<Rightarrow> u32"
  rtlsdr_set_freq_correction :: "'h \<Rightarrow> int \<Rightarrow> int \<times> 'h"
  rtlsdr_get_freq_correction :: "'h \<Rightarrow> int"
  rtlsdr_set_tuner_gain_mode :: "'h \<Rightarrow> int \<Rightarrow> int \<times> 'h"
  rtlsdr_set_tuner_gain :: "'h \<Rightarrow> int \<Rightarrow> int \<times> 'h"
  rtlsdr_get_tuner_gain :: "'h \<Rightarrow> int"
  rtlsdr_reset_buffer :: "'h \<Rightarrow> int \<times> 'h"

definition rtl_set_frequency :: "'h librtlsdr \<Rightarrow> 'h \<Rightarrow> u32 \<Rightarrow> int \<times> 'h" where
  "rtl_set_frequency lib h hz =
     (case rtlsdr_set_center_freq lib h hz of (r, h) \<Rightarrow> (if r < 0 then -1 else 0, h))"

definition rtl_frequency :: "'h librtlsdr \<Rightarrow> 'h \<Rightarrow> u32 \<Rightarrow> (int \<times> u32) \<times> 'h" where
  "rtl_frequency lib h out =
     (let hz = rtlsdr_get_center_freq lib h
      in if hz = 0 then ((-1, out), h) else ((0, hz), h))"

definition rtl_set_sample_rate :: "'h librtlsdr \<Rightarrow> 'h \<Rightarrow> u32 \<Rightarrow> int \<times> 'h" where
  "rtl_set_sample_rate lib h hz =
     (case rtlsdr_set_sample_rate lib h hz of (r, h) \<Rightarrow> (if r < 0 then -1 else 0, h))"

definition rtl_sample_rate :: "'h librtlsdr \<Rightarrow> 'h \<Rightarrow> u32 \<Rightarrow> (int \<times> u32) \<times> 'h" where
  "rtl_sample_rate lib h out =
     (let hz = rtlsdr_get_sample_rate lib h
      in if hz = 0 then ((-1, out), h) else ((0, hz), h))"

text \<open>librtlsdr's \<open>-2\<close> means the value was already set, which is a success here.\<close>

definition rtl_set_ppm :: "'h librtlsdr \<Rightarrow> 'h \<Rightarrow> int \<Rightarrow> int \<times> 'h" where
  "rtl_set_ppm lib h ppm =
     (case rtlsdr_set_freq_correction lib h ppm of
        (r, h) \<Rightarrow> (if r < 0 \<and> r \<noteq> -2 then -1 else 0, h))"

definition rtl_ppm :: "'h librtlsdr \<Rightarrow> 'h \<Rightarrow> int \<Rightarrow> (int \<times> int) \<times> 'h" where
  "rtl_ppm lib h out = ((0, rtlsdr_get_freq_correction lib h), h)"

definition rtl_set_gain :: "'h librtlsdr \<Rightarrow> 'h \<Rightarrow> int \<Rightarrow> int \<Rightarrow> int \<times> 'h" where
  "rtl_set_gain lib h manual val =
     (case rtlsdr_set_tuner_gain_mode lib h (if manual \<noteq> 0 then 1 else 0) of
        (r, h) \<Rightarrow>
          if r < 0 then (-1, h)
          else if manual = 0 then (0, h)
          else (case rtlsdr_set_tuner_gain lib h val of
                  (r, h) \<Rightarrow> (if r < 0 then -1 else 0, h)))"

definition rtl_gain :: "'h librtlsdr \<Rightarrow> 'h \<Rightarrow> int \<Rightarrow> (int \<times> int) \<times> 'h" where
  "rtl_gain lib h out = ((0, rtlsdr_get_tuner_gain lib h), h)"

definition rtl_flush :: "'h librtlsdr \<Rightarrow> 'h \<Rightarrow> int \<times> 'h" where
  "rtl_flush lib h =
     (case rtlsdr_reset_buffer lib h of (r, h) \<Rightarrow> (if r < 0 then -1 else 0, h))"

definition rtl_backend :: "'h librtlsdr \<Rightarrow> 'h device_backend" where
  "rtl_backend lib =
     \<lparr>set_frequency_hz = Some (rtl_set_frequency lib),
      frequency_hz = Some (rtl_frequency lib),
      set_sample_rate_hz = Some (rtl_set_sample_rate lib),
      sample_rate_hz_of = Some (rtl_sample_rate lib),
      set_ppm = Some (rtl_set_ppm lib),
      ppm_of = Some (rtl_ppm lib),
      set_gain = Some (rtl_set_gain lib),
      gain_of = Some (rtl_gain lib),
      flush = Some (rtl_flush lib)\<rparr>"

definition rtl_session :: "'h librtlsdr \<Rightarrow> 'h device_session" where
  "rtl_session lib = \<lparr>backend = Some (rtl_backend lib), handle = True\<rparr>"

text \<open>
  What librtlsdr documents of a tuned device, for a device whose synthesiser hits the
  requested values exactly: a non-negative result has taken effect, a negative one has
  changed nothing, and the getters report what is set.
\<close>

definition same_tuning :: "'h librtlsdr \<Rightarrow> 'h \<Rightarrow> 'h \<Rightarrow> bool" where
  "same_tuning lib h h' \<longleftrightarrow>
     rtlsdr_get_center_freq lib h' = rtlsdr_get_center_freq lib h \<and>
     rtlsdr_get_sample_rate lib h' = rtlsdr_get_sample_rate lib h \<and>
     rtlsdr_get_freq_correction lib h' = rtlsdr_get_freq_correction lib h"

definition librtlsdr_exact :: "'h librtlsdr \<Rightarrow> bool" where
  "librtlsdr_exact lib \<longleftrightarrow>
     (\<forall>h hz r h'. rtlsdr_set_center_freq lib h hz = (r, h') \<longrightarrow>
        rtlsdr_get_center_freq lib h' = (if r < 0 then rtlsdr_get_center_freq lib h else hz) \<and>
        rtlsdr_get_sample_rate lib h' = rtlsdr_get_sample_rate lib h \<and>
        rtlsdr_get_freq_correction lib h' = rtlsdr_get_freq_correction lib h) \<and>
     (\<forall>h hz r h'. rtlsdr_set_sample_rate lib h hz = (r, h') \<longrightarrow>
        rtlsdr_get_sample_rate lib h' = (if r < 0 then rtlsdr_get_sample_rate lib h else hz) \<and>
        rtlsdr_get_center_freq lib h' = rtlsdr_get_center_freq lib h \<and>
        rtlsdr_get_freq_correction lib h' = rtlsdr_get_freq_correction lib h) \<and>
     (\<forall>h p r h'. rtlsdr_set_freq_correction lib h p = (r, h') \<longrightarrow>
        rtlsdr_get_freq_correction lib h' =
          (if r < 0 \<and> r \<noteq> -2 then rtlsdr_get_freq_correction lib h else p) \<and>
        rtlsdr_get_center_freq lib h' = rtlsdr_get_center_freq lib h \<and>
        rtlsdr_get_sample_rate lib h' = rtlsdr_get_sample_rate lib h) \<and>
     (\<forall>h m. same_tuning lib h (snd (rtlsdr_set_tuner_gain_mode lib h m))) \<and>
     (\<forall>h v. same_tuning lib h (snd (rtlsdr_set_tuner_gain lib h v))) \<and>
     (\<forall>h. same_tuning lib h (snd (rtlsdr_reset_buffer lib h)))"

lemma rtl_call: "device_call (rtl_session lib) f = f (rtl_backend lib)"
  by (simp add: device_call_def rtl_session_def)

lemmas rtl_defs = rtl_set_frequency_def rtl_frequency_def rtl_set_sample_rate_def
  rtl_sample_rate_def rtl_set_ppm_def rtl_ppm_def rtl_set_gain_def rtl_gain_def rtl_flush_def
  rtl_backend_def

lemma librtlsdr_exactD:
  assumes "librtlsdr_exact lib"
  shows "rtlsdr_set_center_freq lib h hz = (r, h') \<Longrightarrow>
        rtlsdr_get_center_freq lib h' = (if r < 0 then rtlsdr_get_center_freq lib h else hz) \<and>
        rtlsdr_get_sample_rate lib h' = rtlsdr_get_sample_rate lib h \<and>
        rtlsdr_get_freq_correction lib h' = rtlsdr_get_freq_correction lib h"
    and "rtlsdr_set_sample_rate lib h hz = (r, h') \<Longrightarrow>
        rtlsdr_get_sample_rate lib h' = (if r < 0 then rtlsdr_get_sample_rate lib h else hz) \<and>
        rtlsdr_get_center_freq lib h' = rtlsdr_get_center_freq lib h \<and>
        rtlsdr_get_freq_correction lib h' = rtlsdr_get_freq_correction lib h"
    and "rtlsdr_set_freq_correction lib h p = (r, h') \<Longrightarrow>
        rtlsdr_get_freq_correction lib h' =
          (if r < 0 \<and> r \<noteq> -2 then rtlsdr_get_freq_correction lib h else p) \<and>
        rtlsdr_get_center_freq lib h' = rtlsdr_get_center_freq lib h \<and>
        rtlsdr_get_sample_rate lib h' = rtlsdr_get_sample_rate lib h"
    and "same_tuning lib h (snd (rtlsdr_set_tuner_gain_mode lib h m))"
    and "same_tuning lib h (snd (rtlsdr_set_tuner_gain lib h m))"
    and "same_tuning lib h (snd (rtlsdr_reset_buffer lib h))"
  using assms unfolding librtlsdr_exact_def by blast+

lemma same_tuning_gain:
  assumes "librtlsdr_exact lib" and "rtl_set_gain lib h m v = (rc, h')"
  shows "same_tuning lib h h'"
proof -
  obtain r1 h1 where 1: "rtlsdr_set_tuner_gain_mode lib h (if m \<noteq> 0 then 1 else 0) = (r1, h1)"
    by fastforce
  obtain r2 h2 where 2: "rtlsdr_set_tuner_gain lib h1 v = (r2, h2)" by fastforce
  have "same_tuning lib h h1" "same_tuning lib h1 h2"
    using 1 2 librtlsdr_exactD(4,5)[OF assms(1)] by (metis snd_conv)+
  then have "same_tuning lib h h1 \<and> same_tuning lib h h2" by (simp add: same_tuning_def)
  with assms(2) show ?thesis by (auto simp: rtl_set_gain_def 1 2 split: if_splits)
qed

lemma rtl_tunable:
  assumes exact: "librtlsdr_exact lib"
  shows "tunable_device (rtl_session lib) (rtlsdr_get_center_freq lib)
    (rtlsdr_get_sample_rate lib) (rtlsdr_get_freq_correction lib)"
proof
  note ops = device_op_defs rtl_call rtl_backend_def
  fix w hz rc and w' :: 'a
  show "device_set_frequency_hz (rtl_session lib) w hz = (rc, w') \<Longrightarrow>
      rtlsdr_get_center_freq lib w' = (if rc < 0 then rtlsdr_get_center_freq lib w else hz) \<and>
      rtlsdr_get_sample_rate lib w' = rtlsdr_get_sample_rate lib w \<and>
      rtlsdr_get_freq_correction lib w' = rtlsdr_get_freq_correction lib w"
    using librtlsdr_exactD(1)[OF exact, of w hz]
    by (cases "rtlsdr_set_center_freq lib w hz") (auto simp: ops rtl_set_frequency_def)
  show "device_set_sample_rate_hz (rtl_session lib) w hz = (rc, w') \<Longrightarrow>
      rtlsdr_get_sample_rate lib w' = (if rc < 0 then rtlsdr_get_sample_rate lib w else hz) \<and>
      rtlsdr_get_center_freq lib w' = rtlsdr_get_center_freq lib w \<and>
      rtlsdr_get_freq_correction lib w' = rtlsdr_get_freq_correction lib w"
    using librtlsdr_exactD(2)[OF exact, of w hz]
    by (cases "rtlsdr_set_sample_rate lib w hz") (auto simp: ops rtl_set_sample_rate_def)
next
  note ops = device_op_defs rtl_call rtl_backend_def
  fix w p rc and w' :: 'a
  show "device_set_ppm (rtl_session lib) w p = (rc, w') \<Longrightarrow>
      rtlsdr_get_freq_correction lib w' = (if rc < 0 then rtlsdr_get_freq_correction lib w else p) \<and>
      rtlsdr_get_center_freq lib w' = rtlsdr_get_center_freq lib w \<and>
      rtlsdr_get_sample_rate lib w' = rtlsdr_get_sample_rate lib w"
    using librtlsdr_exactD(3)[OF exact, of w p]
    by (cases "rtlsdr_set_freq_correction lib w p") (auto simp: ops rtl_set_ppm_def)
next
  note ops = device_op_defs rtl_call rtl_backend_def
  fix w m v rc and w' :: 'a
  show "device_set_gain (rtl_session lib) w m v = (rc, w') \<Longrightarrow>
      rtlsdr_get_center_freq lib w' = rtlsdr_get_center_freq lib w \<and>
      rtlsdr_get_sample_rate lib w' = rtlsdr_get_sample_rate lib w \<and>
      rtlsdr_get_freq_correction lib w' = rtlsdr_get_freq_correction lib w"
    using same_tuning_gain[OF exact] by (simp add: ops same_tuning_def)
next
  note ops = device_op_defs rtl_call rtl_backend_def
  fix w rc and w' :: 'a
  assume "device_flush (rtl_session lib) w = (rc, w')"
  then have "w' = snd (rtlsdr_reset_buffer lib w)"
    by (auto simp: ops rtl_flush_def split: prod.splits)
  then show "rtlsdr_get_center_freq lib w' = rtlsdr_get_center_freq lib w \<and>
      rtlsdr_get_sample_rate lib w' = rtlsdr_get_sample_rate lib w \<and>
      rtlsdr_get_freq_correction lib w' = rtlsdr_get_freq_correction lib w"
    using librtlsdr_exactD(6)[OF exact, of w] by (simp add: same_tuning_def)
qed (auto simp: device_op_defs rtl_call rtl_backend_def rtl_frequency_def rtl_sample_rate_def
    rtl_ppm_def Let_def split: if_splits)

end
