(* ===== verification/Receiver_Runtime.thy ===== *)
theory Receiver_Runtime
  imports Device_Backend
begin

text \<open>
  \<open>src/src/runtime/receiver_runtime.{h,c}\<close>: changing what the receiver is doing as one
  transaction. The borrowed \<open>applied\<close> record, the borrowed error buffer and the
  device's state are the three components of \<open>runtime_state\<close>, which every function takes and
  returns; the rest of the C structure (\<open>receiver_runtime\<close>) is configuration that no call
  changes. The error sentence is the constructor of the message and the values
  formatted into it. A correction is a C \<open>int\<close> that is only stored and compared.
\<close>

record receiver_applied =
  applied_frequency_hz :: u32
  applied_sample_rate_hz :: u32
  applied_ppm :: int
  applied_generation :: u32

record receiver_gain =
  gain_manual :: int
  gain_tenths :: int

datatype runtime_message =
    Tuning_requires_live
  | Rejected_tuning u32 int
  | No_readback
  | Rejected_gain
  | Would_not_restart
  | Rate_requires_live
  | Refused_rate u32
  | Too_many_borrowers

record 'w runtime_state =
  applied :: receiver_applied
  error :: "runtime_message option"
  world :: 'w

record 'w receiver_runtime =
  rt_source :: "'w device_session option"
  rt_has_applied :: bool
  rt_has_error :: bool
  life_stop_fn :: "('w \<Rightarrow> int \<times> 'w) option"
  life_start_fn :: "('w \<Rightarrow> int \<times> 'w) option"
  rt_live :: bool
  rt_live_retune :: bool

definition say :: "'w receiver_runtime \<Rightarrow> runtime_message \<Rightarrow> 'w runtime_state \<Rightarrow> 'w runtime_state" where
  "say rt m st = (if \<not> rt_has_error rt then st else st\<lparr>error := Some m\<rparr>)"

definition receiver_runtime_set_correction :: "'w device_session \<Rightarrow> int \<Rightarrow> 'w \<Rightarrow> int \<times> 'w" where
  "receiver_runtime_set_correction s ppm w =
     (case device_ppm s w 0 of ((rc, current), w) \<Rightarrow>
        if rc = 0 \<and> current = ppm then (0, w) else device_set_ppm s w ppm)"

definition read_frequency :: "'w device_session \<Rightarrow> 'w \<Rightarrow> u32 \<times> 'w" where
  "read_frequency s w =
     (case device_frequency_hz s w 0 of ((rc, hz), w) \<Rightarrow> (if rc = 0 then hz else 0, w))"

definition read_ppm :: "'w device_session \<Rightarrow> 'w \<Rightarrow> int \<times> 'w" where
  "read_ppm s w = (case device_ppm s w 0 of ((rc, ppm), w) \<Rightarrow> (if rc = 0 then ppm else 0, w))"

definition read_sample_rate :: "'w device_session \<Rightarrow> 'w \<Rightarrow> u32 \<times> 'w" where
  "read_sample_rate s w =
     (case device_sample_rate_hz s w 0 of ((rc, hz), w) \<Rightarrow> (if rc = 0 then hz else 0, w))"

definition life_stop :: "'w receiver_runtime \<Rightarrow> 'w \<Rightarrow> int \<times> 'w" where
  "life_stop rt w = (case life_stop_fn rt of None \<Rightarrow> (0, w) | Some f \<Rightarrow> f w)"

definition life_start :: "'w receiver_runtime \<Rightarrow> 'w \<Rightarrow> int \<times> 'w" where
  "life_start rt w = (case life_start_fn rt of None \<Rightarrow> (0, w) | Some f \<Rightarrow> f w)"

text \<open>Record the frequency and correction now in force; leave rate and generation.\<close>

definition set_applied_tuning :: "u32 \<Rightarrow> int \<Rightarrow> 'w runtime_state \<Rightarrow> 'w runtime_state" where
  "set_applied_tuning f p st =
     st\<lparr>applied := (applied st)\<lparr>applied_frequency_hz := f, applied_ppm := p\<rparr>\<rparr>"

definition put_receiver_back ::
  "'w device_session \<Rightarrow> u32 \<Rightarrow> int \<Rightarrow> receiver_gain option \<Rightarrow> 'w runtime_state \<Rightarrow> 'w runtime_state" where
  "put_receiver_back s frequency ppm had st =
     (let w = world st;
          w = (case had of None \<Rightarrow> w
               | Some g \<Rightarrow> snd (device_set_gain s w (gain_manual g) (gain_tenths g)));
          w = snd (receiver_runtime_set_correction s ppm w);
          w = snd (device_set_frequency_hz s w frequency);
          w = snd (device_flush s w)
      in set_applied_tuning frequency ppm (st\<lparr>world := w\<rparr>))"

text \<open>\<open>a < 0 || b < 0\<close> over calls: the second is made only when the first succeeded.\<close>

definition then_call :: "int \<times> 'w \<Rightarrow> ('w \<Rightarrow> int \<times> 'w) \<Rightarrow> int \<times> 'w" where
  "then_call r f = (case r of (rc, w) \<Rightarrow> if rc < 0 then (rc, w) else f w)"

definition bump_generation :: "'w runtime_state \<Rightarrow> 'w runtime_state" where
  "bump_generation st =
     st\<lparr>applied := (applied st)\<lparr>applied_generation := applied_generation (applied st) + 1\<rparr>\<rparr>"

text \<open>The branch of \<open>apply_locked\<close> for a backend whose stream takes a retune while running.\<close>

definition apply_live ::
  "'w receiver_runtime \<Rightarrow> 'w device_session \<Rightarrow> u32 \<Rightarrow> int \<Rightarrow> 'w runtime_state \<Rightarrow> int \<times> 'w runtime_state" where
  "apply_live rt s frequency ppm st =
     (let old_frequency = applied_frequency_hz (applied st);
          old_ppm = applied_ppm (applied st);
          undo = (\<lambda>st w.
            let w = snd (receiver_runtime_set_correction s old_ppm w);
                w = snd (device_set_frequency_hz s w old_frequency)
            in (-1, set_applied_tuning old_frequency old_ppm (st\<lparr>world := w\<rparr>)))
      in case then_call (receiver_runtime_set_correction s ppm (world st))
                (\<lambda>w. device_set_frequency_hz s w frequency) of
           (rc, w) \<Rightarrow>
             if rc < 0 then undo (say rt (Rejected_tuning frequency ppm) st) w
             else (case read_frequency s w of
                     (reported, w) \<Rightarrow>
                       if reported = 0 then undo (say rt No_readback st) w
                       else (case read_ppm s w of
                               (p, w) \<Rightarrow>
                                 (0, bump_generation
                                       (set_applied_tuning reported p (st\<lparr>world := w\<rparr>))))))"

text \<open>The tail of the full transaction, from the correction on, with the worker stopped.\<close>

definition apply_stopped ::
  "'w receiver_runtime \<Rightarrow> 'w device_session \<Rightarrow> u32 \<Rightarrow> int \<Rightarrow> receiver_gain option
     \<Rightarrow> 'w runtime_state \<Rightarrow> int \<times> 'w runtime_state" where
  "apply_stopped rt s frequency ppm had st =
     (let old_frequency = applied_frequency_hz (applied st);
          old_ppm = applied_ppm (applied st);
          undo = (\<lambda>st w.
            let st = put_receiver_back s old_frequency old_ppm had (st\<lparr>world := w\<rparr>)
            in st\<lparr>world := snd (life_start rt (world st))\<rparr>)
      in case then_call
                (then_call (receiver_runtime_set_correction s ppm (world st))
                  (\<lambda>w. device_set_frequency_hz s w frequency))
                (device_flush s) of
           (rc, w) \<Rightarrow>
             if rc < 0 then (-1, undo (say rt (Rejected_tuning frequency ppm) st) w)
             else (case read_frequency s w of
                     (reported, w) \<Rightarrow>
                       if reported = 0 then (-1, undo (say rt No_readback st) w)
                       else (case read_ppm s w of
                               (p, w) \<Rightarrow>
                                 let st = set_applied_tuning reported p (st\<lparr>world := w\<rparr>)
                                 in case life_start rt w of
                                      (rc, w) \<Rightarrow>
                                        if rc < 0 then (-1, say rt Would_not_restart (undo st w))
                                        else (0, bump_generation (st\<lparr>world := w\<rparr>)))))"

definition apply_locked ::
  "'w receiver_runtime \<Rightarrow> u32 \<Rightarrow> int \<Rightarrow> receiver_gain option \<Rightarrow> receiver_gain option
     \<Rightarrow> 'w runtime_state \<Rightarrow> int \<times> 'w runtime_state" where
  "apply_locked rt frequency ppm want had st =
     (case rt_source rt of None \<Rightarrow> (-1, st)
      | Some s \<Rightarrow>
          if \<not> rt_has_applied rt then (-1, st)
          else if \<not> rt_live rt then (-1, say rt Tuning_requires_live st)
          else if want = None \<and> rt_live_retune rt then apply_live rt s frequency ppm st
          else case life_stop rt (world st) of
            (rc, w) \<Rightarrow>
              if rc < 0 then (-1, st\<lparr>world := w\<rparr>)
              else (case (case want of None \<Rightarrow> (0, w)
                          | Some g \<Rightarrow> device_set_gain s w (gain_manual g) (gain_tenths g)) of
                      (rc, w) \<Rightarrow>
                        if want \<noteq> None \<and> rc < 0 then
                          let st = say rt Rejected_gain st;
                              w = (case had of None \<Rightarrow> w
                                   | Some g \<Rightarrow>
                                       snd (device_set_gain s w (gain_manual g) (gain_tenths g)));
                              w = snd (life_start rt w)
                          in (-1, st\<lparr>world := w\<rparr>)
                        else apply_stopped rt s frequency ppm had (st\<lparr>world := w\<rparr>)))"

definition receiver_runtime_tune ::
  "'w receiver_runtime \<Rightarrow> u32 \<Rightarrow> int \<Rightarrow> 'w runtime_state \<Rightarrow> int \<times> 'w runtime_state" where
  "receiver_runtime_tune rt frequency ppm st = apply_locked rt frequency ppm None None st"

definition receiver_runtime_apply ::
  "'w receiver_runtime \<Rightarrow> u32 \<Rightarrow> int \<Rightarrow> receiver_gain \<Rightarrow> receiver_gain
     \<Rightarrow> 'w runtime_state \<Rightarrow> int \<times> 'w runtime_state" where
  "receiver_runtime_apply rt frequency ppm want had st =
     apply_locked rt frequency ppm (Some want) (Some had) st"

definition set_applied_rate :: "u32 \<Rightarrow> 'w runtime_state \<Rightarrow> 'w runtime_state" where
  "set_applied_rate r st = st\<lparr>applied := (applied st)\<lparr>applied_sample_rate_hz := r\<rparr>\<rparr>"

text \<open>Writing the old rate back, as each of the three failure paths does.\<close>

definition put_rate_back :: "'w device_session \<Rightarrow> u32 \<Rightarrow> 'w \<Rightarrow> 'w" where
  "put_rate_back s old_rate w = snd (device_flush s (snd (device_set_sample_rate_hz s w old_rate)))"

definition receiver_runtime_tune_at_rate ::
  "'w receiver_runtime \<Rightarrow> u32 \<Rightarrow> u32 \<Rightarrow> int \<Rightarrow> 'w runtime_state \<Rightarrow> int \<times> 'w runtime_state" where
  "receiver_runtime_tune_at_rate rt frequency new_rate ppm st =
     (case rt_source rt of None \<Rightarrow> (-1, st)
      | Some s \<Rightarrow>
          if \<not> rt_has_applied rt then (-1, st)
          else if \<not> rt_live rt then (-1, say rt Rate_requires_live st)
          else
            let old_rate = applied_sample_rate_hz (applied st)
            in if new_rate = old_rate then receiver_runtime_tune rt frequency ppm st
            else case life_stop rt (world st) of
              (rc, w) \<Rightarrow>
                if rc < 0 then (-1, st\<lparr>world := w\<rparr>)
                else (case then_call (device_set_sample_rate_hz s w new_rate) (device_flush s) of
                  (rc, w) \<Rightarrow>
                    if rc < 0 then
                      (-1, (say rt (Refused_rate new_rate) st)
                             \<lparr>world := snd (life_start rt (put_rate_back s old_rate w))\<rparr>)
                    else (case read_sample_rate s w of
                      (r, w) \<Rightarrow>
                        let st = set_applied_rate (if r = 0 then new_rate else r) st
                        in case life_start rt w of
                          (rc, w) \<Rightarrow>
                            if rc < 0 then
                              (-1, set_applied_rate old_rate
                                     (st\<lparr>world := snd (life_start rt (put_rate_back s old_rate w))\<rparr>))
                            else (case receiver_runtime_tune rt frequency ppm (st\<lparr>world := w\<rparr>) of
                              (result, st) \<Rightarrow>
                                if result < 0 then
                                  (case life_stop rt (world st) of
                                     (rc, w) \<Rightarrow>
                                       if rc = 0 then
                                         (result, set_applied_rate old_rate
                                            (st\<lparr>world := snd (life_start rt (put_rate_back s old_rate w))\<rparr>))
                                       else (result, st\<lparr>world := w\<rparr>))
                                else (result, st)))))"


subsection \<open>What each branch leaves applied\<close>

lemma say_frame [simp]: "applied (say rt m st) = applied st" "world (say rt m st) = world st"
  by (simp_all add: say_def)

lemma set_applied_tuning_same [simp]:
  "set_applied_tuning (applied_frequency_hz (applied st)) (applied_ppm (applied st)) st = st"
  by (simp add: set_applied_tuning_def)

lemma set_applied_tuning_simps [simp]:
  "world (set_applied_tuning f p st) = world st"
  "applied (set_applied_tuning f p st) =
     (applied st)\<lparr>applied_frequency_hz := f, applied_ppm := p\<rparr>"
  by (simp_all add: set_applied_tuning_def)

lemma bump_generation_simps [simp]:
  "world (bump_generation st) = world st"
  "applied (bump_generation st) =
     (applied st)\<lparr>applied_generation := applied_generation (applied st) + 1\<rparr>"
  by (simp_all add: bump_generation_def)

lemma set_applied_rate_simps [simp]:
  "world (set_applied_rate r st) = world st"
  "applied (set_applied_rate r st) = (applied st)\<lparr>applied_sample_rate_hz := r\<rparr>"
  by (simp_all add: set_applied_rate_def)

lemma put_receiver_back_applied [simp]:
  "applied (put_receiver_back s f p had st) =
     (applied st)\<lparr>applied_frequency_hz := f, applied_ppm := p\<rparr>"
  by (simp add: put_receiver_back_def Let_def)

lemma applied_rewrite_same [simp]:
  "a\<lparr>applied_frequency_hz := applied_frequency_hz a, applied_ppm := applied_ppm a\<rparr> = (a :: receiver_applied)"
  by simp

text \<open>One transaction's effect on the applied record.\<close>

definition all_or_nothing :: "receiver_applied \<Rightarrow> int \<times> 'w runtime_state \<Rightarrow> bool" where
  "all_or_nothing a r =
     (case r of (rc, st') \<Rightarrow>
        if rc = 0
        then applied_frequency_hz (applied st') \<noteq> 0 \<and>
             applied_sample_rate_hz (applied st') = applied_sample_rate_hz a \<and>
             applied_generation (applied st') = applied_generation a + 1
        else rc = -1 \<and> applied st' = a)"

lemma apply_live_applied: "all_or_nothing (applied st) (apply_live rt s f p st)"
  by (auto simp: apply_live_def all_or_nothing_def Let_def split: prod.split)

lemma apply_stopped_applied: "all_or_nothing (applied st) (apply_stopped rt s f p had st)"
  by (auto simp: apply_stopped_def all_or_nothing_def Let_def split: prod.split)

lemma apply_stopped_applied_world:
  "all_or_nothing (applied st) (apply_stopped rt s f p had (st\<lparr>world := w\<rparr>))"
  using apply_stopped_applied[of "st\<lparr>world := w\<rparr>"] by simp

text \<open>C2: a retune is a transaction over what the program believes the receiver is doing. Whatever
  the device and the worker answer, either the call succeeds, with a non-zero frequency read
  back, the sample rate untouched and the tuning generation advanced by exactly one; or it
  returns -1 and frequency, correction, rate and generation are all exactly what they were.\<close>

theorem apply_locked_all_or_nothing:
  "case apply_locked rt f p want had st of (rc, st') \<Rightarrow>
     if rc = 0
     then applied_frequency_hz (applied st') \<noteq> 0 \<and>
          applied_sample_rate_hz (applied st') = applied_sample_rate_hz (applied st) \<and>
          applied_generation (applied st') = applied_generation (applied st) + 1
     else rc = -1 \<and> applied st' = applied st"
proof -
  have "all_or_nothing (applied st) (apply_locked rt f p want had st)"
    unfolding apply_locked_def
    using apply_live_applied[of st rt _ f p] apply_stopped_applied_world[of st rt _ f p had]
    by (auto simp: Let_def all_or_nothing_def[of _ "(-1, _)"] split: option.split prod.split)
  then show ?thesis by (simp add: all_or_nothing_def)
qed

text \<open>The same, by cases, for the proofs that build on it.\<close>

lemma tune_all_or_nothing:
  "all_or_nothing (applied st) (receiver_runtime_tune rt f p st)"
  unfolding receiver_runtime_tune_def apply_locked_def
  using apply_live_applied[of st rt _ f p] apply_stopped_applied_world[of st rt _ f p None]
  by (auto simp: Let_def all_or_nothing_def[of _ "(-1, _)"] split: option.split prod.split)

lemma tune_refused_applied:
  "receiver_runtime_tune rt f p st = (rc, st') \<Longrightarrow> rc < 0 \<Longrightarrow> rc = -1 \<and> applied st' = applied st"
  using tune_all_or_nothing[of st rt f p] by (auto simp: all_or_nothing_def split: if_splits)

lemma tune_result: "receiver_runtime_tune rt f p st = (rc, st') \<Longrightarrow> rc = 0 \<or> rc = -1"
  using tune_all_or_nothing[of st rt f p] by (auto simp: all_or_nothing_def split: if_splits)

text \<open>A capture driven as if it were live, which the applied record matches: for the witnesses.\<close>

definition capture_runtime :: "capture_handle receiver_runtime" where
  "capture_runtime =
     \<lparr>rt_source = Some capture_session, rt_has_applied = True, rt_has_error = True,
      life_stop_fn = None, life_start_fn = None, rt_live = True, rt_live_retune = False\<rparr>"

definition capture_state :: "capture_handle runtime_state" where
  "capture_state =
     \<lparr>applied = \<lparr>applied_frequency_hz = 7, applied_sample_rate_hz = 2000000, applied_ppm = 0,
        applied_generation = 3\<rparr>, error = None,
      world = \<lparr>ch_frequency_hz = 7, ch_sample_rate_hz = 2000000, ch_ppm = 0, ch_stop = False\<rparr>\<rparr>"

text \<open>changing rate and tuning together is a transaction too, as long as the worker can
  be stopped: a refusal at any step (rate, flush, restart, or the tuning after the rate has
  taken) leaves frequency, correction, rate and generation exactly as they were, and a
  success has advanced the generation by one.\<close>

theorem tune_at_rate_all_or_nothing:
  assumes stops: "\<And>w. fst (life_stop rt w) = 0"
  shows "case receiver_runtime_tune_at_rate rt f r p st of (rc, st') \<Rightarrow>
     if rc = 0
     then applied_frequency_hz (applied st') \<noteq> 0 \<and>
          applied_generation (applied st') = applied_generation (applied st) + 1
     else rc = -1 \<and> applied st' = applied st"
proof -
  have stop: "\<exists>w'. life_stop rt w = (0, w')" for w
    using stops[of w] by (metis prod.collapse)
  show ?thesis
  proof (cases "rt_source rt = None \<or> \<not> rt_has_applied rt \<or> \<not> rt_live rt \<or>
      r = applied_sample_rate_hz (applied st)")
    case True
    then show ?thesis
      using tune_all_or_nothing[of st rt f p]
      by (auto simp: receiver_runtime_tune_at_rate_def all_or_nothing_def split: option.split)
  next
    case False
    then obtain s where s: "rt_source rt = Some s" by auto
    obtain w1 where 1: "life_stop rt (world st) = (0, w1)" using stop by blast
    obtain rc2 w2 where 2: "then_call (device_set_sample_rate_hz s w1 r) (device_flush s) = (rc2, w2)"
      by fastforce
    obtain r3 w3 where 3: "read_sample_rate s w2 = (r3, w3)" by fastforce
    obtain rc4 w4 where 4: "life_start rt w3 = (rc4, w4)" by fastforce
    let ?st4 = "(set_applied_rate (if r3 = 0 then r else r3) st)\<lparr>world := w4\<rparr>"
    obtain rc5 st5 where 5: "receiver_runtime_tune rt f p ?st4 = (rc5, st5)" by fastforce
    obtain w6 where 6: "life_stop rt (world st5) = (0, w6)" using stop by blast
    have "all_or_nothing (applied ?st4) (rc5, st5)" using tune_all_or_nothing[of ?st4 rt f p] 5 by simp
    then show ?thesis
      using False s
      by (simp add: receiver_runtime_tune_at_rate_def Let_def 1 2 3 4 5 6 all_or_nothing_def
          split: if_splits)
  qed
qed

theorem tune_at_rate_all_or_nothing_witness:
  "\<exists>st'. receiver_runtime_tune_at_rate capture_runtime 100 48000 0 capture_state = (-1, st') \<and>
     applied st' = applied capture_state"
proof -
  have stop: "fst (life_stop capture_runtime w) = 0" for w
    by (simp add: life_stop_def capture_runtime_def)
  obtain rc st' where r: "receiver_runtime_tune_at_rate capture_runtime 100 48000 0 capture_state
      = (rc, st')" by fastforce
  then have "rc \<noteq> 0"
    by (simp add: receiver_runtime_tune_at_rate_def capture_runtime_def capture_state_def
        life_stop_def then_call_def device_simps Let_def)
  with tune_at_rate_all_or_nothing[OF stop, where f = 100 and r = 48000 and p = 0 and st = capture_state] r show ?thesis by simp
qed

subsection \<open>When the worker will not stop for the rollback\<close>

text \<open>
  A device whose handle counts the stop requests it has had: it accepts every setting, and the
  worker stops once and then no more. The world is that count with the rate in force.
\<close>

definition sticky_device :: "(nat \<times> u32) device_session" where
  "sticky_device =
     \<lparr>backend = Some
        \<lparr>set_frequency_hz = Some (\<lambda>w hz. (0, w)), frequency_hz = Some (\<lambda>w out. ((0, 7), w)),
         set_sample_rate_hz = Some (\<lambda>w hz. (0, (fst w, hz))),
         sample_rate_hz_of = Some (\<lambda>w out. ((0, snd w), w)),
         set_ppm = Some (\<lambda>w p. (0, w)), ppm_of = Some (\<lambda>w out. ((0, 0), w)),
         set_gain = None, gain_of = None, flush = Some (\<lambda>w. (0, w))\<rparr>,
      handle = True\<rparr>"

definition sticky_runtime :: "(nat \<times> u32) receiver_runtime" where
  "sticky_runtime =
     \<lparr>rt_source = Some sticky_device, rt_has_applied = True, rt_has_error = True,
      life_stop_fn = Some (\<lambda>w. (if fst w = 0 then 0 else -1, (fst w + 1, snd w))),
      life_start_fn = Some (\<lambda>w. (0, w)), rt_live = True, rt_live_retune = False\<rparr>"

text \<open>the hypothesis of the previous property is needed. There is a device and a worker for
  which a retune with a new rate is refused, yet the applied record is left at the new rate
  with its generation unmoved: the tuning fails because the worker does not stop a second
  time, and the rollback of the rate is skipped for the same reason. The header promises
  that a refusal leaves the receiver exactly where it was found.\<close>

theorem tune_at_rate_leaves_rate_behind:
  "\<exists>(st :: (nat \<times> u32) runtime_state) st'.
     receiver_runtime_tune_at_rate sticky_runtime 100 48000 0 st = (-1, st') \<and>
     applied_sample_rate_hz (applied st) = 2000000 \<and>
     applied_sample_rate_hz (applied st') = 48000 \<and>
     applied_generation (applied st') = applied_generation (applied st)"
proof -
  let ?st = "\<lparr>applied = \<lparr>applied_frequency_hz = 7, applied_sample_rate_hz = 2000000,
      applied_ppm = 0, applied_generation = 3\<rparr>, error = None, world = (0 :: nat, 2000000 :: u32)\<rparr>"
  note defs = receiver_runtime_tune_at_rate_def receiver_runtime_tune_def apply_locked_def
    sticky_runtime_def sticky_device_def life_stop_def life_start_def then_call_def
    read_sample_rate_def set_applied_rate_def
    device_op_defs device_call_def
  have "receiver_runtime_tune_at_rate sticky_runtime 100 48000 0 ?st =
     (-1, snd (receiver_runtime_tune_at_rate sticky_runtime 100 48000 0 ?st))"
    by (simp add: defs Let_def)
  moreover have "applied (snd (receiver_runtime_tune_at_rate sticky_runtime 100 48000 0 ?st)) =
     \<lparr>applied_frequency_hz = 7, applied_sample_rate_hz = 48000, applied_ppm = 0,
      applied_generation = 3\<rparr>"
    by (simp add: defs Let_def)
  ultimately show ?thesis
    by (intro exI[of _ ?st] exI[of _ "snd (receiver_runtime_tune_at_rate sticky_runtime 100 48000 0 ?st)"])
      simp
qed

subsection \<open>The device itself, under its contract\<close>

context tunable_device
begin

lemma correction_law:
  assumes "receiver_runtime_set_correction s p w = (rc, w')"
  shows "corr w' = (if rc < 0 then corr w else p) \<and> freq w' = freq w \<and> rate w' = rate w"
proof -
  obtain rc1 cur w1 where r: "device_ppm s w 0 = ((rc1, cur), w1)" by (metis prod.exhaust)
  from read_ppm_law[OF r] have 1: "rc1 = 0 \<longrightarrow> cur = corr w" "freq w1 = freq w" "rate w1 = rate w"
    "corr w1 = corr w" by simp_all
  show ?thesis
  proof (cases "rc1 = 0 \<and> cur = p")
    case True
    with assms r 1 show ?thesis by (auto simp: receiver_runtime_set_correction_def)
  next
    case False
    then have "device_set_ppm s w1 p = (rc, w')"
      using assms r by (simp add: receiver_runtime_set_correction_def split: if_splits)
    from set_ppm_law[OF this] 1 show ?thesis by simp
  qed
qed

lemma read_frequency_frame:
  assumes "read_frequency s w = (hz, w')"
  shows "freq w' = freq w" and "rate w' = rate w" and "corr w' = corr w"
    and "hz \<noteq> 0 \<Longrightarrow> hz = freq w"
proof -
  obtain rc h w1 where r: "device_frequency_hz s w 0 = ((rc, h), w1)" by (metis prod.exhaust)
  with assms have "hz = (if rc = 0 then h else 0)" "w' = w1"
    by (auto simp: read_frequency_def split: if_splits)
  with read_frequency_law[OF r] show "freq w' = freq w" "rate w' = rate w" "corr w' = corr w"
    "hz \<noteq> 0 \<Longrightarrow> hz = freq w" by (auto split: if_splits)
qed

lemma read_ppm_frame:
  assumes "read_ppm s w = (p, w')"
  shows "freq w' = freq w" and "rate w' = rate w" and "corr w' = corr w"
proof -
  obtain rc q w1 where r: "device_ppm s w 0 = ((rc, q), w1)" by (metis prod.exhaust)
  with assms have "w' = w1" by (auto simp: read_ppm_def split: if_splits)
  with read_ppm_law[OF r] show "freq w' = freq w" "rate w' = rate w" "corr w' = corr w" by simp_all
qed

text \<open>The rollback puts the device back where the applied record says, if it is taken.\<close>

lemma put_back_device:
  assumes "\<And>w. 0 \<le> fst (device_set_frequency_hz s w f)"
    and "\<And>w. 0 \<le> fst (device_set_ppm s w p)"
  shows "freq (world (put_receiver_back s f p had st)) = f"
    and "corr (world (put_receiver_back s f p had st)) = p"
    and "rate (world (put_receiver_back s f p had st)) = rate (world st)"
proof -
  define w1 where "w1 = (case had of None \<Rightarrow> world st
     | Some g \<Rightarrow> snd (device_set_gain s (world st) (gain_manual g) (gain_tenths g)))"
  have 1: "rate w1 = rate (world st)"
    using set_gain_law[of "world st"]
    by (auto simp: w1_def split: option.split) (metis prod.collapse)
  obtain r2 w2 where 2: "receiver_runtime_set_correction s p w1 = (r2, w2)" by fastforce
  have "0 \<le> r2"
    using 2 assms(2) by (auto simp: receiver_runtime_set_correction_def split: prod.splits if_splits)
      (metis fst_conv)+
  with correction_law[OF 2] have c2: "corr w2 = p" "rate w2 = rate w1" by simp_all
  obtain r3 w3 where 3: "device_set_frequency_hz s w2 f = (r3, w3)" by fastforce
  have "0 \<le> r3" using assms(1)[of w2] 3 by simp
  with set_frequency_law[OF 3] have c3: "freq w3 = f" "rate w3 = rate w2" "corr w3 = corr w2"
    by simp_all
  obtain r4 w4 where 4: "device_flush s w3 = (r4, w4)" by fastforce
  have "world (put_receiver_back s f p had st) = w4"
    by (simp add: put_receiver_back_def Let_def w1_def[symmetric] 2 3 4)
  with flush_law[OF 4] c2 c3 1 show "freq (world (put_receiver_back s f p had st)) = f"
    and "corr (world (put_receiver_back s f p had st)) = p"
    and "rate (world (put_receiver_back s f p had st)) = rate (world st)" by simp_all
qed

lemma then_tuned:
  assumes "then_call (receiver_runtime_set_correction s p w) (\<lambda>w. device_set_frequency_hz s w f) = (rc, w')"
  shows "rate w' = rate w" and "0 \<le> rc \<Longrightarrow> freq w' = f"
proof -
  obtain r1 w1 where 1: "receiver_runtime_set_correction s p w = (r1, w1)" by fastforce
  obtain r2 w2 where 2: "device_set_frequency_hz s w1 f = (r2, w2)" by fastforce
  show "rate w' = rate w" "0 \<le> rc \<Longrightarrow> freq w' = f"
    using assms correction_law[OF 1] set_frequency_law[OF 2]
    by (auto simp: then_call_def 1 2 split: if_splits)
qed

text \<open>The live branch: on either outcome the applied record and the device agree.\<close>

lemma apply_live_in_step:
  assumes "\<And>w. 0 \<le> fst (device_set_frequency_hz s w (applied_frequency_hz (applied st)))"
    and "rate (world st) = applied_sample_rate_hz (applied st)"
    and "apply_live rt s f p st = (rc, st')"
  shows "freq (world st') = applied_frequency_hz (applied st') \<and>
    rate (world st') = applied_sample_rate_hz (applied st')"
proof -
  let ?f0 = "applied_frequency_hz (applied st)" and ?p0 = "applied_ppm (applied st)"
  have undo: "freq w' = ?f0 \<and> rate w' = rate w"
    if "w' = snd (device_set_frequency_hz s (snd (receiver_runtime_set_correction s ?p0 w)) ?f0)"
    for w w'
  proof -
    obtain r1 w1 where 1: "receiver_runtime_set_correction s ?p0 w = (r1, w1)" by fastforce
    obtain r2 w2 where 2: "device_set_frequency_hz s w1 ?f0 = (r2, w2)" by fastforce
    have "0 \<le> r2" using assms(1)[of w1] 2 by simp
    with set_frequency_law[OF 2] correction_law[OF 1] that 1 2 show ?thesis by simp
  qed
  obtain rc1 w1 where 1: "then_call (receiver_runtime_set_correction s p (world st))
      (\<lambda>w. device_set_frequency_hz s w f) = (rc1, w1)" by fastforce
  obtain h w2 where 2: "read_frequency s w1 = (h, w2)" by fastforce
  obtain q w3 where 3: "read_ppm s w2 = (q, w3)" by fastforce
  show ?thesis
    using assms(2,3) then_tuned[OF 1] read_frequency_frame[OF 2] read_ppm_frame[OF 3] undo
    by (auto simp: apply_live_def Let_def 1 2 3 split: if_splits)
qed

lemma apply_stopped_in_step:
  assumes "\<And>w. 0 \<le> fst (device_set_frequency_hz s w (applied_frequency_hz (applied st)))"
    and "\<And>w. 0 \<le> fst (device_set_ppm s w (applied_ppm (applied st)))"
    and frame: "\<And>w. freq (snd (life_start rt w)) = freq w \<and> rate (snd (life_start rt w)) = rate w"
    and "rate (world st) = applied_sample_rate_hz (applied st)"
    and "apply_stopped rt s f p had st = (rc, st')"
  shows "freq (world st') = applied_frequency_hz (applied st') \<and>
    rate (world st') = applied_sample_rate_hz (applied st')"
proof -
  let ?tuned = "then_call (receiver_runtime_set_correction s p (world st))
      (\<lambda>w. device_set_frequency_hz s w f)"
  note undone = put_back_device[OF assms(1,2)]
  obtain rc0 w0 where t0: "?tuned = (rc0, w0)" by fastforce
  obtain rc1 w1 where 1: "then_call ?tuned (device_flush s) = (rc1, w1)" by fastforce
  have c1: "rate w1 = rate (world st) \<and> (0 \<le> rc1 \<longrightarrow> freq w1 = f)"
    using 1 then_tuned[OF t0] flush_law[of w0] unfolding t0
    by (auto simp: then_call_def split: if_splits)
  obtain h w2 where 2: "read_frequency s w1 = (h, w2)" by fastforce
  obtain q w3 where 3: "read_ppm s w2 = (q, w3)" by fastforce
  obtain rc4 w4 where 4: "life_start rt w3 = (rc4, w4)" by fastforce
  have c4: "freq w4 = freq w3" "rate w4 = rate w3" using frame[of w3] 4 by simp_all
  show ?thesis
    using assms(4,5) c1 read_frequency_frame[OF 2] read_ppm_frame[OF 3] c4 undone frame
    by (auto simp: apply_stopped_def Let_def 1 2 3 4 split: if_splits)
qed

end

text \<open>A device that does everything it is asked, its state the frequency, rate and correction.\<close>

definition obedient_device :: "(u32 \<times> u32 \<times> int) device_session" where
  "obedient_device =
     \<lparr>backend = Some
        \<lparr>set_frequency_hz = Some (\<lambda>(f, r, c) hz. (0, (hz, r, c))),
         frequency_hz = Some (\<lambda>w out. ((0, fst w), w)),
         set_sample_rate_hz = Some (\<lambda>(f, r, c) hz. (0, (f, hz, c))),
         sample_rate_hz_of = Some (\<lambda>w out. ((0, fst (snd w)), w)),
         set_ppm = Some (\<lambda>(f, r, c) p. (0, (f, r, p))),
         ppm_of = Some (\<lambda>w out. ((0, snd (snd w)), w)),
         set_gain = Some (\<lambda>w m v. (0, w)), gain_of = None, flush = Some (\<lambda>w. (0, w))\<rparr>,
      handle = True\<rparr>"

lemma obedient_ops [device_simps]:
  "device_set_frequency_hz obedient_device (f, r, c) hz = (0, (hz, r, c))"
  "device_set_sample_rate_hz obedient_device (f, r, c) hz = (0, (f, hz, c))"
  "device_set_ppm obedient_device (f, r, c) p = (0, (f, r, p))"
  "device_set_gain obedient_device w m v = (0, w)"
  "device_flush obedient_device w = (0, w)"
  "device_frequency_hz obedient_device w o1 = ((0, fst w), w)"
  "device_sample_rate_hz obedient_device w o1 = ((0, fst (snd w)), w)"
  "device_ppm obedient_device w o2 = ((0, snd (snd w)), w)"
  by (simp_all add: device_op_defs device_call_def obedient_device_def)

lemma obedient_tunable: "tunable_device obedient_device fst (fst \<circ> snd) (snd \<circ> snd)"
  by unfold_locales (auto simp: device_simps)

definition obedient_runtime :: "(u32 \<times> u32 \<times> int) receiver_runtime" where
  "obedient_runtime =
     \<lparr>rt_source = Some obedient_device, rt_has_applied = True, rt_has_error = True,
      life_stop_fn = None, life_start_fn = None, rt_live = True, rt_live_retune = False\<rparr>"

definition obedient_state :: "(u32 \<times> u32 \<times> int) runtime_state" where
  "obedient_state =
     \<lparr>applied = \<lparr>applied_frequency_hz = 100, applied_sample_rate_hz = 2000000, applied_ppm = 3,
        applied_generation = 1\<rparr>, error = None, world = (100, 2000000, 3)\<rparr>"

text \<open>C12: the applied record never drifts from the device. For a receiver that keeps the contract of
  a tunable device and takes back the tuning it already had, whose worker's start and stop do
  not touch the tuning, and which starts out in step with the applied record, every
  transaction (a plain retune, a live retune or a gain change; taken or refused at any
  step) ends with the device at exactly the frequency and rate the applied record shows.\<close>

theorem apply_locked_device_in_step:
  assumes contract: "tunable_device s freq rate corr" and "rt_source rt = Some s"
    and back_f: "\<And>w. 0 \<le> fst (device_set_frequency_hz s w (applied_frequency_hz (applied st)))"
    and back_p: "\<And>w. 0 \<le> fst (device_set_ppm s w (applied_ppm (applied st)))"
    and start: "\<And>w. freq (snd (life_start rt w)) = freq w \<and> rate (snd (life_start rt w)) = rate w"
    and stop: "\<And>w. freq (snd (life_stop rt w)) = freq w \<and> rate (snd (life_stop rt w)) = rate w"
    and "freq (world st) = applied_frequency_hz (applied st)"
    and "rate (world st) = applied_sample_rate_hz (applied st)"
    and result: "apply_locked rt f p want had st = (rc, st')"
  shows "freq (world st') = applied_frequency_hz (applied st') \<and>
    rate (world st') = applied_sample_rate_hz (applied st')"
proof -
  have gain: "freq (snd (device_set_gain s w m v)) = freq w \<and>
      rate (snd (device_set_gain s w m v)) = rate w" for w m v
    using tunable_device.set_gain_law[OF contract, of w m v] by (metis prod.collapse)
  show ?thesis
  proof (cases "\<not> rt_has_applied rt \<or> \<not> rt_live rt")
    case True
    then show ?thesis using assms(2,7,8) result by (auto simp: apply_locked_def split: if_splits)
  next
    case False
    then have on: "rt_has_applied rt" "rt_live rt" by simp_all
    show ?thesis
    proof (cases "want = None \<and> rt_live_retune rt")
      case True
      then have "apply_live rt s f p st = (rc, st')"
        using result assms(2) on by (simp add: apply_locked_def)
      with tunable_device.apply_live_in_step[OF contract back_f assms(8)] show ?thesis by blast
    next
      case False
      obtain rc1 w1 where 1: "life_stop rt (world st) = (rc1, w1)" by fastforce
      obtain rc2 w2 where 2: "(case want of None \<Rightarrow> (0, w1)
        | Some g \<Rightarrow> device_set_gain s w1 (gain_manual g) (gain_tenths g)) = (rc2, w2)" by fastforce
      have w1: "freq w1 = freq (world st)" "rate w1 = rate (world st)" using stop[of "world st"] 1 by simp_all
      have w2: "freq w2 = freq w1" "rate w2 = rate w1"
        using 2 gain[of w1] by (auto split: option.splits) (metis snd_conv)+
      show ?thesis
      proof (cases "rc1 < 0 \<or> want \<noteq> None \<and> rc2 < 0")
        case True
        then show ?thesis
          using result assms(2,7,8) on False w1 w2 gain start
          by (auto simp: apply_locked_def 1 2 Let_def split: if_splits option.splits)
      next
        case stopped: False
        then have "apply_stopped rt s f p had (st\<lparr>world := w2\<rparr>) = (rc, st')"
          using result assms(2) on False by (auto simp: apply_locked_def 1 2 split: if_splits)
        with tunable_device.apply_stopped_in_step[OF contract, of "st\<lparr>world := w2\<rparr>" rt f p had]
        show ?thesis using back_f back_p start w1 w2 assms(8) by simp
      qed
    qed
  qed
qed

theorem apply_locked_device_in_step_witness:
  "\<exists>st'. apply_locked obedient_runtime 433920000 (-2) None None obedient_state = (0, st') \<and>
     fst (world st') = applied_frequency_hz (applied st') \<and> fst (world st') = 433920000"
proof -
  obtain rc st' where r: "apply_locked obedient_runtime 433920000 (-2) None None obedient_state
      = (rc, st')" by fastforce
  have "fst (world st') = applied_frequency_hz (applied st') \<and>
      (fst \<circ> snd) (world st') = applied_sample_rate_hz (applied st')"
    by (rule apply_locked_device_in_step[OF obedient_tunable _ _ _ _ _ _ _ r])
      (auto simp: obedient_runtime_def obedient_state_def device_simps life_start_def life_stop_def)
  moreover have "rc = 0 \<and> fst (world st') = 433920000"
    using r by (auto simp: apply_locked_def apply_stopped_def obedient_runtime_def obedient_state_def
        life_stop_def life_start_def then_call_def receiver_runtime_set_correction_def
        read_frequency_def read_ppm_def device_simps Let_def set_applied_tuning_def bump_generation_def)
  ultimately show ?thesis using r by simp
qed

end
