(* ===== verification/Receiver_Session.thy ===== *)
theory Receiver_Session
  imports Receiver_Lease Receiver_Runtime
begin

text \<open>
  The receiver half of \<open>src/src/runtime/app_runtime.c\<close>: the retune calls every screen makes, and
  borrowing the receiver and giving it back, over the lease and the transactions. Of
  \<open>struct app\<close> the state keeps the receiver runtime's, the lease, the tuning these functions last
  configured the retrospective ring with (\<open>iq_ring_configure\<close>: rate, frequency, correction;
  the worker's own start, which configures it too, is the runtime's \<open>life_start_fn\<close>), and
  whether the current signal frame is still valid. The debug log is not modelled.
  \<open>receiver_mode\<close> is the runtime's \<open>rt_live\<close>.
\<close>

record 'w receiver_app =
  runtime :: "'w runtime_state"
  lease :: receiver_lease
  ring_tuning :: "u32 \<times> u32 \<times> int"
  frame_valid :: bool

abbreviation app_applied :: "'w receiver_app \<Rightarrow> receiver_applied" where
  "app_applied a \<equiv> applied (runtime a)"

definition invalidate_frame :: "'w receiver_runtime \<Rightarrow> 'w receiver_app \<Rightarrow> 'w receiver_app" where
  "invalidate_frame rt a = (if rt_live rt then a\<lparr>frame_valid := False\<rparr> else a)"

definition retune_receiver ::
  "'w receiver_runtime \<Rightarrow> 'w receiver_app \<Rightarrow> u32 \<Rightarrow> int \<Rightarrow> int \<times> 'w receiver_app" where
  "retune_receiver rt a frequency ppm =
     (case receiver_runtime_tune rt frequency ppm (runtime a) of
        (result, st) \<Rightarrow> (result, invalidate_frame rt (a\<lparr>runtime := st\<rparr>)))"

definition retune_receiver_at_rate ::
  "'w receiver_runtime \<Rightarrow> 'w receiver_app \<Rightarrow> u32 \<Rightarrow> u32 \<Rightarrow> int \<Rightarrow> int \<times> 'w receiver_app" where
  "retune_receiver_at_rate rt a frequency new_rate ppm =
     (case receiver_runtime_tune_at_rate rt frequency new_rate ppm (runtime a) of
        (result, st) \<Rightarrow>
          let a = a\<lparr>runtime := st\<rparr>;
              a = (if result = 0
                   then a\<lparr>ring_tuning := (applied_sample_rate_hz (applied st),
                                          applied_frequency_hz (applied st),
                                          applied_ppm (applied st))\<rparr>
                   else a)
          in (result, invalidate_frame rt a))"

definition receiver_borrow ::
  "'w receiver_runtime \<Rightarrow> 'w receiver_app \<Rightarrow> receiver_lease_token
     \<Rightarrow> int \<times> 'w receiver_app \<times> receiver_lease_token" where
  "receiver_borrow rt a t =
     (if \<not> rt_live rt then (0, a, t)
      else
        let here = \<lparr>center_hz = applied_frequency_hz (app_applied a),
                    sample_rate_hz = applied_sample_rate_hz (app_applied a)\<rparr>
        in case receiver_lease_acquire (lease a) here t of
             (rc, l, t) \<Rightarrow>
               if rc < 0
               then (-1, a\<lparr>lease := l, runtime := (runtime a)\<lparr>error := Some Too_many_borrowers\<rparr>\<rparr>, t)
               else (0, a\<lparr>lease := l\<rparr>, t))"

definition receiver_borrow_at ::
  "'w receiver_runtime \<Rightarrow> 'w receiver_app \<Rightarrow> receiver_lease_token \<Rightarrow> u32 \<Rightarrow> u32
     \<Rightarrow> int \<times> 'w receiver_app \<times> receiver_lease_token" where
  "receiver_borrow_at rt a t frequency new_rate =
     (if \<not> rt_live rt then
        (case retune_receiver rt a frequency (applied_ppm (app_applied a)) of (rc, a) \<Rightarrow> (rc, a, t))
      else case receiver_borrow rt a t of
        (rc, a, t) \<Rightarrow>
          if rc < 0 then (-1, a, t)
          else
            (case (if new_rate \<noteq> 0 \<and> new_rate \<noteq> applied_sample_rate_hz (app_applied a)
                   then retune_receiver_at_rate rt a frequency new_rate (applied_ppm (app_applied a))
                   else retune_receiver rt a frequency (applied_ppm (app_applied a))) of
               (moved, a) \<Rightarrow>
                 if moved < 0 then
                   (case receiver_lease_cancel (lease a) t of (_, l, t) \<Rightarrow> (-1, a\<lparr>lease := l\<rparr>, t))
                 else (0, a, t)))"

text \<open>The retune both ways of restoring a snapshot make.\<close>

definition restore_tuning ::
  "'w receiver_runtime \<Rightarrow> 'w receiver_app \<Rightarrow> receiver_tuning \<Rightarrow> int \<times> 'w receiver_app" where
  "restore_tuning rt a b =
     (if sample_rate_hz b \<noteq> applied_sample_rate_hz (app_applied a)
      then retune_receiver_at_rate rt a (center_hz b) (sample_rate_hz b) (applied_ppm (app_applied a))
      else retune_receiver rt a (center_hz b) (applied_ppm (app_applied a)))"

definition receiver_restore_held ::
  "'w receiver_runtime \<Rightarrow> 'w receiver_app \<Rightarrow> receiver_lease_token \<Rightarrow> int \<times> 'w receiver_app" where
  "receiver_restore_held rt a t =
     (if \<not> rt_live rt then (0, a)
      else case receiver_lease_begin_return (lease a) t of
        None \<Rightarrow> (-1, a)
      | Some b \<Rightarrow> restore_tuning rt a b)"

definition receiver_return ::
  "'w receiver_runtime \<Rightarrow> 'w receiver_app \<Rightarrow> receiver_lease_token
     \<Rightarrow> int \<times> 'w receiver_app \<times> receiver_lease_token" where
  "receiver_return rt a t =
     (if \<not> rt_live rt then (0, a, t)
      else if \<not> receiver_lease_token_active (Some t) then (0, a, t)
      else case receiver_lease_begin_return (lease a) t of
        None \<Rightarrow> (-1, a, t)
      | Some b \<Rightarrow>
          (case restore_tuning rt a b of
             (restored, a) \<Rightarrow>
               if restored < 0 then (-1, a, t)
               else (case receiver_lease_finish_return (lease a) t of
                       (_, l, t) \<Rightarrow> (0, a\<lparr>lease := l\<rparr>, t))))"

definition receiver_commit ::
  "'w receiver_runtime \<Rightarrow> 'w receiver_app \<Rightarrow> receiver_lease_token
     \<Rightarrow> int \<times> 'w receiver_app \<times> receiver_lease_token" where
  "receiver_commit rt a t =
     (if \<not> rt_live rt then (0, a, t)
      else if \<not> receiver_lease_token_active (Some t) then (0, a, t)
      else case receiver_lease_commit (lease a) t of
        (rc, l, t) \<Rightarrow> (if rc < 0 then -1 else 0, a\<lparr>lease := l\<rparr>, t))"


subsection \<open>Frames\<close>

lemma invalidate_frame_simps [simp]:
  "runtime (invalidate_frame rt a) = runtime a" "lease (invalidate_frame rt a) = lease a"
  "ring_tuning (invalidate_frame rt a) = ring_tuning a"
  by (simp_all add: invalidate_frame_def)

lemma retune_lease: "retune_receiver rt a f p = (rc, a') \<Longrightarrow> lease a' = lease a"
  by (auto simp: retune_receiver_def split: prod.splits)

lemma retune_at_rate_lease: "retune_receiver_at_rate rt a f r p = (rc, a') \<Longrightarrow> lease a' = lease a"
  by (auto simp: retune_receiver_at_rate_def Let_def split: prod.splits if_splits)

lemma restore_tuning_lease: "restore_tuning rt a b = (rc, a') \<Longrightarrow> lease a' = lease a"
  by (auto simp: restore_tuning_def split: if_splits dest: retune_lease retune_at_rate_lease)

lemma retune_applied:
  "retune_receiver rt a f p = (rc, a') \<Longrightarrow> all_or_nothing (app_applied a) (rc, runtime a')"
  using tune_all_or_nothing[of "runtime a" rt f p]
  by (auto simp: retune_receiver_def split: prod.splits)

text \<open>a receiver that is retuned while it streams keeps recording under the old label. A plain
  retune on a backend with live retune succeeds and moves the applied frequency, but the
  retrospective ring is not configured again (no worker is restarted, and only the
  change of rate configures it), so samples of the new tuning join the old tuning's history
  under the old frequency. The ring's own comment promises that old samples are never
  paired with a new tuning.\<close>

theorem live_retune_leaves_ring_label:
  "\<exists>a a'. retune_receiver (obedient_runtime\<lparr>rt_live_retune := True\<rparr>) a 433920000 0 = (0, a') \<and>
     ring_tuning a = (2000000, 100, 3) \<and> applied_frequency_hz (app_applied a) = 100 \<and>
     applied_frequency_hz (app_applied a') = 433920000 \<and>
     applied_generation (app_applied a') = applied_generation (app_applied a) + 1 \<and>
     ring_tuning a' = (2000000, 100, 3)"
proof -
  let ?a = "\<lparr>runtime = obedient_state, lease = fresh_lease, ring_tuning = (2000000, 100, 3),
    frame_valid = True\<rparr>"
  let ?r = "retune_receiver (obedient_runtime\<lparr>rt_live_retune := True\<rparr>) ?a 433920000 0"
  have "fst ?r = 0 \<and> applied_frequency_hz (app_applied (snd ?r)) = 433920000 \<and>
     applied_generation (app_applied (snd ?r)) = 2 \<and> ring_tuning (snd ?r) = (2000000, 100, 3)"
    by (simp add: retune_receiver_def receiver_runtime_tune_def apply_locked_def apply_live_def
        obedient_runtime_def obedient_state_def then_call_def receiver_runtime_set_correction_def
        read_frequency_def read_ppm_def device_simps Let_def)
  then show ?thesis
    by (intro exI[of _ ?a] exI[of _ "snd ?r"]) (auto simp: obedient_state_def prod_eq_iff)
qed

text \<open>a failed borrow borrows nothing. When \<open>receiver_borrow_at\<close> refuses a live receiver (because
  four screens already hold it, or because the retune was refused and rolled back), the stack
  of claims is as it was and the token handed back is inactive, so the caller holds no claim
  that a later return could act on; when it succeeds, exactly one claim has been added, and it
  records the frequency and rate that were applied before the call.\<close>

theorem borrow_at_claims:
  assumes "rt_live rt" and "lease_wf (lease a)"
  shows "case receiver_borrow_at rt a t f r of (rc, a', t') \<Rightarrow>
     lease_wf (lease a') \<and>
     (if rc = 0
      then token_generation t' \<noteq> 0 \<and>
           lease_stack (lease a') =
             (token_generation t',
              \<lparr>center_hz = applied_frequency_hz (app_applied a),
               sample_rate_hz = applied_sample_rate_hz (app_applied a)\<rparr>) # lease_stack (lease a)
      else rc = -1 \<and> token_generation t' = 0 \<and> lease_stack (lease a') = lease_stack (lease a))"
proof (cases "depth (lease a) < RECEIVER_LEASE_MAX")
  case False
  then show ?thesis
    using assms by (simp add: receiver_borrow_at_def receiver_borrow_def lease_acquire_full)
next
  case True
  let ?here = "\<lparr>center_hz = applied_frequency_hz (app_applied a),
    sample_rate_hz = applied_sample_rate_hz (app_applied a)\<rparr>"
  obtain l t1 where l: "receiver_lease_acquire (lease a) ?here t = (0, l, t1)"
    and wf: "lease_wf l" and st: "lease_stack l = (token_generation t1, ?here) # lease_stack (lease a)"
    and nz: "token_generation t1 \<noteq> 0"
    using lease_acquire_room[OF assms(2) True, of ?here t]
    by (metis issued_generation_nonzero receiver_lease_token.select_convs(1)
        receiver_lease_token.surjective receiver_lease_token.update_convs(1))
  have b: "receiver_borrow rt a t = (0, a\<lparr>lease := l\<rparr>, t1)"
    using assms(1) l by (simp add: receiver_borrow_def)
  let ?move = "if r \<noteq> 0 \<and> r \<noteq> applied_sample_rate_hz (app_applied a)
     then retune_receiver_at_rate rt (a\<lparr>lease := l\<rparr>) f r (applied_ppm (app_applied a))
     else retune_receiver rt (a\<lparr>lease := l\<rparr>) f (applied_ppm (app_applied a))"
  obtain moved a2 where m: "?move = (moved, a2)" by fastforce
  have l2: "lease a2 = l"
    using m retune_lease[of rt "a\<lparr>lease := l\<rparr>"] retune_at_rate_lease[of rt "a\<lparr>lease := l\<rparr>"]
    by (auto split: if_splits)
  have top: "receiver_lease_is_top l t1" using lease_is_top_iff[OF wf] st by simp
  have "lease_stack (l\<lparr>depth := depth l - 1\<rparr>) = lease_stack (lease a)"
    using lease_stack_pop[OF wf top] st by simp
  moreover have "receiver_borrow_at rt a t f r =
      (if moved < 0 then (case receiver_lease_cancel (lease a2) t1 of
          (_, l, t) \<Rightarrow> (-1, a2\<lparr>lease := l\<rparr>, t)) else (0, a2, t1))"
    using assms(1) m unfolding receiver_borrow_at_def by (simp add: b split del: if_split cong: if_cong)
  ultimately show ?thesis
    using l2 wf st nz top lease_wf_pop[OF wf] by (simp add: receiver_lease_cancel_def)
qed

theorem borrow_at_claims_witness:
  "\<exists>a t'. receiver_borrow_at obedient_runtime
       \<lparr>runtime = obedient_state, lease = fresh_lease, ring_tuning = (0, 0, 0), frame_valid = True\<rparr>
       \<lparr>token_generation = 0\<rparr> 433920000 0 = (0, a, t') \<and>
     lease_stack (lease a) =
       [(token_generation t', \<lparr>center_hz = 100, sample_rate_hz = 2000000\<rparr>)]"
proof -
  let ?a = "\<lparr>runtime = obedient_state, lease = fresh_lease, ring_tuning = (0, 0, 0),
    frame_valid = True\<rparr>" and ?t = "\<lparr>token_generation = 0\<rparr>"
  obtain rc a t' where r: "receiver_borrow_at obedient_runtime ?a ?t 433920000 0 = (rc, a, t')"
    by (metis prod.exhaust)
  then have "rc = 0"
    by (simp add: receiver_borrow_at_def receiver_borrow_def obedient_runtime_def obedient_state_def
        fresh_lease_def receiver_lease_reset_def receiver_lease_acquire_def RECEIVER_LEASE_MAX_def
        retune_receiver_def receiver_runtime_tune_def apply_locked_def apply_stopped_def
        life_stop_def life_start_def then_call_def receiver_runtime_set_correction_def
        read_frequency_def read_ppm_def device_simps Let_def split: prod.splits if_splits)
  moreover have "rt_live obedient_runtime" by (simp add: obedient_runtime_def)
  moreover have "lease_stack fresh_lease = []"
    by (simp add: fresh_lease_def receiver_lease_reset_def lease_stack_def)
  ultimately show ?thesis
    using borrow_at_claims[of obedient_runtime ?a ?t 433920000 0] fresh_lease_wf r
    by (simp add: obedient_state_def)
qed


subsection \<open>A receiver that takes what it is asked\<close>

text \<open>
  The contract of a tunable device, plus: it is live, no call refuses, every read answers,
  and stopping and starting the worker leave the tuning alone.
\<close>

definition accepting_receiver ::
  "'w receiver_runtime \<Rightarrow> 'w device_session \<Rightarrow> ('w \<Rightarrow> u32) \<Rightarrow> ('w \<Rightarrow> u32) \<Rightarrow> ('w \<Rightarrow> int) \<Rightarrow> bool" where
  "accepting_receiver rt s freq rate corr \<longleftrightarrow>
     tunable_device s freq rate corr \<and>
     rt_source rt = Some s \<and> rt_has_applied rt \<and> rt_live rt \<and>
     (\<forall>w hz. fst (device_set_frequency_hz s w hz) = 0) \<and>
     (\<forall>w hz. fst (device_set_sample_rate_hz s w hz) = 0) \<and>
     (\<forall>w p. fst (device_set_ppm s w p) = 0) \<and>
     (\<forall>w. fst (device_flush s w) = 0) \<and>
     (\<forall>w x. fst (fst (device_frequency_hz s w x)) = 0) \<and>
     (\<forall>w x. fst (fst (device_sample_rate_hz s w x)) = 0) \<and>
     (\<forall>w x. fst (fst (device_ppm s w x)) = 0) \<and>
     (\<forall>w. \<exists>w'. life_stop rt w = (0, w') \<and> freq w' = freq w \<and> rate w' = rate w \<and> corr w' = corr w) \<and>
     (\<forall>w. \<exists>w'. life_start rt w = (0, w') \<and> freq w' = freq w \<and> rate w' = rate w \<and> corr w' = corr w)"

lemma accepting_calls:
  assumes "accepting_receiver rt s freq rate corr"
  obtains
    "\<And>w p. \<exists>w'. receiver_runtime_set_correction s p w = (0, w') \<and>
       freq w' = freq w \<and> rate w' = rate w \<and> corr w' = p"
    "\<And>w hz. \<exists>w'. device_set_frequency_hz s w hz = (0, w') \<and>
       freq w' = hz \<and> rate w' = rate w \<and> corr w' = corr w"
    "\<And>w hz. \<exists>w'. device_set_sample_rate_hz s w hz = (0, w') \<and>
       freq w' = freq w \<and> rate w' = hz \<and> corr w' = corr w"
    "\<And>w. \<exists>w'. device_flush s w = (0, w') \<and> freq w' = freq w \<and> rate w' = rate w \<and> corr w' = corr w"
    "\<And>w. \<exists>w'. read_frequency s w = (freq w, w') \<and>
       freq w' = freq w \<and> rate w' = rate w \<and> corr w' = corr w"
    "\<And>w. \<exists>w'. read_sample_rate s w = (rate w, w') \<and>
       freq w' = freq w \<and> rate w' = rate w \<and> corr w' = corr w"
    "\<And>w. \<exists>w'. read_ppm s w = (corr w, w') \<and>
       freq w' = freq w \<and> rate w' = rate w \<and> corr w' = corr w"
proof -
  have dev: "tunable_device s freq rate corr" using assms by (simp add: accepting_receiver_def)
  have corr: "\<exists>w'. receiver_runtime_set_correction s p w = (0, w') \<and>
       freq w' = freq w \<and> rate w' = rate w \<and> corr w' = p" for w p
  proof -
    obtain rc w' where c: "receiver_runtime_set_correction s p w = (rc, w')" by fastforce
    moreover have "\<And>w. fst (device_set_ppm s w p) = 0"
      using assms by (simp add: accepting_receiver_def)
    ultimately have "rc = 0"
      by (auto simp: receiver_runtime_set_correction_def split: prod.splits if_splits) (metis fst_conv)+
    with c tunable_device.correction_law[OF dev c] show ?thesis by simp
  qed
  have f: "fst (device_set_frequency_hz s w hz) = 0" "fst (device_set_sample_rate_hz s w hz) = 0"
    "fst (device_flush s w) = 0" "fst (fst (device_frequency_hz s w x)) = 0"
    "fst (fst (device_sample_rate_hz s w x)) = 0" "fst (fst (device_ppm s w y)) = 0" for w hz x y
    using assms by (simp_all add: accepting_receiver_def)
  show thesis
  proof (rule that)
    show "\<exists>w'. device_set_frequency_hz s w hz = (0, w') \<and>
       freq w' = hz \<and> rate w' = rate w \<and> corr w' = corr w" for w hz
      using tunable_device.set_frequency_law[OF dev, of w hz] f(1)[of w hz]
      by (cases "device_set_frequency_hz s w hz") simp
    show "\<exists>w'. device_set_sample_rate_hz s w hz = (0, w') \<and>
       freq w' = freq w \<and> rate w' = hz \<and> corr w' = corr w" for w hz
      using tunable_device.set_rate_law[OF dev, of w hz] f(2)[of w hz]
      by (cases "device_set_sample_rate_hz s w hz") simp
    show "\<exists>w'. device_flush s w = (0, w') \<and> freq w' = freq w \<and> rate w' = rate w \<and> corr w' = corr w"
      for w
      using tunable_device.flush_law[OF dev, of w] f(3)[of w] by (cases "device_flush s w") simp
    show "\<exists>w'. read_frequency s w = (freq w, w') \<and>
       freq w' = freq w \<and> rate w' = rate w \<and> corr w' = corr w" for w
      using tunable_device.read_frequency_law[OF dev, of w 0] f(4)[of w 0]
      by (cases "device_frequency_hz s w 0") (auto simp: read_frequency_def split: prod.splits)
    show "\<exists>w'. read_sample_rate s w = (rate w, w') \<and>
       freq w' = freq w \<and> rate w' = rate w \<and> corr w' = corr w" for w
      using tunable_device.read_rate_law[OF dev, of w 0] f(5)[of w 0]
      by (cases "device_sample_rate_hz s w 0") (auto simp: read_sample_rate_def split: prod.splits)
    show "\<exists>w'. read_ppm s w = (corr w, w') \<and>
       freq w' = freq w \<and> rate w' = rate w \<and> corr w' = corr w" for w
      using tunable_device.read_ppm_law[OF dev, of w 0] f(6)[of w 0]
      by (cases "device_ppm s w 0") (auto simp: read_ppm_def split: prod.splits)
  qed (rule corr)
qed

lemma tune_accepts:
  assumes acc: "accepting_receiver rt s freq rate corr" and "f \<noteq> 0"
  shows "\<exists>st'. receiver_runtime_tune rt f p st = (0, st') \<and>
    applied st' = (applied st)\<lparr>applied_frequency_hz := f, applied_ppm := p,
       applied_generation := applied_generation (applied st) + 1\<rparr>"
proof -
  have on: "rt_source rt = Some s" "rt_has_applied rt" "rt_live rt"
    using acc by (simp_all add: accepting_receiver_def)
  have life: "\<exists>w'. life_stop rt w = (0, w') \<and> freq w' = freq w \<and> rate w' = rate w \<and> corr w' = corr w"
    "\<exists>w'. life_start rt w = (0, w') \<and> freq w' = freq w \<and> rate w' = rate w \<and> corr w' = corr w" for w
    using acc by (simp_all add: accepting_receiver_def)
  obtain w0 where 0: "life_stop rt (world st) = (0, w0)" using life(1) by blast
  define b where "b = (if rt_live_retune rt then world st else w0)"
  show ?thesis
  proof (rule accepting_calls[OF acc])
    assume calls:
      "\<And>w p. \<exists>w'. receiver_runtime_set_correction s p w = (0, w') \<and>
         freq w' = freq w \<and> rate w' = rate w \<and> corr w' = p"
      "\<And>w hz. \<exists>w'. device_set_frequency_hz s w hz = (0, w') \<and>
         freq w' = hz \<and> rate w' = rate w \<and> corr w' = corr w"
      "\<And>w. \<exists>w'. device_flush s w = (0, w') \<and> freq w' = freq w \<and> rate w' = rate w \<and> corr w' = corr w"
      "\<And>w. \<exists>w'. read_frequency s w = (freq w, w') \<and>
         freq w' = freq w \<and> rate w' = rate w \<and> corr w' = corr w"
      "\<And>w. \<exists>w'. read_ppm s w = (corr w, w') \<and>
         freq w' = freq w \<and> rate w' = rate w \<and> corr w' = corr w"
    obtain w1 where 1: "receiver_runtime_set_correction s p b = (0, w1)" "corr w1 = p"
      using calls(1) by blast
    obtain w2 where 2: "device_set_frequency_hz s w1 f = (0, w2)" "freq w2 = f" "corr w2 = p"
      using calls(2)[of w1 f] 1 by auto
    obtain w3 where 3: "device_flush s w2 = (0, w3)" "freq w3 = f" "corr w3 = p"
      using calls(3)[of w2] 2 by auto
    define c where "c = (if rt_live_retune rt then w2 else w3)"
    have c: "freq c = f" "corr c = p" using 2 3 by (simp_all add: c_def)
    obtain w4 where 4: "read_frequency s c = (f, w4)" "corr w4 = p" using calls(4)[of c] c by auto
    obtain w5 where 5: "read_ppm s w4 = (p, w5)" using calls(5)[of w4] 4 by auto
    obtain w6 where 6: "life_start rt w5 = (0, w6)" using life(2) by blast
    show ?thesis
      using on 0 1 2 3 4 5 6 assms(2)
      by (cases "rt_live_retune rt")
        (simp_all add: receiver_runtime_tune_def apply_locked_def apply_live_def apply_stopped_def
          then_call_def Let_def b_def c_def)
  qed
qed


lemma tune_at_rate_accepts:
  assumes acc: "accepting_receiver rt s freq rate corr" and "f \<noteq> 0" and "r \<noteq> 0"
  shows "\<exists>st'. receiver_runtime_tune_at_rate rt f r p st = (0, st') \<and>
    applied st' = (applied st)\<lparr>applied_frequency_hz := f, applied_sample_rate_hz := r,
       applied_ppm := p, applied_generation := applied_generation (applied st) + 1\<rparr>"
proof (cases "r = applied_sample_rate_hz (applied st)")
  case True
  have on: "rt_source rt = Some s" "rt_has_applied rt" "rt_live rt"
    using acc by (simp_all add: accepting_receiver_def)
  obtain st' where "receiver_runtime_tune rt f p st = (0, st')"
    "applied st' = (applied st)\<lparr>applied_frequency_hz := f, applied_ppm := p,
       applied_generation := applied_generation (applied st) + 1\<rparr>"
    using tune_accepts[OF acc assms(2)] by blast
  with True on show ?thesis by (simp add: receiver_runtime_tune_at_rate_def)
next
  case False
  have on: "rt_source rt = Some s" "rt_has_applied rt" "rt_live rt"
    using acc by (simp_all add: accepting_receiver_def)
  have life: "\<exists>w'. life_stop rt w = (0, w')" "\<exists>w'. life_start rt w = (0, w')" for w
    using acc unfolding accepting_receiver_def by blast+
  obtain w1 where 1: "life_stop rt (world st) = (0, w1)" using life by blast
  show ?thesis
  proof (rule accepting_calls[OF acc])
    assume calls:
      "\<And>w hz. \<exists>w'. device_set_sample_rate_hz s w hz = (0, w') \<and>
         freq w' = freq w \<and> rate w' = hz \<and> corr w' = corr w"
      "\<And>w. \<exists>w'. device_flush s w = (0, w') \<and> freq w' = freq w \<and> rate w' = rate w \<and> corr w' = corr w"
      "\<And>w. \<exists>w'. read_sample_rate s w = (rate w, w') \<and>
         freq w' = freq w \<and> rate w' = rate w \<and> corr w' = corr w"
    obtain w2 where 2: "device_set_sample_rate_hz s w1 r = (0, w2)" "rate w2 = r"
      using calls(1) by blast
    obtain w3 where 3: "device_flush s w2 = (0, w3)" "rate w3 = r" using calls(2)[of w2] 2 by auto
    obtain w4 where 4: "read_sample_rate s w3 = (r, w4)" using calls(3)[of w3] 3 by auto
    obtain w5 where 5: "life_start rt w4 = (0, w5)" using life by blast
    let ?st = "(set_applied_rate r st)\<lparr>world := w5\<rparr>"
    obtain st' where "receiver_runtime_tune rt f p ?st = (0, st')"
      "applied st' = (applied ?st)\<lparr>applied_frequency_hz := f, applied_ppm := p,
         applied_generation := applied_generation (applied ?st) + 1\<rparr>"
      using tune_accepts[OF acc assms(2)] by blast
    with False on 1 2 3 4 5 assms(3) show ?thesis
      by (simp add: receiver_runtime_tune_at_rate_def then_call_def Let_def)
  qed
qed

lemma restore_tuning_accepts:
  assumes "accepting_receiver rt s freq rate corr" and "center_hz b \<noteq> 0" and "sample_rate_hz b \<noteq> 0"
  shows "\<exists>a'. restore_tuning rt a b = (0, a') \<and> lease a' = lease a \<and>
    applied_frequency_hz (app_applied a') = center_hz b \<and>
    applied_sample_rate_hz (app_applied a') = sample_rate_hz b \<and>
    applied_ppm (app_applied a') = applied_ppm (app_applied a)"
proof (cases "sample_rate_hz b = applied_sample_rate_hz (app_applied a)")
  case True
  with tune_accepts[OF assms(1,2), of "applied_ppm (app_applied a)" "runtime a"] show ?thesis
    by (auto simp: restore_tuning_def retune_receiver_def)
next
  case False
  with tune_at_rate_accepts[OF assms, of "applied_ppm (app_applied a)" "runtime a"] show ?thesis
    by (auto simp: restore_tuning_def retune_receiver_at_rate_def Let_def)
qed

text \<open>C5: A screen that borrows the receiver and gives it back leaves no trace on the tuning. With a receiver that takes what
  it is asked, a receiver that is tuned (its frequency and its rate are not zero) and fewer than the four claims there is
  room for, borrowing it for any frequency but zero and any rate, or none, succeeds; returning the token succeeds too and
  restores exactly the frequency and the rate the receiver had before, keeps the correction in force, deactivates the
  token and leaves the stack of claims as it was.\<close>

theorem borrow_return_roundtrip:
  assumes acc: "accepting_receiver rt s freq rate corr"
    and "lease_wf (lease a)" and "depth (lease a) < RECEIVER_LEASE_MAX"
    and "applied_frequency_hz (app_applied a) \<noteq> 0" and "applied_sample_rate_hz (app_applied a) \<noteq> 0"
    and "f \<noteq> 0"
  shows "\<exists>a1 t1 a2 t2. receiver_borrow_at rt a t f r = (0, a1, t1) \<and>
     applied_frequency_hz (app_applied a1) = f \<and>
     receiver_return rt a1 t1 = (0, a2, t2) \<and>
     applied_frequency_hz (app_applied a2) = applied_frequency_hz (app_applied a) \<and>
     applied_sample_rate_hz (app_applied a2) = applied_sample_rate_hz (app_applied a) \<and>
     applied_ppm (app_applied a2) = applied_ppm (app_applied a) \<and>
     token_generation t2 = 0 \<and> lease_stack (lease a2) = lease_stack (lease a)"
proof -
  let ?p = "applied_ppm (app_applied a)"
  let ?here = "\<lparr>center_hz = applied_frequency_hz (app_applied a),
    sample_rate_hz = applied_sample_rate_hz (app_applied a)\<rparr>"
  have live: "rt_live rt" using acc by (simp add: accepting_receiver_def)
  obtain l where l: "receiver_lease_acquire (lease a) ?here t
       = (0, l, t\<lparr>token_generation := issued_generation (lease a)\<rparr>)"
    and wf: "lease_wf l"
    and st: "lease_stack l = (issued_generation (lease a), ?here) # lease_stack (lease a)"
    by (rule lease_acquire_room[OF assms(2,3)])
  let ?t1 = "t\<lparr>token_generation := issued_generation (lease a)\<rparr>"
  let ?b = "\<lparr>center_hz = f, sample_rate_hz =
      (if r \<noteq> 0 then r else applied_sample_rate_hz (app_applied a))\<rparr>"
  obtain a1 where 1: "restore_tuning rt (a\<lparr>lease := l\<rparr>) ?b = (0, a1)" "lease a1 = l"
      "applied_frequency_hz (app_applied a1) = f" "applied_ppm (app_applied a1) = ?p"
    using restore_tuning_accepts[OF acc, of ?b "a\<lparr>lease := l\<rparr>"] assms(5,6)
    by (cases "r = 0") auto
  have borrow: "receiver_borrow_at rt a t f r = (0, a1, ?t1)"
    using 1(1) live l
    by (auto simp: receiver_borrow_at_def receiver_borrow_def restore_tuning_def split: if_splits)
  have top: "receiver_lease_is_top l ?t1" using lease_is_top_iff[OF wf] st by simp
  have begin_ret: "receiver_lease_begin_return l ?t1 = Some ?here"
    using lease_begin_return_stack[OF wf] st by simp
  obtain a2 where 2: "restore_tuning rt a1 ?here = (0, a2)" "lease a2 = l"
      "applied_frequency_hz (app_applied a2) = applied_frequency_hz (app_applied a)"
      "applied_sample_rate_hz (app_applied a2) = applied_sample_rate_hz (app_applied a)"
      "applied_ppm (app_applied a2) = ?p"
    using restore_tuning_accepts[OF acc, of ?here a1] assms(4,5) 1 by auto
  have "receiver_return rt a1 ?t1 =
      (0, a2\<lparr>lease := l\<lparr>depth := depth l - 1\<rparr>\<rparr>, ?t1\<lparr>token_generation := 0\<rparr>)"
    using live begin_ret 1(2) 2(1,2) top
    by (simp add: receiver_return_def receiver_lease_token_active_def receiver_lease_finish_return_def)
  moreover have "lease_stack (l\<lparr>depth := depth l - 1\<rparr>) = lease_stack (lease a)"
    using lease_stack_pop[OF wf top] st by simp
  ultimately show ?thesis using borrow 1 2 by simp
qed

lemma obedient_accepting:
  "accepting_receiver obedient_runtime obedient_device fst (fst \<circ> snd) (snd \<circ> snd)"
  using obedient_tunable
  by (auto simp: accepting_receiver_def obedient_runtime_def device_simps life_stop_def life_start_def)

theorem borrow_return_roundtrip_witness:
  "\<exists>a1 t1 a2 t2. receiver_borrow_at obedient_runtime
       \<lparr>runtime = obedient_state, lease = fresh_lease, ring_tuning = (0, 0, 0), frame_valid = True\<rparr>
       \<lparr>token_generation = 0\<rparr> 796000000 1920000 = (0, a1, t1) \<and>
     applied_frequency_hz (app_applied a1) = 796000000 \<and>
     receiver_return obedient_runtime a1 t1 = (0, a2, t2) \<and>
     applied_frequency_hz (app_applied a2) = 100 \<and> applied_sample_rate_hz (app_applied a2) = 2000000"
  using borrow_return_roundtrip[OF obedient_accepting,
      of "\<lparr>runtime = obedient_state, lease = fresh_lease, ring_tuning = (0, 0, 0), frame_valid = True\<rparr>"
        796000000 "\<lparr>token_generation = 0\<rparr>" 1920000] fresh_lease_wf
  by (auto simp: obedient_state_def fresh_lease_def receiver_lease_reset_def RECEIVER_LEASE_MAX_def)

end
