(* ===== verification/Websocket_Crypto.thy ===== *)
theory Websocket_Crypto
  imports Prelude
begin

text \<open>
  The handshake's primitives of \<open>src/src/server/websocket.c\<close>: SHA-1 on 32-bit words, base64,
  and the value of \<open>Sec-WebSocket-Accept\<close>. Byte arrays are \<open>u8 list\<close>s, C strings are byte
  lists without their terminator; \<open>size_t\<close> lengths are list lengths.
\<close>

subsection \<open>SHA-1\<close>

definition sha1_rotl :: "u32 \<Rightarrow> nat \<Rightarrow> u32" where
  "sha1_rotl x n = push_bit n x OR drop_bit (32 - n) x"

type_synonym sha1_state = "u32 \<times> u32 \<times> u32 \<times> u32 \<times> u32"

definition sha1_load :: "u8 list \<Rightarrow> u32 list" where
  "sha1_load block = map (\<lambda>i.
     push_bit 24 (ucast (block ! (i * 4))) OR push_bit 16 (ucast (block ! (i * 4 + 1))) OR
     push_bit 8 (ucast (block ! (i * 4 + 2))) OR ucast (block ! (i * 4 + 3))) [0..<16]"

primrec sha1_extend :: "nat \<Rightarrow> u32 list \<Rightarrow> u32 list" where
  "sha1_extend 0 w = w"
| "sha1_extend (Suc n) w =
     (let i = length w
      in sha1_extend n
           (w @ [sha1_rotl (w ! (i - 3) XOR w ! (i - 8) XOR w ! (i - 14) XOR w ! (i - 16)) 1]))"

definition sha1_f :: "nat \<Rightarrow> u32 \<Rightarrow> u32 \<Rightarrow> u32 \<Rightarrow> u32" where
  "sha1_f i b c d =
     (if i < 20 then (b AND c) OR (NOT b AND d)
      else if i < 40 then b XOR c XOR d
      else if i < 60 then (b AND c) OR (b AND d) OR (c AND d)
      else b XOR c XOR d)"

definition sha1_k :: "nat \<Rightarrow> u32" where
  "sha1_k i =
     (if i < 20 then 0x5A827999 else if i < 40 then 0x6ED9EBA1
      else if i < 60 then 0x8F1BBCDC else 0xCA62C1D6)"

fun sha1_round :: "sha1_state \<Rightarrow> nat \<times> u32 \<Rightarrow> sha1_state" where
  "sha1_round (a, b, c, d, e) (i, w) =
     (let temp = sha1_rotl a 5 + sha1_f i b c d + e + sha1_k i + w
      in (temp, a, sha1_rotl b 30, c, d))"

fun sha1_add :: "sha1_state \<Rightarrow> sha1_state \<Rightarrow> sha1_state" where
  "sha1_add (h0, h1, h2, h3, h4) (a, b, c, d, e) = (h0 + a, h1 + b, h2 + c, h3 + d, h4 + e)"

definition sha1_block :: "sha1_state \<Rightarrow> u8 list \<Rightarrow> sha1_state" where
  "sha1_block h block =
     sha1_add h (foldl sha1_round h (zip [0..<80] (sha1_extend 64 (sha1_load block))))"

definition sha1_init :: sha1_state where
  "sha1_init = (0x67452301, 0xEFCDAB89, 0x98BADCFE, 0x10325476, 0xC3D2E1F0)"

text \<open>The 64-bit length, most significant byte first.\<close>

definition sha1_length_bytes :: "u64 \<Rightarrow> u8 list" where
  "sha1_length_bytes n = map (\<lambda>i. ucast (drop_bit (56 - 8 * i) n)) [0..<8]"

text \<open>The tail buffer: the last partial block, the 0x80 byte, zeros, and the length.\<close>

definition sha1_tail :: "u8 list \<Rightarrow> u8 list" where
  "sha1_tail data =
     (let full_blocks = length data div 64;
          tail_len = length data mod 64;
          tail = drop (full_blocks * 64) data @ [0x80];
          tail_total = tail_len + 1;
          tail = (if tail_total \<le> 56 then tail @ replicate (56 - tail_total) 0
                  else tail @ replicate (64 - tail_total) 0 @ replicate 56 0)
      in tail @ sha1_length_bytes (of_nat (length data) * 8))"

fun sha1_digest_bytes :: "sha1_state \<Rightarrow> u8 list" where
  "sha1_digest_bytes (a, b, c, d, e) =
     concat (map (\<lambda>h. [ucast (drop_bit 24 h), ucast (drop_bit 16 h), ucast (drop_bit 8 h), ucast h])
       [a, b, c, d, e])"

text \<open>The loop over 64-byte blocks at \<open>i * 64\<close>.\<close>

definition sha1_blocks :: "sha1_state \<Rightarrow> u8 list \<Rightarrow> nat \<Rightarrow> sha1_state" where
  "sha1_blocks h bytes n = foldl (\<lambda>h i. sha1_block h (take 64 (drop (i * 64) bytes))) h [0..<n]"

definition websocket_sha1 :: "u8 list \<Rightarrow> u8 list" where
  "websocket_sha1 data =
     (let h = sha1_blocks sha1_init data (length data div 64);
          tail = sha1_tail data;
          h = sha1_blocks h tail (length tail div 64)
      in sha1_digest_bytes h)"

subsection \<open>Base64\<close>

definition ascii :: "string \<Rightarrow> u8 list" where
  "ascii s = map (\<lambda>c. of_nat (of_char c)) s"

definition base64_alphabet :: "u8 list" where
  "base64_alphabet = ascii ''ABCDEFGHIJKLMNOPQRSTUVWXYZabcdefghijklmnopqrstuvwxyz0123456789+/''"

definition base64_char :: "u32 \<Rightarrow> nat \<Rightarrow> u8" where
  "base64_char chunk n = base64_alphabet ! unat (drop_bit n chunk AND 0x3F)"

definition websocket_base64_encoded_len :: "nat \<Rightarrow> nat" where
  "websocket_base64_encoded_len len = ((len + 2) div 3) * 4"

text \<open>The loop over whole groups of three and the two tail cases, as one recursion on the data.\<close>

fun base64_groups :: "u8 list \<Rightarrow> u8 list" where
  "base64_groups (x # y # z # rest) =
     (let chunk = push_bit 16 (ucast x) OR push_bit 8 (ucast y) OR (ucast z :: u32)
      in [base64_char chunk 18, base64_char chunk 12, base64_char chunk 6, base64_char chunk 0]
         @ base64_groups rest)"
| "base64_groups [x] =
     (let chunk = push_bit 16 (ucast x :: u32)
      in [base64_char chunk 18, base64_char chunk 12, 0x3D, 0x3D])"
| "base64_groups [x, y] =
     (let chunk = push_bit 16 (ucast x) OR push_bit 8 (ucast y :: u32)
      in [base64_char chunk 18, base64_char chunk 12, base64_char chunk 6, 0x3D])"
| "base64_groups [] = []"

text \<open>\<open>None\<close> is the result 0 of a buffer that is too small; the written bytes leave out the NUL.\<close>

definition websocket_base64_encode :: "u8 list \<Rightarrow> nat \<Rightarrow> u8 list option" where
  "websocket_base64_encode data out_cap =
     (if out_cap < websocket_base64_encoded_len (length data) + 1 then None
      else Some (base64_groups data))"

subsection \<open>The accept value\<close>

definition websocket_guid :: "u8 list" where
  "websocket_guid = ascii ''258EAFA5-E914-47DA-95CA-C5AB0DC85B11''"

definition websocket_accept_value :: "u8 list \<Rightarrow> nat \<Rightarrow> u8 list option" where
  "websocket_accept_value key out_cap =
     (if length key + length websocket_guid \<ge> 256 then None
      else websocket_base64_encode (websocket_sha1 (key @ websocket_guid)) out_cap)"

subsection \<open>SHA-1 against the standard's padded message\<close>

lemma sha1_blocks_append:
  assumes "length a = 64 * n"
  shows "sha1_blocks h (a @ b) (n + m) = sha1_blocks (sha1_blocks h a n) b m"
proof -
  have split: "[0..<n + m] = [0..<n] @ map (\<lambda>i. i + n) [0..<m]"
    by (induction m) simp_all
  have first: "take 64 (drop (i * 64) (a @ b)) = take 64 (drop (i * 64) a)" if "i < n" for i
    using that assms by simp
  have second: "drop ((i + n) * 64) (a @ b) = drop (i * 64) b" for i
    using assms by (simp add: algebra_simps)
  have one: "foldl (\<lambda>h i. sha1_block h (take 64 (drop (i * 64) (a @ b)))) h [0..<n] =
        foldl (\<lambda>h i. sha1_block h (take 64 (drop (i * 64) a))) h [0..<n]"
    by (rule foldl_cong [OF refl refl]) (simp only: set_upt atLeastLessThan_iff first)
  show ?thesis
    unfolding sha1_blocks_def split foldl_append one foldl_map second ..
qed

text \<open>FIPS 180-4, section 5.1.1: the one bit, the zeros, the length in bits; a whole number of blocks.\<close>

definition sha1_padded :: "u8 list \<Rightarrow> u8 list" where
  "sha1_padded data =
     data @ [0x80] @ replicate ((119 - length data mod 64) mod 64) 0
       @ sha1_length_bytes (of_nat (length data) * 8)"

lemma zeros_to_56:
  assumes "r < 64"
  shows "(if r + 1 \<le> 56 then xs @ replicate (56 - (r + 1)) 0
      else xs @ replicate (64 - (r + 1)) 0 @ replicate 56 0)
      = xs @ replicate ((119 - r) mod 64) (0::u8)"
proof (cases "r \<le> 55")
  case True
  then have "119 - r = (55 - r) + 64" by simp
  then have "(119 - r) mod 64 = 55 - r" by (simp only: mod_add_self2) simp
  with True show ?thesis by simp
next
  case False
  then have sum: "119 - r = (63 - r) + 56" and "119 - r < 64" using assms by linarith+
  then have "(119 - r) mod 64 = (63 - r) + 56" by (metis mod_less)
  then have zeros: "replicate ((119 - r) mod 64) (0::u8) = replicate (63 - r) 0 @ replicate 56 0"
    by (simp only: replicate_add)
  have "64 - (r + 1) = 63 - r" by simp
  with False show ?thesis unfolding zeros by (simp only:) simp
qed

lemma padded_split:
  "sha1_padded data = take (length data div 64 * 64) data @ sha1_tail data"
  unfolding sha1_padded_def sha1_tail_def Let_def
  by (subst zeros_to_56) simp_all

lemma sha1_tail_whole: "length (sha1_tail data) mod 64 = 0"
  by (simp add: sha1_tail_def sha1_length_bytes_def Let_def)

lemma length_sha1_padded: "length (sha1_padded data) mod 64 = 0"
  by (simp add: padded_split sha1_tail_whole)

lemma length_sha1_digest_bytes: "length (sha1_digest_bytes h) = 20"
  by (cases h rule: sha1_digest_bytes.cases) simp

lemma length_websocket_sha1: "length (websocket_sha1 data) = 20"
  by (simp add: websocket_sha1_def Let_def length_sha1_digest_bytes)

text \<open>SHA-1 as coded, which hashes the whole blocks in place and builds one or two tail blocks
  in a 128-byte buffer, is the Merkle-Damgard iteration of \<open>sha1_block\<close> over the standard's padded
  message, whose length is a multiple of 64, and its digest has 20 bytes.\<close>

theorem websocket_sha1_padded_message:
  "websocket_sha1 data = sha1_digest_bytes (sha1_blocks sha1_init (sha1_padded data)
       (length (sha1_padded data) div 64)) \<and>
   length (sha1_padded data) mod 64 = 0 \<and> length (websocket_sha1 data) = 20"
proof -
  let ?n = "length data div 64"
  let ?a = "take (?n * 64) data"
  have len: "length ?a = 64 * ?n" by simp
  have front: "sha1_blocks sha1_init data ?n = sha1_blocks sha1_init ?a ?n"
    using sha1_blocks_append [of ?a ?n sha1_init "drop (?n * 64) data" 0] len
    by (simp add: sha1_blocks_def)
  have n: "length (sha1_padded data) div 64 = ?n + length (sha1_tail data) div 64"
    by (simp add: padded_split)
  have "websocket_sha1 data = sha1_digest_bytes (sha1_blocks sha1_init (sha1_padded data)
       (length (sha1_padded data) div 64))"
    unfolding websocket_sha1_def Let_def n front
    by (simp only: padded_split sha1_blocks_append [OF len])
  with length_sha1_padded length_websocket_sha1 show ?thesis by blast
qed

subsection \<open>Base64 against a decoder\<close>

lemma alphabet: "base64_alphabet = [65,66,67,68,69,70,71,72,73,74,75,76,77,78,79,80,81,82,83,84,85,86,87,88,89,90,
 97,98,99,100,101,102,103,104,105,106,107,108,109,110,111,112,113,114,115,116,117,118,119,120,121,122,
 48,49,50,51,52,53,54,55,56,57,43,47]"
  by (simp add: base64_alphabet_def ascii_def)
lemma length_alphabet: "length base64_alphabet = 64" by (simp add: alphabet)
lemma distinct_alphabet: "distinct base64_alphabet" by (simp add: alphabet)
lemma pad_not_in: "0x3D \<notin> set base64_alphabet" by (simp add: alphabet)

lemma and63: "w AND 0x3F = take_bit 6 (w :: 'a::len word)"
  by (simp add: take_bit_eq_mask mask_eq_exp_minus_1)
lemma chunk_lt: "unat (drop_bit n (c :: u32) AND 0x3F) < 64"
  unfolding and63 unsigned_take_bit_eq using take_bit_nat_less_exp[of 6] by simp

text \<open>A decoder of RFC 4648 groups, the specification the encoder is checked against.\<close>

definition base64_value :: "u8 \<Rightarrow> u32" where
  "base64_value c =
     (if c = 0x3D then 0 else of_nat (length (takeWhile (\<lambda>b. b \<noteq> c) base64_alphabet)))"

fun base64_decode :: "u8 list \<Rightarrow> u8 list" where
  "base64_decode (a # b # c # d # rest) =
     (let v = push_bit 18 (base64_value a) OR push_bit 12 (base64_value b) OR
              push_bit 6 (base64_value c) OR base64_value d;
          bytes = [ucast (drop_bit 16 v), ucast (drop_bit 8 v), ucast v]
      in if d \<noteq> 0x3D then bytes @ base64_decode rest
         else if c \<noteq> 0x3D then take 2 bytes else take 1 bytes)"
| "base64_decode _ = []"

lemma base64_char_in: "base64_char c n \<in> set base64_alphabet"
  unfolding base64_char_def by (rule nth_mem) (simp only: length_alphabet chunk_lt)

lemma base64_char_not_pad: "base64_char c n \<noteq> 0x3D"
  using base64_char_in [of c n] pad_not_in by metis

lemma value_char: "base64_value (base64_char c n) = take_bit 6 (drop_bit n c)"
proof -
  have "length (takeWhile (\<lambda>b. b \<noteq> base64_alphabet ! i) base64_alphabet) = i" if "i < 64" for i
  proof -
    have "takeWhile (\<lambda>b. b \<noteq> base64_alphabet ! i) base64_alphabet = take i base64_alphabet"
      by (rule takeWhile_eq_take_P_nth) (use that distinct_alphabet length_alphabet in \<open>auto simp: nth_eq_iff_index_eq\<close>)
    then show ?thesis using that length_alphabet by simp
  qed
  then have "length (takeWhile (\<lambda>b. b \<noteq> base64_char c n) base64_alphabet)
      = unat (drop_bit n c AND 0x3F)"
    unfolding base64_char_def using chunk_lt by blast
  then show ?thesis by (simp add: base64_value_def base64_char_not_pad and63)
qed
lemma chunk_join:
  "(push_bit 18 (take_bit 6 (drop_bit 18 c)) OR push_bit 12 (take_bit 6 (drop_bit 12 c)) OR
    push_bit 6 (take_bit 6 (drop_bit 6 c)) OR take_bit 6 c :: u32) = take_bit 24 c"
proof (rule bit_word_eqI)
  fix n assume "n < LENGTH(32)"
  consider "n < 6" | "6 \<le> n" "n < 12" | "12 \<le> n" "n < 18" | "18 \<le> n" by linarith
  then show "bit (push_bit 18 (take_bit 6 (drop_bit 18 c)) OR push_bit 12 (take_bit 6 (drop_bit 12 c)) OR
    push_bit 6 (take_bit 6 (drop_bit 6 c)) OR take_bit 6 c :: u32) n = bit (take_bit 24 c) n"
    using \<open>n < LENGTH(32)\<close> by cases (auto simp: bit_simps)
qed
lemma bytes_of_chunk:
  fixes x y z :: u8
  defines "c \<equiv> push_bit 16 (ucast x) OR push_bit 8 (ucast y) OR (ucast z :: u32)"
  shows "take_bit 24 c = c" "ucast (drop_bit 16 c) = x" "ucast (drop_bit 8 c) = y" "ucast c = z"
  unfolding c_def
  by (rule bit_word_eqI, auto simp: bit_simps dest: bit_imp_le_length)+

lemma pad_value: "base64_value 0x3D = 0" by (simp add: base64_value_def)

lemma short_chunks:
  fixes x y :: u8
  shows "take_bit 6 (push_bit 16 (ucast x) :: u32) = 0"
    "take_bit 6 (drop_bit 6 (push_bit 16 (ucast x) :: u32)) = 0"
    "take_bit 6 (push_bit 16 (ucast x) OR push_bit 8 (ucast y) :: u32) = 0"
  by (rule bit_word_eqI, auto simp: bit_simps)+

lemma decode_two:
  fixes c :: u32
  assumes "take_bit 24 c = c" "take_bit 6 c = 0"
  shows "base64_decode [base64_char c 18, base64_char c 12, base64_char c 6, 0x3D] =
    [ucast (drop_bit 16 c), ucast (drop_bit 8 c)]"
  using chunk_join [of c] assms by (simp add: base64_char_not_pad value_char pad_value)

lemma decode_groups: "base64_decode (base64_groups d) = d"
proof (induction d rule: base64_groups.induct)
  case (1 x y z rest)
  show ?case
    by (simp only: base64_groups.simps Let_def append.simps base64_decode.simps value_char
        base64_char_not_pad not_False_eq_True if_True 1 chunk_join drop_bit_0 id_apply
        bytes_of_chunk)
next
  case (2 x)
  show ?case
    using bytes_of_chunk(1,2)[of x 0 0] chunk_join [of "push_bit 16 (ucast x)"] short_chunks(1,2)[of x]
    by (simp add: base64_char_not_pad value_char pad_value Let_def)
next
  case (3 x y)
  let ?c = "push_bit 16 (ucast x) OR push_bit 8 (ucast y) :: u32"
  have "take_bit 24 ?c = ?c" "ucast (drop_bit 16 ?c) = x" "ucast (drop_bit 8 ?c) = y"
    using bytes_of_chunk(1-3)[of x y 0] by simp_all
  with decode_two [of ?c] short_chunks(3)[of x y] show ?case
    by (simp only: base64_groups.simps Let_def)
next
  case 4
  show ?case by simp
qed

lemma length_groups: "length (base64_groups d) = websocket_base64_encoded_len (length d)"
proof (induction d rule: base64_groups.induct)
  case (1 x y z rest)
  have "(length rest + 2 + 3) div 3 = (length rest + 2) div 3 + 1" by simp
  with 1 show ?case by (simp add: websocket_base64_encoded_len_def Let_def)
qed (simp_all add: websocket_base64_encoded_len_def Let_def)

lemma base64_groups_range: "set (base64_groups d) \<subseteq> insert 0x3D (set base64_alphabet)"
  by (induction d rule: base64_groups.induct) (auto simp: Let_def base64_char_in)

text \<open>The base64 encoder refuses exactly the buffers with no room for the text and its NUL;
  otherwise it writes the promised number of characters, all of the alphabet or padding, and an RFC
  4648 decoder reads the very input back.\<close>

theorem base64_round_trip:
  "case websocket_base64_encode data out_cap of
     None \<Rightarrow> out_cap \<le> websocket_base64_encoded_len (length data)
   | Some s \<Rightarrow> length s = websocket_base64_encoded_len (length data) \<and> length s < out_cap \<and>
       set s \<subseteq> insert 0x3D (set base64_alphabet) \<and> base64_decode s = data"
  using base64_groups_range [of data]
  by (simp add: websocket_base64_encode_def decode_groups length_groups split: option.split)

text \<open>The accept value of a key that fits is the encoded digest: 28 characters, and the digest of the
  key and the GUID can be read back from it.\<close>

lemma accept_value_digest:
  assumes "length key < 220" "29 \<le> out_cap"
  obtains s where "websocket_accept_value key out_cap = Some s" "length s = 28"
    "base64_decode s = websocket_sha1 (key @ websocket_guid)"
proof -
  have guid: "length websocket_guid = 36" by (simp add: websocket_guid_def ascii_def)
  let ?s = "base64_groups (websocket_sha1 (key @ websocket_guid))"
  have "length ?s = 28"
    by (simp add: length_groups length_websocket_sha1 websocket_base64_encoded_len_def)
  moreover have "websocket_accept_value key out_cap = Some ?s"
    using assms guid
    by (simp add: websocket_accept_value_def websocket_base64_encode_def length_websocket_sha1
        websocket_base64_encoded_len_def)
  ultimately show thesis using that decode_groups by blast
qed

end
