(* ===== verification/C_Text.thy ===== *)
theory C_Text
  imports Prelude
begin

text \<open>
  What the parsers and printers take from the C library: the character classes, \<open>strtol\<close> and \<open>strtoul\<close> with
  a 64-bit \<open>long\<close>, the conversion of a \<open>long\<close> to an \<open>int\<close>, and \<open>%d\<close>. A string is a list of characters, a byte
  each, without its terminating zero. Nothing in this theory models code of the repository.
\<close>

subsection \<open>Characters and numbers\<close>

definition isspace :: "char \<Rightarrow> bool" where
  "isspace c \<longleftrightarrow> c \<in> {CHR '' '', CHR 0x09, CHR 0x0A, CHR 0x0B, CHR 0x0C, CHR 0x0D}"

definition isdigit :: "char \<Rightarrow> bool" where
  "isdigit c \<longleftrightarrow> 48 \<le> (of_char c :: nat) \<and> of_char c \<le> (57 :: nat)"

definition digits_number :: "string \<Rightarrow> nat" where
  "digits_number ds = foldl (\<lambda>n c. 10 * n + (of_char c - 48)) 0 ds"

text \<open>\<open>strtol(text, &end, 10)\<close>: the number, the rest at \<open>end\<close>, and whether it was out of range; \<open>None\<close> when
  \<open>end\<close> is \<open>text\<close>.\<close>

definition strtol :: "string \<Rightarrow> (int \<times> string \<times> bool) option" where
  "strtol s =
     (let s = dropWhile isspace s;
          (negative, ds) = (case s of [] \<Rightarrow> (False, s)
            | c # cs \<Rightarrow> if c = CHR ''-'' then (True, cs) else if c = CHR ''+'' then (False, cs) else (False, s));
          digits = takeWhile isdigit ds
      in if digits = [] then None
         else let n = (if negative then - int (digits_number digits) else int (digits_number digits));
                  v = max (- (2 ^ 63)) (min (2 ^ 63 - 1) n)
              in Some (v, dropWhile isdigit ds, v \<noteq> n))"

text \<open>\<open>strtoul\<close> of a string that starts with a digit.\<close>

definition strtoul :: "string \<Rightarrow> nat \<times> string \<times> bool" where
  "strtoul s =
     (let n = digits_number (takeWhile isdigit s); v = min (2 ^ 64 - 1) n in (v, dropWhile isdigit s, v \<noteq> n))"

text \<open>The conversion of a \<open>long\<close> to \<open>int\<close>.\<close>

definition to_int :: "int \<Rightarrow> int" where
  "to_int v = sint (word_of_int v :: 32 word)"

definition digit_char :: "nat \<Rightarrow> char" where
  "digit_char d = char_of (48 + d)"

fun decimal :: "nat \<Rightarrow> string" where
  "decimal n = (if n < 10 then [digit_char n] else decimal (n div 10) @ [digit_char (n mod 10)])"

declare decimal.simps [simp del]

definition signed_decimal :: "int \<Rightarrow> string" where
  "signed_decimal v = (if v < 0 then CHR ''-'' # decimal (nat (- v)) else decimal (nat v))"

subsection \<open>What is printed is read\<close>

lemma of_char_digit: "d < 10 \<Longrightarrow> of_char (digit_char d) = 48 + d"
  by (simp add: digit_char_def)

lemma decimal_props:
  "list_all isdigit (decimal n)" "decimal n \<noteq> []" "digits_number (decimal n) = n"
  "n < 10 ^ k \<Longrightarrow> 0 < k \<Longrightarrow> length (decimal n) \<le> k"
proof -
  have d: "isdigit (digit_char d)" if "d < 10" for d
    using that by (simp add: isdigit_def of_char_digit)
  show "list_all isdigit (decimal n)"
    by (induction n rule: decimal.induct) (subst decimal.simps, simp add: d)
  show "decimal n \<noteq> []" by (subst decimal.simps) simp
  show "digits_number (decimal n) = n"
    by (induction n rule: decimal.induct) (subst decimal.simps, simp add: digits_number_def of_char_digit)
  show "n < 10 ^ k \<Longrightarrow> 0 < k \<Longrightarrow> length (decimal n) \<le> k"
  proof (induction n arbitrary: k rule: decimal.induct)
    case (1 n)
    show ?case
    proof (cases "n < 10")
      case False
      then obtain j where k: "k = Suc j" "0 < j" using 1(2) by (cases k; cases "k - 1") auto
      then have "length (decimal (n div 10)) \<le> j"
        using 1(1) [OF False, of j] 1(2) by (simp add: div_less_iff_less_mult mult.commute)
      then show ?thesis using False k by (subst decimal.simps) simp
    qed (use 1 in \<open>subst decimal.simps, simp\<close>)
  qed
qed

lemma digit_not_space: "isdigit c \<Longrightarrow> \<not> isspace c" "isdigit c \<Longrightarrow> 32 < (of_char c :: nat)"
  "isdigit c \<Longrightarrow> c \<noteq> CHR ''-''" "isdigit c \<Longrightarrow> c \<noteq> CHR ''+''"
  by (auto simp: isdigit_def isspace_def)

lemma takeWhile_all: "list_all P xs \<Longrightarrow> takeWhile P xs = xs" "list_all P xs \<Longrightarrow> dropWhile P xs = []"
  by (auto simp: list_all_iff)

lemma dropWhile_hd: "xs = [] \<or> \<not> P (hd xs) \<Longrightarrow> dropWhile P xs = xs"
  by (cases xs) auto

lemma takeWhile_hd: "xs = [] \<or> \<not> P (hd xs) \<Longrightarrow> takeWhile P xs = []"
  by (cases xs) auto

lemma hd_decimal: "isdigit (hd (decimal n))"
  using decimal_props(1,2) [of n] by (cases "decimal n") auto

lemma strtol_decimal_rest:
  assumes "- (2 ^ 63) \<le> v" "v < 2 ^ 63" "rest = [] \<or> \<not> isdigit (hd rest)"
  shows "strtol (signed_decimal v @ rest) = Some (v, rest, False)"
proof -
  have n: "takeWhile isdigit (decimal n @ rest) = decimal n" "dropWhile isdigit (decimal n @ rest) = rest"
    "dropWhile isspace (decimal n @ rest) = decimal n @ rest" for n
    using decimal_props [of n] hd_decimal [of n] assms(3)
    by (simp_all add: takeWhile_append2 dropWhile_append2 list_all_iff takeWhile_hd dropWhile_hd digit_not_space(1) hd_append)
  have sign: "(case decimal n @ rest of [] \<Rightarrow> (False, decimal n @ rest)
      | c # cs \<Rightarrow> if c = CHR ''-'' then (True, cs) else if c = CHR ''+'' then (False, cs) else (False, decimal n @ rest)) =
      (False, decimal n @ rest)" for n
    using hd_decimal [of n] decimal_props(2) [of n] by (cases "decimal n") (auto dest: digit_not_space(3,4))
  have dash: "dropWhile isspace (CHR ''-'' # decimal n @ rest) = CHR ''-'' # decimal n @ rest" for n
    by (simp add: isspace_def)
  have pos: "strtol (decimal n @ rest) = Some (int n, rest, False)" if "n < 2 ^ 63" for n
    unfolding strtol_def Let_def n(3) sign prod.case n(1,2)
    using that decimal_props(2,3) [of n] by (simp add: min_def max_def)
  have neg: "strtol (CHR ''-'' # decimal n @ rest) = Some (- int n, rest, False)" if "n \<le> 2 ^ 63" for n
    unfolding strtol_def Let_def dash list.case simp_thms if_True prod.case n(1,2)
    using that decimal_props(2,3) [of n] by (simp add: min_def max_def)
  show ?thesis
    using assms pos [of "nat v"] neg [of "nat (- v)"] by (auto simp: signed_decimal_def nat_less_iff nat_le_iff)
qed

lemma strtol_decimal: "- (2 ^ 63) \<le> v \<Longrightarrow> v < 2 ^ 63 \<Longrightarrow> strtol (signed_decimal v) = Some (v, [], False)"
  using strtol_decimal_rest [of v "[]"] by simp

lemma to_int_same: "- (2 ^ 31) \<le> v \<Longrightarrow> v < 2 ^ 31 \<Longrightarrow> to_int v = v"
  unfolding to_int_def by (simp add: sint_sbintrunc' signed_take_bit_int_eq_self)

lemma to_int_range: "- (2 ^ 31) \<le> to_int v" "to_int v < 2 ^ 31"
  using sint_ge [of "word_of_int v :: 32 word"] sint_lt [of "word_of_int v :: 32 word"]
  by (simp_all add: to_int_def)

end
