(* ===== verification/Websocket_Http.thy ===== *)
theory Websocket_Http
  imports Websocket_Crypto C_Text
begin

text \<open>
  The one HTTP request \<open>src/src/server/websocket.c\<close> reads. A \<open>const char *\<close> with its length is the
  list of the bytes it points at; a search that returns a pointer or NULL returns the offset of the
  hit, or \<open>None\<close>. The parse results 0 and -1 are \<open>Request_incomplete\<close> and \<open>Request_malformed\<close>.
\<close>

subsection \<open>Searching\<close>

text \<open>The offset just past the first blank line.\<close>

fun header_end :: "u8 list \<Rightarrow> nat option" where
  "header_end (a # b # c # d # rest) =
     (if a = 0x0D \<and> b = 0x0A \<and> c = 0x0D \<and> d = 0x0A then Some 4
      else map_option Suc (header_end (b # c # d # rest)))"
| "header_end _ = None"

fun find_crlf :: "u8 list \<Rightarrow> nat option" where
  "find_crlf (a # b # rest) =
     (if a = 0x0D \<and> b = 0x0A then Some 0 else map_option Suc (find_crlf (b # rest)))"
| "find_crlf _ = None"

text \<open>\<open>memchr\<close> of the C library.\<close>

fun memchr :: "u8 \<Rightarrow> u8 list \<Rightarrow> nat option" where
  "memchr c [] = None"
| "memchr c (x # xs) = (if x = c then Some 0 else map_option Suc (memchr c xs))"

definition ci_lower :: "u8 \<Rightarrow> u8" where
  "ci_lower a = (if 0x41 \<le> a \<and> a \<le> 0x5A then a - 0x41 + 0x61 else a)"

definition ci_char_eq :: "u8 \<Rightarrow> u8 \<Rightarrow> bool" where
  "ci_char_eq a b \<longleftrightarrow> ci_lower a = ci_lower b"

definition ci_eq :: "u8 list \<Rightarrow> u8 list \<Rightarrow> bool" where
  "ci_eq a b \<longleftrightarrow> length a = length b \<and> list_all2 ci_char_eq a b"

subsection \<open>The request\<close>

definition WEBSOCKET_MAX_HEADERS :: nat where "WEBSOCKET_MAX_HEADERS = 32"

record websocket_header =
  name :: "u8 list"
  hvalue :: "u8 list"

record websocket_request =
  req_method :: "u8 list"
  path :: "u8 list"
  headers :: "websocket_header list"

datatype request_result =
  Request_incomplete
| Request_malformed
| Request_parsed int websocket_request

text \<open>
  The loop over the header lines. \<open>block\<close> is what lies between the cursor and the end of the
  header block, so \<open>cursor < buf + header_block_end - 2\<close> is \<open>2 < length block\<close>. \<open>None\<close> is -1.
\<close>

function header_lines :: "u8 list \<Rightarrow> websocket_header list \<Rightarrow> websocket_header list option" where
  "header_lines block acc =
     (if length block \<le> 2 then Some acc
      else case find_crlf block of
        None \<Rightarrow> Some acc
      | Some eol \<Rightarrow>
          if eol = 0 then Some acc
          else case memchr 0x3A (take eol block) of
            None \<Rightarrow> None
          | Some colon \<Rightarrow>
              if length acc \<ge> WEBSOCKET_MAX_HEADERS then None
              else header_lines (drop (eol + 2) block)
                (acc @ [\<lparr>name = take colon block,
                         hvalue = dropWhile (\<lambda>c. c = 0x20) (drop (colon + 1) (take eol block))\<rparr>]))"
  by pat_completeness auto
termination by (relation "measure (\<lambda>(block, acc). length block)") auto

declare header_lines.simps [simp del]

definition websocket_request_parse :: "u8 list \<Rightarrow> request_result" where
  "websocket_request_parse buf =
     (case header_end buf of
        None \<Rightarrow> Request_incomplete
      | Some header_block_end \<Rightarrow>
          (case find_crlf buf of
             None \<Rightarrow> Request_malformed
           | Some line_end \<Rightarrow>
               (case memchr 0x20 (take line_end buf) of
                  None \<Rightarrow> Request_malformed
                | Some sp1 \<Rightarrow>
                    (case memchr 0x20 (drop (sp1 + 1) (take line_end buf)) of
                       None \<Rightarrow> Request_malformed
                     | Some path_len \<Rightarrow>
                         (case header_lines (drop (line_end + 2) (take header_block_end buf)) [] of
                            None \<Rightarrow> Request_malformed
                          | Some hs \<Rightarrow> Request_parsed (to_int (int header_block_end))
                              \<lparr>req_method = take sp1 buf, path = take path_len (drop (sp1 + 1) buf),
                               headers = hs\<rparr>)))))"

definition websocket_request_header :: "websocket_request \<Rightarrow> u8 list \<Rightarrow> websocket_header option" where
  "websocket_request_header req n = find (\<lambda>h. ci_eq (name h) n) (headers req)"

subsection \<open>The upgrade test\<close>

definition trim_spaces :: "u8 list \<Rightarrow> u8 list" where
  "trim_spaces s = rev (dropWhile (\<lambda>c. c = 0x20) (rev (dropWhile (\<lambda>c. c = 0x20) s)))"

text \<open>The scan over \<open>i\<close>; \<open>piece\<close> is \<open>value[start..i)\<close>.\<close>

fun token_scan :: "u8 list \<Rightarrow> u8 list \<Rightarrow> u8 list \<Rightarrow> bool" where
  "token_scan piece [] token = ci_eq (trim_spaces piece) token"
| "token_scan piece (c # cs) token =
     (if c = 0x2C then ci_eq (trim_spaces piece) token \<or> token_scan [] cs token
      else token_scan (piece @ [c]) cs token)"

definition token_list_contains :: "u8 list \<Rightarrow> u8 list \<Rightarrow> bool" where
  "token_list_contains v token = token_scan [] v token"

definition websocket_request_is_upgrade :: "websocket_request \<Rightarrow> bool" where
  "websocket_request_is_upgrade req =
     (case (websocket_request_header req (ascii ''Upgrade''),
            websocket_request_header req (ascii ''Connection'')) of
        (Some upgrade, Some connection) \<Rightarrow>
          ci_eq (hvalue upgrade) (ascii ''websocket'') \<and>
          token_list_contains (hvalue connection) (ascii ''Upgrade'')
      | _ \<Rightarrow> False)"

subsection \<open>Facts about the searches\<close>

lemma memchr_append: "c \<notin> set xs \<Longrightarrow> memchr c (xs @ c # ys) = Some (length xs)"
  by (induction xs) auto

lemma memchr_none: "memchr c xs = None \<longleftrightarrow> c \<notin> set xs"
  by (induction xs) auto

lemma find_crlf_append:
  "0x0D \<notin> set xs \<Longrightarrow> find_crlf (xs @ 0x0D # 0x0A # ys) = Some (length xs)"
proof (induction xs)
  case (Cons x xs)
  then show ?case by (cases xs) auto
qed simp

lemma header_end_other: "x \<noteq> 0x0D \<Longrightarrow> header_end (x # zs) = map_option Suc (header_end zs)"
  by (cases "x # zs" rule: header_end.cases) auto

lemma header_end_lf: "header_end (0x0A # zs) = map_option Suc (header_end zs)"
  by (simp add: header_end_other)

lemma header_end_skip:
  assumes "0x0D \<notin> set xs"
  shows "header_end (xs @ zs) = map_option (\<lambda>n. length xs + n) (header_end zs)"
  using assms
proof (induction xs)
  case Nil
  show ?case by (cases "header_end zs") simp_all
next
  case (Cons x xs)
  then show ?case by (simp add: header_end_other option.map_comp comp_def)
qed

lemma header_end_line:
  assumes "0x0D \<notin> set xs" "y \<noteq> 0x0D"
  shows "header_end (xs @ 0x0D # 0x0A # y # ys) = map_option (\<lambda>n. length xs + 2 + n) (header_end (y # ys))"
proof -
  have step: "header_end (0x0D # 0x0A # y # ys) = map_option (\<lambda>n. 2 + n) (header_end (y # ys))"
  proof (cases ys)
    case (Cons z zs)
    then show ?thesis using assms(2)
      by (cases "header_end (y # z # zs)") (simp_all add: header_end_lf)
  qed simp
  show ?thesis
    by (simp add: header_end_skip [OF assms(1)] step option.map_comp comp_def add.assoc)
qed

lemma header_end_bound: "header_end buf = Some n \<Longrightarrow> 4 \<le> n \<and> n \<le> length buf"
  by (induction buf arbitrary: n rule: header_end.induct) (force split: if_splits)+

lemma header_end_prefix:
  "header_end buf = Some n \<Longrightarrow> header_end (take m buf) = (if m < n then None else Some n)"
proof (induction buf arbitrary: n m rule: header_end.induct)
  case (1 a b c d rest)
  show ?case
  proof (cases m)
    case (Suc m')
    show ?thesis
    proof (cases "a = 0x0D \<and> b = 0x0A \<and> c = 0x0D \<and> d = 0x0A")
      case True
      with 1 Suc show ?thesis by (auto simp: take_Cons' )
    next
      case False
      with 1(2) obtain k where k: "n = Suc k" "header_end (b # c # d # rest) = Some k" by auto
      note ih = 1(1) [OF False k(2), of m']
      have "header_end (a # zs) = map_option Suc (header_end zs)"
        if "zs = take m' (b # c # d # rest)" for zs
        unfolding that using False by (auto simp: take_Cons')
      with ih k Suc show ?thesis by simp
    qed
  qed (use 1 header_end_bound in fastforce)
qed auto

subsection \<open>Requests as a client writes them\<close>

abbreviation CRLF :: "u8 list" where "CRLF \<equiv> [0x0D, 0x0A]"

definition header_text :: "websocket_header \<Rightarrow> u8 list" where
  "header_text h = name h @ [0x3A, 0x20] @ hvalue h"

definition request_text :: "websocket_request \<Rightarrow> u8 list \<Rightarrow> u8 list" where
  "request_text req version =
     req_method req @ [0x20] @ path req @ [0x20] @ version @ CRLF
       @ concat (map (\<lambda>h. header_text h @ CRLF) (headers req)) @ CRLF"

definition header_ok :: "websocket_header \<Rightarrow> bool" where
  "header_ok h \<longleftrightarrow> 0x0D \<notin> set (name h) \<and> 0x0D \<notin> set (hvalue h) \<and> 0x3A \<notin> set (name h) \<and>
     (hvalue h = [] \<or> hd (hvalue h) \<noteq> 0x20)"

definition request_ok :: "websocket_request \<Rightarrow> u8 list \<Rightarrow> bool" where
  "request_ok req version \<longleftrightarrow> {0x0D, 0x20} \<inter> set (req_method req) = {} \<and> {0x0D, 0x20} \<inter> set (path req) = {} \<and>
     0x0D \<notin> set version \<and> list_all header_ok (headers req)"

lemma header_text_no_cr: "header_ok h \<Longrightarrow> 0x0D \<notin> set (header_text h)"
  by (auto simp: header_ok_def header_text_def)

lemma header_text_cons:
  assumes "header_ok h"
  obtains y ys where "header_text h = y # ys" "y \<noteq> 0x0D"
proof -
  have "header_text h \<noteq> []" by (simp add: header_text_def)
  then obtain y ys where y: "header_text h = y # ys" by (cases "header_text h") auto
  with header_text_no_cr [OF assms] have "y \<noteq> 0x0D" by auto
  with y show thesis by (rule that)
qed

lemma header_end_request:
  assumes "0x0D \<notin> set line" "list_all header_ok hs"
  shows "header_end (line @ CRLF @ concat (map (\<lambda>h. header_text h @ CRLF) hs) @ CRLF @ body) =
    Some (length line + 4 + length (concat (map (\<lambda>h. header_text h @ CRLF) hs)))"
  using assms
proof (induction hs arbitrary: line)
  case Nil
  then show ?case by (simp add: header_end_skip)
next
  case (Cons h hs)
  then have ok: "header_ok h" "list_all header_ok hs" by simp_all
  obtain y ys where y: "header_text h = y # ys" "y \<noteq> 0x0D" by (rule header_text_cons [OF ok(1)])
  note ih = Cons.IH [OF header_text_no_cr [OF ok(1)] ok(2)]
  have "header_end (line @ CRLF @ header_text h @ zs) =
      map_option (\<lambda>n. length line + 2 + n) (header_end (header_text h @ zs))" for zs
    using header_end_line [OF Cons.prems(1) y(2)] y(1) by simp
  with ih show ?case by simp
qed

lemma header_lines_text:
  assumes "list_all header_ok hs" "length acc \<le> WEBSOCKET_MAX_HEADERS"
  shows "header_lines (concat (map (\<lambda>h. header_text h @ CRLF) hs) @ CRLF) acc =
    (if length acc + length hs \<le> WEBSOCKET_MAX_HEADERS then Some (acc @ hs) else None)"
  using assms
proof (induction hs arbitrary: acc)
  case Nil
  then show ?case by (simp add: header_lines.simps)
next
  case (Cons h hs)
  let ?rest = "concat (map (\<lambda>h. header_text h @ CRLF) hs) @ CRLF"
  let ?block = "header_text h @ 0x0D # 0x0A # ?rest"
  from Cons.prems have ok: "header_ok h" by simp
  have eol: "find_crlf ?block = Some (length (header_text h))"
    by (rule find_crlf_append [OF header_text_no_cr [OF ok]])
  have colon: "memchr 0x3A (header_text h) = Some (length (name h))"
    using ok memchr_append [of "0x3A" "name h"] by (simp add: header_ok_def header_text_def)
  have val: "dropWhile (\<lambda>c. c = 0x20) (drop (length (name h) + 1) (header_text h)) = hvalue h"
    using ok by (cases "hvalue h") (simp_all add: header_ok_def header_text_def)
  have nam: "take (length (name h)) ?block = name h"
    by (simp add: header_text_def)
  have same: "\<lparr>name = name h, hvalue = hvalue h\<rparr> = h" by (cases h) simp
  have take_append_length: "take (length (header_text h)) ?block = header_text h" by simp
  have len: "2 < length ?block" "length (header_text h) \<noteq> 0" by (simp_all add: header_text_def)
  have step: "header_lines ?block acc =
      (if length acc \<ge> WEBSOCKET_MAX_HEADERS then None else header_lines ?rest (acc @ [h]))"
    unfolding header_lines.simps [of ?block] eol option.case take_append_length colon nam val
    using len by (simp add: same)
  show ?case
  proof (cases "length acc \<ge> WEBSOCKET_MAX_HEADERS")
    case True
    with step show ?thesis by simp
  next
    case False
    have "header_lines ?rest (acc @ [h]) =
      (if length (acc @ [h]) + length hs \<le> WEBSOCKET_MAX_HEADERS then Some ((acc @ [h]) @ hs) else None)"
      by (rule Cons.IH) (use Cons.prems False in auto)
    with step False show ?thesis by simp
  qed
qed

lemma header_end_request_text:
  assumes "request_ok req version"
  shows "header_end (request_text req version @ body) = Some (length (request_text req version))"
proof -
  let ?line = "req_method req @ [0x20] @ path req @ [0x20] @ version"
  have "0x0D \<notin> set ?line" "list_all header_ok (headers req)" using assms by (auto simp: request_ok_def)
  from header_end_request [OF this, of body] show ?thesis by (simp add: request_text_def)
qed

lemma after_line: "drop (length l + 2) (l @ CRLF @ ys) = ys"
  by simp

lemma parse_request_text:
  assumes "request_ok req version"
  shows "websocket_request_parse (request_text req version @ body) =
    (if length (headers req) \<le> WEBSOCKET_MAX_HEADERS
     then Request_parsed (to_int (int (length (request_text req version)))) req else Request_malformed)"
proof -
  let ?line = "req_method req @ [0x20] @ path req @ [0x20] @ version"
  let ?hs = "concat (map (\<lambda>h. header_text h @ CRLF) (headers req)) @ CRLF"
  have shape: "request_text req version = ?line @ CRLF @ ?hs" by (simp add: request_text_def)
  have cr: "0x0D \<notin> set ?line" using assms by (auto simp: request_ok_def)
  have sp: "0x20 \<notin> set (req_method req)" "0x20 \<notin> set (path req)" using assms by (auto simp: request_ok_def)
  have eol: "find_crlf (request_text req version @ body) = Some (length ?line)"
    using find_crlf_append [OF cr, of "?hs @ body"] shape by simp
  have line: "take (length ?line) (request_text req version @ body) = ?line" unfolding shape by simp
  have sp1: "memchr 0x20 ?line = Some (length (req_method req))"
    using memchr_append [OF sp(1)] by simp
  have sp2: "memchr 0x20 (drop (length (req_method req) + 1) ?line) = Some (length (path req))"
    using memchr_append [OF sp(2)] by simp
  have block: "drop (length ?line + 2) (request_text req version) = ?hs"
    using after_line [of ?line ?hs] shape by (simp only: append_assoc)
  have hs: "header_lines ?hs [] = (if length (headers req) \<le> WEBSOCKET_MAX_HEADERS then Some (headers req) else None)"
    using header_lines_text [of "headers req" "[]"] assms by (simp add: request_ok_def)
  have m: "take (length (req_method req)) (request_text req version @ body) = req_method req"
    "take (length (path req)) (drop (length (req_method req) + 1) (request_text req version @ body)) = path req"
    unfolding shape by simp_all
  show ?thesis
    unfolding websocket_request_parse_def header_end_request_text [OF assms] eol option.case line sp1 sp2 m
    by (simp only: take_append take_all [OF order_refl] diff_self_eq_0 take_0 append_Nil2 block hs) simp
qed

text \<open>C33: A well-formed request is parsed back exactly, whatever follows it on the connection and
  however much of it has arrived: every strict prefix asks for more, and from its last byte on the
  parse reports precisely the request's bytes, as the \<open>int\<close> its length converts to, and returns its method, path and
  headers, or refuses a request with more headers than the table holds.\<close>

theorem websocket_request_parse_print:
  assumes "request_ok req version"
  shows "websocket_request_parse (take n (request_text req version @ body)) =
    (if n < length (request_text req version) then Request_incomplete
     else if length (headers req) \<le> WEBSOCKET_MAX_HEADERS
     then Request_parsed (to_int (int (length (request_text req version)))) req
     else Request_malformed)"
proof (cases "n < length (request_text req version)")
  case True
  then show ?thesis
    using header_end_prefix [OF header_end_request_text [OF assms, of body], of n]
    by (simp add: websocket_request_parse_def)
next
  case False
  then have "take n (request_text req version @ body) =
      request_text req version @ take (n - length (request_text req version)) body" by simp
  with parse_request_text [OF assms] False show ?thesis by (simp only:) simp
qed

definition upgrade_request :: websocket_request where
  "upgrade_request = \<lparr>req_method = ascii ''GET'', path = ascii ''/ws'',
     headers = [\<lparr>name = ascii ''upgrade'', hvalue = ascii ''WebSocket''\<rparr>,
                \<lparr>name = ascii ''Connection'', hvalue = ascii ''keep-alive, Upgrade''\<rparr>]\<rparr>"

lemma upgrade_request_ok: "request_ok upgrade_request (ascii ''HTTP/1.1'')"
  by (simp add: request_ok_def upgrade_request_def header_ok_def ascii_def)

theorem websocket_request_parse_print_witness:
  "websocket_request_parse (request_text upgrade_request (ascii ''HTTP/1.1'') @ [1, 2, 3]) =
     Request_parsed (int (length (request_text upgrade_request (ascii ''HTTP/1.1'')))) upgrade_request"
  using websocket_request_parse_print
    [OF upgrade_request_ok, of "length (request_text upgrade_request (ascii ''HTTP/1.1'') @ [1, 2, 3])" "[1, 2, 3]"]
  by (simp add: WEBSOCKET_MAX_HEADERS_def upgrade_request_def request_text_def header_text_def ascii_def to_int_same)

subsection \<open>The token list\<close>

text \<open>The specification: split at the commas, trim each piece, compare.\<close>

fun comma_pieces :: "u8 list \<Rightarrow> u8 list list" where
  "comma_pieces [] = [[]]"
| "comma_pieces (c # cs) =
     (if c = 0x2C then [] # comma_pieces cs
      else (c # hd (comma_pieces cs)) # tl (comma_pieces cs))"

lemma comma_pieces_nonempty: "comma_pieces cs \<noteq> []"
  by (cases cs) auto

lemma token_scan_pieces:
  "token_scan piece cs token \<longleftrightarrow>
     ci_eq (trim_spaces (piece @ hd (comma_pieces cs))) token \<or>
     list_ex (\<lambda>p. ci_eq (trim_spaces p) token) (tl (comma_pieces cs))"
proof (induction cs arbitrary: piece)
  case (Cons c cs)
  have "list_ex P (comma_pieces cs) \<longleftrightarrow> P (hd (comma_pieces cs)) \<or> list_ex P (tl (comma_pieces cs))" for P
    using comma_pieces_nonempty [of cs] by (cases "comma_pieces cs") auto
  with Cons show ?case by simp
qed simp

text \<open>The in-place scan for a token of a comma-separated header is the specification that splits
  the value at its commas and compares each trimmed piece without regard to case.\<close>

lemma token_list_contains_pieces:
  "token_list_contains v token \<longleftrightarrow> list_ex (\<lambda>p. ci_eq (trim_spaces p) token) (comma_pieces v)"
  using comma_pieces_nonempty [of v]
  by (cases "comma_pieces v") (simp_all add: token_list_contains_def token_scan_pieces)

lemma upgrade_request_is_upgrade: "websocket_request_is_upgrade upgrade_request"
  by (simp add: websocket_request_is_upgrade_def websocket_request_header_def upgrade_request_def
      ci_eq_def ci_char_eq_def ci_lower_def token_list_contains_def trim_spaces_def ascii_def)

end
