(* ===== verification/Websocket_Frames.thy ===== *)
theory Websocket_Frames
  imports Websocket_Http
begin

text \<open>
  Frames and message reassembly of \<open>src/src/server/websocket.c\<close>. The decoder works on the receive
  buffer in place, so its model returns the buffer as it leaves it; the pointer it hands out is the
  unmasked slice of that buffer. Lengths are 64-bit words where the C arithmetic is.
\<close>

unbundle bit_operations_syntax

subsection \<open>Decoding\<close>

definition WEBSOCKET_OP_CONTINUATION :: nat where "WEBSOCKET_OP_CONTINUATION = 0"
definition WEBSOCKET_OP_TEXT :: nat where "WEBSOCKET_OP_TEXT = 1"
definition WEBSOCKET_OP_BINARY :: nat where "WEBSOCKET_OP_BINARY = 2"
definition WEBSOCKET_OP_CLOSE :: nat where "WEBSOCKET_OP_CLOSE = 8"
definition WEBSOCKET_OP_PING :: nat where "WEBSOCKET_OP_PING = 9"
definition WEBSOCKET_OP_PONG :: nat where "WEBSOCKET_OP_PONG = 10"

lemmas opcode_defs = WEBSOCKET_OP_CONTINUATION_def WEBSOCKET_OP_TEXT_def WEBSOCKET_OP_BINARY_def
  WEBSOCKET_OP_CLOSE_def WEBSOCKET_OP_PING_def WEBSOCKET_OP_PONG_def

definition known_opcode :: "nat \<Rightarrow> bool" where
  "known_opcode op \<longleftrightarrow>
     op = WEBSOCKET_OP_CONTINUATION \<or> op = WEBSOCKET_OP_TEXT \<or> op = WEBSOCKET_OP_BINARY \<or>
     op = WEBSOCKET_OP_CLOSE \<or> op = WEBSOCKET_OP_PING \<or> op = WEBSOCKET_OP_PONG"

record websocket_frame =
  fin :: bool
  opcode :: nat
  payload :: "u8 list"

text \<open>
  \<open>Frame_incomplete\<close> is the result 0, \<open>Frame_malformed\<close> is -1, and \<open>Frame_decoded n f buf\<close> is
  \<open>n\<close> with the frame in \<open>*out\<close> and the buffer as unmasked. \<open>Frame_overrun\<close> is no return value: the
  unmasking loop wrote outside the buffer, and what the program does then is undefined.
\<close>

datatype decode_result =
  Frame_incomplete
| Frame_malformed
| Frame_overrun
| Frame_decoded nat websocket_frame "u8 list"

text \<open>The big-endian reads \<open>payload_len << 8 | buf[i]\<close>.\<close>

definition read_be :: "u8 list \<Rightarrow> u64" where
  "read_be bs = foldl (\<lambda>acc b. push_bit 8 acc OR ucast b) 0 bs"

text \<open>
  The loop \<open>for (i = 0; i < payload_len; i++) buf[header_len + i] ^= mask_key[i % 4]\<close>, with \<open>n\<close> octets left to do.
  \<open>None\<close> is a write outside the array, which C gives no meaning; the code has no check there and the model adds none.
\<close>

fun unmask_loop :: "u8 list \<Rightarrow> nat \<Rightarrow> nat \<Rightarrow> nat \<Rightarrow> u8 list \<Rightarrow> u8 list option" where
  "unmask_loop key header_len i 0 buf = Some buf"
| "unmask_loop key header_len i (Suc n) buf =
     (if header_len + i < length buf
      then unmask_loop key header_len (i + 1) n (buf[header_len + i := buf ! (header_len + i) XOR key ! (i mod 4)])
      else None)"

text \<open>The length field: the header length so far and the payload length, \<open>None\<close> to read more.\<close>

definition frame_length :: "u8 list \<Rightarrow> (nat \<times> u64) option" where
  "frame_length buf =
     (let len7 = buf ! 1 AND 0x7F
      in if len7 = 126 then
           (if length buf < 2 + 2 then None else Some (4, read_be (take 2 (drop 2 buf))))
         else if len7 = 127 then
           (if length buf < 2 + 8 then None else Some (10, read_be (take 8 (drop 2 buf))))
         else Some (2, ucast len7))"

definition websocket_frame_decode :: "u8 list \<Rightarrow> decode_result" where
  "websocket_frame_decode buf =
     (if length buf < 2 then Frame_incomplete
      else if buf ! 0 AND 0x70 \<noteq> 0 then Frame_malformed
      else let final = (buf ! 0 AND 0x80 \<noteq> 0); op = unat (buf ! 0 AND 0x0F) in
      if \<not> known_opcode op then Frame_malformed
      else let masked = (buf ! 1 AND 0x80 \<noteq> 0) in
      case frame_length buf of
        None \<Rightarrow> Frame_incomplete
      | Some (header_len, payload_len) \<Rightarrow>
          if op \<ge> 8 \<and> (\<not> final \<or> payload_len > 125) then Frame_malformed
          else if \<not> masked then Frame_malformed
          else if length buf < header_len + 4 then Frame_incomplete
          else let mask_key = take 4 (drop header_len buf); header_len = header_len + 4 in
          if of_nat (length buf) < of_nat header_len + payload_len then Frame_incomplete
          else case unmask_loop mask_key header_len 0 (unat payload_len) buf of
            None \<Rightarrow> Frame_overrun
          | Some buf \<Rightarrow> Frame_decoded (header_len + unat payload_len)
              \<lparr>fin = final, opcode = op, payload = take (unat payload_len) (drop header_len buf)\<rparr> buf)"

subsection \<open>Encoding\<close>

definition length_bytes :: "nat \<Rightarrow> u8 list" where
  "length_bytes n =
     (if n \<le> 125 then [of_nat n]
      else if n \<le> 0xFFFF then [126, of_nat (drop_bit 8 n), of_nat n]
      else 127 # map (\<lambda>i. ucast (drop_bit (56 - 8 * i) (of_nat n :: u64))) [0..<8])"

definition websocket_frame_encode :: "nat \<Rightarrow> bool \<Rightarrow> nat \<Rightarrow> u8 list \<Rightarrow> u8 list option" where
  "websocket_frame_encode out_cap final op data =
     (let payload_len = length data;
          header_len = (if payload_len \<le> 125 then 2 else if payload_len \<le> 0xFFFF then 4 else 10)
      in if out_cap < header_len + payload_len then None
         else Some (((if final then 0x80 else 0) OR (of_nat op AND 0x0F))
                    # length_bytes payload_len @ data))"

definition websocket_pong_for :: "nat \<Rightarrow> u8 list \<Rightarrow> u8 list option" where
  "websocket_pong_for out_cap ping = websocket_frame_encode out_cap True WEBSOCKET_OP_PONG ping"

definition websocket_close_frame :: "nat \<Rightarrow> u16 \<Rightarrow> u8 list option" where
  "websocket_close_frame out_cap code =
     websocket_frame_encode out_cap True WEBSOCKET_OP_CLOSE [ucast (drop_bit 8 code), ucast code]"

subsection \<open>Reassembly\<close>

definition WEBSOCKET_MESSAGE_MAX :: nat where "WEBSOCKET_MESSAGE_MAX = 2 ^ 20"

text \<open>\<open>stored\<close> is \<open>buffer[0..length)\<close>; what the buffer holds beyond it is never read.\<close>

record message_assembler =
  stored :: "u8 list"
  first_opcode :: nat
  active :: bool

datatype feed_result = Feed_message nat "u8 list" | Feed_more | Feed_protocol | Feed_too_big

definition websocket_message_feed ::
  "message_assembler \<Rightarrow> websocket_frame \<Rightarrow> feed_result \<times> message_assembler" where
  "websocket_message_feed a frame =
     (let op = opcode frame;
          refused = (if op = WEBSOCKET_OP_CONTINUATION then \<not> active a else active a)
      in if refused then (Feed_protocol, a)
         else let a = (if op = WEBSOCKET_OP_CONTINUATION then a
                       else a\<lparr>active := True, stored := [], first_opcode := op\<rparr>) in
         if length (stored a) + length (payload frame) > WEBSOCKET_MESSAGE_MAX
         then (Feed_too_big, a\<lparr>active := False, stored := []\<rparr>)
         else let a = a\<lparr>stored := stored a @ payload frame\<rparr> in
         if \<not> fin frame then (Feed_more, a)
         else (Feed_message (first_opcode a) (stored a), a\<lparr>active := False, stored := []\<rparr>))"

subsection \<open>Frames as a client writes them\<close>

text \<open>RFC 6455, section 5.2, from the client's side: the mask bit set, the key, the masked payload.\<close>

text \<open>Section 5.3: octet \<open>j\<close> of the masked payload is octet \<open>j\<close> of the payload with octet \<open>j MOD 4\<close> of the key.\<close>

definition mask_octets :: "u8 list \<Rightarrow> u8 list \<Rightarrow> u8 list" where
  "mask_octets key bs = map (\<lambda>(j, b). b XOR key ! (j mod 4)) (enumerate 0 bs)"

definition client_frame :: "u8 list \<Rightarrow> websocket_frame \<Rightarrow> u8 list" where
  "client_frame key f =
     ((if fin f then 0x80 else 0) OR of_nat (opcode f))
     # (0x80 OR hd (length_bytes (length (payload f)))) # tl (length_bytes (length (payload f)))
     @ key @ mask_octets key (payload f)"

definition client_frame_ok :: "u8 list \<Rightarrow> websocket_frame \<Rightarrow> bool" where
  "client_frame_ok key f \<longleftrightarrow>
     length key = 4 \<and> known_opcode (opcode f) \<and>
     (8 \<le> opcode f \<longrightarrow> fin f \<and> length (payload f) \<le> 125)"

lemma length_mask_octets [simp]: "length (mask_octets key bs) = length bs"
  by (simp add: mask_octets_def)

lemma nth_mask_octets [simp]: "j < length bs \<Longrightarrow> mask_octets key bs ! j = bs ! j XOR key ! (j mod 4)"
  by (simp add: mask_octets_def nth_enumerate_eq)

lemma mask_octets_twice: "mask_octets key (mask_octets key bs) = bs"
  by (rule nth_equalityI) simp_all

text \<open>The loop masks the octets from where it stands, and steps outside the buffer exactly when they are not all there.\<close>

lemma unmask_loop_nth:
  "unmask_loop key h i n buf = (if h + i + n \<le> length buf \<or> n = 0
     then Some (map (\<lambda>k. if h + i \<le> k \<and> k < h + i + n then buf ! k XOR key ! ((k - h) mod 4) else buf ! k) [0..<length buf])
     else None)"
proof (induction n arbitrary: i buf)
  case 0
  show ?case by (auto intro!: nth_equalityI)
next
  case (Suc n)
  show ?case
  proof (cases "h + i + Suc n \<le> length buf")
    case True
    let ?b = "buf[h + i := buf ! (h + i) XOR key ! (i mod 4)]"
    have "unmask_loop key h i (Suc n) buf = unmask_loop key h (i + 1) n ?b" using True by simp
    also have "\<dots> = Some (map (\<lambda>k. if h + (i + 1) \<le> k \<and> k < h + (i + 1) + n then ?b ! k XOR key ! ((k - h) mod 4) else ?b ! k)
        [0..<length buf])" unfolding Suc.IH using True by simp
    also have "\<dots> = Some (map (\<lambda>k. if h + i \<le> k \<and> k < h + i + Suc n then buf ! k XOR key ! ((k - h) mod 4) else buf ! k)
        [0..<length buf])"
      by (auto simp: nth_list_update intro!: map_cong) (metis le_antisym add_diff_cancel_left' not_less_eq_eq)+
    finally show ?thesis using True by simp
  next
    case False
    then show ?thesis by (auto simp: Suc.IH)
  qed
qed

lemma unmask_loop_octets:
  "h \<le> length buf \<Longrightarrow> unmask_loop key h 0 n buf = (if h + n \<le> length buf
     then Some (take h buf @ mask_octets key (take n (drop h buf)) @ drop (h + n) buf) else None)"
  by (auto simp: unmask_loop_nth nth_append intro!: nth_equalityI)

lemma websocket_frame_decode_eq:
  "websocket_frame_decode buf =
     (if length buf < 2 then Frame_incomplete
      else if buf ! 0 AND 0x70 \<noteq> 0 then Frame_malformed
      else let final = (buf ! 0 AND 0x80 \<noteq> 0); op = unat (buf ! 0 AND 0x0F) in
      if \<not> known_opcode op then Frame_malformed
      else let masked = (buf ! 1 AND 0x80 \<noteq> 0) in
      case frame_length buf of
        None \<Rightarrow> Frame_incomplete
      | Some (header_len, payload_len) \<Rightarrow>
          if op \<ge> 8 \<and> (\<not> final \<or> payload_len > 125) then Frame_malformed
          else if \<not> masked then Frame_malformed
          else if length buf < header_len + 4 then Frame_incomplete
          else let mask_key = take 4 (drop header_len buf); header_len = header_len + 4 in
          if of_nat (length buf) < of_nat header_len + payload_len then Frame_incomplete
          else if length buf < header_len + unat payload_len then Frame_overrun
          else let data = mask_octets mask_key (take (unat payload_len) (drop header_len buf)) in
            Frame_decoded (header_len + unat payload_len)
              \<lparr>fin = final, opcode = op, payload = data\<rparr>
              (take header_len buf @ data @ drop (header_len + unat payload_len) buf))"
  unfolding websocket_frame_decode_def Let_def
  by (auto simp: unmask_loop_octets split: option.split)

lemma read_be_snoc: "read_be (bs @ [b]) = push_bit 8 (read_be bs) OR ucast b"
  by (simp add: read_be_def)

lemma read_be_bytes:
  "read_be (map (\<lambda>i. ucast (drop_bit (8 * (k - 1 - i)) w)) [0..<k]) = take_bit (8 * k) (w :: u64)"
proof (induction k arbitrary: w)
  case 0
  show ?case by (simp add: read_be_def)
next
  case (Suc k)
  have shift: "map (\<lambda>i. ucast (drop_bit (8 * (Suc k - 1 - i)) w)) [0..<k] =
      map (\<lambda>i. ucast (drop_bit (8 * (k - 1 - i)) (drop_bit 8 w)) :: u8) [0..<k]"
  proof (rule map_cong [OF refl])
    fix i assume "i \<in> set [0..<k]"
    then have "8 * (Suc k - 1 - i) = 8 * (k - 1 - i) + 8" by simp
    then show "ucast (drop_bit (8 * (Suc k - 1 - i)) w) =
        (ucast (drop_bit (8 * (k - 1 - i)) (drop_bit 8 w)) :: u8)" by (simp add: drop_bit_drop_bit)
  qed
  have "read_be (map (\<lambda>i. ucast (drop_bit (8 * (Suc k - 1 - i)) w)) [0..<Suc k]) =
      push_bit 8 (take_bit (8 * k) (drop_bit 8 w)) OR ucast (ucast w :: u8)"
    using Suc.IH [of "drop_bit 8 w"] by (simp only: upt_Suc_append [OF le0] map_append shift) (simp add: read_be_snoc)
  also have "\<dots> = take_bit (8 * Suc k) w"
    by (rule bit_word_eqI) (auto simp: bit_simps)
  finally show ?case .
qed

lemma read_be_length:
  assumes "n < 2 ^ 64"
  shows "125 < n \<Longrightarrow> n \<le> 0xFFFF \<Longrightarrow> read_be (tl (length_bytes n)) = of_nat n"
    and "0xFFFF < n \<Longrightarrow> read_be (tl (length_bytes n)) = of_nat n"
proof -
  assume n: "125 < n" "n \<le> 0xFFFF"
  have two: "[0..<2] = [0, 1 :: nat]" by (simp add: numeral_2_eq_2)
  have "read_be [ucast (drop_bit 8 (of_nat n :: u64)), ucast (of_nat n :: u64)] = take_bit 16 (of_nat n)"
    using read_be_bytes [of 2 "of_nat n"] by (simp add: two)
  moreover have "take_bit 16 (of_nat n :: u64) = of_nat n"
    using n by (simp add: take_bit_of_nat take_bit_nat_eq_self)
  moreover have "(of_nat (drop_bit 8 n) :: u8) = ucast (drop_bit 8 (of_nat n :: u64))"
    "(of_nat n :: u8) = ucast (of_nat n :: u64)"
    by (rule bit_word_eqI, use n in \<open>auto simp: bit_simps\<close>)+
  ultimately show "read_be (tl (length_bytes n)) = of_nat n"
    using n by (simp add: length_bytes_def)
next
  assume n: "0xFFFF < n"
  have "56 - 8 * i = 8 * (8 - 1 - i)" if "i < 8" for i :: nat using that by simp
  then have bytes: "map (\<lambda>i. ucast (drop_bit (56 - 8 * i) (of_nat n :: u64))) [0..<8] =
      map (\<lambda>i. ucast (drop_bit (8 * (8 - 1 - i)) (of_nat n :: u64)) :: u8) [0..<8]"
    by (intro map_cong) auto
  have "tl (length_bytes n) =
      map (\<lambda>i. ucast (drop_bit (56 - 8 * i) (of_nat n :: u64))) [0..<8]"
    using n by (simp add: length_bytes_def)
  then show "read_be (tl (length_bytes n)) = of_nat n"
    by (simp only: bytes read_be_bytes) (simp add: take_bit_word_eq_self)
qed

lemma length_tl_length_bytes:
  "length (tl (length_bytes n)) = (if n \<le> 125 then 0 else if n \<le> 0xFFFF then 2 else 8)"
  by (simp add: length_bytes_def)

lemma mask_bit_set: "(0x80 OR b) AND 0x80 \<noteq> (0 :: u8)"
  by (rule notI, drule arg_cong [where f = "\<lambda>w. bit w 7"]) (simp add: bit_simps)

lemma small_length_byte:
  assumes "b \<le> (127 :: u8)"
  shows "(0x80 OR b) AND 0x7F = b"
proof -
  have "unat b < 2 ^ 7" using assms by (simp add: word_le_nat_alt)
  then have "b = take_bit 7 b"
    by (simp add: word_unat_eq_iff unsigned_take_bit_eq take_bit_nat_eq_self)
  moreover have "(0x80 OR b) AND 0x7F = take_bit 7 b"
    using take_bit_eq_mask [of 7 "0x80 OR b"] by (simp add: mask_eq_exp_minus_1 take_bit_or)
  ultimately show ?thesis by simp
qed

lemma length_byte_cases:
  "(0x80 OR hd (length_bytes n)) AND 0x7F =
    (if n \<le> 125 then of_nat n else if n \<le> 0xFFFF then 126 else 127)"
proof -
  have "of_nat n \<le> (127 :: u8)" if "n \<le> 125"
    using that by (simp add: word_le_nat_alt unsigned_of_nat take_bit_nat_eq_self)
  then show ?thesis by (simp add: length_bytes_def small_length_byte)
qed

lemma frame_length_client:
  assumes "n < 2 ^ 64"
  shows "frame_length (b0 # (0x80 OR hd (length_bytes n)) # tl (length_bytes n) @ rest) =
    Some (2 + length (tl (length_bytes n)), of_nat n)"
proof -
  consider "n \<le> 125" | "125 < n" "n \<le> 0xFFFF" | "0xFFFF < n" by linarith
  then show ?thesis
  proof cases
    case 1
    then have "of_nat n \<noteq> (126 :: u8)" "of_nat n \<noteq> (127 :: u8)"
      by (auto dest!: arg_cong [where f = unat] simp: unsigned_of_nat take_bit_nat_eq_self)
    moreover have "unat (of_nat n :: u8) = n" using 1
      by (simp add: unsigned_of_nat take_bit_nat_eq_self)
    then have "ucast (of_nat n :: u8) = (of_nat n :: u64)" by (metis of_nat_unat)
    ultimately show ?thesis using 1 length_byte_cases [of n]
      by (simp add: frame_length_def length_tl_length_bytes) (simp add: length_bytes_def)
  next
    case 2
    then have len: "length (tl (length_bytes n)) = 2" unfolding length_tl_length_bytes by simp
    show ?thesis using 2 len length_byte_cases [of n] read_be_length(1) [OF assms]
      by (simp add: frame_length_def)
  next
    case 3
    then have len: "length (tl (length_bytes n)) = 8" unfolding length_tl_length_bytes by simp
    show ?thesis using 3 len length_byte_cases [of n] read_be_length(2) [OF assms]
      by (simp add: frame_length_def)
  qed
qed

lemma first_byte:
  assumes "known_opcode op"
  shows "((if f then 0x80 else 0) OR of_nat op) AND (0x70 :: u8) = 0"
    "(((if f then 0x80 else 0) OR of_nat op) AND (0x80 :: u8) \<noteq> 0) = f"
    "unat (((if f then 0x80 else 0) OR of_nat op) AND (0x0F :: u8)) = op"
  using assms by (auto simp: known_opcode_def opcode_defs)

lemma of_nat_u64_less:
  assumes "a < 2 ^ 64" "b < 2 ^ 64"
  shows "(of_nat a :: u64) < of_nat b \<longleftrightarrow> a < b"
  using assms by (simp add: word_of_nat_less_iff take_bit_nat_eq_self unsigned_of_nat word_less_nat_alt)

lemma decode_client_frame:
  assumes ok: "client_frame_ok key f" and small: "length (client_frame key f @ rest) < 2 ^ 64"
  shows "websocket_frame_decode (client_frame key f @ rest) =
    Frame_decoded (length (client_frame key f)) f
      (take (length (client_frame key f) - length (payload f)) (client_frame key f) @ payload f @ rest)"
proof -
  let ?n = "length (payload f)"
  define b0 where "b0 = (if fin f then 0x80 else 0) OR (of_nat (opcode f) :: u8)"
  define ext where "ext = tl (length_bytes ?n)"
  define b1 where "b1 = 0x80 OR hd (length_bytes ?n)"
  define head where "head = b0 # b1 # ext"
  define buf where "buf = head @ key @ mask_octets key (payload f) @ rest"
  define h where "h = 2 + length ext"
  have frame: "client_frame key f = head @ key @ mask_octets key (payload f)"
    by (simp add: client_frame_def head_def b0_def b1_def ext_def)
  have hd_len: "length head = h" by (simp add: head_def h_def)
  have key: "length key = 4" using ok by (simp add: client_frame_ok_def)
  have len: "length buf = h + 4 + ?n + length rest" by (simp add: buf_def hd_len key)
  then have small': "h + 4 + ?n + length rest < 2 ^ 64" using small by (simp add: frame buf_def)
  have n: "?n < 2 ^ 64" using small' by simp
  have at: "buf ! 0 = b0" "buf ! 1 = b1" by (simp_all add: buf_def head_def)
  have op: "known_opcode (opcode f)" using ok by (simp add: client_frame_ok_def)
  note bits = first_byte [OF op, of "fin f", folded b0_def]
  have masked: "b1 AND 0x80 \<noteq> 0" unfolding b1_def by (rule mask_bit_set)
  have fl: "frame_length buf = Some (h, of_nat ?n)"
    using frame_length_client [OF n, of b0 "key @ mask_octets key (payload f) @ rest"]
    by (simp add: buf_def head_def b1_def ext_def h_def)
  have k: "take 4 (drop h buf) = key" by (simp add: buf_def key flip: hd_len)
  have body: "take ?n (drop (h + 4) buf) = mask_octets key (payload f)"
    by (simp add: buf_def key flip: hd_len)
  have after: "drop (h + 4 + ?n) buf = rest" by (simp add: buf_def key flip: hd_len)
  have before: "take (h + 4) buf = head @ key" by (simp add: buf_def key flip: hd_len)
  have control: "\<not> (8 \<le> opcode f \<and> (\<not> fin f \<or> (125 :: u64) < of_nat ?n))"
    using ok of_nat_u64_less [of 125 ?n] n by (auto simp: client_frame_ok_def)
  have fits: "\<not> (of_nat (length buf) :: u64) < of_nat (h + 4) + of_nat ?n"
    using of_nat_u64_less [of "length buf" "h + 4 + ?n"] small' len by simp
  have payload: "unat (of_nat ?n :: u64) = ?n"
    using n by (simp add: unsigned_of_nat take_bit_nat_eq_self)
  have lens: "\<not> length buf < 2" "\<not> length buf < h + 4" "\<not> length buf < h + 4 + ?n"
    unfolding len h_def by simp_all
  have "websocket_frame_decode buf = Frame_decoded (h + 4 + ?n) f (head @ key @ payload f @ rest)"
    unfolding websocket_frame_decode_eq at Let_def bits fl option.case prod.case payload
    using lens fits control op masked by (simp add: k body after before mask_octets_twice)
  moreover have "length (client_frame key f) = h + 4 + ?n" by (simp add: frame hd_len key)
  moreover have "take (h + 4) (client_frame key f) = head @ key" by (simp add: frame key flip: hd_len)
  ultimately show ?thesis by (simp add: frame buf_def)
qed

lemma frame_length_bound: "frame_length buf = Some (h, p) \<Longrightarrow> h \<le> 10"
  by (auto simp: frame_length_def Let_def split: if_splits)

lemma overrun_facts:
  assumes "websocket_frame_decode buf = Frame_overrun" "length buf < 2 ^ 64"
  obtains h p where "frame_length buf = Some (h, p)" "2 ^ 64 - 14 \<le> unat p"
proof -
  obtain h p where hp: "frame_length buf = Some (h, p)" "\<not> (of_nat (length buf) :: u64) < of_nat (h + 4) + p"
    "length buf < h + 4 + unat p"
    using assms(1) unfolding websocket_frame_decode_eq Let_def by (auto split: if_splits option.splits prod.splits)
  have h: "h \<le> 10" by (rule frame_length_bound [OF hp(1)])
  have sum: "(of_nat (h + 4) :: u64) + p = of_nat (h + 4 + unat p)" by simp
  have "\<not> h + 4 + unat p < 2 ^ 64"
    using hp(2,3) of_nat_u64_less [OF assms(2), of "h + 4 + unat p"] unfolding sum by blast
  then have "2 ^ 64 - 14 \<le> unat p" using h by simp
  with hp(1) show thesis by (rule that)
qed

lemma decoded_facts:
  assumes "websocket_frame_decode buf = Frame_decoded n f b"
  obtains h p where "2 \<le> length buf" "buf ! 0 AND 0x70 = 0" "known_opcode (unat (buf ! 0 AND 0x0F))"
    "frame_length buf = Some (h, p)"
    "\<not> (8 \<le> unat (buf ! 0 AND 0x0F) \<and> (buf ! 0 AND 0x80 = 0 \<or> 125 < p))"
    "buf ! 1 AND 0x80 \<noteq> 0" "h + 4 + unat p \<le> length buf" "n = h + 4 + unat p"
    "f = \<lparr>fin = (buf ! 0 AND 0x80 \<noteq> 0), opcode = unat (buf ! 0 AND 0x0F),
       payload = mask_octets (take 4 (drop h buf)) (take (unat p) (drop (h + 4) buf))\<rparr>"
  using assms unfolding websocket_frame_decode_eq Let_def
  by (auto split: if_splits option.splits prod.splits)

lemma frame_length_take:
  assumes "frame_length buf = Some (h, p)" "2 \<le> m"
  shows "frame_length (take m buf) = (if m < h then None else Some (h, p)) \<or> length buf < h"
  using assms unfolding frame_length_def Let_def
  by (auto split: if_splits simp: take_drop min_def)

lemma decode_prefix:
  assumes dec: "websocket_frame_decode buf = Frame_decoded n f b" and small: "length buf < 2 ^ 64"
    and m: "m < n"
  shows "websocket_frame_decode (take m buf) = Frame_incomplete"
proof (cases "m < 2")
  case True
  then have "length (take m buf) < 2" by simp
  then show ?thesis unfolding websocket_frame_decode_eq by (simp only: if_True)
next
  case False
  note ge2 = False
  obtain h p where buf: "buf ! 0 AND 0x70 = 0" "known_opcode (unat (buf ! 0 AND 0x0F))"
    "frame_length buf = Some (h, p)"
    "\<not> (8 \<le> unat (buf ! 0 AND 0x0F) \<and> (buf ! 0 AND 0x80 = 0 \<or> 125 < p))"
    "buf ! 1 AND 0x80 \<noteq> 0" "h + 4 + unat p \<le> length buf" "n = h + 4 + unat p"
    by (rule decoded_facts [OF dec])
  have at: "take m buf ! 0 = buf ! 0" "take m buf ! 1 = buf ! 1" using False by simp_all
  have len: "length (take m buf) = m" using m buf(6,7) by simp
  have fl: "frame_length (take m buf) = (if m < h then None else Some (h, p))"
    using frame_length_take [OF buf(3), of m] False buf(6) by simp
  have wait: "(of_nat m :: u64) < of_nat (h + 4) + p"
    using of_nat_u64_less [of m "h + 4 + unat p"] m small buf(6,7) by simp
  show ?thesis
  proof (cases "m < h")
    case True
    then show ?thesis
      unfolding websocket_frame_decode_eq Let_def at len fl using buf(1,2) by simp
  next
    case False
    then show ?thesis
      unfolding websocket_frame_decode_eq Let_def at len fl using buf(1,2,4,5) wait ge2 by auto
  qed
qed

text \<open>C4: A frame a client wrote is decoded exactly, whatever follows it in the buffer and however
  much of it has arrived: every strict prefix asks for more bytes, and from its last byte on the
  decoder consumes exactly the frame, returns its flag, opcode and payload unmasked, and leaves in the
  buffer the header, the unmasked payload and the bytes that follow untouched.\<close>

theorem websocket_frame_round_trip:
  assumes "client_frame_ok key f" "length (client_frame key f @ rest) < 2 ^ 64"
  shows "websocket_frame_decode (take n (client_frame key f @ rest)) =
    (if n < length (client_frame key f) then Frame_incomplete
     else Frame_decoded (length (client_frame key f)) f
       (take (length (client_frame key f) - length (payload f)) (client_frame key f) @ payload f
        @ take (n - length (client_frame key f)) rest))"
proof (cases "n < length (client_frame key f)")
  case True
  then show ?thesis using decode_prefix [OF decode_client_frame [OF assms] assms(2)] by simp
next
  case False
  then have "take n (client_frame key f @ rest) =
      client_frame key f @ take (n - length (client_frame key f)) rest" by simp
  with False decode_client_frame [OF assms(1), of "take (n - length (client_frame key f)) rest"] assms(2)
  show ?thesis by simp
qed

theorem websocket_frame_round_trip_witness:
  "websocket_frame_decode [0x81, 0x86, 1, 2, 3, 4, 0x49, 0x67, 0x6F, 0x68, 0x6E, 0x23, 7] =
     Frame_decoded 12 \<lparr>fin = True, opcode = 1, payload = [0x48, 0x65, 0x6C, 0x6C, 0x6F, 0x21]\<rparr>
       [0x81, 0x86, 1, 2, 3, 4, 0x48, 0x65, 0x6C, 0x6C, 0x6F, 0x21, 7]"
proof -
  let ?f = "\<lparr>fin = True, opcode = 1, payload = [0x48, 0x65, 0x6C, 0x6C, 0x6F, 0x21]\<rparr>"
  have frame: "client_frame [1, 2, 3, 4] ?f = [0x81, 0x86, 1, 2, 3, 4, 0x49, 0x67, 0x6F, 0x68, 0x6E, 0x23]"
    by (simp add: client_frame_def length_bytes_def mask_octets_def)
  have "client_frame_ok [1, 2, 3, 4] ?f"
    by (simp add: client_frame_ok_def known_opcode_def opcode_defs)
  from websocket_frame_round_trip [OF this, of "[7]" 13] show ?thesis unfolding frame by simp
qed

text \<open>C32: Whatever bytes arrive, the decoder stays inside the buffer: a decoded frame lies in it, only its payload bytes are
  rewritten, the payload handed out is the rewritten slice, its opcode is one of the six known, and a control frame is
  whole and carries at most 125 bytes; and the unmasking loop leaves the buffer only for a frame whose declared length, a
  64-bit field of the sender's, is within 14 of \<open>2 ^ 64\<close>, where the length check wraps.\<close>

theorem websocket_frame_decode_in_bounds:
  assumes "length buf < 2 ^ 64"
  shows "case websocket_frame_decode buf of
     Frame_decoded n f b \<Rightarrow>
       n \<le> length buf \<and> length b = length buf \<and> drop n b = drop n buf \<and>
       take (n - length (payload f)) b = take (n - length (payload f)) buf \<and>
       payload f = drop (n - length (payload f)) (take n b) \<and> 6 + length (payload f) \<le> n \<and>
       known_opcode (opcode f) \<and> (if 8 \<le> opcode f then fin f \<and> length (payload f) \<le> 125 else True)
   | Frame_overrun \<Rightarrow>
       (case frame_length buf of None \<Rightarrow> False | Some (_, declared) \<Rightarrow> 2 ^ 64 - 14 \<le> unat declared)
   | _ \<Rightarrow> True"
proof (cases "websocket_frame_decode buf")
  case (Frame_decoded n f b)
  obtain h p where buf: "known_opcode (unat (buf ! 0 AND 0x0F))" "frame_length buf = Some (h, p)"
    "\<not> (8 \<le> unat (buf ! 0 AND 0x0F) \<and> (buf ! 0 AND 0x80 = 0 \<or> 125 < p))"
    "h + 4 + unat p \<le> length buf" "n = h + 4 + unat p"
    "f = \<lparr>fin = (buf ! 0 AND 0x80 \<noteq> 0), opcode = unat (buf ! 0 AND 0x0F),
       payload = mask_octets (take 4 (drop h buf)) (take (unat p) (drop (h + 4) buf))\<rparr>"
    by (rule decoded_facts [OF Frame_decoded])
  have b: "b = take (h + 4) buf @ payload f @ drop (h + 4 + unat p) buf"
    using Frame_decoded buf(2,6) unfolding websocket_frame_decode_eq Let_def
    by (auto split: if_splits)
  have len: "length (payload f) = unat p" using buf(4,6) by simp
  have h: "2 \<le> h" using buf(2) by (auto simp: frame_length_def Let_def split: if_splits)
  have small: "unat p \<le> 125" if "\<not> 125 < p"
    using that by (simp add: word_less_nat_alt not_less)
  show ?thesis
    unfolding Frame_decoded decode_result.case
    using buf(1,3,4,5,6) small h by (auto simp: b len)
next
  case Frame_overrun
  obtain h p where hp: "frame_length buf = Some (h, p)" "2 ^ 64 - 14 \<le> unat p" by (rule overrun_facts [OF Frame_overrun assms])
  show ?thesis unfolding Frame_overrun decode_result.case hp(1) option.case prod.case by (rule hp(2))
qed simp_all

theorem websocket_frame_decode_in_bounds_witness:
  "case websocket_frame_decode [0x81, 0x82, 1, 2, 3, 4, 0x49, 0x6B, 7] of
     Frame_decoded n f b \<Rightarrow> n \<le> 9 \<and> length b = 9 \<and> drop n b = drop n [0x81, 0x82, 1, 2, 3, 4, 0x49, 0x6B, 7]
   | _ \<Rightarrow> True"
  using websocket_frame_decode_in_bounds [of "[0x81, 0x82, 1, 2, 3, 4, 0x49, 0x6B, 7]"]
  by (auto split: decode_result.splits)


text \<open>The length check is computed modulo \<open>2 ^ 64\<close>: a masked 14-byte header that declares the
  largest 64-bit length passes it with no payload present at all, whatever its mask, and the
  unmasking loop is left to run far past the end of the buffer.\<close>

theorem websocket_frame_decode_overrun:
  "websocket_frame_decode
     [0x82, 0xFF, 0xFF, 0xFF, 0xFF, 0xFF, 0xFF, 0xFF, 0xFF, 0xFF, k0, k1, k2, k3] = Frame_overrun"
  by (simp add: websocket_frame_decode_eq frame_length_def known_opcode_def opcode_defs read_be_def)

subsection \<open>Frames as this server writes them\<close>

lemma frame_length_mask_bit: "frame_length (b0 # (0x80 OR x) # r) = frame_length (b0 # x # r)"
proof -
  have "(0x80 OR x) AND 0x7F = x AND 0x7F" by (simp add: bit.conj_disj_distrib2)
  then show ?thesis by (simp add: frame_length_def Let_def)
qed

lemma length_byte_unmasked: "hd (length_bytes n) AND 0x80 = 0"
proof -
  have "hd (length_bytes n) \<le> (127 :: u8)"
    by (simp add: length_bytes_def word_le_nat_alt unsigned_of_nat take_bit_nat_eq_self)
  then have "unat (hd (length_bytes n)) < 2 ^ 7" by (simp add: word_le_nat_alt)
  then have "hd (length_bytes n) = take_bit 7 (hd (length_bytes n))"
    by (simp add: word_unat_eq_iff unsigned_take_bit_eq take_bit_nat_eq_self)
  then have "hd (length_bytes n) AND 0x80 = take_bit 7 (hd (length_bytes n)) AND 0x80" by simp
  also have "\<dots> = hd (length_bytes n) AND (mask 7 AND 0x80)"
    by (simp only: take_bit_eq_mask and.assoc)
  finally show ?thesis by (simp add: mask_eq_exp_minus_1)
qed

text \<open>The encoder refuses exactly the buffers that are too small; what it writes has the mask bit
  clear, the flag and the opcode in the first byte, and a length field that reads back as the
  payload's length, followed by the payload unchanged. This module's own decoder, which reads only
  client frames, refuses it.\<close>

theorem websocket_frame_encode_readable:
  assumes "known_opcode op" "length data < 2 ^ 64"
  shows "case websocket_frame_encode out_cap final op data of
      None \<Rightarrow> out_cap < 1 + length (length_bytes (length data)) + length data
    | Some out \<Rightarrow> length out \<le> out_cap \<and> out ! 1 AND 0x80 = 0 \<and> out ! 0 AND 0x70 = 0 \<and>
        (out ! 0 AND 0x80 \<noteq> 0) = final \<and> unat (out ! 0 AND 0x0F) = op \<and>
        (case frame_length out of
           None \<Rightarrow> False
         | Some (h, n) \<Rightarrow> unat n = length data \<and> drop h out = data \<and> length out = h + length data) \<and>
        websocket_frame_decode out = Frame_malformed"
proof (cases "websocket_frame_encode out_cap final op data")
  case None
  then show ?thesis by (auto simp: websocket_frame_encode_def length_bytes_def Let_def split: if_splits)
next
  case (Some out)
  let ?n = "length data"
  let ?b0 = "(if final then 0x80 else 0) OR of_nat op :: u8"
  have low: "of_nat op AND 0x0F = (of_nat op :: u8)"
    using assms(1) by (auto simp: known_opcode_def opcode_defs)
  have "length_bytes ?n \<noteq> []" by (simp add: length_bytes_def)
  then obtain x xs where lb: "length_bytes ?n = x # xs" by (cases "length_bytes ?n") auto
  have out: "out = ?b0 # x # xs @ data" and cap: "length out \<le> out_cap"
    using Some lb by (auto simp: websocket_frame_encode_def length_bytes_def Let_def low split: if_splits)
  have fl: "frame_length out = Some (2 + length xs, of_nat ?n)"
    using frame_length_client [OF assms(2), of ?b0 data] lb
    by (simp add: out frame_length_mask_bit)
  have n: "unat (of_nat ?n :: u64) = ?n"
    using assms(2) by (simp add: unsigned_of_nat take_bit_nat_eq_self)
  have unmasked: "out ! 1 AND 0x80 = 0" using length_byte_unmasked [of ?n] by (simp add: lb out)
  note bits = first_byte [OF assms(1), of final]
  have "websocket_frame_decode out = Frame_malformed"
    unfolding websocket_frame_decode_eq Let_def fl using unmasked bits assms(1)
    by (simp add: out)
  with cap fl n unmasked bits show ?thesis unfolding Some by (simp add: out)
qed

theorem websocket_frame_encode_readable_witness:
  "websocket_frame_encode 16 True 10 [1, 2] = Some [0x8A, 2, 1, 2] \<and>
   websocket_frame_decode [0x8A, 2, 1, 2] = Frame_malformed"
proof -
  have enc: "websocket_frame_encode 16 True 10 [1, 2] = Some [0x8A, 2, 1, 2]"
    by (simp add: websocket_frame_encode_def length_bytes_def)
  have "known_opcode 10" "length [1, 2 :: u8] < 2 ^ 64" by (simp_all add: known_opcode_def opcode_defs)
  from websocket_frame_encode_readable [OF this, of 16 True] enc show ?thesis by simp
qed

subsection \<open>Reassembly\<close>

fun feed_all :: "message_assembler \<Rightarrow> websocket_frame list \<Rightarrow> feed_result list \<times> message_assembler" where
  "feed_all a [] = ([], a)"
| "feed_all a (f # fs) =
     (let (r, a) = websocket_message_feed a f; (rs, a) = feed_all a fs in (r # rs, a))"

text \<open>What a peer may send as one message: a first data frame, continuations, the flag on the last.\<close>

definition message_frames :: "nat \<Rightarrow> websocket_frame list \<Rightarrow> bool" where
  "message_frames op fs \<longleftrightarrow>
     fs \<noteq> [] \<and> op \<noteq> WEBSOCKET_OP_CONTINUATION \<and> opcode (hd fs) = op \<and>
     list_all (\<lambda>f. opcode f = WEBSOCKET_OP_CONTINUATION) (tl fs) \<and>
     map fin fs = replicate (length fs - 1) False @ [True]"

definition assembler_wf :: "message_assembler \<Rightarrow> bool" where
  "assembler_wf a \<longleftrightarrow> length (stored a) \<le> WEBSOCKET_MESSAGE_MAX \<and> (active a \<or> stored a = []) \<and>
     (active a \<longrightarrow> first_opcode a \<noteq> WEBSOCKET_OP_CONTINUATION)"

lemma feed_wf: "assembler_wf a \<Longrightarrow> assembler_wf (snd (websocket_message_feed a f))"
  by (auto simp: assembler_wf_def websocket_message_feed_def Let_def)

lemma feed_continuations:
  assumes "active a" "fs \<noteq> []"
    and "list_all (\<lambda>f. opcode f = WEBSOCKET_OP_CONTINUATION) fs"
    and "map fin fs = replicate (length fs - 1) False @ [True]"
    and "length (stored a) + length (concat (map payload fs)) \<le> WEBSOCKET_MESSAGE_MAX"
  shows "feed_all a fs =
    (replicate (length fs - 1) Feed_more @ [Feed_message (first_opcode a) (stored a @ concat (map payload fs))],
     a\<lparr>active := False, stored := []\<rparr>)"
  using assms
proof (induction fs arbitrary: a)
  case (Cons f fs)
  show ?case
  proof (cases fs)
    case Nil
    with Cons.prems show ?thesis by (simp add: websocket_message_feed_def Let_def)
  next
    case (Cons g gs)
    let ?a = "a\<lparr>stored := stored a @ payload f\<rparr>"
    have step: "websocket_message_feed a f = (Feed_more, ?a)"
      using Cons.prems Cons by (simp add: websocket_message_feed_def Let_def)
    have "feed_all ?a fs =
      (replicate (length fs - 1) Feed_more @ [Feed_message (first_opcode ?a) (stored ?a @ concat (map payload fs))],
       ?a\<lparr>active := False, stored := []\<rparr>)"
      by (rule Cons.IH) (use Cons.prems Cons in auto)
    with step Cons show ?thesis by simp
  qed
qed simp

text \<open>An idle assembler fed the frames of one message that fits the buffer asks for more after
  every frame but the last, delivers with the last one the first frame's opcode and the payloads
  concatenated in order, and is idle and empty again.\<close>

theorem websocket_message_reassembled:
  assumes "\<not> active a" "message_frames op fs"
    and "length (concat (map payload fs)) \<le> WEBSOCKET_MESSAGE_MAX"
  shows "feed_all a fs =
    (replicate (length fs - 1) Feed_more @ [Feed_message op (concat (map payload fs))],
     a\<lparr>active := False, stored := [], first_opcode := op\<rparr>)"
proof -
  obtain f gs where fs: "fs = f # gs" using assms(2) by (cases fs) (auto simp: message_frames_def)
  have op: "opcode f = op" "op \<noteq> WEBSOCKET_OP_CONTINUATION" and gs: "list_all (\<lambda>f. opcode f = WEBSOCKET_OP_CONTINUATION) gs"
    and fins: "map fin (f # gs) = replicate (length gs) False @ [True]"
    using assms(2) by (simp_all add: message_frames_def fs)
  show ?thesis
  proof (cases gs)
    case Nil
    with assms(1,3) op fins show ?thesis by (simp add: fs websocket_message_feed_def Let_def)
  next
    case (Cons g hs)
    let ?a = "a\<lparr>active := True, stored := payload f, first_opcode := op\<rparr>"
    have "websocket_message_feed a f = (Feed_more, ?a)"
      using assms(1,3) op fins Cons by (simp add: fs websocket_message_feed_def Let_def)
    moreover have "feed_all ?a gs =
      (replicate (length gs - 1) Feed_more @ [Feed_message (first_opcode ?a) (stored ?a @ concat (map payload gs))],
       ?a\<lparr>active := False, stored := []\<rparr>)"
      by (rule feed_continuations) (use assms(3) gs fins Cons fs in auto)
    ultimately show ?thesis using Cons by (simp add: fs)
  qed
qed

theorem websocket_message_reassembled_witness:
  "feed_all \<lparr>stored = [], first_opcode = 0, active = False\<rparr>
     [\<lparr>fin = False, opcode = 1, payload = [1]\<rparr>, \<lparr>fin = True, opcode = 0, payload = [2, 3]\<rparr>] =
   ([Feed_more, Feed_message 1 [1, 2, 3]], \<lparr>stored = [], first_opcode = 1, active = False\<rparr>)"
  using websocket_message_reassembled [of "\<lparr>stored = [], first_opcode = 0, active = False\<rparr>" 1
      "[\<lparr>fin = False, opcode = 1, payload = [1]\<rparr>, \<lparr>fin = True, opcode = 0, payload = [2, 3]\<rparr>]"]
  by (simp add: message_frames_def opcode_defs WEBSOCKET_MESSAGE_MAX_def)

end
