(* ===== verification/Viewer_Command.thy ===== *)
theory Viewer_Command
  imports C_Text
begin

text \<open>
  The command language of a viewer, \<open>src/src/server/viewer_command.c\<close> and its header: one line of bytes in,
  one command or one message out. A line is a list of characters, a byte each; what the parser takes
  from the C library (\<open>sscanf\<close> of one word, \<open>strtol\<close>, \<open>strtoul\<close>, the character classes) is written out,
  with 64-bit \<open>long\<close>. A refusal is \<open>Inl\<close> with its message, a command is \<open>Inr\<close>.
\<close>

subsection \<open>The command\<close>

datatype viewer_command_type =
    VIEWER_COMMAND_TUNE | VIEWER_COMMAND_VIEW | VIEWER_COMMAND_SET | VIEWER_COMMAND_APPLY
  | VIEWER_COMMAND_CALIBRATE | VIEWER_COMMAND_SCAN | VIEWER_COMMAND_SELECT | VIEWER_COMMAND_SWEEP
  | VIEWER_COMMAND_SURVEY | VIEWER_COMMAND_FFT

datatype viewer_survey_action =
    VIEWER_SURVEY_ASK | VIEWER_SURVEY_WATCH | VIEWER_SURVEY_WATCH_STOP | VIEWER_SURVEY_SAVE
  | VIEWER_SURVEY_SITE | VIEWER_SURVEY_ANTENNA

datatype viewer_select = VIEWER_SELECT_ARFCN | VIEWER_SELECT_CELL | VIEWER_SELECT_CANDIDATE

datatype viewer_calibrate = VIEWER_CALIBRATE_GSM | VIEWER_CALIBRATE_LTE | VIEWER_CALIBRATE_STOP

datatype viewer_scan = VIEWER_SCAN_FM | VIEWER_SCAN_LTE | VIEWER_SCAN_STOP

datatype viewer_setting =
    VIEWER_SETTING_PPM | VIEWER_SETTING_FFT | VIEWER_SETTING_GAIN | VIEWER_SETTING_DC | VIEWER_SETTING_DRIFT

datatype viewer_screen =
    VIEWER_SCREEN_SCOPE | VIEWER_SCREEN_SURVEY | VIEWER_SCREEN_FM | VIEWER_SCREEN_GSM | VIEWER_SCREEN_ADSB
  | VIEWER_SCREEN_TETRA | VIEWER_SCREEN_SRD | VIEWER_SCREEN_LTE | VIEWER_SCREEN_SETTINGS
  | VIEWER_SCREEN_CALIBRATION

record viewer_command =
  cmd_type :: viewer_command_type
  cmd_hz :: u32
  cmd_screen :: viewer_screen
  cmd_setting :: viewer_setting
  cmd_reference :: viewer_calibrate
  cmd_scan :: viewer_scan
  cmd_select :: viewer_select
  cmd_number :: int
  sweep_from :: string
  sweep_to :: string
  sweep_dwell :: string
  sweep_stop :: bool
  survey_action :: viewer_survey_action
  survey_text :: string

text \<open>Every field zero: what a command leaves unsaid.\<close>

definition blank_command :: viewer_command where
  "blank_command = \<lparr>cmd_type = VIEWER_COMMAND_TUNE, cmd_hz = 0, cmd_screen = VIEWER_SCREEN_SCOPE,
     cmd_setting = VIEWER_SETTING_PPM, cmd_reference = VIEWER_CALIBRATE_GSM, cmd_scan = VIEWER_SCAN_FM,
     cmd_select = VIEWER_SELECT_ARFCN, cmd_number = 0, sweep_from = [], sweep_to = [], sweep_dwell = [],
     sweep_stop = False, survey_action = VIEWER_SURVEY_ASK, survey_text = []\<rparr>"

definition VIEWER_COMMAND_LINE_MAX :: nat where "VIEWER_COMMAND_LINE_MAX = 128"

definition viewer_screens :: "(string \<times> viewer_screen) list" where
  "viewer_screens =
     [(''scope'', VIEWER_SCREEN_SCOPE), (''survey'', VIEWER_SCREEN_SURVEY), (''fm'', VIEWER_SCREEN_FM),
      (''gsm'', VIEWER_SCREEN_GSM), (''adsb'', VIEWER_SCREEN_ADSB), (''tetra'', VIEWER_SCREEN_TETRA),
      (''srd'', VIEWER_SCREEN_SRD), (''lte'', VIEWER_SCREEN_LTE), (''settings'', VIEWER_SCREEN_SETTINGS),
      (''calibration'', VIEWER_SCREEN_CALIBRATION)]"

text \<open>A setting, its bounds, and whether it takes \<open>on\<close> and \<open>off\<close>.\<close>

definition viewer_settings :: "(string \<times> viewer_setting \<times> int \<times> int \<times> bool) list" where
  "viewer_settings =
     [(''ppm'', VIEWER_SETTING_PPM, - 1000, 1000, False),
      (''fft'', VIEWER_SETTING_FFT, 256, 16384, False),
      (''gain'', VIEWER_SETTING_GAIN, 0, 1000, False),
      (''dc'', VIEWER_SETTING_DC, 0, 1, True),
      (''drift'', VIEWER_SETTING_DRIFT, 0, 1, True)]"

definition references :: "(string \<times> viewer_calibrate) list" where
  "references = [(''gsm'', VIEWER_CALIBRATE_GSM), (''lte'', VIEWER_CALIBRATE_LTE), (''stop'', VIEWER_CALIBRATE_STOP)]"

definition scan_targets :: "(string \<times> viewer_scan) list" where
  "scan_targets = [(''fm'', VIEWER_SCAN_FM), (''lte'', VIEWER_SCAN_LTE), (''stop'', VIEWER_SCAN_STOP)]"

definition select_kinds :: "(string \<times> viewer_select) list" where
  "select_kinds = [(''arfcn'', VIEWER_SELECT_ARFCN), (''cell'', VIEWER_SELECT_CELL),
     (''candidate'', VIEWER_SELECT_CANDIDATE)]"

subsection \<open>What the C library does\<close>

definition c_string :: "string \<Rightarrow> string" where
  "c_string buf = takeWhile (\<lambda>c. c \<noteq> CHR 0x00) buf"

text \<open>\<open>sscanf(s, "%<n>s%n", word, &consumed)\<close>: the word, and what is left of \<open>s\<close> after \<open>consumed\<close>.\<close>

definition scan_word :: "nat \<Rightarrow> string \<Rightarrow> (string \<times> string) option" where
  "scan_word n s =
     (let s = dropWhile isspace s; word = take n (takeWhile (\<lambda>c. \<not> isspace c) s)
      in if word = [] then None else Some (word, drop (length word) s))"

subsection \<open>The parser\<close>

text \<open>A message is cut to the caller's buffer, which may be absent.\<close>

definition set_error :: "nat \<Rightarrow> string \<Rightarrow> string option" where
  "set_error error_cap msg = (if error_cap = 0 then None else Some (take (error_cap - 1) msg))"

definition skip_blanks :: "string \<Rightarrow> string" where
  "skip_blanks s = dropWhile (\<lambda>c. c = CHR '' '' \<or> c = CHR 0x09) s"

type_synonym parsed = "string + viewer_command"

definition trailing_field :: parsed where
  "trailing_field = Inl ''unexpected trailing field''"

definition nothing_after :: "string \<Rightarrow> parsed \<Rightarrow> parsed" where
  "nothing_after s result = (if list_all isspace s then result else trailing_field)"

definition parse_view :: "string \<Rightarrow> parsed" where
  "parse_view s =
     (case scan_word 31 (skip_blanks s) of
        None \<Rightarrow> Inl ''view requires a screen name''
      | Some (screen, after) \<Rightarrow> nothing_after after
          (case map_of viewer_screens screen of
             None \<Rightarrow> Inl ''unrecognized screen''
           | Some x \<Rightarrow> Inr (blank_command\<lparr>cmd_type := VIEWER_COMMAND_VIEW, cmd_screen := x\<rparr>)))"

definition parse_calibrate :: "string \<Rightarrow> parsed" where
  "parse_calibrate s =
     (case scan_word 31 (skip_blanks s) of
        None \<Rightarrow> Inl ''calibrate requires gsm, lte or stop''
      | Some (which, after) \<Rightarrow> nothing_after after
          (case map_of references which of
             None \<Rightarrow> Inl ''unrecognized reference''
           | Some x \<Rightarrow> Inr (blank_command\<lparr>cmd_type := VIEWER_COMMAND_CALIBRATE, cmd_reference := x\<rparr>)))"

definition parse_apply :: "string \<Rightarrow> parsed" where
  "parse_apply s = nothing_after s (Inr (blank_command\<lparr>cmd_type := VIEWER_COMMAND_APPLY\<rparr>))"

definition setting_number :: "int \<Rightarrow> int \<Rightarrow> bool \<Rightarrow> string \<Rightarrow> string + int" where
  "setting_number lo hi boolean t =
     (if boolean
      then if t = ''on'' \<or> t = ''1'' then Inr 1 else if t = ''off'' \<or> t = ''0'' then Inr 0
           else Inl ''value must be on or off''
      else case strtol t of
             None \<Rightarrow> Inl ''value must be an integer''
           | Some (v, end, out_of_range) \<Rightarrow>
               if end \<noteq> [] \<or> out_of_range then Inl ''value must be an integer''
               else if v < lo \<or> hi < v then Inl ''value out of range'' else Inr v)"

definition parse_set :: "string \<Rightarrow> parsed" where
  "parse_set s =
     (case scan_word 31 (skip_blanks s) of
        None \<Rightarrow> Inl ''set requires a field and a value''
      | Some (field, after) \<Rightarrow>
          (case scan_word 31 (skip_blanks after) of
             None \<Rightarrow> Inl ''set requires a value''
           | Some (t, after) \<Rightarrow> nothing_after after
               (case map_of viewer_settings field of
                  None \<Rightarrow> Inl ''unrecognized setting''
                | Some (x, lo, hi, boolean) \<Rightarrow>
                    (case setting_number lo hi boolean t of
                       Inl msg \<Rightarrow> Inl msg
                     | Inr v \<Rightarrow> Inr (blank_command\<lparr>cmd_type := VIEWER_COMMAND_SET, cmd_setting := x,
                         cmd_number := to_int v\<rparr>)))))"

definition parse_fft :: "string \<Rightarrow> parsed" where
  "parse_fft s =
     (case scan_word 31 (skip_blanks s) of
        None \<Rightarrow> Inl ''fft requires a transform size''
      | Some (t, after) \<Rightarrow> nothing_after after
          (case strtol t of
             None \<Rightarrow> Inl ''transform size must be an integer''
           | Some (v, end, out_of_range) \<Rightarrow>
               if end \<noteq> [] \<or> out_of_range then Inl ''transform size must be an integer''
               else Inr (blank_command\<lparr>cmd_type := VIEWER_COMMAND_FFT, cmd_number := to_int v\<rparr>)))"

definition parse_scan :: "string \<Rightarrow> parsed" where
  "parse_scan s =
     (case scan_word 31 (skip_blanks s) of
        None \<Rightarrow> Inl ''scan requires fm, lte or stop''
      | Some (which, after) \<Rightarrow> nothing_after after
          (case map_of scan_targets which of
             None \<Rightarrow> Inl ''unrecognized scan target''
           | Some x \<Rightarrow> Inr (blank_command\<lparr>cmd_type := VIEWER_COMMAND_SCAN, cmd_scan := x\<rparr>)))"

text \<open>The range form is \<open>sscanf(s, "%23s %23s %11s%n", a, b, c, &consumed)\<close>.\<close>

definition sweep_range :: "string \<Rightarrow> parsed" where
  "sweep_range s =
     (let missing = Inl (''sweep requires 'from to dwell' or 'stop'' @ [CHR 0x27])
      in case scan_word 23 s of None \<Rightarrow> missing
         | Some (a, s) \<Rightarrow> (case scan_word 23 s of None \<Rightarrow> missing
            | Some (b, s) \<Rightarrow> (case scan_word 11 s of None \<Rightarrow> missing
               | Some (c, s) \<Rightarrow> nothing_after s
                   (Inr (blank_command\<lparr>cmd_type := VIEWER_COMMAND_SWEEP, sweep_from := a, sweep_to := b,
                      sweep_dwell := c\<rparr>)))))"

definition parse_sweep :: "string \<Rightarrow> parsed" where
  "parse_sweep s =
     (let s = skip_blanks s
      in case scan_word 23 s of
           Some (a, after) \<Rightarrow>
             if a = ''stop''
             then nothing_after after (Inr (blank_command\<lparr>cmd_type := VIEWER_COMMAND_SWEEP, sweep_stop := True\<rparr>))
             else sweep_range s
         | None \<Rightarrow> sweep_range s)"

definition survey_command :: "viewer_survey_action \<Rightarrow> string \<Rightarrow> viewer_command" where
  "survey_command a t =
     blank_command\<lparr>cmd_type := VIEWER_COMMAND_SURVEY, survey_action := a, survey_text := t\<rparr>"

definition parse_survey_watch :: "string \<Rightarrow> parsed" where
  "parse_survey_watch s =
     (let after = skip_blanks s
      in if after = [] then Inr (survey_command VIEWER_SURVEY_WATCH [])
         else case scan_word 15 after of
                Some (sub, rest) \<Rightarrow>
                  if sub = ''stop'' then nothing_after rest (Inr (survey_command VIEWER_SURVEY_WATCH_STOP []))
                  else Inl (''survey watch takes nothing or 'stop'' @ [CHR 0x27])
              | None \<Rightarrow> Inl (''survey watch takes nothing or 'stop'' @ [CHR 0x27]))"

text \<open>The name is cut to the 64 bytes of its field.\<close>

definition parse_survey_name :: "viewer_survey_action \<Rightarrow> string \<Rightarrow> parsed" where
  "parse_survey_name a s =
     (let rest = skip_blanks s
      in if rest = [] then Inl ''survey site/antenna needs a name'' else Inr (survey_command a (take 63 rest)))"

definition parse_survey :: "string \<Rightarrow> parsed" where
  "parse_survey s =
     (case scan_word 15 (skip_blanks s) of
        None \<Rightarrow> Inl (''survey requires 'ask', 'watch' or 'watch stop'' @ [CHR 0x27])
      | Some (act, after) \<Rightarrow>
          if act = ''ask'' then nothing_after after (Inr (survey_command VIEWER_SURVEY_ASK []))
          else if act = ''watch'' then parse_survey_watch after
          else if act = ''save'' then nothing_after after (Inr (survey_command VIEWER_SURVEY_SAVE []))
          else if act = ''site'' then parse_survey_name VIEWER_SURVEY_SITE after
          else if act = ''antenna'' then parse_survey_name VIEWER_SURVEY_ANTENNA after
          else Inl ''survey takes ask, watch[ stop], save, site or antenna'')"

definition parse_select :: "string \<Rightarrow> parsed" where
  "parse_select s =
     (case scan_word 31 (skip_blanks s) of
        None \<Rightarrow> Inl ''select requires a kind and an index''
      | Some (kind, after) \<Rightarrow>
          (case scan_word 31 (skip_blanks after) of
             None \<Rightarrow> Inl ''select requires an index''
           | Some (t, after) \<Rightarrow> nothing_after after
               (case strtol t of
                  None \<Rightarrow> Inl ''index must be a non-negative integer''
                | Some (v, end, out_of_range) \<Rightarrow>
                    if end \<noteq> [] \<or> out_of_range \<or> v < 0 \<or> 100000 < v
                    then Inl ''index must be a non-negative integer''
                    else case map_of select_kinds kind of
                           None \<Rightarrow> Inl ''unrecognized select kind''
                         | Some x \<Rightarrow> Inr (blank_command\<lparr>cmd_type := VIEWER_COMMAND_SELECT, cmd_select := x,
                             cmd_number := to_int v\<rparr>))))"

definition parse_tune :: "string \<Rightarrow> parsed" where
  "parse_tune s =
     (let s = skip_blanks s
      in case s of
           [] \<Rightarrow> Inl ''tune requires one frequency in Hz''
         | c # _ \<Rightarrow>
             if \<not> isdigit c then Inl ''frequency must be a positive integer''
             else let (v, end, out_of_range) = strtoul s
                  in nothing_after end
                       (if out_of_range \<or> 2 ^ 32 - 1 < v then Inl ''frequency out of range''
                        else Inr (blank_command\<lparr>cmd_type := VIEWER_COMMAND_TUNE, cmd_hz := of_nat v\<rparr>)))"

definition trim_line :: "string \<Rightarrow> string" where
  "trim_line line = rev (dropWhile (\<lambda>c. of_char c \<le> (32 :: nat)) (rev line))"

definition command_words :: "(string \<times> (string \<Rightarrow> parsed)) list" where
  "command_words =
     [(''view'', parse_view), (''calibrate'', parse_calibrate), (''apply'', parse_apply), (''set'', parse_set),
      (''fft'', parse_fft), (''scan'', parse_scan), (''sweep'', parse_sweep), (''survey'', parse_survey),
      (''select'', parse_select), (''tune'', parse_tune)]"

definition viewer_command_parse :: "string \<Rightarrow> parsed" where
  "viewer_command_parse line =
     (let trimmed = trim_line line
      in if trimmed = [] then Inl ''empty command''
         else if VIEWER_COMMAND_LINE_MAX \<le> length trimmed then Inl ''command line too long''
         else case scan_word 31 (c_string trimmed) of
                None \<Rightarrow> Inl ''malformed command''
              | Some (word, after) \<Rightarrow>
                  (case map_of command_words word of
                     None \<Rightarrow> Inl ''unrecognized command'' | Some parse \<Rightarrow> parse after))"


subsection \<open>Requests, and how a viewer writes them\<close>

datatype request =
    View viewer_screen | Calibrate viewer_calibrate | Apply | Set_Field viewer_setting int | Fft int
  | Scan viewer_scan | Sweep string string string | Sweep_Stop | Survey_Ask | Survey_Watch
  | Survey_Watch_Stop | Survey_Save | Survey_Site string | Survey_Antenna string
  | Pick viewer_select nat | Tune u32

fun request_command :: "request \<Rightarrow> viewer_command" where
  "request_command (View x) = blank_command\<lparr>cmd_type := VIEWER_COMMAND_VIEW, cmd_screen := x\<rparr>"
| "request_command (Calibrate x) = blank_command\<lparr>cmd_type := VIEWER_COMMAND_CALIBRATE, cmd_reference := x\<rparr>"
| "request_command Apply = blank_command\<lparr>cmd_type := VIEWER_COMMAND_APPLY\<rparr>"
| "request_command (Set_Field x v) = blank_command\<lparr>cmd_type := VIEWER_COMMAND_SET, cmd_setting := x, cmd_number := v\<rparr>"
| "request_command (Fft v) = blank_command\<lparr>cmd_type := VIEWER_COMMAND_FFT, cmd_number := v\<rparr>"
| "request_command (Scan x) = blank_command\<lparr>cmd_type := VIEWER_COMMAND_SCAN, cmd_scan := x\<rparr>"
| "request_command (Sweep a b c) =
     blank_command\<lparr>cmd_type := VIEWER_COMMAND_SWEEP, sweep_from := a, sweep_to := b, sweep_dwell := c\<rparr>"
| "request_command Sweep_Stop = blank_command\<lparr>cmd_type := VIEWER_COMMAND_SWEEP, sweep_stop := True\<rparr>"
| "request_command Survey_Ask = survey_command VIEWER_SURVEY_ASK []"
| "request_command Survey_Watch = survey_command VIEWER_SURVEY_WATCH []"
| "request_command Survey_Watch_Stop = survey_command VIEWER_SURVEY_WATCH_STOP []"
| "request_command Survey_Save = survey_command VIEWER_SURVEY_SAVE []"
| "request_command (Survey_Site t) = survey_command VIEWER_SURVEY_SITE t"
| "request_command (Survey_Antenna t) = survey_command VIEWER_SURVEY_ANTENNA t"
| "request_command (Pick x n) = blank_command\<lparr>cmd_type := VIEWER_COMMAND_SELECT, cmd_select := x, cmd_number := int n\<rparr>"
| "request_command (Tune hz) = blank_command\<lparr>cmd_type := VIEWER_COMMAND_TUNE, cmd_hz := hz\<rparr>"

definition name_of :: "(string \<times> 'a) list \<Rightarrow> ('a \<Rightarrow> bool) \<Rightarrow> string" where
  "name_of table p = (case find (\<lambda>row. p (snd row)) table of Some row \<Rightarrow> fst row | None \<Rightarrow> [])"

abbreviation joined :: "string \<Rightarrow> string \<Rightarrow> string" where
  "joined a b \<equiv> a @ CHR '' '' # b"

fun request_text :: "request \<Rightarrow> string" where
  "request_text (View x) = joined ''view'' (name_of viewer_screens ((=) x))"
| "request_text (Calibrate x) = joined ''calibrate'' (name_of references ((=) x))"
| "request_text Apply = ''apply''"
| "request_text (Set_Field x v) = joined ''set'' (joined (name_of viewer_settings (\<lambda>row. fst row = x)) (signed_decimal v))"
| "request_text (Fft v) = joined ''fft'' (signed_decimal v)"
| "request_text (Scan x) = joined ''scan'' (name_of scan_targets ((=) x))"
| "request_text (Sweep a b c) = joined ''sweep'' (joined a (joined b c))"
| "request_text Sweep_Stop = ''sweep stop''"
| "request_text Survey_Ask = ''survey ask''"
| "request_text Survey_Watch = ''survey watch''"
| "request_text Survey_Watch_Stop = ''survey watch stop''"
| "request_text Survey_Save = ''survey save''"
| "request_text (Survey_Site t) = joined ''survey site'' t"
| "request_text (Survey_Antenna t) = joined ''survey antenna'' t"
| "request_text (Pick x n) = joined ''select'' (joined (name_of select_kinds ((=) x)) (decimal n))"
| "request_text (Tune hz) = joined ''tune'' (decimal (unat hz))"

text \<open>A field of a command: printable, so neither a space nor the end of a string.\<close>

definition field_text :: "nat \<Rightarrow> string \<Rightarrow> bool" where
  "field_text n t \<longleftrightarrow> t \<noteq> [] \<and> length t \<le> n \<and> list_all (\<lambda>c. 32 < (of_char c :: nat)) t"

fun request_ok :: "request \<Rightarrow> bool" where
  "request_ok (Set_Field x v) \<longleftrightarrow> (case map_of (map snd viewer_settings) x of
     Some (lo, hi, _) \<Rightarrow> lo \<le> v \<and> v \<le> hi | None \<Rightarrow> False)"
| "request_ok (Fft v) \<longleftrightarrow> - (2 ^ 31) \<le> v \<and> v < 2 ^ 31"
| "request_ok (Sweep a b c) \<longleftrightarrow> field_text 23 a \<and> field_text 23 b \<and> field_text 11 c \<and> a \<noteq> ''stop''"
| "request_ok (Survey_Site t) \<longleftrightarrow> t \<noteq> [] \<and> length t \<le> 63 \<and> CHR 0x00 \<notin> set t \<and>
     hd t \<noteq> CHR '' '' \<and> hd t \<noteq> CHR 0x09 \<and> 32 < (of_char (last t) :: nat)"
| "request_ok (Survey_Antenna t) \<longleftrightarrow> t \<noteq> [] \<and> length t \<le> 63 \<and> CHR 0x00 \<notin> set t \<and>
     hd t \<noteq> CHR '' '' \<and> hd t \<noteq> CHR 0x09 \<and> 32 < (of_char (last t) :: nat)"
| "request_ok (Pick x n) \<longleftrightarrow> n \<le> 100000"
| "request_ok _ \<longleftrightarrow> True"

subsection \<open>Words of a line\<close>

lemma field_textD:
  assumes "field_text n t"
  shows "t \<noteq> []" "length t \<le> n" "list_all (\<lambda>c. \<not> isspace c) t" "CHR 0x00 \<notin> set t"
    "hd t \<noteq> CHR '' ''" "hd t \<noteq> CHR 0x09" "32 < (of_char (last t) :: nat)"
  using assms by (auto simp: field_text_def list_all_iff isspace_def neq_Nil_conv dest: last_in_set)

lemma scan_field:
  assumes "field_text n t" "rest = [] \<or> isspace (hd rest)"
  shows "scan_word n (t @ rest) = Some (t, rest)"
proof -
  have "takeWhile (\<lambda>c. \<not> isspace c) (t @ rest) = t"
    using assms field_textD(3) [OF assms(1)] by (cases rest) (auto simp: list_all_iff)
  moreover have "dropWhile isspace (t @ rest) = t @ rest"
    using field_textD(1,3) [OF assms(1)] by (cases t) auto
  ultimately show ?thesis using field_textD(1,2) [OF assms(1)] by (cases n) (simp_all add: scan_word_def Let_def)
qed

lemma skip_to_field: "field_text n t \<Longrightarrow> skip_blanks (CHR '' '' # t @ rest) = t @ rest"
  using field_textD(1,5,6) [of n t] by (cases t) (auto simp: skip_blanks_def)

lemma skip_to_name: "t \<noteq> [] \<Longrightarrow> hd t \<noteq> CHR '' '' \<Longrightarrow> hd t \<noteq> CHR 0x09 \<Longrightarrow> skip_blanks (CHR '' '' # t) = t"
  by (cases t) (auto simp: skip_blanks_def)

lemma decimal_field: "n < 10 ^ 31 \<Longrightarrow> field_text 31 (decimal n)"
  using decimal_props [of n] decimal_props(4) [of n 31] by (auto simp: field_text_def list_all_iff dest: digit_not_space(2))

lemma signed_field:
  assumes "\<bar>v\<bar> < 10 ^ 30"
  shows "field_text 31 (signed_decimal v)"
proof -
  have "nat \<bar>v\<bar> < 10 ^ 30" using assms by simp
  then have "length (decimal (nat \<bar>v\<bar>)) \<le> 30" by (intro decimal_props(4)) simp_all
  then show ?thesis
    using decimal_props [of "nat \<bar>v\<bar>"]
    by (auto simp: field_text_def signed_decimal_def list_all_iff dest: digit_not_space(2))
qed

lemma name_field:
  "field_text 31 (name_of viewer_screens ((=) x))" "field_text 31 (name_of references ((=) r))"
  "field_text 31 (name_of scan_targets ((=) t))" "field_text 31 (name_of select_kinds ((=) k))"
  "field_text 31 (name_of viewer_settings (\<lambda>row. fst row = f))"
proof -
  show "field_text 31 (name_of viewer_screens ((=) x))"
    by (cases x) (simp_all add: name_of_def viewer_screens_def field_text_def)
  show "field_text 31 (name_of references ((=) r))"
    by (cases r) (simp_all add: name_of_def references_def field_text_def)
  show "field_text 31 (name_of scan_targets ((=) t))"
    by (cases t) (simp_all add: name_of_def scan_targets_def field_text_def)
  show "field_text 31 (name_of select_kinds ((=) k))"
    by (cases k) (simp_all add: name_of_def select_kinds_def field_text_def)
  show "field_text 31 (name_of viewer_settings (\<lambda>row. fst row = f))"
    by (cases f) (simp_all add: name_of_def viewer_settings_def field_text_def)
qed

lemma name_found:
  "map_of viewer_screens (name_of viewer_screens ((=) x)) = Some x"
  "map_of references (name_of references ((=) r)) = Some r"
  "map_of scan_targets (name_of scan_targets ((=) t)) = Some t"
  "map_of select_kinds (name_of select_kinds ((=) k)) = Some k"
proof -
  show "map_of viewer_screens (name_of viewer_screens ((=) x)) = Some x"
    by (cases x) (simp_all add: name_of_def viewer_screens_def)
  show "map_of references (name_of references ((=) r)) = Some r"
    by (cases r) (simp_all add: name_of_def references_def)
  show "map_of scan_targets (name_of scan_targets ((=) t)) = Some t"
    by (cases t) (simp_all add: name_of_def scan_targets_def)
  show "map_of select_kinds (name_of select_kinds ((=) k)) = Some k"
    by (cases k) (simp_all add: name_of_def select_kinds_def)
qed

text \<open>The parser of each form takes what its request writes after the command word.\<close>

lemmas parse_steps = skip_to_field scan_field [OF _ disjI1, of _ _ "[]", simplified] nothing_after_def

lemma one_field:
  assumes "field_text n t"
  shows "scan_word n (skip_blanks (CHR '' '' # t)) = Some (t, [])"
  using scan_field [OF assms, of "[]"] skip_to_field [OF assms, of "[]"] by simp

lemma two_fields:
  assumes "field_text n t" "field_text n u"
  shows "scan_word n (skip_blanks (CHR '' '' # joined t u)) = Some (t, CHR '' '' # u)"
  using scan_field [OF assms(1), of "CHR '' '' # u"] skip_to_field [OF assms(1), of "CHR '' '' # u"]
  by (simp add: isspace_def)

lemma parse_named:
  "parse_view (CHR '' '' # name_of viewer_screens ((=) x)) = Inr (request_command (View x))"
  "parse_calibrate (CHR '' '' # name_of references ((=) r)) = Inr (request_command (Calibrate r))"
  "parse_scan (CHR '' '' # name_of scan_targets ((=) t)) = Inr (request_command (Scan t))"
  by (simp_all add: parse_view_def parse_calibrate_def parse_scan_def one_field name_field name_found nothing_after_def)

lemma parse_set_request:
  assumes "request_ok (Set_Field x v)"
  shows "parse_set (CHR '' '' # joined (name_of viewer_settings (\<lambda>row. fst row = x)) (signed_decimal v)) =
    Inr (request_command (Set_Field x v))"
proof -
  obtain lo hi b where row: "map_of (map snd viewer_settings) x = Some (lo, hi, b)" "lo \<le> v" "v \<le> hi"
    using assms by (auto split: option.splits)
  then have bounds: "- 1000 \<le> v" "v \<le> 16384" by (cases x; simp add: viewer_settings_def)+
  have named: "map_of viewer_settings (name_of viewer_settings (\<lambda>row. fst row = x)) = Some (x, lo, hi, b)"
    using row(1) by (cases x) (simp_all add: viewer_settings_def name_of_def)
  have bit: "b \<Longrightarrow> v = 0 \<or> v = 1" using row by (cases x) (auto simp: viewer_settings_def)
  have "signed_decimal 0 = ''0''" "signed_decimal 1 = ''1''"
    by code_simp+
  then have number: "setting_number lo hi b (signed_decimal v) = Inr v"
    using row bounds bit strtol_decimal [of v] by (auto simp: setting_number_def)
  show ?thesis
    using two_fields [OF name_field(5) signed_field, of v x] one_field [OF signed_field, of v] bounds
    by (simp add: parse_set_def named number nothing_after_def to_int_same)
qed

lemma parse_fft_request:
  assumes "request_ok (Fft v)"
  shows "parse_fft (CHR '' '' # signed_decimal v) = Inr (request_command (Fft v))"
proof -
  have v: "- (2 ^ 31) \<le> v" "v < 2 ^ 31" using assms by simp_all
  then have "\<bar>v\<bar> < 10 ^ 30" by simp
  then show ?thesis
    using v one_field [OF signed_field, of v] strtol_decimal [of v] to_int_same [of v]
    by (simp add: parse_fft_def nothing_after_def)
qed

lemma parse_select_request:
  assumes "request_ok (Pick x n)"
  shows "parse_select (CHR '' '' # joined (name_of select_kinds ((=) x)) (decimal n)) = Inr (request_command (Pick x n))"
proof -
  have n: "n \<le> 100000" using assms by simp
  have "signed_decimal (int n) = decimal n" by (simp add: signed_decimal_def)
  then have "strtol (decimal n) = Some (int n, [], False)" using strtol_decimal [of "int n"] n by simp
  moreover have "field_text 31 (decimal n)" using decimal_field [of n] n by simp
  ultimately show ?thesis
    using n two_fields [OF name_field(4), of "decimal n" x] one_field [of 31 "decimal n"]
    by (simp add: parse_select_def name_found nothing_after_def to_int_same)
qed

lemma parse_sweep_request:
  assumes "request_ok (Sweep a b c)"
  shows "parse_sweep (CHR '' '' # joined a (joined b c)) = Inr (request_command (Sweep a b c))"
proof -
  have f: "field_text 23 a" "field_text 23 b" "field_text 11 c" "a \<noteq> ''stop''" using assms by simp_all
  have space: "scan_word n (CHR '' '' # t) = scan_word n t" for n t by (simp add: scan_word_def isspace_def)
  have "scan_word 23 (joined a (joined b c)) = Some (a, CHR '' '' # joined b c)"
    "scan_word 23 (CHR '' '' # joined b c) = Some (b, CHR '' '' # c)" "scan_word 11 (CHR '' '' # c) = Some (c, [])"
    using scan_field [OF f(1), of "CHR '' '' # joined b c"] scan_field [OF f(2), of "CHR '' '' # c"]
      scan_field [OF f(3), of "[]"] by (simp_all add: space, simp_all add: isspace_def)
  then show ?thesis
    using skip_to_field [OF f(1), of "CHR '' '' # joined b c"] f(4)
    by (simp add: parse_sweep_def sweep_range_def nothing_after_def)
qed

lemma parse_survey_named:
  assumes "t \<noteq> []" "length t \<le> 63" "hd t \<noteq> CHR '' ''" "hd t \<noteq> CHR 0x09"
  shows "parse_survey ('' site '' @ t) = Inr (request_command (Survey_Site t))"
    "parse_survey ('' antenna '' @ t) = Inr (request_command (Survey_Antenna t))"
proof -
  have "field_text 15 ''site''" "field_text 15 ''antenna''" by (simp_all add: field_text_def)
  from this [THEN scan_field, of "CHR '' '' # t"]
  have "scan_word 15 (skip_blanks ('' site '' @ t)) = Some (''site'', CHR '' '' # t)"
    "scan_word 15 (skip_blanks ('' antenna '' @ t)) = Some (''antenna'', CHR '' '' # t)"
    by (simp_all add: skip_blanks_def isspace_def)
  then show "parse_survey ('' site '' @ t) = Inr (request_command (Survey_Site t))"
    "parse_survey ('' antenna '' @ t) = Inr (request_command (Survey_Antenna t))"
    using skip_to_name [of t] assms by (simp_all add: parse_survey_def parse_survey_name_def Let_def)
qed

lemma parse_tune_request:
  "parse_tune (CHR '' '' # decimal (unat hz)) = Inr (request_command (Tune hz))"
proof -
  have d: "takeWhile isdigit (decimal n) = decimal n" "dropWhile isdigit (decimal n) = []" for n
    using decimal_props [of n] by (simp_all add: takeWhile_all)
  have below: "unat hz < 2 ^ 32" using unsigned_less [of hz, where ?'a = nat] by simp
  have "field_text 31 (decimal (unat hz))" using decimal_field [of "unat hz"] below by simp
  then have skip: "skip_blanks (CHR '' '' # decimal (unat hz)) = decimal (unat hz)"
    using skip_to_field [of 31 "decimal (unat hz)" "[]"] by simp
  obtain c cs where cs: "decimal (unat hz) = c # cs" "isdigit c"
    using hd_decimal [of "unat hz"] decimal_props(2) [of "unat hz"] by (cases "decimal (unat hz)") auto
  have "strtoul (decimal (unat hz)) = (unat hz, [], False)"
    using below by (simp add: strtoul_def d decimal_props(3) Let_def)
  then show ?thesis
    unfolding parse_tune_def skip using below cs by (simp add: nothing_after_def)
qed


subsection \<open>The whole line\<close>

lemma trim_printed:
  assumes "t \<noteq> []" "32 < (of_char (last t) :: nat)" "list_all (\<lambda>c. of_char c \<le> (32 :: nat)) ws"
  shows "trim_line (t @ ws) = t"
proof -
  have "dropWhile (\<lambda>c. of_char c \<le> (32 :: nat)) (rev ws @ rev t) = rev t"
    using assms by (subst dropWhile_append2) (auto simp: list_all_iff hd_rev dropWhile_hd)
  then show ?thesis by (simp add: trim_line_def)
qed

lemma c_string_same: "CHR 0x00 \<notin> set t \<Longrightarrow> c_string t = t"
  unfolding c_string_def by (rule takeWhile_eq_all_conv [THEN iffD2]) auto

text \<open>A line that starts with a command word and is short enough goes to that word's parser.\<close>

lemma parse_word:
  assumes "map_of command_words w = Some p" "t = w @ rest" "rest = [] \<or> hd rest = CHR '' ''"
    and "32 < (of_char (last t) :: nat)" "CHR 0x00 \<notin> set t" "length t < 128"
    and "list_all (\<lambda>c. of_char c \<le> (32 :: nat)) ws"
  shows "viewer_command_parse (t @ ws) = p rest"
proof -
  have w: "field_text 31 w" using map_of_SomeD [OF assms(1)] by (auto simp: command_words_def field_text_def)
  then have "w \<noteq> []" "t \<noteq> []" using assms(2) field_textD(1) [OF w] by auto
  moreover have "scan_word 31 t = Some (w, rest)"
    unfolding assms(2) by (rule scan_field [OF w]) (use assms(3) in \<open>auto simp: isspace_def\<close>)
  ultimately show ?thesis
    using assms trim_printed [OF _ assms(4,7)] c_string_same [OF assms(5)]
    by (simp add: viewer_command_parse_def Let_def VIEWER_COMMAND_LINE_MAX_def)
qed

definition line_fits :: "request \<Rightarrow> bool" where
  "line_fits r \<longleftrightarrow> 32 < (of_char (last (request_text r)) :: nat) \<and> CHR 0x00 \<notin> set (request_text r) \<and>
     length (request_text r) < 128"

lemma field_fits:
  assumes "field_text n t" "n + length a < 127"
  shows "32 < (of_char (last (joined a t)) :: nat) \<and> (CHR 0x00 \<notin> set (joined a t) \<longleftrightarrow> CHR 0x00 \<notin> set a) \<and>
    length (joined a t) < 128"
  using assms field_textD [OF assms(1)] by auto

lemma fft_line_fits: "\<bar>v\<bar> < 10 ^ 30 \<Longrightarrow> line_fits (Fft v)"
  using field_textD [OF signed_field, of v] by (auto simp: line_fits_def)

lemma request_line_fits: "request_ok r \<Longrightarrow> line_fits r"
proof (cases r)
  case (Set_Field x v)
  assume "request_ok r"
  then have "\<bar>v\<bar> < 10 ^ 30" unfolding Set_Field by (cases x) (auto simp: viewer_settings_def)
  then show ?thesis
    using field_textD [OF name_field(5), of x] field_textD [OF signed_field, of v] by (auto simp: Set_Field line_fits_def)
next
  case (Fft v)
  assume "request_ok r"
  then have "\<bar>v\<bar> < 10 ^ 30" unfolding Fft by auto
  then show ?thesis using fft_line_fits Fft by simp
next
  case (Pick x n)
  assume "request_ok r"
  then have "field_text 31 (decimal n)" unfolding Pick by (intro decimal_field) simp
  then show ?thesis using field_textD [OF name_field(4), of x] field_textD [of 31 "decimal n"] by (auto simp: Pick line_fits_def)
next
  case (Tune hz)
  have "unat hz < 10 ^ 31" using unsigned_less [of hz, where ?'a = nat] by simp
  then show ?thesis using field_textD [OF decimal_field, of "unat hz"] by (auto simp: Tune line_fits_def)
next
  case (Sweep a b c)
  assume "request_ok r"
  then show ?thesis
    using field_textD [of 23 a] field_textD [of 23 b] field_textD [of 11 c] by (auto simp: Sweep line_fits_def)
next
  case (View x)
  then show ?thesis using field_textD [OF name_field(1), of x] by (auto simp: line_fits_def)
next
  case (Calibrate x)
  then show ?thesis using field_textD [OF name_field(2), of x] by (auto simp: line_fits_def)
next
  case (Scan x)
  then show ?thesis using field_textD [OF name_field(3), of x] by (auto simp: line_fits_def)
qed (auto simp: line_fits_def)

lemma parse_request:
  assumes "request_ok r" "list_all (\<lambda>c. of_char c \<le> (32 :: nat)) ws"
  shows "viewer_command_parse (request_text r @ ws) = Inr (request_command r)"
proof -
  have fits: "32 < (of_char (last (request_text r)) :: nat)" "CHR 0x00 \<notin> set (request_text r)"
    "length (request_text r) < 128"
    using request_line_fits [OF assms(1)] by (simp_all add: line_fits_def)
  note word = parse_word [OF _ _ _ fits assms(2)]
  have keys: "map_of command_words ''view'' = Some parse_view" "map_of command_words ''calibrate'' = Some parse_calibrate"
    "map_of command_words ''apply'' = Some parse_apply" "map_of command_words ''set'' = Some parse_set"
    "map_of command_words ''fft'' = Some parse_fft" "map_of command_words ''scan'' = Some parse_scan"
    "map_of command_words ''sweep'' = Some parse_sweep" "map_of command_words ''survey'' = Some parse_survey"
    "map_of command_words ''select'' = Some parse_select" "map_of command_words ''tune'' = Some parse_tune"
    by (simp_all add: command_words_def)
  show ?thesis
  proof (cases r)
    case (View x)
    show ?thesis using word [OF keys(1)] parse_named(1) [of x] by (simp add: View)
  next
    case (Calibrate x)
    show ?thesis using word [OF keys(2)] parse_named(2) [of x] by (simp add: Calibrate)
  next
    case Apply
    show ?thesis using word [OF keys(3), of "[]"] by (simp add: Apply parse_apply_def nothing_after_def)
  next
    case (Set_Field x v)
    show ?thesis using word [OF keys(4)] parse_set_request [of x v] assms(1) by (simp add: Set_Field)
  next
    case (Fft v)
    show ?thesis using word [OF keys(5)] parse_fft_request [of v] assms(1) by (simp add: Fft)
  next
    case (Scan x)
    show ?thesis using word [OF keys(6)] parse_named(3) [of x] by (simp add: Scan)
  next
    case (Sweep a b c)
    show ?thesis using word [OF keys(7)] parse_sweep_request [of a b c] assms(1) by (simp add: Sweep)
  next
    case Sweep_Stop
    have "parse_sweep '' stop'' = Inr (request_command Sweep_Stop)" by code_simp
    then show ?thesis using word [OF keys(7), of "'' stop''"] by (simp add: Sweep_Stop)
  next
    case Survey_Ask
    have "parse_survey '' ask'' = Inr (request_command Survey_Ask)" by code_simp
    then show ?thesis using word [OF keys(8), of "'' ask''"] by (simp add: Survey_Ask)
  next
    case Survey_Watch
    have "parse_survey '' watch'' = Inr (request_command Survey_Watch)" by code_simp
    then show ?thesis using word [OF keys(8), of "'' watch''"] by (simp add: Survey_Watch)
  next
    case Survey_Watch_Stop
    have "parse_survey '' watch stop'' = Inr (request_command Survey_Watch_Stop)" by code_simp
    then show ?thesis using word [OF keys(8), of "'' watch stop''"] by (simp add: Survey_Watch_Stop)
  next
    case Survey_Save
    have "parse_survey '' save'' = Inr (request_command Survey_Save)" by code_simp
    then show ?thesis using word [OF keys(8), of "'' save''"] by (simp add: Survey_Save)
  next
    case (Survey_Site t)
    show ?thesis using word [OF keys(8), of "'' site '' @ t"] parse_survey_named(1) [of t] assms(1) by (simp add: Survey_Site)
  next
    case (Survey_Antenna t)
    show ?thesis
      using word [OF keys(8), of "'' antenna '' @ t"] parse_survey_named(2) [of t] assms(1) by (simp add: Survey_Antenna)
  next
    case (Pick x n)
    show ?thesis using word [OF keys(9)] parse_select_request [of x n] assms(1) by (simp add: Pick)
  next
    case (Tune hz)
    show ?thesis using word [OF keys(10)] parse_tune_request [of hz] by (simp add: Tune)
  qed
qed

text \<open>C19: Every command a viewer can ask for is understood: each request, written out as its command line and
  followed by any blanks or control bytes, parses to exactly the command it asks for, with every field it
  does not name left at zero.\<close>

theorem viewer_command_round_trip:
  assumes "request_ok r" "list_all (\<lambda>c. of_char c \<le> (32 :: nat)) ws"
  shows "viewer_command_parse (request_text r @ ws) = Inr (request_command r)"
  by (rule parse_request [OF assms])

lemma viewer_command_round_trip_witness:
  "viewer_command_parse (request_text (Set_Field VIEWER_SETTING_PPM (- 42)) @ [CHR 0x0D, CHR 0x0A]) =
   Inr (request_command (Set_Field VIEWER_SETTING_PPM (- 42)))"
  by (rule viewer_command_round_trip) (simp_all add: viewer_settings_def)


subsection \<open>Nothing else is accepted\<close>

text \<open>What every accepted command keeps to, whatever bytes the line held.\<close>

fun request_bounded :: "request \<Rightarrow> bool" where
  "request_bounded (Set_Field x v) \<longleftrightarrow> request_ok (Set_Field x v)"
| "request_bounded (Fft v) \<longleftrightarrow> - (2 ^ 31) \<le> v \<and> v < 2 ^ 31"
| "request_bounded (Sweep a b c) \<longleftrightarrow> a \<noteq> [] \<and> b \<noteq> [] \<and> c \<noteq> [] \<and> length a \<le> 23 \<and> length b \<le> 23 \<and> length c \<le> 11 \<and>
     list_all (\<lambda>x. \<not> isspace x) (a @ b @ c)"
| "request_bounded (Survey_Site t) \<longleftrightarrow> t \<noteq> [] \<and> length t \<le> 63"
| "request_bounded (Survey_Antenna t) \<longleftrightarrow> t \<noteq> [] \<and> length t \<le> 63"
| "request_bounded (Pick x n) \<longleftrightarrow> n \<le> 100000"
| "request_bounded _ \<longleftrightarrow> True"

definition asks :: "viewer_command \<Rightarrow> bool" where
  "asks c \<longleftrightarrow> (\<exists>r. request_bounded r \<and> c = request_command r)"

lemma asksI: "request_bounded r \<Longrightarrow> c = request_command r \<Longrightarrow> asks c"
  unfolding asks_def by blast

lemma scan_wordD:
  assumes "scan_word n s = Some (w, rest)"
  shows "w \<noteq> []" "length w \<le> n" "list_all (\<lambda>c. \<not> isspace c) w"
proof -
  show "w \<noteq> []" "length w \<le> n" using assms by (auto simp: scan_word_def Let_def split: if_splits)
  have "set w \<subseteq> set (takeWhile (\<lambda>c. \<not> isspace c) (dropWhile isspace s))"
    using assms by (auto simp: scan_word_def Let_def split: if_splits dest: in_set_takeD)
  then show "list_all (\<lambda>c. \<not> isspace c) w" by (auto simp: list_all_iff dest: set_takeWhileD)
qed

lemma nothing_after_Inr: "nothing_after s r = Inr c \<longleftrightarrow> list_all isspace s \<and> r = Inr c"
  by (auto simp: nothing_after_def trailing_field_def)

lemma asks_simps [simp]:
  "asks (blank_command\<lparr>cmd_type := VIEWER_COMMAND_VIEW, cmd_screen := x\<rparr>)"
  "asks (blank_command\<lparr>cmd_type := VIEWER_COMMAND_CALIBRATE, cmd_reference := y\<rparr>)"
  "asks (blank_command\<lparr>cmd_type := VIEWER_COMMAND_SCAN, cmd_scan := z\<rparr>)"
  "asks (blank_command\<lparr>cmd_type := VIEWER_COMMAND_APPLY\<rparr>)"
  "asks (blank_command\<lparr>cmd_type := VIEWER_COMMAND_FFT, cmd_number := to_int v\<rparr>)"
  "asks (blank_command\<lparr>cmd_type := VIEWER_COMMAND_SWEEP, sweep_stop := True\<rparr>)"
  "asks (blank_command\<lparr>cmd_type := VIEWER_COMMAND_TUNE, cmd_hz := hz\<rparr>)"
  "asks (survey_command VIEWER_SURVEY_ASK [])" "asks (survey_command VIEWER_SURVEY_WATCH [])"
  "asks (survey_command VIEWER_SURVEY_WATCH_STOP [])" "asks (survey_command VIEWER_SURVEY_SAVE [])"
  "t \<noteq> [] \<Longrightarrow> asks (survey_command VIEWER_SURVEY_SITE (take 63 t))"
  "t \<noteq> [] \<Longrightarrow> asks (survey_command VIEWER_SURVEY_ANTENNA (take 63 t))"
  using asksI [of "View x"] asksI [of "Calibrate y"] asksI [of "Scan z"] asksI [of Apply] asksI [of "Fft (to_int v)"]
    asksI [of Sweep_Stop] asksI [of "Tune hz"] asksI [of Survey_Ask] asksI [of Survey_Watch]
    asksI [of Survey_Watch_Stop] asksI [of Survey_Save] asksI [of "Survey_Site (take 63 t)"]
    asksI [of "Survey_Antenna (take 63 t)"] to_int_range [of v]
  by simp_all

lemma asks_select [simp]:
  "0 \<le> v \<Longrightarrow> v \<le> 100000 \<Longrightarrow>
   asks (blank_command\<lparr>cmd_type := VIEWER_COMMAND_SELECT, cmd_select := x, cmd_number := to_int v\<rparr>)"
  by (rule asksI [of "Pick x (nat v)"]) (simp_all add: to_int_same)

lemma setting_in_bounds:
  assumes "map_of viewer_settings field = Some (x, lo, hi, b)" "setting_number lo hi b t = Inr v"
  shows "asks (blank_command\<lparr>cmd_type := VIEWER_COMMAND_SET, cmd_setting := x, cmd_number := to_int v\<rparr>)"
proof (rule asksI [of "Set_Field x v"])
  have row: "(field, x, lo, hi, b) \<in> set viewer_settings" using assms(1) by (rule map_of_SomeD)
  have v: "lo \<le> v" "v \<le> hi"
    using assms(2) row by (auto simp: setting_number_def viewer_settings_def split: if_splits option.splits prod.splits)
  then show "request_bounded (Set_Field x v)" using row by (auto simp: viewer_settings_def)
  have "- 1000 \<le> v" "v \<le> 16384" using v row by (auto simp: viewer_settings_def)
  then show "blank_command\<lparr>cmd_type := VIEWER_COMMAND_SET, cmd_setting := x, cmd_number := to_int v\<rparr> =
      request_command (Set_Field x v)"
    by (simp add: to_int_same)
qed

lemma sweep_range_asks: "sweep_range s = Inr c \<Longrightarrow> asks c"
proof -
  assume "sweep_range s = Inr c"
  then obtain a s1 b s2 d s3 where w: "scan_word 23 s = Some (a, s1)" "scan_word 23 s1 = Some (b, s2)"
    "scan_word 11 s2 = Some (d, s3)"
    "c = blank_command\<lparr>cmd_type := VIEWER_COMMAND_SWEEP, sweep_from := a, sweep_to := b, sweep_dwell := d\<rparr>"
    by (auto simp: sweep_range_def nothing_after_Inr Let_def split: option.splits)
  then show ?thesis
    using scan_wordD [OF w(1)] scan_wordD [OF w(2)] scan_wordD [OF w(3)] by (intro asksI [of "Sweep a b d"]) simp_all
qed

lemma parsers_ask:
  "parse_view s = Inr c \<Longrightarrow> asks c" "parse_calibrate s = Inr c \<Longrightarrow> asks c" "parse_scan s = Inr c \<Longrightarrow> asks c"
  "parse_apply s = Inr c \<Longrightarrow> asks c" "parse_set s = Inr c \<Longrightarrow> asks c" "parse_fft s = Inr c \<Longrightarrow> asks c"
  "parse_sweep s = Inr c \<Longrightarrow> asks c" "parse_survey s = Inr c \<Longrightarrow> asks c" "parse_select s = Inr c \<Longrightarrow> asks c"
  "parse_tune s = Inr c \<Longrightarrow> asks c"
proof -
  show "parse_view s = Inr c \<Longrightarrow> asks c" by (auto simp: parse_view_def nothing_after_Inr split: option.splits)
  show "parse_calibrate s = Inr c \<Longrightarrow> asks c" by (auto simp: parse_calibrate_def nothing_after_Inr split: option.splits)
  show "parse_scan s = Inr c \<Longrightarrow> asks c" by (auto simp: parse_scan_def nothing_after_Inr split: option.splits)
  show "parse_apply s = Inr c \<Longrightarrow> asks c" by (auto simp: parse_apply_def nothing_after_Inr)
  show "parse_set s = Inr c \<Longrightarrow> asks c"
    by (auto simp: parse_set_def nothing_after_Inr dest: setting_in_bounds split: option.splits sum.splits prod.splits)
  show "parse_fft s = Inr c \<Longrightarrow> asks c"
    by (auto simp: parse_fft_def nothing_after_Inr split: option.splits prod.splits if_splits)
  show "parse_sweep s = Inr c \<Longrightarrow> asks c"
    by (auto simp: parse_sweep_def nothing_after_Inr Let_def sweep_range_asks split: option.splits if_splits)
  show "parse_survey s = Inr c \<Longrightarrow> asks c"
    by (auto simp: parse_survey_def parse_survey_watch_def parse_survey_name_def nothing_after_Inr Let_def
        split: option.splits if_splits)
  show "parse_select s = Inr c \<Longrightarrow> asks c"
    by (auto simp: parse_select_def nothing_after_Inr split: option.splits prod.splits if_splits)
  show "parse_tune s = Inr c \<Longrightarrow> asks c"
    by (auto simp: parse_tune_def nothing_after_Inr Let_def split: list.splits if_splits prod.splits)
qed

text \<open>C28: Whatever bytes a viewer sends, a command that is accepted is one of the requests, within its bounds:
  a setting inside the range of its table row, an index of at most 100000, text that fits its field, and
  every field the request does not name at zero, never another command's.\<close>

theorem viewer_command_accepts_requests_only:
  assumes "viewer_command_parse line = Inr c"
  shows "\<exists>r. request_bounded r \<and> c = request_command r"
proof -
  obtain w after p where "map_of command_words w = Some p" "p after = Inr c"
    using assms by (auto simp: viewer_command_parse_def Let_def split: if_splits option.splits)
  then have "asks c"
    by (auto simp: command_words_def parsers_ask split: if_splits)
  then show ?thesis unfolding asks_def .
qed

lemma viewer_command_accepts_requests_only_witness:
  "\<exists>r. request_bounded r \<and> request_command (Survey_Site ''home sala'') = request_command r"
proof (rule viewer_command_accepts_requests_only)
  show "viewer_command_parse ''  survey site   home sala '' = Inr (request_command (Survey_Site ''home sala''))"
    by code_simp
qed

subsection \<open>What slips through\<close>

text \<open>The parser checks that nothing follows a command, but only up to the first zero byte: any bytes after
  one, up to the length limit, are dropped and the command before it is carried out.\<close>

theorem viewer_command_hides_after_nul:
  assumes "request_ok r" "length (request_text r) + Suc (length junk) < 128" "junk \<noteq> []"
    and "32 < (of_char (last junk) :: nat)"
  shows "viewer_command_parse (request_text r @ CHR 0x00 # junk) = Inr (request_command r)"
proof -
  let ?line = "request_text r @ CHR 0x00 # junk"
  have trim: "trim_line ?line = ?line" using trim_printed [of ?line "[]"] assms(3,4) by simp
  have same: "c_string (request_text r) = request_text r" "c_string ?line = request_text r"
    using request_line_fits [OF assms(1)] c_string_same
    by (auto simp: line_fits_def c_string_def takeWhile_append)
  have plain: "trim_line (request_text r) = request_text r" "request_text r \<noteq> []" "length (request_text r) < 128"
    using request_line_fits [OF assms(1)] trim_printed [of "request_text r" "[]"] by (cases r; auto simp: line_fits_def)+
  have "viewer_command_parse ?line = viewer_command_parse (request_text r)"
    unfolding viewer_command_parse_def trim plain(1) same Let_def
    using assms(2) plain(2,3) by (simp add: VIEWER_COMMAND_LINE_MAX_def)
  then show ?thesis using parse_request [OF assms(1), of "[]"] by simp
qed

lemma viewer_command_hides_after_nul_witness:
  "viewer_command_parse (request_text Apply @ CHR 0x00 # ''no, do not'') = Inr (request_command Apply)"
  by (rule viewer_command_hides_after_nul) simp_all

text \<open>A transform size that does not fit an \<open>int\<close> is not refused like one that does not fit a \<open>long\<close>: it
  wraps round to a size the program may well offer.\<close>

theorem viewer_command_fft_wraps:
  assumes "- (2 ^ 63) \<le> v" "v < 2 ^ 63"
  shows "viewer_command_parse (request_text (Fft v)) = Inr (request_command (Fft (to_int v)))"
proof -
  have v: "\<bar>v\<bar> < 10 ^ 30" using assms by simp
  then have fits: "line_fits (Fft v)" by (rule fft_line_fits)
  have "parse_fft (CHR '' '' # signed_decimal v) = Inr (request_command (Fft (to_int v)))"
    using one_field [OF signed_field [OF v]] strtol_decimal [OF assms] by (simp add: parse_fft_def nothing_after_def)
  moreover have "map_of command_words ''fft'' = Some parse_fft" by (simp add: command_words_def)
  ultimately show ?thesis
    using parse_word [of "''fft''" parse_fft "request_text (Fft v)" "CHR '' '' # signed_decimal v" "[]"] fits
    by (simp add: line_fits_def)
qed

lemma viewer_command_fft_wraps_witness:
  "viewer_command_parse (request_text (Fft 4294967552)) = Inr (request_command (Fft 256))"
  using viewer_command_fft_wraps [of 4294967552] by (simp add: to_int_def)

text \<open>A sweep's first field longer than its 23 characters is not refused: what is left of it is taken for the
  second field.\<close>

lemma sweep_splits_long_field:
  assumes "request_ok (Sweep a b c)" "length a = 23"
  shows "parse_sweep (CHR '' '' # a @ joined b c) = Inr (request_command (Sweep a b c))"
proof -
  have f: "field_text 23 a" "field_text 23 b" "field_text 11 c" "a \<noteq> ''stop''" using assms(1) by simp_all
  have "takeWhile (\<lambda>x. \<not> isspace x) (a @ joined b c) = a @ b"
    using field_textD(3) [OF f(1)] field_textD(3) [OF f(2)]
    by (subst takeWhile_append2) (auto simp: list_all_iff isspace_def takeWhile_tail)
  moreover have "dropWhile isspace (a @ joined b c) = a @ joined b c"
    using field_textD(1,3) [OF f(1)] by (cases a) auto
  ultimately have "scan_word 23 (a @ joined b c) = Some (a, joined b c)"
    using field_textD(1) [OF f(1)] assms(2) by (simp add: scan_word_def Let_def)
  moreover have "scan_word 23 (joined b c) = Some (b, CHR '' '' # c)" "scan_word 11 (CHR '' '' # c) = Some (c, [])"
    using scan_field [OF f(2), of "CHR '' '' # c"] scan_field [OF f(3), of "[]"]
    by (simp_all add: scan_word_def isspace_def)
  ultimately show ?thesis
    using skip_to_field [OF f(1), of "joined b c"] f(4) by (simp add: parse_sweep_def sweep_range_def nothing_after_def)
qed

end
