(* ===== verification/Check_Register.thy ===== *)
theory Check_Register
  imports Prelude
begin

text \<open>
  What the shift registers of the program's block codes share. A register takes one bit per step;
  the locales state what makes it a cyclic code's divider, and prove once that the two ways the code
  uses it (bits shifted in below, or fed back from the top) check what they generate and see every
  burst of errors no longer than the register. RDS, GSM, LTE, TETRA and ADS-B interpret them.
\<close>

unbundle bit_operations_syntax

definition xor_bits :: "bool list \<Rightarrow> bool list \<Rightarrow> bool list" where
  "xor_bits xs ys = map2 (\<noteq>) xs ys"

definition word_bits :: "nat \<Rightarrow> 'w::len word \<Rightarrow> bool list" where
  "word_bits n w = map (\<lambda>i. bit w (n - 1 - i)) [0..<n]"

lemma length_xor_bits [simp]: "length (xor_bits xs ys) = min (length xs) (length ys)"
  by (simp add: xor_bits_def)

lemma length_word_bits [simp]: "length (word_bits n w) = n"
  by (simp add: word_bits_def)

lemma xor_bits_Cons [simp]: "xor_bits (x # xs) (y # ys) = (x \<noteq> y) # xor_bits xs ys"
  by (simp add: xor_bits_def)

lemma xor_bits_Nil [simp]: "xor_bits [] ys = []" "xor_bits xs [] = []"
  by (simp_all add: xor_bits_def)

lemma xor_bits_append:
  "length xs = length xs' \<Longrightarrow> xor_bits (xs @ ys) (xs' @ ys') = xor_bits xs xs' @ xor_bits ys ys'"
  by (simp add: xor_bits_def)

lemma xor_bits_False: "length xs = n \<Longrightarrow> xor_bits xs (replicate n False) = xs"
  by (induction xs arbitrary: n) auto

lemma xor_bits_False_left: "length xs = n \<Longrightarrow> xor_bits (replicate n False) xs = xs"
  by (induction xs arbitrary: n) auto

lemma xor_bits_cancel: "length xs = length ys \<Longrightarrow> xor_bits xs (xor_bits xs ys) = ys"
  by (induction xs ys rule: list_induct2) auto

lemma xor_bits_equal:
  assumes "length ys = length xs" "True \<notin> set (xor_bits xs ys)"
  shows "ys = xs"
  using assms by (induction ys xs rule: list_induct2) auto

lemma word_bits_Suc: "word_bits (Suc n) w = bit w n # word_bits n w"
  by (simp add: word_bits_def upt_conv_Cons map_Suc_upt [symmetric] del: upt_Suc)

lemma word_bits_append: "word_bits (m + n) w = word_bits m (drop_bit n w) @ word_bits n w"
proof (induction m)
  case (Suc m)
  then show ?case by (simp add: word_bits_Suc bit_drop_bit_eq add.commute)
qed (simp add: word_bits_def)

lemma word_bits_xor: "word_bits n (v XOR w) = xor_bits (word_bits n v) (word_bits n w)"
  by (rule nth_equalityI) (simp_all add: word_bits_def xor_bits_def bit_xor_iff)

lemma word_bits_zero: "word_bits n 0 = replicate n False"
  by (rule nth_equalityI) (simp_all add: word_bits_def)

lemma word_bits_nonzero:
  assumes "take_bit k e = e" "e \<noteq> (0 :: 'w::len word)"
  shows "True \<in> set (word_bits k e)"
proof -
  obtain i where i: "bit e i" using assms(2) by (auto simp: bit_eq_iff)
  with assms(1) have "i < k" by (metis bit_take_bit_iff)
  then have "k - 1 - (k - 1 - i) = i" "k - 1 - i < length (word_bits k e)" by simp_all
  moreover from this have "word_bits k e ! (k - 1 - i)" using i by (simp add: word_bits_def)
  ultimately show ?thesis by (metis nth_mem)
qed

lemma word_bits_burst:
  assumes "take_bit k e = (e :: 'w::len word)" "j + k \<le> n" "n \<le> LENGTH('w)"
  shows "word_bits n (push_bit j e) =
    replicate (n - k - j) False @ word_bits k e @ replicate j False"
proof -
  have low: "word_bits j (push_bit j e) = replicate j False"
    by (rule nth_equalityI) (auto simp: word_bits_def bit_push_bit_iff)
  have e: "drop_bit j (push_bit j e) = e"
  proof (rule bit_word_eqI)
    fix i
    have "i < k" if "bit e i" using assms(1) that by (metis bit_take_bit_iff)
    then show "bit (drop_bit j (push_bit j e)) i = bit e i"
      using assms(2,3) by (auto simp: bit_simps)
  qed
  have "drop_bit k e = 0" by (metis assms(1) take_bit_eq_self_iff_drop_bit_eq_0)
  then have "word_bits (n - j) e = replicate (n - k - j) False @ word_bits k e"
    using word_bits_append [of "n - k - j" k e] assms(2) by (simp add: word_bits_zero)
  then show ?thesis
    using word_bits_append [of "n - j" j "push_bit j e"] assms(2) by (simp add: low e)
qed

lemma and_test_bit: "(a AND 2 ^ n \<noteq> 0) = bit a n" for a :: "'w::len word"
  by (simp add: and_exp_eq_0_iff_not_bit)

lemma word_bits_cong: "(\<And>i. i < n \<Longrightarrow> bit v i = bit w i) \<Longrightarrow> word_bits n v = word_bits n w"
  by (simp add: word_bits_def)

definition word_of_bits :: "bool list \<Rightarrow> 'w::len word" where
  "word_of_bits bs = foldl (\<lambda>a x. push_bit 1 a OR of_bool x) 0 bs"

lemma word_of_bits_snoc: "word_of_bits (bs @ [x]) = push_bit 1 (word_of_bits bs) OR of_bool x"
  by (simp add: word_of_bits_def)

lemma bit_times_2: "bit (a * 2 :: 'w::len word) n \<longleftrightarrow> n \<noteq> 0 \<and> n < LENGTH('w) \<and> bit a (n - 1)"
  using bit_double_iff [of a n] by (simp add: mult.commute conj_ac)

lemma bit_word_of_bits:
  "length bs \<le> LENGTH('w) \<Longrightarrow>
   bit (word_of_bits bs :: 'w::len word) i \<longleftrightarrow> i < length bs \<and> bs ! (length bs - 1 - i)"
proof (induction bs arbitrary: i rule: rev_induct)
  case Nil
  show ?case by (simp add: word_of_bits_def)
next
  case (snoc x bs)
  show ?case
  proof (cases i)
    case 0
    then show ?thesis by (simp add: word_of_bits_snoc bit_simps bit_times_2)
  next
    case (Suc j)
    have "bit (word_of_bits (bs @ [x]) :: 'w word) i \<longleftrightarrow> bit (word_of_bits bs :: 'w word) j"
      using snoc.prems by (auto simp: Suc word_of_bits_snoc bit_simps bit_times_2 snoc.IH)
    also have "\<dots> \<longleftrightarrow> j < length bs \<and> bs ! (length bs - 1 - j)" using snoc by simp
    also have "\<dots> \<longleftrightarrow> i < length (bs @ [x]) \<and> (bs @ [x]) ! (length (bs @ [x]) - 1 - i)"
    proof (cases "j < length bs")
      case True
      then have "length bs - Suc j < length bs" by (intro diff_less) auto
      with True show ?thesis by (simp add: Suc nth_append)
    qed (simp add: Suc)
    finally show ?thesis .
  qed
qed

lemma word_of_bits_word_bits:
  "n \<le> LENGTH('w) \<Longrightarrow> word_of_bits (word_bits n w) = (take_bit n w :: 'w::len word)"
  by (rule bit_word_eqI) (auto simp: bit_word_of_bits bit_simps word_bits_def)

lemma word_bits_word_of_bits:
  "length bs = n \<Longrightarrow> n \<le> LENGTH('w) \<Longrightarrow> word_bits n (word_of_bits bs :: 'w::len word) = bs"
  by (rule nth_equalityI) (auto simp: bit_word_of_bits word_bits_def)

lemma word_of_bits_eq_0:
  assumes "length bs \<le> LENGTH('w)" "word_of_bits bs = (0 :: 'w::len word)"
  shows "True \<notin> set bs"
proof
  assume "True \<in> set bs"
  then obtain i where i: "i < length bs" "bs ! i" by (auto simp: in_set_conv_nth)
  then have "bit (word_of_bits bs :: 'w word) (length bs - 1 - i)"
    using assms(1) by (simp add: bit_word_of_bits)
  with assms(2) show False by simp
qed

text \<open>The register: linear over exclusive or, of \<open>width\<close> bits, and never emptied by a zero.\<close>

locale check_register =
  fixes step :: "'w::len word \<Rightarrow> bool \<Rightarrow> 'w word" and width :: nat
  assumes step_xor: "step (a XOR b) (x \<noteq> y) = step a x XOR step b y"
    and step_range: "take_bit width a = a \<Longrightarrow> take_bit width (step a x) = step a x"
    and step_live: "take_bit width a = a \<Longrightarrow> step a False = 0 \<Longrightarrow> a = 0"
    and width_fits: "0 < width" "width \<le> LENGTH('w)"
begin

lemma step_zero: "step 0 False = 0"
  using step_xor [of 0 0 False False] by simp

lemma run_range: "take_bit width a = a \<Longrightarrow> take_bit width (foldl step a bs) = foldl step a bs"
  by (induction bs arbitrary: a) (simp_all add: step_range)

lemma run_zeros: "foldl step 0 (replicate n False) = 0"
  by (induction n) (simp_all add: step_zero)

lemma run_xor:
  "length xs = length ys \<Longrightarrow>
   foldl step (a XOR b) (xor_bits xs ys) = foldl step a xs XOR foldl step b ys"
proof (induction xs ys arbitrary: a b rule: list_induct2)
  case (Cons x xs y ys)
  show ?case unfolding xor_bits_Cons foldl_Cons step_xor by (rule Cons.IH)
qed simp

lemma run_live: "take_bit width a = a \<Longrightarrow> foldl step a (replicate n False) = 0 \<Longrightarrow> a = 0"
proof (induction n arbitrary: a)
  case (Suc n)
  then have "step a False = 0" using step_range [of a False] by simp
  with Suc.prems(1) show ?case by (rule step_live)
qed simp

lemma error_changes:
  assumes "length msg = length err" "foldl step 0 err \<noteq> 0"
  shows "foldl step a (xor_bits msg err) \<noteq> foldl step a msg"
proof
  assume eq: "foldl step a (xor_bits msg err) = foldl step a msg"
  have "foldl step a (xor_bits msg err) = foldl step a msg XOR foldl step 0 err"
    using run_xor [OF assms(1), of a 0] by simp
  with eq have "foldl step a msg = foldl step a msg XOR foldl step 0 err" by simp
  then have "foldl step 0 err = 0"
    by (metis word_xor_self_cancel xor.commute xor_self_eq)
  with assms(2) show False ..
qed

lemma burst_nonzero:
  assumes "\<And>bs. length bs = width \<Longrightarrow> True \<in> set bs \<Longrightarrow> foldl step 0 bs \<noteq> 0"
    and "length burst \<le> width" "True \<in> set burst"
  shows "foldl step 0 (replicate i False @ burst @ replicate j False) \<noteq> 0"
proof -
  let ?pad = "replicate (width - length burst) False"
  have "foldl step 0 burst = foldl step 0 (?pad @ burst)" by (simp add: run_zeros)
  also have "\<dots> \<noteq> 0" by (rule assms(1)) (use assms(2,3) in auto)
  finally have "foldl step 0 burst \<noteq> 0" .
  then have "foldl step (foldl step 0 burst) (replicate j False) \<noteq> 0"
    using run_live run_range [of 0 burst] by fastforce
  then show ?thesis by (simp add: run_zeros)
qed

end

text \<open>Bits enter below: the register holds the remainder of what has been read.\<close>

locale shift_in_register = check_register +
  assumes shift_in: "take_bit (width - 1) a = a \<Longrightarrow> step a x = push_bit 1 a OR of_bool x"
begin

lemma load: "length bs \<le> width \<Longrightarrow> foldl step 0 bs = word_of_bits bs"
proof (induction bs rule: rev_induct)
  case Nil
  show ?case by (simp add: word_of_bits_def)
next
  case (snoc x bs)
  have "take_bit (width - 1) (word_of_bits bs) = (word_of_bits bs :: 'a word)"
    using snoc.prems width_fits by (intro bit_word_eqI) (auto simp: bit_simps bit_word_of_bits)
  with snoc show ?case by (simp add: word_of_bits_snoc shift_in)
qed

lemma full_nonzero: "length bs = width \<Longrightarrow> True \<in> set bs \<Longrightarrow> foldl step 0 bs \<noteq> 0"
  using load [of bs] word_of_bits_eq_0 [of bs, where 'w = 'a] width_fits(2) by auto

lemmas burst = burst_nonzero [OF full_nonzero]

text \<open>The remainder of the message followed by room for the check, put in that room, adds the
  register's content to the remainder of the whole.\<close>

lemma append_check:
  assumes "length cs = width"
  shows "foldl step 0 (msg @ cs) = foldl step 0 (msg @ replicate width False) XOR word_of_bits cs"
proof -
  have "msg @ cs = xor_bits (msg @ replicate width False) (replicate (length msg) False @ cs)"
    using assms by (simp add: xor_bits_append xor_bits_False xor_bits_False_left)
  then have "foldl step 0 (msg @ cs) =
      foldl step 0 (msg @ replicate width False) XOR foldl step 0 (replicate (length msg) False @ cs)"
    using run_xor [of "msg @ replicate width False" "replicate (length msg) False @ cs" 0 0] assms by simp
  then show ?thesis using assms by (simp add: run_zeros load)
qed

end

text \<open>Bits are added to the one that leaves at the top: the register holds the check bits already.\<close>

locale feedback_register = check_register +
  assumes flush: "step a (bit a (width - 1)) = take_bit width (push_bit 1 a)"
begin

lemma flush_run:
  "n \<le> width \<Longrightarrow> foldl step (take_bit width (push_bit (width - n) r)) (word_bits n r) = 0"
proof (induction n arbitrary: r)
  case 0
  show ?case using width_fits by (intro bit_word_eqI) (auto simp: bit_simps word_bits_def)
next
  case (Suc n)
  let ?a = "take_bit width (push_bit (width - Suc n) r)"
  have top: "bit ?a (width - 1) = bit r n"
    using Suc.prems width_fits by (auto simp: bit_simps)
  have next_a: "take_bit width (push_bit 1 ?a) = take_bit width (push_bit (width - n) r)"
    using Suc.prems width_fits by (intro bit_word_eqI) (auto simp: bit_simps bit_times_2 Suc_diff_Suc)
  have "step ?a (bit r n) = take_bit width (push_bit (width - n) r)"
    using flush [of ?a] unfolding top next_a .
  then show ?case using Suc by (simp add: word_bits_Suc)
qed

lemma append_check: "take_bit width r = r \<Longrightarrow> foldl step r (word_bits width r) = 0"
  using flush_run [of width r] by simp

lemma full_nonzero:
  assumes "length bs = width" "True \<in> set bs"
  shows "foldl step 0 bs \<noteq> 0"
proof
  assume zero: "foldl step 0 bs = 0"
  define r :: "'a word" where "r = word_of_bits bs"
  have bs: "word_bits width r = bs" using assms(1) width_fits by (simp add: r_def word_bits_word_of_bits)
  have r: "take_bit width r = r"
    using assms(1) width_fits by (intro bit_word_eqI) (auto simp: r_def bit_simps bit_word_of_bits)
  have "foldl step (r XOR 0) (xor_bits (replicate width False) bs) =
      foldl step r (replicate width False) XOR foldl step 0 bs"
    by (rule run_xor) (simp add: assms(1))
  then have "foldl step r bs = foldl step r (replicate width False)"
    using assms(1) zero by (simp add: xor_bits_False_left)
  moreover have "foldl step r bs = 0" using append_check [OF r] bs by simp
  ultimately have "r = 0" using run_live [OF r] by simp
  then have "True \<notin> set bs" using word_of_bits_eq_0 [of bs] assms(1) width_fits r_def by simp
  with assms(2) show False by simp
qed

lemmas burst = burst_nonzero [OF full_nonzero]

text \<open>Only the register's own content brings it to zero.\<close>

lemma check_zero:
  assumes "take_bit width r = r" "length p = width"
  shows "foldl step r p = 0 \<longleftrightarrow> p = word_bits width r"
proof -
  let ?e = "xor_bits (word_bits width r) p"
  have "foldl step (r XOR 0) (xor_bits (word_bits width r) ?e) =
      foldl step r (word_bits width r) XOR foldl step 0 ?e"
    by (rule run_xor) (simp add: assms(2))
  then have run: "foldl step r p = foldl step 0 ?e"
    using append_check [OF assms(1)] assms(2) by (simp add: xor_bits_cancel)
  show ?thesis
  proof (cases "True \<in> set ?e")
    case True
    then have "p \<noteq> word_bits width r" by (auto simp: xor_bits_def set_zip)
    with True show ?thesis using full_nonzero [of ?e] assms(2) run by simp
  next
    case False
    then have "p = word_bits width r" using xor_bits_equal [of p "word_bits width r"] assms(2) by simp
    then show ?thesis using append_check [OF assms(1)] by simp
  qed
qed

end

subsection \<open>The three registers the code writes\<close>

lemma shl_xor:
  "push_bit 1 (a XOR b) OR of_bool (x \<noteq> y) =
   (push_bit 1 a OR of_bool x) XOR (push_bit 1 b OR of_bool y :: 'w::len word)"
  by (rule bit_word_eqI) (auto simp: bit_simps bit_times_2)

lemma tap_xor:
  assumes "r3 = r1 XOR r2" "p3 \<longleftrightarrow> p1 \<noteq> p2"
  shows "(if p3 then r3 XOR g else r3) =
    (if p1 then r1 XOR g else r1) XOR (if p2 then r2 XOR g else (r2 :: 'w::len word))"
  by (rule bit_word_eqI) (use assms in \<open>auto simp: bit_xor_iff\<close>)

lemma in_range_iff: "take_bit n a = a \<longleftrightarrow> (\<forall>i. bit a i \<longrightarrow> i < n)" for a :: "'w::len word"
proof
  assume "take_bit n a = a"
  then show "\<forall>i. bit a i \<longrightarrow> i < n" by (metis bit_take_bit_iff)
qed (auto intro: bit_word_eqI simp: bit_take_bit_iff)

lemma in_range_zero:
  assumes "take_bit n a = a" "\<not> bit a (n - 1)" "take_bit n (push_bit 1 a) = 0" "n \<le> LENGTH('w)"
  shows "a = (0 :: 'w::len word)"
proof (rule bit_word_eqI)
  fix i
  have False if "bit a i"
  proof -
    have "i < n" using assms(1) that by (simp add: in_range_iff)
    moreover have "i \<noteq> n - 1" using assms(2) that by auto
    ultimately have "Suc i < n" by simp
    then have "bit (take_bit n (push_bit 1 a)) (Suc i)"
      using that assms(4) by (simp add: bit_simps bit_times_2)
    with assms(3) show False by simp
  qed
  then show "bit a i = bit (0 :: 'w word) i" by auto
qed

lemma bit_shl: "bit (push_bit 1 a OR of_bool x :: 'w::len word) i \<longleftrightarrow>
    (if i = 0 then x else i < LENGTH('w) \<and> bit a (i - 1))"
  by (cases i) (auto simp: bit_simps bit_times_2)

lemma shift_registerI:
  fixes step :: "'w::len word \<Rightarrow> bool \<Rightarrow> 'w word"
  assumes step: "\<And>a x. step a x =
      (let r = push_bit 1 a OR of_bool x in if bit r n then r XOR poly else r)"
    and poly: "bit poly n" "bit poly 0" "take_bit (Suc n) poly = poly"
    and n: "0 < n" "n < LENGTH('w)"
  shows "shift_in_register step n"
proof
  fix a b :: "'w word" and x y
  show "step (a XOR b) (x \<noteq> y) = step a x XOR step b y"
    unfolding step Let_def by (rule tap_xor [OF shl_xor], unfold shl_xor bit_xor_iff, rule refl)
  show "take_bit n (step a x) = step a x" if "take_bit n a = a"
  proof -
    have low: "i \<le> n" if "bit (push_bit 1 a OR of_bool x) i" for i
      using that \<open>take_bit n a = a\<close> unfolding bit_shl in_range_iff by (auto split: if_splits)
    have high: "i \<le> n" if "bit poly i" for i using that poly(3) unfolding in_range_iff by auto
    have "i < n" if "bit (step a x) i" for i
    proof -
      have "i \<le> n" using that low [of i] high [of i] unfolding step Let_def
        by (cases "bit (push_bit 1 a OR of_bool x) n") (auto simp only: bit_xor_iff if_True if_False)
      moreover have "i \<noteq> n" using that poly(1) unfolding step Let_def
        by (cases "bit (push_bit 1 a OR of_bool x) n") (auto simp only: bit_xor_iff if_True if_False)
      ultimately show ?thesis by simp
    qed
    then show ?thesis unfolding in_range_iff by blast
  qed
  show "a = 0" if "take_bit n a = a" "step a False = 0"
  proof (rule in_range_zero [OF that(1)])
    let ?r = "push_bit 1 a OR of_bool False"
    have "\<not> bit ?r n"
    proof
      assume "bit ?r n"
      then have "?r XOR poly = 0" using that(2) by (simp add: step)
      then have "bit (?r XOR poly) 0 = bit (0 :: 'w word) 0" by (rule arg_cong)
      then show False using poly(2) unfolding bit_xor_iff bit_shl by simp
    qed
    then have "?r = 0" using that(2) by (simp add: step)
    then show "take_bit n (push_bit 1 a) = 0" by simp
    show "\<not> bit a (n - 1)" using \<open>\<not> bit ?r n\<close> n unfolding bit_shl by simp
  qed (use n in simp)
  show "step a x = push_bit 1 a OR of_bool x" if "take_bit (n - 1) a = a"
  proof -
    have "\<not> bit (push_bit 1 a OR of_bool x) n"
      using that n unfolding bit_shl in_range_iff by auto
    then show ?thesis by (simp add: step)
  qed
qed (use n in simp_all)

lemma masked_shift_registerI:
  fixes step :: "'w::len word \<Rightarrow> bool \<Rightarrow> 'w word"
  assumes step: "\<And>a x. step a x =
      (let r = take_bit n (push_bit 1 a) XOR of_bool x in if bit a (n - 1) then r XOR taps else r)"
    and taps: "bit taps 0" "take_bit n taps = taps"
    and n: "0 < n" "n \<le> LENGTH('w)"
  shows "shift_in_register step n"
proof
  have r: "bit (take_bit n (push_bit 1 a) XOR of_bool x) i \<longleftrightarrow> (if i = 0 then x else i < n \<and> bit a (i - 1))"
    for a :: "'w word" and x i
    using n by (cases i) (auto simp: bit_simps bit_times_2)
  fix a b :: "'w word" and x y
  show "step (a XOR b) (x \<noteq> y) = step a x XOR step b y"
    unfolding step Let_def
  proof (rule tap_xor)
    show "take_bit n (push_bit 1 (a XOR b)) XOR of_bool (x \<noteq> y) =
        (take_bit n (push_bit 1 a) XOR of_bool x) XOR (take_bit n (push_bit 1 b) XOR of_bool y)"
      by (cases x; cases y) (simp_all add: push_bit_xor take_bit_xor ac_simps)
  qed (simp add: bit_xor_iff)
  show "take_bit n (step a x) = step a x"
    using r [of a x] taps(2) n unfolding in_range_iff step Let_def
    by (auto simp: bit_xor_iff [of "_ XOR _"] split: if_splits)
  show "a = 0" if "take_bit n a = a" "step a False = 0"
  proof (rule in_range_zero [OF that(1)])
    show top: "\<not> bit a (n - 1)"
    proof
      assume "bit a (n - 1)"
      then have "(take_bit n (push_bit 1 a) XOR of_bool False) XOR taps = 0" using that(2) by (simp add: step)
      then have "bit ((take_bit n (push_bit 1 a) XOR of_bool False) XOR taps) 0 = bit (0 :: 'w word) 0"
        by (rule arg_cong)
      then show False using taps(1) unfolding bit_xor_iff [of _ taps] r by simp
    qed
    show "take_bit n (push_bit 1 a) = 0" using that(2) top by (simp add: step)
  qed (use n in simp)
  show "step a x = push_bit 1 a OR of_bool x" if range: "take_bit (n - 1) a = a"
  proof -
    have "\<not> bit a (n - 1)" using range unfolding in_range_iff by auto
    moreover have "take_bit n (push_bit 1 a) XOR of_bool x = push_bit 1 a OR of_bool x"
      by (rule bit_word_eqI, unfold r bit_shl) (use range n in \<open>auto simp: in_range_iff\<close>)
    ultimately show ?thesis by (simp add: step)
  qed
qed (use n in simp_all)

lemma feedback_registerI:
  fixes step :: "'w::len word \<Rightarrow> bool \<Rightarrow> 'w word"
  assumes step: "\<And>a x. step a x =
      (let r = take_bit n (push_bit 1 a) in if bit a (n - 1) \<noteq> x then r XOR poly else r)"
    and poly: "bit poly 0" "take_bit n poly = poly"
    and n: "0 < n" "n \<le> LENGTH('w)"
  shows "feedback_register step n"
proof
  have r: "bit (take_bit n (push_bit 1 a)) i \<longleftrightarrow> i \<noteq> 0 \<and> i < n \<and> bit a (i - 1)"
    for a :: "'w word" and i
    using n by (cases i) (auto simp: bit_simps bit_times_2)
  fix a b :: "'w word" and x y
  show "step (a XOR b) (x \<noteq> y) = step a x XOR step b y"
    unfolding step Let_def
  proof (rule tap_xor)
    show "take_bit n (push_bit 1 (a XOR b)) = take_bit n (push_bit 1 a) XOR take_bit n (push_bit 1 b)"
      by (rule bit_word_eqI, unfold r bit_xor_iff) auto
  qed (auto simp: bit_xor_iff)
  show "take_bit n (step a x) = step a x"
    using r [of a] poly(2) n unfolding in_range_iff step Let_def
    by (auto simp: bit_xor_iff split: if_splits)
  show "a = 0" if "take_bit n a = a" "step a False = 0"
  proof (rule in_range_zero [OF that(1)])
    show top: "\<not> bit a (n - 1)"
    proof
      assume "bit a (n - 1)"
      then have "take_bit n (push_bit 1 a) XOR poly = 0" using that(2) by (simp add: step)
      then have "bit (take_bit n (push_bit 1 a) XOR poly) 0 = bit (0 :: 'w word) 0" by (rule arg_cong)
      then show False using poly(1) unfolding bit_xor_iff r by simp
    qed
    show "take_bit n (push_bit 1 a) = 0" using that(2) top by (simp add: step)
  qed (use n in simp)
  show "step a (bit a (n - 1)) = take_bit n (push_bit 1 a)" by (simp add: step)
qed (use n in simp_all)

end
