(* ===== verification/Rds.thy ===== *)
theory Rds
  imports Check_Register
begin

text \<open>
  RDS, \<open>src/src/tech/rds.h\<close> and \<open>src/src/tech/rds.c\<close>: the block code, the search for the block
  boundary, and the station a run of groups describes. Of a soft bit the code reads only whether it is
  negative, so the bit stream is a \<open>bool list\<close> of \<open>soft[i] < 0.0f\<close>. Characters are bytes;
  the arrays \<open>ps\<close>, \<open>ps_pending\<close>, \<open>rt\<close> and \<open>rt_pending\<close> are lists of their sizes, terminators
  included. The number names (\<open>rds_pty_name\<close>, \<open>rds_traffic_name\<close>) and the odds of a false lock, a
  documented floating-point estimate, are not modelled. The counters, a \<open>long\<close> of 64 bits and an \<open>int\<close> for the groups, are
  naturals: none grows by more than one a bit, and that of the groups by one in 104 bits, which takes six years of a
  station's 1187.5 bits a second to pass an \<open>int\<close>.
\<close>

unbundle bit_operations_syntax

subsection \<open>The block code\<close>

definition RDS_GENERATOR :: u32 where "RDS_GENERATOR = 0x5B9"

datatype rds_offset = Offset_A | Offset_B | Offset_C | Offset_C_prime | Offset_D

fun rds_offset_word :: "rds_offset \<Rightarrow> u32" where
  "rds_offset_word Offset_A = 0x0FC"
| "rds_offset_word Offset_B = 0x198"
| "rds_offset_word Offset_C = 0x168"
| "rds_offset_word Offset_C_prime = 0x350"
| "rds_offset_word Offset_D = 0x1B4"

fun rds_offset_position :: "rds_offset \<Rightarrow> nat" where
  "rds_offset_position Offset_A = 0"
| "rds_offset_position Offset_B = 1"
| "rds_offset_position Offset_C = 2"
| "rds_offset_position Offset_C_prime = 2"
| "rds_offset_position Offset_D = 3"

text \<open>The body of the loop of \<open>rds_syndrome\<close>, and the loop, from bit 25 down.\<close>

definition rds_step :: "u32 \<Rightarrow> bool \<Rightarrow> u32" where
  "rds_step reg x =
     (let reg = push_bit 1 reg OR of_bool x
      in if reg AND 0x400 \<noteq> 0 then reg XOR (0x400 OR RDS_GENERATOR) else reg)"

definition rds_syndrome :: "u32 \<Rightarrow> u32" where
  "rds_syndrome block = foldl rds_step 0 (word_bits 26 block) AND 0x3FF"

definition rds_offset_of :: "u32 \<Rightarrow> rds_offset option" where
  "rds_offset_of syndrome =
     find (\<lambda>off. rds_offset_word off = syndrome)
       [Offset_A, Offset_B, Offset_C, Offset_C_prime, Offset_D]"

definition rds_encode_block :: "u16 \<Rightarrow> rds_offset \<Rightarrow> u32" where
  "rds_encode_block data offset =
     (let block = push_bit 10 (ucast data :: u32); check = rds_syndrome block
      in block OR ((check XOR rds_offset_word offset) AND 0x3FF))"

subsection \<open>Groups and stations\<close>

record rds_group =
  block_data :: "u16 list"
  present :: "bool list"
  version_b :: bool
  bit_offset :: nat

record rds_funnel =
  bits :: nat
  blocks_matched :: nat
  groups :: nat
  identified :: nat
  named :: nat

record rds_station =
  funnel :: rds_funnel
  pi_valid :: bool
  pi :: u16
  pi_repeats :: nat
  pty_valid :: bool
  pty :: int
  tp :: u16
  ta :: u16
  ps :: "u8 list"
  ps_segments :: nat
  ps_valid :: bool
  ps_pending :: "u8 list"
  rt :: "u8 list"
  rt_valid :: bool
  rt_pending :: "u8 list"
  rt_segments :: u32
  rt_ab :: int
  groups_used :: nat
  groups_by_type :: "nat list"

definition rds_station_init :: rds_station where
  "rds_station_init =
     \<lparr>funnel = \<lparr>bits = 0, blocks_matched = 0, groups = 0, identified = 0, named = 0\<rparr>,
      pi_valid = False, pi = 0, pi_repeats = 0, pty_valid = False, pty = -1, tp = 0, ta = 0,
      ps = replicate 9 0, ps_segments = 0, ps_valid = False, ps_pending = replicate 9 0,
      rt = replicate 65 0, rt_valid = False, rt_pending = replicate 65 0, rt_segments = 0,
      rt_ab = -1, groups_used = 0, groups_by_type = replicate 32 0\<rparr>"

definition rds_character :: "u16 \<Rightarrow> u8" where
  "rds_character code =
     (if 0x20 \<le> code \<and> code < 0x7F then ucast code else if code = 0x0D then 0x0D else 0x20)"

definition char_high :: "u16 \<Rightarrow> u8" where "char_high d = rds_character (drop_bit 8 d AND 0xFF)"
definition char_low :: "u16 \<Rightarrow> u8" where "char_low d = rds_character (d AND 0xFF)"

text \<open>The string in a character array, as \<open>strcmp\<close> and \<open>strlen\<close> see it.\<close>

definition c_string :: "u8 list \<Rightarrow> u8 list" where
  "c_string a = takeWhile (\<lambda>c. c \<noteq> 0) a"

text \<open>The identification in block one.\<close>

definition apply_pi :: "rds_station \<Rightarrow> rds_group \<Rightarrow> rds_station \<times> bool" where
  "apply_pi st g =
     (let d = block_data g ! 0
      in if \<not> present g ! 0 then (st, False)
         else if pi_valid st \<and> pi st = d then (st\<lparr>pi_repeats := pi_repeats st + 1\<rparr>, False)
         else if pi_valid st then (st\<lparr>pi := d, pi_repeats := 1\<rparr>, True)
         else (st\<lparr>pi := d, pi_valid := True, pi_repeats := 1\<rparr>, True))"

text \<open>Its repetition in block three of a version B group.\<close>

definition apply_pi_again :: "rds_station \<Rightarrow> rds_group \<Rightarrow> bool \<Rightarrow> rds_station \<times> bool" where
  "apply_pi_again st g version =
     (let d = block_data g ! 2
      in if version \<and> present g ! 2 \<and> \<not> present g ! 0 then
           (if \<not> pi_valid st then (st\<lparr>pi := d, pi_valid := True, pi_repeats := 1\<rparr>, True)
            else if pi st = d then (st\<lparr>pi_repeats := pi_repeats st + 1\<rparr>, False)
            else (st, False))
         else (st, False))"

text \<open>The programme service name, type 0: the segment goes into the name being assembled.\<close>

definition ps_assemble :: "nat \<Rightarrow> u8 \<Rightarrow> u8 \<Rightarrow> nat \<Rightarrow> u8 list \<Rightarrow> nat \<times> u8 list" where
  "ps_assemble segment a b segments pending =
     (let differs = (pending ! (segment * 2) \<noteq> a \<or> pending ! (segment * 2 + 1) \<noteq> b);
          restart = (differs \<and> bit segments segment);
          segments = (if restart then 0 else segments);
          pending = (if restart then replicate 9 0 else pending);
          pending = (if differs then pending[segment * 2 := a, segment * 2 + 1 := b] else pending)
      in (segments OR push_bit segment 1, pending[8 := 0]))"

definition apply_ps :: "rds_station \<Rightarrow> rds_group \<Rightarrow> rds_station \<times> bool" where
  "apply_ps st g =
     (let segment = unat (block_data g ! 1 AND 3);
          st = st\<lparr>ta := drop_bit 4 (block_data g ! 1) AND 1\<rparr>
      in if \<not> present g ! 3 then (st, False)
         else
           let (segments, pending) = ps_assemble segment (char_high (block_data g ! 3))
                 (char_low (block_data g ! 3)) (ps_segments st) (ps_pending st);
               st = st\<lparr>ps_segments := segments, ps_pending := pending\<rparr>
           in if segments \<noteq> 0xF then (st, False)
              else if ps_valid st \<and> c_string (ps st) = c_string pending then (st, False)
              else if \<not> ps_valid st \<and> c_string (ps st) = c_string pending then (st\<lparr>ps_valid := True\<rparr>, True)
              else (st\<lparr>ps := pending, ps_valid := False\<rparr>, True))"

text \<open>
  The radio text, type 2. \<open>junk\<close> is what the automatic array \<open>chars\<close> holds before it is written:
  the code reads its first two elements when block three of a version A group is missing.
\<close>

definition text_chars :: "u8 \<times> u8 \<Rightarrow> rds_group \<Rightarrow> bool \<Rightarrow> u8 list" where
  "text_chars junk g version =
     (let third = (if \<not> version \<and> present g ! 2
                   then [char_high (block_data g ! 2), char_low (block_data g ! 2)] else []);
          fourth = [char_high (block_data g ! 3), char_low (block_data g ! 3)]
      in if \<not> present g ! 3 then third
         else if \<not> version \<and> third = [] then [fst junk, snd junk] @ fourth
         else third @ fourth)"

fun put_chars :: "u8 list \<Rightarrow> nat \<Rightarrow> u8 list \<Rightarrow> u8 list" where
  "put_chars pending at [] = pending"
| "put_chars pending at (c # cs) =
     put_chars (if at < 64 then pending[at := c] else pending) (at + 1) cs"

text \<open>The text up to its end, the blanks of padding cut off, and the terminators the code writes.\<close>

definition published_text :: "u8 list \<Rightarrow> u8 list \<Rightarrow> nat \<Rightarrow> u8 list" where
  "published_text old pending end =
     (let copied = take 64 pending @ drop 64 old;
          stopped = copied[end := 0];
          last = length (rev (dropWhile (\<lambda>c. c = 0x20) (rev (c_string stopped))))
      in take last stopped @ replicate (length (c_string stopped) - last) 0
         @ drop (length (c_string stopped)) stopped)"

text \<open>The characters collected so far, and which segments have come.\<close>

definition rt_collect :: "bool \<Rightarrow> nat \<Rightarrow> nat \<Rightarrow> u8 list \<Rightarrow> u32 \<times> u8 list \<Rightarrow> u32 \<times> u8 list" where
  "rt_collect flipped address base chars collected =
     (let (segments, pending) = (if flipped then (0, replicate 65 0) else collected)
      in (if chars \<noteq> [] then segments OR push_bit address 1 else segments, put_chars pending base chars))"

definition text_end :: "u8 list \<Rightarrow> nat" where
  "text_end pending = length (takeWhile (\<lambda>c. c \<noteq> 0x0D) (take 64 pending))"

definition apply_rt :: "u8 \<times> u8 \<Rightarrow> rds_station \<Rightarrow> rds_group \<Rightarrow> bool \<Rightarrow> rds_station \<times> bool" where
  "apply_rt junk st g version =
     (let address = unat (block_data g ! 1 AND 0xF);
          ab = (if bit (block_data g ! 1) 4 then 1 else 0);
          base = (if version then address * 2 else address * 4);
          (segments, pending) = rt_collect (rt_ab st \<noteq> ab) address base (text_chars junk g version)
            (rt_segments st, rt_pending st);
          st = st\<lparr>rt_ab := ab, rt_segments := segments, rt_pending := pending\<rparr>
      in if text_end pending < 64 \<or> segments = 0xFFFF
         then (st\<lparr>rt := published_text (rt st) pending (text_end pending), rt_valid := True\<rparr>, True)
         else (st, False))"

definition rds_station_apply :: "u8 \<times> u8 \<Rightarrow> rds_station \<Rightarrow> rds_group \<Rightarrow> rds_station \<times> bool" where
  "rds_station_apply junk st g =
     (let (st, c1) = apply_pi st g
      in if \<not> present g ! 1 then (st, c1)
         else
           let d = block_data g ! 1;
               type = unat (drop_bit 12 d AND 0xF);
               version = bit d 11;
               k = type * 2 + (if version then 1 else 0);
               st = st\<lparr>groups_used := groups_used st + 1,
                       groups_by_type := (groups_by_type st)[k := groups_by_type st ! k + 1],
                       tp := drop_bit 10 d AND 1, pty := uint (drop_bit 5 d AND 0x1F),
                       pty_valid := True\<rparr>;
               (st, c2) = apply_pi_again st g version;
               (st, c3) = (if type = 0 then apply_ps st g
                           else if type = 2 then apply_rt junk st g version
                           else (st, False))
           in (st, c1 \<or> c2 \<or> c3))"

subsection \<open>Synchronisation\<close>

definition block_at :: "bool list \<Rightarrow> nat \<Rightarrow> u32" where
  "block_at soft at = foldl (\<lambda>block x. push_bit 1 block OR of_bool x) 0 (take 26 (drop at soft))"

text \<open>The search loop of \<open>run_length\<close>: blocks matched, and the position of the first of them.\<close>

function run_length_from :: "bool list \<Rightarrow> nat \<Rightarrow> nat option \<Rightarrow> nat" where
  "run_length_from soft p expected =
     (if p + 26 \<le> length soft then
        case rds_offset_of (rds_syndrome (block_at soft p)) of
          None \<Rightarrow> 0
        | Some offset \<Rightarrow>
            (let position = rds_offset_position offset
             in if expected \<noteq> None \<and> expected \<noteq> Some position then 0
                else Suc (run_length_from soft (p + 26) (Some ((position + 1) mod 4))))
      else 0)"
  by pat_completeness auto
termination by (relation "measure (\<lambda>(soft, p, _). length soft - p)") auto

declare run_length_from.simps [simp del]

definition run_length :: "bool list \<Rightarrow> nat \<Rightarrow> nat \<times> nat" where
  "run_length soft at =
     (run_length_from soft at None,
      if at + 26 \<le> length soft then
        (case rds_offset_of (rds_syndrome (block_at soft at)) of
           None \<Rightarrow> 0 | Some offset \<Rightarrow> rds_offset_position offset)
      else 0)"

definition read_block :: "bool list \<Rightarrow> nat \<Rightarrow> nat \<Rightarrow> (u16 \<times> rds_offset) option" where
  "read_block soft at i =
     (let raw = block_at soft (at + i * 26)
      in case rds_offset_of (rds_syndrome raw) of
           None \<Rightarrow> None
         | Some offset \<Rightarrow>
             if rds_offset_position offset = i then Some (ucast (drop_bit 10 raw), offset) else None)"

definition read_group :: "bool list \<Rightarrow> nat \<Rightarrow> rds_group" where
  "read_group soft at =
     (let blocks = map (read_block soft at) [0..<4]
      in \<lparr>block_data = map (\<lambda>b. case b of None \<Rightarrow> 0 | Some (d, _) \<Rightarrow> d) blocks,
          present = map (\<lambda>b. b \<noteq> None) blocks,
          version_b = (case blocks ! 2 of Some (_, Offset_C_prime) \<Rightarrow> True | _ \<Rightarrow> False),
          bit_offset = at\<rparr>)"

record rds_decoder =
  at :: nat
  position :: nat
  synced :: bool
  barren :: nat
  station :: rds_station
  written :: "rds_group list"
  made :: nat

text \<open>Counting a group and folding it into the station.\<close>

definition take_group :: "u8 \<times> u8 \<Rightarrow> nat \<Rightarrow> rds_decoder \<Rightarrow> rds_group \<Rightarrow> rds_decoder" where
  "take_group junk capacity d g =
     (let st = station d;
          f = funnel st;
          names = (present g ! 0 \<or> present g ! 2 \<and> present g ! 1 \<and> bit (block_data g ! 1) 11);
          f = f\<lparr>groups := groups f + 1, identified := identified f + (if names then 1 else 0)\<rparr>;
          was_named = ps_valid st;
          st = fst (rds_station_apply junk (st\<lparr>funnel := f\<rparr>) g);
          f = funnel st;
          f = (if \<not> was_named \<and> ps_valid st then f\<lparr>named := named f + 1\<rparr> else f)
      in d\<lparr>barren := 0, station := st\<lparr>funnel := f\<rparr>,
           written := (if made d < capacity then written d @ [g] else written d),
           made := made d + 1, at := at d + 104\<rparr>)"

function rds_loop :: "u8 \<times> u8 \<Rightarrow> nat \<Rightarrow> bool list \<Rightarrow> rds_decoder \<Rightarrow> rds_decoder" where
  "rds_loop junk capacity soft d =
     (if \<not> at d + 26 \<le> length soft then d
      else if \<not> synced d then
        (let (run, start) = run_length soft (at d)
         in if run \<ge> 4 then rds_loop junk capacity soft (d\<lparr>synced := True, barren := 0, position := start\<rparr>)
            else rds_loop junk capacity soft (d\<lparr>at := at d + 1\<rparr>))
      else if position d \<noteq> 0 then
        rds_loop junk capacity soft (d\<lparr>at := at d + 26 * (4 - position d), position := 0\<rparr>)
      else if at d + 104 > length soft then d
      else
        (let g = read_group soft (at d);
             good = length (filter id (present g));
             st = station d; f = funnel st;
             d = d\<lparr>station := st\<lparr>funnel := f\<lparr>blocks_matched := blocks_matched f + good\<rparr>\<rparr>\<rparr>
         in if good = 0 then
              (if barren d + 1 \<ge> 8
               then rds_loop junk capacity soft (d\<lparr>barren := barren d + 1, synced := False, at := at d + 1\<rparr>)
               else rds_loop junk capacity soft (d\<lparr>barren := barren d + 1, at := at d + 104\<rparr>))
            else rds_loop junk capacity soft (take_group junk capacity d g)))"
  by pat_completeness auto
termination
  by (relation "measures [\<lambda>(_, _, soft, d). length soft - at d,
                          \<lambda>(_, _, _, d). if synced d then 0 else 1,
                          \<lambda>(_, _, _, d). position d]")
     (auto simp: take_group_def Let_def)

declare rds_loop.simps [simp del]

definition rds_decode :: "u8 \<times> u8 \<Rightarrow> bool list \<Rightarrow> nat \<Rightarrow> nat \<times> rds_station \<times> rds_group list" where
  "rds_decode junk soft capacity =
     (let st = rds_station_init\<lparr>funnel := (funnel rds_station_init)\<lparr>bits := length soft\<rparr>\<rparr>
      in if length soft < 104 then (0, st, [])
         else let d = rds_loop junk capacity soft
                \<lparr>at = 0, position = 0, synced = False, barren = 0, station = st, written = [], made = 0\<rparr>
           in (made d, station d, written d))"

subsection \<open>What the block code guarantees\<close>

lemma rds_register: "shift_in_register rds_step 10"
proof (rule shift_registerI)
  fix a :: u32 and x
  show "rds_step a x = (let r = push_bit 1 a OR of_bool x in if bit r 10 then r XOR RDS_GENERATOR else r)"
    using and_test_bit [of "push_bit 1 a OR of_bool x" 10]
    by (simp add: rds_step_def RDS_GENERATOR_def Let_def)
qed (simp_all add: RDS_GENERATOR_def)

interpretation rds: shift_in_register rds_step 10
  by (rule rds_register)

lemma take_10: "(a :: u32) AND 0x3FF = take_bit 10 a"
  by (simp add: take_bit_eq_mask mask_eq_exp_minus_1)

lemma syndrome_run: "rds_syndrome b = foldl rds_step 0 (word_bits 26 b)"
  using rds.run_range [of 0 "word_bits 26 b"] unfolding rds_syndrome_def take_10 by simp

lemma offset_word_range: "take_bit 10 (rds_offset_word off) = rds_offset_word off"
  by (cases off) simp_all

lemma syndrome_encode: "rds_syndrome (rds_encode_block data off) = rds_offset_word off"
proof -
  let ?b = "push_bit 10 (ucast data :: u32)"
  let ?c = "rds_syndrome ?b XOR rds_offset_word off"
  have enc: "rds_encode_block data off = ?b OR take_bit 10 ?c"
    by (simp add: rds_encode_block_def Let_def take_10)
  have split: "word_bits 26 w = word_bits 16 (drop_bit 10 w) @ word_bits 10 w" for w :: u32
    using word_bits_append [of 16 10 w] by simp
  have hi: "word_bits 16 (drop_bit 10 (?b OR take_bit 10 ?c)) = word_bits 16 (drop_bit 10 ?b)"
    by (rule word_bits_cong) (auto simp: bit_simps)
  have lo: "word_bits 10 (?b OR take_bit 10 ?c) = word_bits 10 ?c"
    by (rule word_bits_cong) (auto simp: bit_simps)
  have lo0: "word_bits 10 ?b = replicate 10 False"
    by (rule nth_equalityI) (auto simp: word_bits_def bit_simps)
  have range: "take_bit 10 (rds_syndrome ?b) = rds_syndrome ?b"
    unfolding syndrome_run by (rule rds.run_range) simp
  have "rds_syndrome (?b OR take_bit 10 ?c) =
      foldl rds_step 0 (word_bits 16 (drop_bit 10 ?b) @ replicate 10 False) XOR word_of_bits (word_bits 10 ?c)"
    unfolding syndrome_run [of "?b OR take_bit 10 ?c"] split hi lo by (rule rds.append_check) simp
  also have "\<dots> = rds_syndrome ?b XOR take_bit 10 ?c"
    unfolding syndrome_run [of ?b] split lo0 by (simp add: word_of_bits_word_bits)
  also have "\<dots> = rds_offset_word off"
    by (simp add: take_bit_xor range offset_word_range flip: xor.assoc)
  finally show ?thesis unfolding enc .
qed

lemma offset_of_word: "rds_offset_of (rds_offset_word off) = Some off"
  by (cases off) (simp_all add: rds_offset_of_def)

lemma encode_data: "ucast (drop_bit 10 (rds_encode_block data off)) = data"
  unfolding rds_encode_block_def Let_def take_10
  by (rule bit_word_eqI) (auto simp: bit_simps dest: bit_imp_le_length)

text \<open>An encoded block gives its sixteen data bits back, and its syndrome names its offset, so
  the decoder knows which block of a group it holds.\<close>

theorem rds_block_round_trip:
  "rds_offset_of (rds_syndrome (rds_encode_block data off)) = Some off \<and>
   ucast (drop_bit 10 (rds_encode_block data off)) = data"
  by (simp add: syndrome_encode offset_of_word encode_data)

text \<open>Any burst of errors no longer than the ten check bits, anywhere in the block, is noticed: the
  block is no longer taken for the block it was sent as.\<close>

theorem rds_burst_detected:
  assumes "e \<noteq> 0" "take_bit 10 e = e" "j \<le> 16"
  shows "rds_offset_of (rds_syndrome (rds_encode_block data off XOR push_bit j e)) \<noteq> Some off"
proof
  let ?b = "rds_encode_block data off"
  assume "rds_offset_of (rds_syndrome (?b XOR push_bit j e)) = Some off"
  then have "rds_syndrome (?b XOR push_bit j e) = rds_offset_word off"
    by (auto simp: rds_offset_of_def split: if_splits)
  then have "rds_syndrome (?b XOR push_bit j e) = rds_syndrome ?b" by (simp add: syndrome_encode)
  moreover have "word_bits 26 (push_bit j e) =
      replicate (16 - j) False @ word_bits 10 e @ replicate j False"
    using word_bits_burst [of 10 e j 26] assms by simp
  moreover have "foldl rds_step 0 (replicate (16 - j) False @ word_bits 10 e @ replicate j False) \<noteq> 0"
    by (rule rds.burst) (use word_bits_nonzero [OF assms(2,1)] in simp_all)
  ultimately show False
    using rds.error_changes [of "word_bits 26 ?b" "word_bits 26 (push_bit j e)" 0]
    unfolding syndrome_run word_bits_xor by (metis length_word_bits)
qed

theorem rds_burst_detected_witness:
  "rds_offset_of (rds_syndrome (rds_encode_block 0xC201 Offset_A XOR push_bit 5 0x3FF)) \<noteq> Some Offset_A"
  by (rule rds_burst_detected) simp_all

subsection \<open>Reading a clean stream\<close>

text \<open>What a transmitter sends: the four data words of a group and its version.\<close>

type_synonym sent_group = "u16 \<times> u16 \<times> u16 \<times> u16 \<times> bool"

fun sent_blocks :: "sent_group \<Rightarrow> u32 list" where
  "sent_blocks (a, b, c, d, vb) =
     [rds_encode_block a Offset_A, rds_encode_block b Offset_B,
      rds_encode_block c (if vb then Offset_C_prime else Offset_C), rds_encode_block d Offset_D]"

definition sent_stream :: "sent_group list \<Rightarrow> bool list" where
  "sent_stream gs = concat (map (word_bits 26) (concat (map sent_blocks gs)))"

fun received :: "sent_group \<Rightarrow> nat \<Rightarrow> rds_group" where
  "received (a, b, c, d, vb) k =
     \<lparr>block_data = [a, b, c, d], present = [True, True, True, True], version_b = vb,
      bit_offset = 104 * k\<rparr>"

lemma length_sent_blocks [simp]: "length (sent_blocks g) = 4"
  by (cases g rule: sent_blocks.cases) simp

lemma concat_blocks_nth:
  "k < length gs \<Longrightarrow> i < 4 \<Longrightarrow> concat (map sent_blocks gs) ! (4 * k + i) = sent_blocks (gs ! k) ! i"
proof (induction gs arbitrary: k)
  case (Cons g gs)
  then show ?case by (cases k) (auto simp: nth_append)
qed simp

lemma concat_word_bits_take:
  "n < length bs \<Longrightarrow> take 26 (drop (26 * n) (concat (map (word_bits 26) bs))) = word_bits 26 (bs ! n)"
proof (induction bs arbitrary: n)
  case (Cons b bs)
  then show ?case by (cases n) auto
qed simp

lemma length_sent_stream: "length (sent_stream gs) = 104 * length gs"
  by (induction gs) (auto simp: sent_stream_def length_concat)

lemma encode_range: "take_bit 26 (rds_encode_block data off) = rds_encode_block data off"
  unfolding rds_encode_block_def Let_def take_10
  by (rule bit_word_eqI) (auto simp: bit_simps dest: bit_imp_le_length)

lemma sent_block_range: "i < 4 \<Longrightarrow> take_bit 26 (sent_blocks g ! i) = sent_blocks g ! i"
proof (cases g rule: sent_blocks.cases)
  case (1 a b c d vb)
  assume "i < 4"
  then consider "i = 0" | "i = 1" | "i = 2" | "i = 3" by linarith
  then show ?thesis using 1 by cases (simp_all add: encode_range)
qed

lemma block_at_sent:
  assumes "k < length gs" "i < 4"
  shows "block_at (sent_stream gs) (104 * k + 26 * i) = sent_blocks (gs ! k) ! i"
proof -
  have len: "length (concat (map sent_blocks gs)) = 4 * length gs" by (induction gs) auto
  have "104 * k + 26 * i = 26 * (4 * k + i)" by simp
  moreover have "4 * k + i < length (concat (map sent_blocks gs))" using assms len by linarith
  ultimately have "take 26 (drop (104 * k + 26 * i) (sent_stream gs)) = word_bits 26 (sent_blocks (gs ! k) ! i)"
    unfolding sent_stream_def using concat_word_bits_take concat_blocks_nth [OF assms] by metis
  then show ?thesis
    using word_of_bits_word_bits [of 26 "sent_blocks (gs ! k) ! i"] sent_block_range [OF assms(2)]
    by (simp add: block_at_def word_of_bits_def)
qed

definition sent_offset :: "sent_group \<Rightarrow> nat \<Rightarrow> rds_offset" where
  "sent_offset g i = (case g of (_, _, _, _, vb) \<Rightarrow>
     [Offset_A, Offset_B, if vb then Offset_C_prime else Offset_C, Offset_D] ! i)"

lemma sent_block_offset:
  "i < 4 \<Longrightarrow> rds_offset_of (rds_syndrome (sent_blocks g ! i)) = Some (sent_offset g i)"
proof (cases g rule: sent_blocks.cases)
  case (1 a b c d vb)
  assume "i < 4"
  then consider "i = 0" | "i = 1" | "i = 2" | "i = 3" by linarith
  then show ?thesis using 1
    by cases (simp_all add: sent_offset_def syndrome_encode rds_offset_of_def)
qed

lemma sent_offset_position: "i < 4 \<Longrightarrow> rds_offset_position (sent_offset g i) = i"
proof (cases g rule: sent_blocks.cases)
  case (1 a b c d vb)
  assume "i < 4"
  then consider "i = 0" | "i = 1" | "i = 2" | "i = 3" by linarith
  then show ?thesis using 1 by cases (simp_all add: sent_offset_def)
qed

lemma read_block_sent:
  assumes "k < length gs" "i < 4"
  shows "read_block (sent_stream gs) (104 * k) i =
    Some (ucast (drop_bit 10 (sent_blocks (gs ! k) ! i)), sent_offset (gs ! k) i)"
  using block_at_sent [OF assms] sent_block_offset [OF assms(2)] sent_offset_position [OF assms(2)]
  by (simp add: read_block_def Let_def mult.commute)

lemma read_group_sent:
  assumes "k < length gs"
  shows "read_group (sent_stream gs) (104 * k) = received (gs ! k) k"
proof -
  have four: "[0..<4] = [0, 1, 2, 3 :: nat]" by (simp add: numeral_eq_Suc)
  show ?thesis
    by (cases "gs ! k" rule: sent_blocks.cases)
      (simp add: read_group_def four Let_def read_block_sent [OF assms] sent_offset_def encode_data)
qed

lemma run_length_sent:
  assumes "gs \<noteq> []"
  obtains run where "run_length (sent_stream gs) 0 = (run, 0)" "4 \<le> run"
proof -
  let ?s = "sent_stream gs"
  have len: "104 \<le> length ?s" using assms by (cases gs) (simp_all add: length_sent_stream)
  have blk: "rds_offset_of (rds_syndrome (block_at ?s (26 * i))) = Some (sent_offset (gs ! 0) i)" if "i < 4" for i
    using block_at_sent [of 0 gs i] sent_block_offset [OF that] assms that by simp
  have step: "run_length_from ?s (26 * i) e = Suc (run_length_from ?s (26 * Suc i) (Some (Suc i mod 4)))"
    if "i < 4" "e = None \<or> e = Some i" for i e
    unfolding run_length_from.simps [of ?s "26 * i"]
    using that len blk [OF that(1)] sent_offset_position [OF that(1), of "gs ! 0"] by (auto simp: Let_def add.commute)
  have "run_length_from ?s 26 (Some 1) = Suc (run_length_from ?s 52 (Some 2))"
    using step [of 1 "Some 1"] by (simp add: numeral_2_eq_2)
  then have "run_length_from ?s 0 None = 4 + run_length_from ?s 104 (Some 0)"
    using step [of 0 None] step [of 2 "Some 2"] step [of 3 "Some 3"] by simp
  moreover have "snd (run_length ?s 0) = 0"
    using len blk [of 0] sent_offset_position [of 0 "gs ! 0"] by (simp add: run_length_def)
  ultimately show thesis
    by (intro that [of "4 + run_length_from ?s 104 (Some 0)"]) (simp_all add: run_length_def)
qed

lemma rds_loop_synced:
  assumes "at d = 104 * k" "position d = 0" "synced d" "barren d = 0" "k \<le> length gs"
  shows "rds_loop junk capacity (sent_stream gs) d =
    foldl (\<lambda>d i. take_group junk capacity
        (d\<lparr>station := (station d)\<lparr>funnel := (funnel (station d))
           \<lparr>blocks_matched := blocks_matched (funnel (station d)) + 4\<rparr>\<rparr>\<rparr>)
        (received (gs ! i) i)) d [k..<length gs]"
  using assms
proof (induction "length gs - k" arbitrary: d k)
  case 0
  then show ?case by (simp add: rds_loop.simps [of _ _ _ d] length_sent_stream)
next
  case (Suc m)
  then have k: "k < length gs" by simp
  let ?d = "d\<lparr>station := (station d)\<lparr>funnel := (funnel (station d))
           \<lparr>blocks_matched := blocks_matched (funnel (station d)) + 4\<rparr>\<rparr>\<rparr>"
  let ?n = "take_group junk capacity ?d (received (gs ! k) k)"
  have all: "length (filter id (present (received (gs ! k) k))) = 4"
    by (cases "gs ! k" rule: sent_blocks.cases) simp
  then have some: "filter id (present (received (gs ! k) k)) \<noteq> []" by auto
  have "104 * k + 104 \<le> length (sent_stream gs)" using k by (simp add: length_sent_stream)
  then have "rds_loop junk capacity (sent_stream gs) d = rds_loop junk capacity (sent_stream gs) ?n"
    using Suc.prems all some by (simp add: rds_loop.simps [of _ _ _ d] read_group_sent [OF k] Let_def)
  also have "\<dots> = foldl (\<lambda>d i. take_group junk capacity
        (d\<lparr>station := (station d)\<lparr>funnel := (funnel (station d))
           \<lparr>blocks_matched := blocks_matched (funnel (station d)) + 4\<rparr>\<rparr>\<rparr>)
        (received (gs ! i) i)) ?n [Suc k..<length gs]"
    by (rule Suc.hyps(1)) (use Suc k in \<open>auto simp: take_group_def Let_def\<close>)
  finally show ?case using k by (simp add: upt_conv_Cons)
qed

text \<open>The station does not depend on the counters that ride in it.\<close>

abbreviation with_funnel :: "rds_funnel \<Rightarrow> rds_station \<times> bool \<Rightarrow> rds_station \<times> bool" where
  "with_funnel f r \<equiv> ((fst r)\<lparr>funnel := f\<rparr>, snd r)"

lemma apply_pi_funnel: "apply_pi (st\<lparr>funnel := f\<rparr>) g = with_funnel f (apply_pi st g)"
  by (simp add: apply_pi_def Let_def)

lemma apply_pi_again_funnel:
  "apply_pi_again (st\<lparr>funnel := f\<rparr>) g v = with_funnel f (apply_pi_again st g v)"
  by (simp add: apply_pi_again_def Let_def)

lemma apply_ps_funnel: "apply_ps (st\<lparr>funnel := f\<rparr>) g = with_funnel f (apply_ps st g)"
  by (simp add: apply_ps_def Let_def split: prod.split)

lemma apply_rt_funnel: "apply_rt junk (st\<lparr>funnel := f\<rparr>) g v = with_funnel f (apply_rt junk st g v)"
  by (simp add: apply_rt_def Let_def split: prod.split)

lemma apply_funnel:
  "rds_station_apply junk (st\<lparr>funnel := f\<rparr>) g = with_funnel f (rds_station_apply junk st g)"
proof -
  obtain s1 c1 where s1: "apply_pi st g = (s1, c1)" by fastforce
  define d where "d = block_data g ! 1"
  define k where "k = unat (drop_bit 12 d AND 0xF) * 2 + (if bit d 11 then 1 else 0)"
  define s2 where "s2 = s1\<lparr>groups_used := groups_used s1 + 1,
                       groups_by_type := (groups_by_type s1)[k := groups_by_type s1 ! k + 1],
                       tp := drop_bit 10 d AND 1, pty := uint (drop_bit 5 d AND 0x1F),
                       pty_valid := True\<rparr>"
  obtain s3 c2 where s3: "apply_pi_again s2 g (bit d 11) = (s3, c2)" by fastforce
  have s2f: "s1\<lparr>funnel := f, groups_used := groups_used s1 + 1,
                       groups_by_type := (groups_by_type s1)[k := groups_by_type s1 ! k + 1],
                       tp := drop_bit 10 d AND 1, pty := uint (drop_bit 5 d AND 0x1F),
                       pty_valid := True\<rparr> = s2\<lparr>funnel := f\<rparr>"
    by (simp add: s2_def)
  show ?thesis
  proof (cases "present g ! 1")
    case False
    then show ?thesis by (simp add: rds_station_apply_def apply_pi_funnel s1)
  next
    case True
    have plain: "rds_station_apply junk st g =
       (let (s4, c3) = (if unat (drop_bit 12 d AND 0xF) = 0 then apply_ps s3 g
                        else if unat (drop_bit 12 d AND 0xF) = 2 then apply_rt junk s3 g (bit d 11)
                        else (s3, False)) in (s4, c1 \<or> c2 \<or> c3))"
      using True unfolding rds_station_apply_def s1 prod.case Let_def
      by (simp only: not_True_eq_False if_False flip: d_def) (simp only: s3 prod.case flip: k_def s2_def)
    have "rds_station_apply junk (st\<lparr>funnel := f\<rparr>) g =
       (let (s4, c3) = (if unat (drop_bit 12 d AND 0xF) = 0 then apply_ps (s3\<lparr>funnel := f\<rparr>) g
                        else if unat (drop_bit 12 d AND 0xF) = 2 then apply_rt junk (s3\<lparr>funnel := f\<rparr>) g (bit d 11)
                        else (s3\<lparr>funnel := f\<rparr>, False)) in (s4, c1 \<or> c2 \<or> c3))"
      using True unfolding rds_station_apply_def apply_pi_funnel s1 prod.case Let_def fst_conv snd_conv
      by (simp only: not_True_eq_False if_False flip: d_def)
        (simp add: s2f [simplified] apply_pi_again_funnel s3 flip: k_def)
    with plain show ?thesis by (simp add: apply_ps_funnel apply_rt_funnel split_beta Let_def)
  qed
qed

text \<open>The station a transmitter's groups describe, folded one after the other.\<close>

definition heard :: "u8 \<times> u8 \<Rightarrow> sent_group list \<Rightarrow> nat \<Rightarrow> rds_station" where
  "heard junk gs k =
     foldl (\<lambda>st i. fst (rds_station_apply junk st (received (gs ! i) i))) rds_station_init [0..<k]"

definition count_group :: "rds_decoder \<Rightarrow> rds_decoder" where
  "count_group d = d\<lparr>station := (station d)\<lparr>funnel := (funnel (station d))
     \<lparr>blocks_matched := blocks_matched (funnel (station d)) + 4\<rparr>\<rparr>\<rparr>"

lemma clean_fold:
  fixes junk :: "u8 \<times> u8" and gs :: "sent_group list" and capacity :: nat
  assumes "made d = 0" "written d = []" "station d = rds_station_init\<lparr>funnel := f0\<rparr>"
    and "groups f0 = 0" "identified f0 = 0" "blocks_matched f0 = 0"
  defines "D \<equiv> \<lambda>k. foldl (\<lambda>d i. take_group junk capacity (count_group d) (received (gs ! i) i)) d [0..<k]"
  shows "made (D k) = k \<and> written (D k) = take capacity (map (\<lambda>i. received (gs ! i) i) [0..<k]) \<and>
    (\<exists>f. station (D k) = (heard junk gs k)\<lparr>funnel := f\<rparr> \<and>
       groups f = k \<and> identified f = k \<and> blocks_matched f = 4 * k)"
proof (induction k)
  case 0
  show ?case using assms by (simp add: D_def heard_def) blast
next
  case (Suc k)
  obtain f where st: "station (D k) = (heard junk gs k)\<lparr>funnel := f\<rparr>"
    and f: "groups f = k" "identified f = k" "blocks_matched f = 4 * k"
    and d: "made (D k) = k" "written (D k) = take capacity (map (\<lambda>i. received (gs ! i) i) [0..<k])"
    using Suc by blast
  let ?g = "received (gs ! k) k"
  have present: "present ?g ! 0" by (cases "gs ! k" rule: sent_blocks.cases) simp
  have next_D: "D (Suc k) = take_group junk capacity (count_group (D k)) ?g" by (simp add: D_def)
  have next_heard: "heard junk gs (Suc k) = fst (rds_station_apply junk (heard junk gs k) ?g)"
    by (simp add: heard_def)
  have made: "made (D (Suc k)) = Suc k" by (simp add: next_D take_group_def count_group_def Let_def d)
  have written: "written (D (Suc k)) = take capacity (map (\<lambda>i. received (gs ! i) i) [0..<Suc k])"
    by (simp add: next_D take_group_def count_group_def Let_def d)
  define f2 where "f2 = f\<lparr>blocks_matched := 4 * k + 4, groups := Suc k, identified := Suc k\<rparr>"
  define f3 where "f3 = (if \<not> ps_valid (heard junk gs k) \<and> ps_valid (heard junk gs (Suc k))
    then f2\<lparr>named := named f2 + 1\<rparr> else f2)"
  have "station (D (Suc k)) = (heard junk gs (Suc k))\<lparr>funnel := f3\<rparr>"
    unfolding next_D next_heard take_group_def count_group_def Let_def f3_def f2_def
    using present f by (simp add: st apply_funnel)
  moreover have "groups f3 = Suc k" "identified f3 = Suc k" "blocks_matched f3 = 4 * Suc k"
    by (simp_all add: f3_def f2_def)
  ultimately have "\<exists>f. station (D (Suc k)) = (heard junk gs (Suc k))\<lparr>funnel := f\<rparr> \<and>
       groups f = Suc k \<and> identified f = Suc k \<and> blocks_matched f = 4 * Suc k" by blast
  with made written show ?case by blast
qed

text \<open>C31: From the bits of any sequence of intact groups, the decoder locks on the first bit, reads
  every group in order with the data and the version it was sent with, counts all of them as
  identified, and arrives at the station those groups describe one after the other.\<close>

theorem rds_decode_clean_stream:
  "case rds_decode junk (sent_stream gs) capacity of (n, st, out) \<Rightarrow>
     n = length gs \<and> out = take capacity (map (\<lambda>i. received (gs ! i) i) [0..<length gs]) \<and>
     groups (funnel st) = n \<and> identified (funnel st) = n \<and> blocks_matched (funnel st) = 4 * n \<and>
     st = (heard junk gs n)\<lparr>funnel := funnel st\<rparr>"
proof (cases "gs = []")
  case True
  then show ?thesis
    by (simp add: rds_decode_def length_sent_stream heard_def rds_station_init_def)
next
  case False
  let ?st = "rds_station_init\<lparr>funnel := (funnel rds_station_init)\<lparr>bits := length (sent_stream gs)\<rparr>\<rparr>"
  let ?d = "\<lparr>at = 0, position = 0, synced = True, barren = 0, station = ?st, written = [], made = 0\<rparr>"
  obtain run where run: "run_length (sent_stream gs) 0 = (run, 0)" "4 \<le> run"
    by (rule run_length_sent [OF False])
  have len: "104 \<le> length (sent_stream gs)" using False by (cases gs) (simp_all add: length_sent_stream)
  have "rds_loop junk capacity (sent_stream gs)
      \<lparr>at = 0, position = 0, synced = False, barren = 0, station = ?st, written = [], made = 0\<rparr> =
    rds_loop junk capacity (sent_stream gs) ?d"
    using len run by (subst rds_loop.simps) simp
  also have "\<dots> = foldl (\<lambda>d i. take_group junk capacity (count_group d) (received (gs ! i) i)) ?d [0..<length gs]"
    unfolding count_group_def by (rule rds_loop_synced) simp_all
  finally have loop: "rds_loop junk capacity (sent_stream gs)
      \<lparr>at = 0, position = 0, synced = False, barren = 0, station = ?st, written = [], made = 0\<rparr> =
    foldl (\<lambda>d i. take_group junk capacity (count_group d) (received (gs ! i) i)) ?d [0..<length gs]" .
  define D where "D = foldl (\<lambda>d i. take_group junk capacity (count_group d) (received (gs ! i) i)) ?d [0..<length gs]"
  have dec: "rds_decode junk (sent_stream gs) capacity = (made D, station D, written D)"
    using len by (simp only: rds_decode_def Let_def loop D_def not_less [symmetric] if_False)
  have "made D = length gs \<and> written D = take capacity (map (\<lambda>i. received (gs ! i) i) [0..<length gs]) \<and>
    (\<exists>f. station D = (heard junk gs (length gs))\<lparr>funnel := f\<rparr> \<and>
       groups f = length gs \<and> identified f = length gs \<and> blocks_matched f = 4 * length gs)"
    unfolding D_def
    by (rule clean_fold [where ?f0.0 = "(funnel rds_station_init)\<lparr>bits := length (sent_stream gs)\<rparr>"])
      (simp_all add: rds_station_init_def)
  then show ?thesis unfolding dec by auto
qed

subsection \<open>Two behaviours of the station the comments describe otherwise\<close>

definition text_group :: "u16 \<Rightarrow> bool \<Rightarrow> rds_group" where
  "text_group d third = \<lparr>block_data = [0xC201, 0x2000, 0x4142, d], present = [True, True, third, True],
     version_b = False, bit_offset = 0\<rparr>"

text \<open>When block three of a version A radio text group is lost, the two characters it would have
  carried are taken from the uninitialised array \<open>chars\<close>: whatever it held goes into the text, and
  a text that ends in this segment is published with it.\<close>

theorem rds_text_hole_is_uninitialised:
  "rt_pending (fst (rds_station_apply (j0, j1) rds_station_init (text_group 0x430D False))) ! 0 = j0 \<and>
   rt_pending (fst (rds_station_apply (j0, j1) rds_station_init (text_group 0x430D False))) ! 1 = j1 \<and>
   c_string (rt (fst (rds_station_apply (0x58, 0x59) rds_station_init (text_group 0x430D False)))) =
     [0x58, 0x59, 0x43]"
proof (intro conjI)
  note defs = rds_station_apply_def text_group_def apply_pi_def rds_station_init_def
    apply_pi_again_def apply_rt_def rt_collect_def text_chars_def
  show "rt_pending (fst (rds_station_apply (j0, j1) rds_station_init (text_group 0x430D False))) ! 0 = j0"
    by (simp add: defs Let_def split_beta)
  show "rt_pending (fst (rds_station_apply (j0, j1) rds_station_init (text_group 0x430D False))) ! 1 = j1"
    by (simp add: defs Let_def split_beta)
  show "c_string (rt (fst (rds_station_apply (0x58, 0x59) rds_station_init (text_group 0x430D False)))) =
     [0x58, 0x59, 0x43]"
    by code_simp
qed

definition name_group :: "u16 \<Rightarrow> u16 \<Rightarrow> rds_group" where
  "name_group segment chars = \<lparr>block_data = [0xC201, segment, 0, chars],
     present = [True, True, True, True], version_b = False, bit_offset = 0\<rparr>"

definition name_groups :: "rds_group list" where
  "name_groups = [name_group 0 0x414E, name_group 1 0x5445, name_group 2 0x4E41, name_group 3 0x2032]"

lemma nine: "replicate 9 x = [x, x, x, x, x, x, x, x, x]"
  by (simp add: numeral_eq_Suc)

text \<open>One repeated segment confirms a name: after its four segments have come once the name is held
  back, and the first group that repeats one of them publishes it, whole second pass or not.\<close>

theorem rds_name_confirmed_by_one_segment:
  "ps_valid (foldl (\<lambda>st g. fst (rds_station_apply junk st g)) rds_station_init name_groups) = False \<and>
   (let st = foldl (\<lambda>st g. fst (rds_station_apply junk st g)) rds_station_init
               (name_groups @ [name_group 0 0x414E])
    in ps_valid st \<and> c_string (ps st) = [0x41, 0x4E, 0x54, 0x45, 0x4E, 0x41, 0x20, 0x32])"
  by (simp add: rds_station_apply_def name_groups_def name_group_def apply_pi_def rds_station_init_def apply_pi_again_def apply_ps_def ps_assemble_def char_high_def char_low_def rds_character_def c_string_def
      Let_def nine)

end
