(* ===== verification/Trellis.thy ===== *)
theory Trellis
  imports Prelude
begin

text \<open>
  Add-compare-select over a trellis, as the GSM and TETRA decoders write it: a row of scores, a row of
  survivors, an update in place only when a candidate is strictly better, and a walk back from the
  final state. The functions take the score type, its order and the branch metric as arguments; the
  decoders' theories instantiate them. The locale states what a metric must satisfy (a strict weak
  order that extension along a branch respects, with a score below every reachable one) and proves
  that the survivor is a best path among all paths into the final state. Rounded addition is monotone,
  so floating-point scores satisfy it as integers do.
\<close>

type_synonym survivor = "nat \<times> bool"

subsection \<open>One stage\<close>

definition acs_try ::
  "('s \<Rightarrow> 's \<Rightarrow> bool) \<Rightarrow> (nat \<Rightarrow> bool \<Rightarrow> nat) \<Rightarrow> (nat \<Rightarrow> bool \<Rightarrow> 's \<Rightarrow> 's) \<Rightarrow> 's list \<Rightarrow>
   nat \<times> bool \<Rightarrow> 's list \<times> survivor list \<Rightarrow> 's list \<times> survivor list" where
  "acs_try better succ extend prev b row =
     (let (s, u) = b; (score, from) = row; n = succ s u; d = extend s u (prev ! s)
      in if better d (score ! n) then (score[n := d], from[n := (s, u)]) else (score, from))"

definition acs_row ::
  "('s \<Rightarrow> 's \<Rightarrow> bool) \<Rightarrow> ('s \<Rightarrow> bool) \<Rightarrow> 's \<Rightarrow> nat \<Rightarrow> (nat \<Rightarrow> bool \<Rightarrow> nat) \<Rightarrow> (nat \<Rightarrow> bool \<Rightarrow> 's \<Rightarrow> 's) \<Rightarrow>
   survivor list \<Rightarrow> 's list \<Rightarrow> 's list \<times> survivor list" where
  "acs_row better skip dead states succ extend old prev =
     foldl (\<lambda>row s. if skip (prev ! s) then row
                    else acs_try better succ extend prev (s, True)
                           (acs_try better succ extend prev (s, False) row))
       (replicate states dead, old) [0..<states]"

subsection \<open>All stages, and the way back\<close>

primrec viterbi_forward ::
  "('s \<Rightarrow> 's \<Rightarrow> bool) \<Rightarrow> ('s \<Rightarrow> bool) \<Rightarrow> 's \<Rightarrow> nat \<Rightarrow> (nat \<Rightarrow> bool \<Rightarrow> nat) \<Rightarrow> (nat \<Rightarrow> nat \<Rightarrow> bool \<Rightarrow> 's \<Rightarrow> 's) \<Rightarrow>
   (nat \<Rightarrow> survivor list) \<Rightarrow> 's list \<Rightarrow> nat \<Rightarrow> 's list \<times> survivor list list" where
  "viterbi_forward better skip dead states succ extend old start 0 = (start, [])"
| "viterbi_forward better skip dead states succ extend old start (Suc k) =
     (let (score, tables) = viterbi_forward better skip dead states succ extend old start k;
          (score, from) = acs_row better skip dead states succ (extend k) (old k) score
      in (score, tables @ [from]))"

text \<open>The walk back over the tables, last first: the state each stage ended in and its survivor.\<close>

fun trace_back :: "survivor list list \<Rightarrow> nat \<Rightarrow> (nat \<times> bool) list" where
  "trace_back [] state = []"
| "trace_back (from # earlier) state =
     trace_back earlier (fst (from ! state)) @ [(state, snd (from ! state))]"

lemma length_survivors: "length (snd (viterbi_forward better skip dead states succ extend old start k)) = k"
  by (induction k) (simp_all add: split_beta)

lemma length_survivor:
  assumes "\<forall>j < k. length (old j) = states" "j < k"
  shows "length (snd (viterbi_forward better skip dead states succ extend old start k) ! j) = states"
  using assms
proof (induction k)
  case (Suc k)
  have "length (snd (acs_row better skip dead states succ ext t prev)) = length t" for ext t prev
    unfolding acs_row_def
    by (rule foldl_invariant [where P = "\<lambda>row. length (snd row) = length t"])
      (auto simp: acs_try_def split_beta Let_def)
  with Suc show ?case
    using length_survivors [of better skip dead states succ extend old start k]
    by (auto simp: split_beta nth_append less_Suc_eq)
qed simp

subsection \<open>Paths\<close>

definition path_state :: "(nat \<Rightarrow> bool \<Rightarrow> nat) \<Rightarrow> nat \<Rightarrow> bool list \<Rightarrow> nat" where
  "path_state succ root us = foldl succ root us"

fun path_score :: "(nat \<Rightarrow> bool \<Rightarrow> nat) \<Rightarrow> (nat \<Rightarrow> nat \<Rightarrow> bool \<Rightarrow> 's \<Rightarrow> 's) \<Rightarrow> 's \<Rightarrow> nat \<Rightarrow> nat \<Rightarrow> bool list \<Rightarrow> 's" where
  "path_score succ extend x k s [] = x"
| "path_score succ extend x k s (u # us) = path_score succ extend (extend k s u x) (Suc k) (succ s u) us"

lemma path_score_snoc:
  "path_score succ extend x k s (us @ [u]) =
   extend (k + length us) (foldl succ s us) u (path_score succ extend x k s us)"
  by (induction us arbitrary: x k s) simp_all

locale trellis =
  fixes better :: "'s \<Rightarrow> 's \<Rightarrow> bool" and skip :: "'s \<Rightarrow> bool" and dead :: 's and states :: nat and root :: nat
    and succ :: "nat \<Rightarrow> bool \<Rightarrow> nat" and extend :: "nat \<Rightarrow> nat \<Rightarrow> bool \<Rightarrow> 's \<Rightarrow> 's"
    and valid :: "nat \<Rightarrow> 's \<Rightarrow> bool" and zero :: 's and stages :: nat
  assumes irrefl: "valid k x \<Longrightarrow> \<not> better x x"
    and order: "valid k x \<Longrightarrow> valid k y \<Longrightarrow> valid k z \<Longrightarrow> better x y \<Longrightarrow> better x z \<or> better z y"
    and asym: "valid k x \<Longrightarrow> valid k y \<Longrightarrow> better x y \<Longrightarrow> \<not> better y x"
    and dead_end: "skip dead"
    and kept: "k \<le> stages \<Longrightarrow> valid k x \<Longrightarrow> \<not> skip x"
    and monotone: "k < stages \<Longrightarrow> s < states \<Longrightarrow> valid k x \<Longrightarrow> valid k y \<Longrightarrow> \<not> better x y \<Longrightarrow>
      \<not> better (extend k s u x) (extend k s u y)"
    and alive: "k \<le> stages \<Longrightarrow> valid k x \<Longrightarrow> better x dead"
    and valid_zero: "valid 0 zero"
    and valid_step: "k < stages \<Longrightarrow> s < states \<Longrightarrow> valid k x \<Longrightarrow> valid (Suc k) (extend k s u x)"
    and succ_range: "s < states \<Longrightarrow> succ s u < states"
    and some_state: "root < states"
begin

abbreviation score_of :: "bool list \<Rightarrow> 's" where
  "score_of us \<equiv> path_score succ extend zero 0 root us"

abbreviation state_of :: "bool list \<Rightarrow> nat" where
  "state_of us \<equiv> path_state succ root us"

lemma state_range: "state_of us < states"
  by (induction us rule: rev_induct) (simp_all add: path_state_def some_state succ_range)

lemma state_snoc: "state_of (us @ [u]) = succ (state_of us) u"
  by (simp add: path_state_def)

lemma score_snoc: "score_of (us @ [u]) = extend (length us) (state_of us) u (score_of us)"
  by (simp add: path_score_snoc path_state_def)

lemma score_valid: "length us \<le> stages \<Longrightarrow> valid (length us) (score_of us)"
proof (induction us rule: rev_induct)
  case (snoc u us)
  then show ?case using valid_step [of "length us" "state_of us"] by (simp add: score_snoc state_range)
qed (simp add: valid_zero)

text \<open>What a row holds after the branches of \<open>done\<close>.\<close>

definition row_ok :: "(nat \<Rightarrow> bool \<Rightarrow> 's \<Rightarrow> 's) \<Rightarrow> 's list \<Rightarrow> (nat \<times> bool) set \<Rightarrow> 's list \<times> survivor list \<Rightarrow> bool" where
  "row_ok ext prev br row \<longleftrightarrow>
     length (fst row) = states \<and> length (snd row) = states \<and>
     (\<forall>n < states.
        ((\<forall>(s, u) \<in> br. succ s u \<noteq> n) \<and> fst row ! n = dead) \<or>
        (\<exists>s u. (s, u) \<in> br \<and> succ s u = n \<and> snd row ! n = (s, u) \<and> fst row ! n = ext s u (prev ! s) \<and>
           (\<forall>(s', u') \<in> br. succ s' u' = n \<longrightarrow> \<not> better (ext s' u' (prev ! s')) (ext s u (prev ! s)))))"

lemma row_ok_try:
  assumes ok: "row_ok ext prev br row" and s: "s < states" and live: "better (ext s u (prev ! s)) dead"
    and ext_valid: "\<And>s' u'. (s', u') \<in> insert (s, u) br \<Longrightarrow> valid k (ext s' u' (prev ! s'))"
  shows "row_ok ext prev (insert (s, u) br) (acs_try better succ ext prev (s, u) row)"
proof -
  obtain sc fr where row: "row = (sc, fr)" by fastforce
  let ?n = "succ s u" and ?d = "ext s u (prev ! s)"
  let ?new = "acs_try better succ ext prev (s, u) row"
  have len: "length sc = states" "length fr = states" using ok row by (simp_all add: row_ok_def)
  have n: "?n < states" using s by (rule succ_range)
  have new: "?new = (if better ?d (sc ! ?n) then (sc[?n := ?d], fr[?n := (s, u)]) else (sc, fr))"
    by (simp add: acs_try_def row Let_def)
  have "((\<forall>(s', u') \<in> insert (s, u) br. succ s' u' \<noteq> m) \<and> fst ?new ! m = dead) \<or>
     (\<exists>s1 u1. (s1, u1) \<in> insert (s, u) br \<and> succ s1 u1 = m \<and> snd ?new ! m = (s1, u1) \<and>
        fst ?new ! m = ext s1 u1 (prev ! s1) \<and>
        (\<forall>(s', u') \<in> insert (s, u) br. succ s' u' = m \<longrightarrow> \<not> better (ext s' u' (prev ! s')) (ext s1 u1 (prev ! s1))))"
    if m: "m < states" for m
  proof (cases "m = ?n")
    case False
    then have same: "fst ?new ! m = sc ! m" "snd ?new ! m = fr ! m" by (simp_all add: new)
    from ok m consider "\<forall>(s, u) \<in> br. succ s u \<noteq> m" "sc ! m = dead"
      | s1 u1 where "(s1, u1) \<in> br" "succ s1 u1 = m" "fr ! m = (s1, u1)" "sc ! m = ext s1 u1 (prev ! s1)"
          "\<forall>(s', u') \<in> br. succ s' u' = m \<longrightarrow> \<not> better (ext s' u' (prev ! s')) (ext s1 u1 (prev ! s1))"
      unfolding row_ok_def row fst_conv snd_conv by blast
    then show ?thesis
    proof cases
      case 1
      then show ?thesis using False by (auto simp: same)
    next
      case (2 s1 u1)
      have "\<forall>(s', u') \<in> insert (s, u) br. succ s' u' = m \<longrightarrow>
          \<not> better (ext s' u' (prev ! s')) (ext s1 u1 (prev ! s1))"
        using 2(5) False by auto
      with 2(1-4) show ?thesis unfolding same by blast
    qed
  next
    case m_n: True
    from ok m consider (none) "\<forall>(s, u) \<in> br. succ s u \<noteq> m" "sc ! m = dead"
      | (some) s1 u1 where "(s1, u1) \<in> br" "succ s1 u1 = m" "fr ! m = (s1, u1)" "sc ! m = ext s1 u1 (prev ! s1)"
          "\<forall>(s', u') \<in> br. succ s' u' = m \<longrightarrow> \<not> better (ext s' u' (prev ! s')) (ext s1 u1 (prev ! s1))"
      unfolding row_ok_def row fst_conv snd_conv by blast
    then show ?thesis
    proof cases
      case none
      then have "better ?d (sc ! ?n)" using live m_n by simp
      then have "fst ?new ! m = ?d" "snd ?new ! m = (s, u)" using n len by (simp_all add: new m_n)
      moreover have "\<not> better ?d ?d" by (rule irrefl [OF ext_valid]) simp
      ultimately show ?thesis using none(1) m_n by blast
    next
      case some
      show ?thesis
      proof (cases "better ?d (sc ! ?n)")
        case True
        then have upd: "fst ?new ! m = ?d" "snd ?new ! m = (s, u)" using n len by (simp_all add: new m_n)
        have v: "valid k ?d" "valid k (sc ! m)" using ext_valid some(1,4) by auto
        have "\<not> better (ext s' u' (prev ! s')) ?d" if "(s', u') \<in> br" "succ s' u' = m" for s' u'
        proof
          assume "better (ext s' u' (prev ! s')) ?d"
          moreover have "valid k (ext s' u' (prev ! s'))" using ext_valid that(1) by simp
          ultimately have "better (ext s' u' (prev ! s')) (sc ! m) \<or> better (sc ! m) ?d"
            using order v by blast
          moreover have "\<not> better (sc ! m) ?d" using asym [OF v] True m_n by simp
          ultimately show False using some(4,5) that by auto
        qed
        then have best: "\<forall>(s', u') \<in> insert (s, u) br. succ s' u' = m \<longrightarrow>
            \<not> better (ext s' u' (prev ! s')) ?d"
          using irrefl [OF v(1)] by auto
        show ?thesis
          using upd best m_n by (intro disjI2 exI [of _ s] exI [of _ u] conjI insertI1) simp_all
      next
        case False
        then have "fst ?new ! m = ext s1 u1 (prev ! s1)" "snd ?new ! m = (s1, u1)"
          using some(3,4) by (simp_all add: new)
        moreover have "\<not> better ?d (ext s1 u1 (prev ! s1))" using False some(4) m_n by simp
        moreover from this have best: "\<forall>(s', u') \<in> insert (s, u) br. succ s' u' = m \<longrightarrow>
            \<not> better (ext s' u' (prev ! s')) (ext s1 u1 (prev ! s1))"
          using some(5) by auto
        ultimately show ?thesis using insertI2 [OF some(1)] some(2) best
          by (intro disjI2 exI [of _ s1] exI [of _ u1] conjI)
      qed
    qed
  qed
  moreover have "length (fst ?new) = states" "length (snd ?new) = states" by (simp_all add: new len)
  ultimately show ?thesis unfolding row_ok_def by blast
qed

lemma row_ok_row:
  assumes k: "k < stages" and len: "length old = states"
    and prev: "\<And>s. s < states \<Longrightarrow> \<not> skip (prev ! s) \<Longrightarrow> valid k (prev ! s)"
  shows "row_ok (extend k) prev {(s, u). s < states \<and> \<not> skip (prev ! s)}
    (acs_row better skip dead states succ (extend k) old prev)"
proof -
  let ?step = "\<lambda>row s. if skip (prev ! s) then row
      else acs_try better succ (extend k) prev (s, True) (acs_try better succ (extend k) prev (s, False) row)"
  have "row_ok (extend k) prev {(s, u). s < m \<and> \<not> skip (prev ! s)}
      (foldl ?step (replicate states dead, old) [0..<m])" if "m \<le> states" for m
    using that
  proof (induction m)
    case 0
    show ?case using len by (simp add: row_ok_def)
  next
    case (Suc m)
    let ?row = "foldl ?step (replicate states dead, old) [0..<m]"
    have ih: "row_ok (extend k) prev {(s, u). s < m \<and> \<not> skip (prev ! s)} ?row" using Suc by simp
    show ?case
    proof (cases "\<not> skip (prev ! m)")
      case False
      then have "{(s, u :: bool). s < Suc m \<and> \<not> skip (prev ! s)} = {(s, u). s < m \<and> \<not> skip (prev ! s)}"
        by (auto simp: less_Suc_eq)
      with ih False show ?thesis by simp
    next
      case True
      have m: "m < states" using Suc.prems by simp
      have live: "better (extend k m u (prev ! m)) dead" for u
        using alive [OF Suc_leI [OF k]] valid_step [OF k m prev [OF m True]] by blast
      have "{(s, u). s < Suc m \<and> \<not> skip (prev ! s)} =
          insert (m, True) (insert (m, False) {(s, u). s < m \<and> \<not> skip (prev ! s)})"
        using True by (auto simp: less_Suc_eq)
      moreover have "valid (Suc k) (extend k s u (prev ! s))"
        if "(s, u) \<in> insert (m, True) (insert (m, False) {(s, u). s < m \<and> \<not> skip (prev ! s)})" for s u
      proof -
        have "s < states" "\<not> skip (prev ! s)" using that m True by auto
        then show ?thesis by (intro valid_step [OF k] prev)
      qed
      then have "row_ok (extend k) prev (insert (m, True) (insert (m, False) {(s, u). s < m \<and> \<not> skip (prev ! s)}))
          (acs_try better succ (extend k) prev (m, True) (acs_try better succ (extend k) prev (m, False) ?row))"
        by (intro row_ok_try [where k = "Suc k"] ih m live) simp_all
      ultimately show ?thesis using True by simp
    qed
  qed
  then show ?thesis unfolding acs_row_def by simp
qed

definition best_into :: "nat \<Rightarrow> nat \<Rightarrow> bool list \<Rightarrow> bool" where
  "best_into k n us \<longleftrightarrow> length us = k \<and> state_of us = n \<and>
     (\<forall>us'. length us' = k \<longrightarrow> state_of us' = n \<longrightarrow> \<not> better (score_of us') (score_of us))"

definition trace_ok :: "(nat \<times> bool) list \<Rightarrow> bool list \<Rightarrow> bool" where
  "trace_ok tr us \<longleftrightarrow> map snd tr = us \<and> list_all (\<lambda>(n, u). \<exists>s < states. n = succ s u) tr"

definition forward_ok :: "nat \<Rightarrow> 's list \<times> survivor list list \<Rightarrow> bool" where
  "forward_ok k r \<longleftrightarrow> (\<forall>n < states.
     ((\<forall>us. length us = k \<longrightarrow> state_of us \<noteq> n) \<and> fst r ! n = dead) \<or>
     (\<exists>us. best_into k n us \<and> trace_ok (trace_back (rev (snd r)) n) us \<and> fst r ! n = score_of us))"

lemma forward_ok_forward:
  assumes "k \<le> stages" "\<forall>k < stages. length (old k) = states" "start = (replicate states dead)[root := zero]"
  shows "forward_ok k (viterbi_forward better skip dead states succ extend old start k)"
  using assms(1)
proof (induction k)
  case 0
  have "best_into 0 root []" by (simp add: best_into_def path_state_def irrefl [OF valid_zero])
  then have "(\<forall>us :: bool list. length us = 0 \<longrightarrow> state_of us \<noteq> n) \<and> start ! n = dead \<or>
      (\<exists>us. best_into 0 n us \<and> trace_ok (trace_back (rev []) n) us \<and> start ! n = score_of us)"
    if "n < states" for n
    using that some_state by (cases "n = root") (auto simp: assms(3) path_state_def trace_ok_def)
  then show ?case unfolding forward_ok_def by simp
next
  case (Suc k)
  have k: "k < stages" using Suc.prems by simp
  obtain sc tabs where r: "viterbi_forward better skip dead states succ extend old start k = (sc, tabs)" by fastforce
  obtain sc' fr where r': "acs_row better skip dead states succ (extend k) (old k) sc = (sc', fr)" by fastforce
  have ok: "(\<forall>us. length us = k \<longrightarrow> state_of us \<noteq> n) \<and> sc ! n = dead \<or>
     (\<exists>us. best_into k n us \<and> trace_ok (trace_back (rev tabs) n) us \<and> sc ! n = score_of us)"
    if "n < states" for n
    using Suc that unfolding forward_ok_def r by simp
  have live: "\<not> skip (sc ! state_of us)" if len: "length us = k" for us
  proof -
    obtain us' where "best_into k (state_of us) us'" "sc ! state_of us = score_of us'"
      using ok [OF state_range, of us] len by blast
    then show ?thesis using kept [of k] score_valid [of us'] k by (auto simp: best_into_def)
  qed
  have prev: "valid k (sc ! s)" if s: "s < states" "\<not> skip (sc ! s)" for s
  proof -
    obtain us' where "best_into k s us'" "sc ! s = score_of us'" using ok [OF s(1)] s(2) dead_end by metis
    then show ?thesis using score_valid [of us'] k by (auto simp: best_into_def)
  qed
  have row: "row_ok (extend k) sc {(s, u). s < states \<and> \<not> skip (sc ! s)} (sc', fr)"
    using row_ok_row [of k "old k" sc] k prev assms(2) r' by simp
  have "(\<forall>us. length us = Suc k \<longrightarrow> state_of us \<noteq> n) \<and> sc' ! n = dead \<or>
     (\<exists>us. best_into (Suc k) n us \<and> trace_ok (trace_back (rev (tabs @ [fr])) n) us \<and> sc' ! n = score_of us)"
    if n: "n < states" for n
  proof -
    consider (none) "\<forall>(s, u) \<in> {(s, u). s < states \<and> \<not> skip (sc ! s)}. succ s u \<noteq> n" "sc' ! n = dead"
      | (some) s u where "s < states" "\<not> skip (sc ! s)" "succ s u = n" "fr ! n = (s, u)"
          "sc' ! n = extend k s u (sc ! s)"
          "\<forall>(s', u') \<in> {(s, u). s < states \<and> \<not> skip (sc ! s)}. succ s' u' = n \<longrightarrow>
             \<not> better (extend k s' u' (sc ! s')) (extend k s u (sc ! s))"
      using row n unfolding row_ok_def fst_conv snd_conv by blast
    then show ?thesis
    proof cases
      case none
      have "state_of us \<noteq> n" if len: "length us = Suc k" for us
      proof -
        obtain vs v where us: "us = vs @ [v]" using len by (metis append_butlast_last_id list.size(3) nat.distinct(1))
        then have "\<not> skip (sc ! state_of vs)" using live len by simp
        with none(1) state_range show ?thesis by (auto simp: us state_snoc)
      qed
      with none(2) show ?thesis by blast
    next
      case some
      obtain vs where vs: "best_into k s vs" "trace_ok (trace_back (rev tabs) s) vs" "sc ! s = score_of vs"
        using ok [OF some(1)] some(2) dead_end by metis
      then have lv: "length vs = k" "state_of vs = s" by (simp_all add: best_into_def)
      have score: "sc' ! n = score_of (vs @ [u])" using some(5) vs(3) lv by (simp add: score_snoc)
      have trace: "trace_ok (trace_back (rev (tabs @ [fr])) n) (vs @ [u])"
        using vs(2) some(1,3,4) by (auto simp: trace_ok_def)
      have "\<not> better (score_of ws) (score_of (vs @ [u]))" if ws: "length ws = Suc k" "state_of ws = n" for ws
      proof
        assume better: "better (score_of ws) (score_of (vs @ [u]))"
        obtain xs x where ws_eq: "ws = xs @ [x]" using ws(1) by (metis append_butlast_last_id list.size(3) nat.distinct(1))
        let ?t = "state_of xs"
        have xs: "length xs = k" "succ ?t x = n" using ws ws_eq by (simp_all add: state_snoc)
        obtain ys where ys: "best_into k ?t ys" "sc ! ?t = score_of ys" using ok [OF state_range, of xs] xs(1) by blast
        then have ly: "length ys = k" and "\<not> better (score_of xs) (score_of ys)"
          using xs(1) by (auto simp: best_into_def)
        then have "\<not> better (extend k ?t x (score_of xs)) (extend k ?t x (sc ! ?t))"
          using monotone [OF k state_range] score_valid [of xs] score_valid [of ys] xs(1) k by (simp add: ys(2))
        moreover have "score_of ws = extend k ?t x (score_of xs)" using xs(1) by (simp add: ws_eq score_snoc)
        moreover have "valid (Suc k) (score_of ws)" "valid (Suc k) (score_of (vs @ [u]))"
          using score_valid [of ws] score_valid [of "vs @ [u]"] ws(1) lv(1) k by auto
        moreover have "valid (Suc k) (extend k ?t x (sc ! ?t))"
          using valid_step [OF k state_range] score_valid [of ys] ly ys(2) k by simp
        ultimately have "better (extend k ?t x (sc ! ?t)) (score_of (vs @ [u]))"
          using order better by metis
        moreover have "\<not> skip (sc ! ?t)" by (rule live) (rule xs(1))
        ultimately show False using some(5,6) xs(2) state_range score by fastforce
      qed
      then have "best_into (Suc k) n (vs @ [u])"
        using lv some(3) by (simp add: best_into_def state_snoc)
      with score trace show ?thesis by blast
    qed
  qed
  then show ?case unfolding forward_ok_def by (simp add: r r')
qed

text \<open>The survivor into a reachable final state is a best path into it.\<close>

lemma survivor_best:
  assumes "\<forall>k < stages. length (old k) = states" "start = (replicate states dead)[root := zero]"
    and "length us = k" "k \<le> stages"
  defines "tr \<equiv> trace_back (rev (snd (viterbi_forward better skip dead states succ extend old start k))) (state_of us)"
  shows "length tr = k" "state_of (map snd tr) = state_of us"
    "\<not> better (score_of us) (score_of (map snd tr))"
    "list_all (\<lambda>(n, u). \<exists>s < states. n = succ s u) tr"
    "fst (viterbi_forward better skip dead states succ extend old start k) ! state_of us = score_of (map snd tr)"
proof -
  let ?r = "viterbi_forward better skip dead states succ extend old start k"
  have "forward_ok k ?r" by (rule forward_ok_forward [OF assms(4,1,2)])
  then have "(\<forall>us'. length us' = k \<longrightarrow> state_of us' \<noteq> state_of us) \<and> fst ?r ! state_of us = dead \<or>
     (\<exists>vs. best_into k (state_of us) vs \<and> trace_ok (trace_back (rev (snd ?r)) (state_of us)) vs \<and>
        fst ?r ! state_of us = score_of vs)"
    unfolding forward_ok_def using state_range [of us] by simp
  then obtain vs where "best_into k (state_of us) vs" "trace_ok tr vs" "fst ?r ! state_of us = score_of vs"
    unfolding tr_def using assms(3) by blast
  then show "length tr = k" "state_of (map snd tr) = state_of us"
    "\<not> better (score_of us) (score_of (map snd tr))"
    "list_all (\<lambda>(n, u). \<exists>s < states. n = succ s u) tr" "fst ?r ! state_of us = score_of (map snd tr)"
    using assms(3) by (auto simp: best_into_def trace_ok_def)
qed

end

end
