(* ===== verification/Tetra_Sync.thy ===== *)
theory Tetra_Sync
  imports Trellis Check_Register
begin

text \<open>
  The TETRA synchronization and broadcast-network channels, \<open>src/src/tech/tetra_sync.c\<close>: scrambling,
  interleaving, the punctured convolutional code and its Viterbi decoder, and the parity. A byte that
  holds one bit is a \<open>bool\<close>, an array of them a \<open>bool list\<close>; costs and indices are naturals, which
  stay far below the width of \<open>int\<close>. The decoder's static tables keep their content between calls;
  that content is the argument \<open>old\<close>.
\<close>

unbundle bit_operations_syntax

definition TETRA_SB_SCRAMBLED_BITS :: nat where "TETRA_SB_SCRAMBLED_BITS = 120"
definition TETRA_SB_TYPE2_BITS :: nat where "TETRA_SB_TYPE2_BITS = 80"
definition TETRA_SB_CRC_BITS :: nat where "TETRA_SB_CRC_BITS = 16"
definition TETRA_SB_MESSAGE_BITS :: nat where "TETRA_SB_MESSAGE_BITS = 60"
definition TETRA_RCPC_STATES :: nat where "TETRA_RCPC_STATES = 16"
definition TETRA_SB_INTERLEAVE_STRIDE :: nat where "TETRA_SB_INTERLEAVE_STRIDE = 11"
definition TETRA_BNCH_SCRAMBLED_BITS :: nat where "TETRA_BNCH_SCRAMBLED_BITS = 216"
definition TETRA_BNCH_TYPE2_BITS :: nat where "TETRA_BNCH_TYPE2_BITS = 144"
definition TETRA_BNCH_MESSAGE_BITS :: nat where "TETRA_BNCH_MESSAGE_BITS = 124"
definition TETRA_BNCH_INTERLEAVE_STRIDE :: nat where "TETRA_BNCH_INTERLEAVE_STRIDE = 101"

lemmas tetra_constants = TETRA_SB_SCRAMBLED_BITS_def TETRA_SB_TYPE2_BITS_def TETRA_SB_CRC_BITS_def
  TETRA_SB_MESSAGE_BITS_def TETRA_RCPC_STATES_def TETRA_SB_INTERLEAVE_STRIDE_def
  TETRA_BNCH_SCRAMBLED_BITS_def TETRA_BNCH_TYPE2_BITS_def TETRA_BNCH_MESSAGE_BITS_def
  TETRA_BNCH_INTERLEAVE_STRIDE_def

subsection \<open>Scrambling\<close>

definition scramble_taps :: "nat list" where
  "scramble_taps = [1, 2, 4, 5, 7, 8, 10, 11, 12, 16, 22, 23, 26, 32]"

text \<open>\<open>history ! i\<close> is \<open>p(k - 1 - i)\<close>.\<close>

fun scramble_from :: "nat \<Rightarrow> bool list \<Rightarrow> bool list" where
  "scramble_from 0 history = []"
| "scramble_from (Suc n) history =
     (let b = foldl (\<lambda>b t. b \<noteq> history ! (t - 1)) False scramble_taps
      in b # scramble_from n (b # take 31 history))"

definition scramble_sequence :: "nat \<Rightarrow> bool list option \<Rightarrow> bool list" where
  "scramble_sequence count colour =
     scramble_from count
       ((case colour of None \<Rightarrow> replicate 30 False | Some c \<Rightarrow> take 30 c) @ [True, True])"

definition tetra_descramble :: "bool list \<Rightarrow> nat \<Rightarrow> bool list option \<Rightarrow> bool list" where
  "tetra_descramble bits count colour =
     (if count = 0 \<or> count > TETRA_BNCH_SCRAMBLED_BITS then bits
      else xor_bits (take count bits) (scramble_sequence count colour) @ drop count bits)"

definition tetra_extended_colour :: "int \<Rightarrow> int \<Rightarrow> int \<Rightarrow> bool list" where
  "tetra_extended_colour mcc mnc colour =
     map (\<lambda>i. bit mcc (9 - i)) [0..<10] @ map (\<lambda>i. bit mnc (13 - i)) [0..<14]
       @ map (\<lambda>i. bit colour (5 - i)) [0..<6]"

subsection \<open>Interleaving and puncturing\<close>

definition tetra_deinterleave :: "bool list \<Rightarrow> nat \<Rightarrow> nat \<Rightarrow> bool list" where
  "tetra_deinterleave input count stride =
     map (\<lambda>i. input ! ((1 + (stride * i) mod count) - 1)) [1..<count + 1]"

definition tetra_rcpc_puncture_index :: "nat \<Rightarrow> nat option" where
  "tetra_rcpc_puncture_index j =
     (if j < 1 \<or> j > TETRA_BNCH_SCRAMBLED_BITS then None
      else let group = (j - 1) div 3; within = j - 3 * group
           in Some (8 * group + [1, 2, 5] ! (within - 1) - 1))"

subsection \<open>The convolutional code\<close>

definition mother_outputs :: "nat \<Rightarrow> bool \<Rightarrow> bool list" where
  "mother_outputs state input =
     (let b1 = bit state 0; b2 = bit state 1; b3 = bit state 2; b4 = bit state 3
      in [(input \<noteq> b1) \<noteq> b4,
          ((input \<noteq> b2) \<noteq> b3) \<noteq> b4,
          ((input \<noteq> b1) \<noteq> b2) \<noteq> b4,
          ((input \<noteq> b1) \<noteq> b3) \<noteq> b4])"

definition next_state :: "nat \<Rightarrow> bool \<Rightarrow> nat" where
  "next_state state input = (push_bit 1 state OR of_bool input) AND (TETRA_RCPC_STATES - 1)"

text \<open>The cost of a branch: the received bits that differ from it, erased ones left out.\<close>

definition branch_cost :: "bool list \<Rightarrow> bool list \<Rightarrow> nat \<Rightarrow> nat \<Rightarrow> bool \<Rightarrow> nat \<Rightarrow> nat" where
  "branch_cost mother erased k s u d =
     foldl (\<lambda>d i. if erased ! (4 * k + i) then d
                  else if mother ! (4 * k + i) \<noteq> mother_outputs s u ! i then d + 1 else d) d [0..<4]"

definition big_cost :: nat where "big_cost = 2 ^ 24"

definition tetra_rcpc_decode ::
  "(nat \<Rightarrow> survivor list) \<Rightarrow> bool list \<Rightarrow> bool list \<Rightarrow> nat \<Rightarrow> bool list" where
  "tetra_rcpc_decode old mother erased type2_bits =
     (let start = (replicate TETRA_RCPC_STATES big_cost)[0 := 0];
          (cost, tables) = viterbi_forward (\<lambda>a b. a < b) (\<lambda>a. \<not> a < big_cost) big_cost TETRA_RCPC_STATES next_state
            (branch_cost mother erased) old start type2_bits
      in map snd (trace_back (rev tables) 0))"

subsection \<open>Parity\<close>

definition tetra_crc_step :: "u32 \<Rightarrow> bool \<Rightarrow> u32" where
  "tetra_crc_step reg x =
     (let feedback = (bit reg 15 \<noteq> x); reg = push_bit 1 reg AND 0xffff
      in if feedback then reg XOR 0x1021 else reg)"

definition tetra_sb_crc :: "bool list \<Rightarrow> nat \<Rightarrow> u32" where
  "tetra_sb_crc bits count = NOT (foldl tetra_crc_step 0xffff (take count bits)) AND 0xffff"

subsection \<open>One chain, both channels\<close>

definition dibit_bits :: "u8 list \<Rightarrow> nat \<Rightarrow> bool list" where
  "dibit_bits dibits n = concat (map (\<lambda>k. [bit (dibits ! k) 1, bit (dibits ! k) 0]) [0..<n])"

text \<open>The mother-code bits of a punctured block, and which of them never came.\<close>

definition depuncture :: "bool list \<Rightarrow> nat \<Rightarrow> nat \<Rightarrow> bool list \<times> bool list" where
  "depuncture type3 scrambled_bits type2_bits =
     foldl (\<lambda>(mother, erased) k.
         case tetra_rcpc_puncture_index k of
           None \<Rightarrow> (mother, erased)
         | Some at \<Rightarrow> if at \<ge> 4 * type2_bits then (mother, erased)
                      else (mother[at := type3 ! (k - 1)], erased[at := False]))
       (replicate (4 * type2_bits) False, replicate (4 * type2_bits) True) [1..<scrambled_bits + 1]"

definition parity_holds :: "bool list \<Rightarrow> nat \<Rightarrow> bool" where
  "parity_holds type2 message_bits \<longleftrightarrow>
     word_of_bits (take TETRA_SB_CRC_BITS (drop message_bits type2)) = tetra_sb_crc type2 message_bits"

definition decode_block ::
  "(nat \<Rightarrow> survivor list) \<Rightarrow> u8 list \<Rightarrow> nat \<Rightarrow> nat \<Rightarrow> nat \<Rightarrow> nat \<Rightarrow> bool list option \<Rightarrow> bool list option" where
  "decode_block old dibits scrambled_bits type2_bits message_bits stride colour =
     (let bits = tetra_descramble (dibit_bits dibits (scrambled_bits div 2)) scrambled_bits colour;
          type3 = tetra_deinterleave bits scrambled_bits stride;
          (mother, erased) = depuncture type3 scrambled_bits type2_bits;
          type2 = tetra_rcpc_decode old mother erased type2_bits
      in if \<not> parity_holds type2 message_bits then None else Some (take message_bits type2))"

definition tetra_bnch_decode :: "(nat \<Rightarrow> survivor list) \<Rightarrow> u8 list \<Rightarrow> bool list \<Rightarrow> bool list option" where
  "tetra_bnch_decode old dibits colour =
     decode_block old dibits TETRA_BNCH_SCRAMBLED_BITS TETRA_BNCH_TYPE2_BITS
       TETRA_BNCH_MESSAGE_BITS TETRA_BNCH_INTERLEAVE_STRIDE (Some colour)"

definition tetra_sync_block_decode :: "(nat \<Rightarrow> survivor list) \<Rightarrow> u8 list \<Rightarrow> bool list option" where
  "tetra_sync_block_decode old dibits =
     decode_block old dibits TETRA_SB_SCRAMBLED_BITS TETRA_SB_TYPE2_BITS TETRA_SB_MESSAGE_BITS
       TETRA_SB_INTERLEAVE_STRIDE None"

subsection \<open>The survivor is a nearest codeword\<close>

lemma branch_cost_bound: "branch_cost mother erased k s u d \<le> d + 4"
  by (simp add: branch_cost_def upt_conv_Cons numeral_eq_Suc)

lemma branch_cost_add:
  "branch_cost mother erased k s u d = d + branch_cost mother erased k s u 0"
  by (simp add: branch_cost_def upt_conv_Cons numeral_eq_Suc)

lemma next_state_bits: "next_state s u = (2 * s + of_bool u) mod 16"
proof -
  have "push_bit 1 s OR of_bool u = 2 * s + of_bool u"
    by (cases u) (simp_all add: mult.commute or_Suc_0_eq)
  moreover have "x AND 15 = x mod 16" for x :: nat
    using take_bit_eq_mask [of 4 x] by (simp add: take_bit_eq_mod mask_eq_exp_minus_1)
  ultimately show ?thesis by (simp add: next_state_def TETRA_RCPC_STATES_def)
qed

interpretation tetra: trellis "\<lambda>a b. a < (b :: nat)" "\<lambda>a. \<not> a < big_cost" big_cost
  TETRA_RCPC_STATES 0 next_state
  "branch_cost mother erased" "\<lambda>k x. x \<le> 4 * k" 0 144 for mother erased
proof
  fix k s x y u
  show "\<not> branch_cost mother erased k s u x < branch_cost mother erased k s u y" if "\<not> x < y"
    using that branch_cost_add [of mother erased k s u x] branch_cost_add [of mother erased k s u y] by linarith
  show "branch_cost mother erased k s u x \<le> 4 * Suc k" if "x \<le> 4 * k"
    using that branch_cost_bound [of mother erased k s u x] by simp
qed (auto simp: big_cost_def TETRA_RCPC_STATES_def next_state_bits)

text \<open>The codeword of an input sequence, and how far the received bits that came are from it.\<close>

fun mother_encode :: "nat \<Rightarrow> bool list \<Rightarrow> bool list" where
  "mother_encode state [] = []"
| "mother_encode state (u # us) = mother_outputs state u @ mother_encode (next_state state u) us"

definition distance :: "bool list \<Rightarrow> bool list \<Rightarrow> bool list \<Rightarrow> nat" where
  "distance mother erased us =
     length (filter (\<lambda>i. \<not> erased ! i \<and> mother ! i \<noteq> mother_encode 0 us ! i) [0..<4 * length us])"

definition terminated :: "nat \<Rightarrow> bool list \<Rightarrow> bool" where
  "terminated n us \<longleftrightarrow> length us = n \<and> foldl next_state 0 us = 0"

lemma length_mother_outputs [simp]: "length (mother_outputs s u) = 4"
  by (simp add: mother_outputs_def Let_def)

lemma upt_4_Suc: "[0..<4 * Suc n] = [0..<4] @ map (\<lambda>i. i + 4) [0..<4 * n]"
proof -
  have "[0..<4 * Suc n] = [0..<4] @ [4..<4 + 4 * n]" by (metis le_add1 mult_Suc_right plus_nat.add_0 upt_add_eq_append)
  then show ?thesis using map_add_upt [of 4 "4 * n"] by (simp add: add.commute)
qed

lemma branch_cost_count:
  "branch_cost mother erased k s u d = d +
     length (filter (\<lambda>i. \<not> erased ! (4 * k + i) \<and> mother ! (4 * k + i) \<noteq> mother_outputs s u ! i) [0..<4])"
  by (simp add: branch_cost_def upt_conv_Cons numeral_eq_Suc)

lemma path_score_distance:
  "path_score next_state (branch_cost mother erased) x k s us = x +
     length (filter (\<lambda>i. \<not> erased ! (4 * k + i) \<and> mother ! (4 * k + i) \<noteq> mother_encode s us ! i)
       [0..<4 * length us])"
proof (induction us arbitrary: x k s)
  case (Cons u us)
  have head: "filter (\<lambda>i. \<not> erased ! (4 * k + i) \<and> mother ! (4 * k + i) \<noteq> mother_encode s (u # us) ! i) [0..<4]
      = filter (\<lambda>i. \<not> erased ! (4 * k + i) \<and> mother ! (4 * k + i) \<noteq> mother_outputs s u ! i) [0..<4]"
    by (rule filter_cong) (auto simp: nth_append)
  show ?case
    unfolding path_score.simps Cons.IH
    unfolding length_Cons upt_4_Suc filter_append length_append head branch_cost_count
    by (simp add: filter_map comp_def nth_append algebra_simps)
qed simp

lemma distance_score: "distance mother erased us = path_score next_state (branch_cost mother erased) 0 0 0 us"
  by (simp add: path_score_distance distance_def)

lemma decode_nearest:
  assumes "n \<le> TETRA_BNCH_TYPE2_BITS" "\<And>k. length (old k) = TETRA_RCPC_STATES" "terminated n us"
  shows "terminated n (tetra_rcpc_decode old mother erased n) \<and>
    distance mother erased (tetra_rcpc_decode old mother erased n) \<le> distance mother erased us"
proof -
  have us: "length us = n" "path_state next_state 0 us = 0"
    using assms(3) by (simp_all add: terminated_def path_state_def)
  note best = tetra.survivor_best [of old "(replicate TETRA_RCPC_STATES big_cost)[0 := 0]" us n mother erased,
      OF _ refl us(1)]
  show ?thesis
    using best assms(1,2) us
    by (simp add: terminated_def path_state_def tetra_rcpc_decode_def Let_def split_beta distance_score
        TETRA_BNCH_TYPE2_BITS_def)
qed

text \<open>For any received bits, erasures included, and whatever the static tables held before, the
  Viterbi decoder returns a terminated input sequence of the asked length whose codeword is nearest to
  what was received: no terminated sequence differs from it in fewer of the bits that came.\<close>

theorem tetra_rcpc_decode_nearest:
  assumes "n \<le> TETRA_BNCH_TYPE2_BITS" "\<And>k. length (old k) = TETRA_RCPC_STATES" "terminated n us"
  shows "terminated n (tetra_rcpc_decode old mother erased n) \<and>
    distance mother erased (tetra_rcpc_decode old mother erased n) \<le> distance mother erased us"
  by (rule decode_nearest [OF assms])

theorem tetra_rcpc_decode_nearest_witness:
  "distance [True, True, True, True, False, True, False, False] (replicate 8 False)
      (tetra_rcpc_decode (\<lambda>_. replicate 16 (0, False))
        [True, True, True, True, False, True, False, False] (replicate 8 False) 2)
   \<le> distance [True, True, True, True, False, True, False, False] (replicate 8 False) [False, False]"
proof -
  have "terminated 2 [False, False]" by (simp add: terminated_def next_state_bits)
  from tetra_rcpc_decode_nearest [OF _ _ this, of "\<lambda>_. replicate 16 (0, False)"
      "[True, True, True, True, False, True, False, False]" "replicate 8 False"]
  show ?thesis by (simp add: tetra_constants)
qed

subsection \<open>The parity\<close>

lemma mask_16: "(a :: u32) AND 0xffff = take_bit 16 a"
  by (simp add: take_bit_eq_mask mask_eq_exp_minus_1)

lemma tetra_register: "feedback_register tetra_crc_step 16"
proof (rule feedback_registerI)
  fix a :: u32 and x
  show "tetra_crc_step a x = (let r = take_bit 16 (push_bit 1 a)
      in if bit a (16 - 1) \<noteq> x then r XOR 0x1021 else r)"
    by (simp add: tetra_crc_step_def mask_16 Let_def)
qed simp_all

interpretation tetra_crc: feedback_register tetra_crc_step 16
  by (rule tetra_register)

definition crc_bits :: "bool list \<Rightarrow> bool list" where
  "crc_bits msg = word_bits 16 (tetra_sb_crc msg (length msg))"

text \<open>What running over the message and its complemented remainder always leaves.\<close>

definition crc_residue :: u32 where
  "crc_residue = foldl tetra_crc_step 0 (replicate 16 True)"

lemma word_bits_not:
  "n \<le> LENGTH('w) \<Longrightarrow> word_bits n (NOT w) = xor_bits (word_bits n w) (replicate n True)" for w :: "'w::len word"
  by (rule nth_equalityI) (auto simp: word_bits_def xor_bits_def bit_not_iff)

lemma crc_of_run: "tetra_sb_crc type2 n = take_bit 16 (NOT (foldl tetra_crc_step 0xffff (take n type2)))"
  by (simp add: tetra_sb_crc_def mask_16)

lemma word_bits_take_bit: "word_bits n (take_bit n w) = word_bits n w"
  by (rule word_bits_cong) (simp add: bit_take_bit_iff)

lemma residue:
  assumes "take_bit 16 r = r" "length cs = 16"
  shows "foldl tetra_crc_step r cs = crc_residue \<longleftrightarrow> cs = word_bits 16 (NOT r)"
proof -
  let ?ok = "word_bits 16 (NOT r)"
  have "foldl tetra_crc_step (r XOR 0) (xor_bits (word_bits 16 r) (replicate 16 True)) =
      foldl tetra_crc_step r (word_bits 16 r) XOR crc_residue"
    unfolding crc_residue_def by (rule tetra_crc.run_xor) simp
  then have ok: "foldl tetra_crc_step r ?ok = crc_residue"
    using tetra_crc.append_check [OF assms(1)] by (simp add: word_bits_not)
  have diff: "foldl tetra_crc_step r cs = crc_residue XOR foldl tetra_crc_step 0 (xor_bits ?ok cs)"
    using tetra_crc.run_xor [of ?ok "xor_bits ?ok cs" r 0] ok assms(2)
    by (simp add: xor_bits_cancel)
  show ?thesis
  proof
    assume "foldl tetra_crc_step r cs = crc_residue"
    then have "foldl tetra_crc_step 0 (xor_bits ?ok cs) = 0"
      using diff by (metis word_xor_self_cancel xor.commute xor_self_eq)
    then have "True \<notin> set (xor_bits ?ok cs)" using tetra_crc.full_nonzero [of "xor_bits ?ok cs"] assms(2) by auto
    then show "cs = ?ok" using assms(2) by (intro xor_bits_equal) simp_all
  qed (use ok in simp)
qed

lemma parity_run:
  assumes "n + 16 \<le> length type2"
  shows "parity_holds type2 n \<longleftrightarrow> foldl tetra_crc_step 0xffff (take (n + 16) type2) = crc_residue"
proof -
  let ?r = "foldl tetra_crc_step 0xffff (take n type2)" and ?cs = "take 16 (drop n type2)"
  have r: "take_bit 16 ?r = ?r" by (rule tetra_crc.run_range) simp
  have cs: "length ?cs = 16" using assms by simp
  have "take (n + 16) type2 = take n type2 @ ?cs" by (simp add: take_add)
  then have "foldl tetra_crc_step 0xffff (take (n + 16) type2) = foldl tetra_crc_step ?r ?cs" by simp
  moreover have "word_of_bits ?cs = take_bit 16 (NOT ?r) \<longleftrightarrow> ?cs = word_bits 16 (NOT ?r)"
  proof
    assume "word_of_bits ?cs = take_bit 16 (NOT ?r)"
    then have "word_bits 16 (word_of_bits ?cs :: u32) = word_bits 16 (take_bit 16 (NOT ?r))" by simp
    then show "?cs = word_bits 16 (NOT ?r)"
      using word_bits_word_of_bits [OF cs, where 'w = 32] by (simp add: word_bits_take_bit)
  next
    assume "?cs = word_bits 16 (NOT ?r)"
    then show "word_of_bits ?cs = take_bit 16 (NOT ?r)" by (simp add: word_of_bits_word_bits)
  qed
  ultimately show ?thesis
    using residue [OF r cs] by (simp add: parity_holds_def TETRA_SB_CRC_BITS_def crc_of_run)
qed

lemma parity_of_sent:
  "parity_holds (msg @ crc_bits msg @ tail) (length msg)"
proof -
  let ?r = "foldl tetra_crc_step 0xffff msg"
  have "take_bit 16 ?r = ?r" by (rule tetra_crc.run_range) simp
  moreover have "crc_bits msg = word_bits 16 (NOT ?r)" by (simp add: crc_bits_def crc_of_run word_bits_take_bit)
  ultimately have "foldl tetra_crc_step ?r (crc_bits msg) = crc_residue" using residue by simp
  then show ?thesis by (subst parity_run) (simp_all add: crc_bits_def)
qed

text \<open>The parity notices every burst of errors of up to sixteen bits, anywhere in the message or in
  the parity itself, whatever the message and whatever follows.\<close>

theorem tetra_parity_burst_detected:
  assumes "length burst \<le> 16" "True \<in> set burst" "i + length burst + j = length msg + 16"
  shows "\<not> parity_holds
    (xor_bits (msg @ crc_bits msg) (replicate i False @ burst @ replicate j False) @ tail) (length msg)"
proof -
  let ?sent = "msg @ crc_bits msg" and ?err = "replicate i False @ burst @ replicate j False"
  have len: "length ?sent = length msg + 16" "length ?sent = length ?err"
    using assms(3) by (simp_all add: crc_bits_def)
  have "foldl tetra_crc_step 0 ?err \<noteq> 0" by (rule tetra_crc.burst) (use assms in simp_all)
  then have "foldl tetra_crc_step 0xffff (xor_bits ?sent ?err) \<noteq> foldl tetra_crc_step 0xffff ?sent"
    by (rule tetra_crc.error_changes [OF len(2)])
  moreover have "foldl tetra_crc_step 0xffff ?sent = crc_residue"
    using parity_of_sent [of msg "[]"] parity_run [of "length msg" ?sent] len(1) by simp
  ultimately have "foldl tetra_crc_step 0xffff (xor_bits ?sent ?err) \<noteq> crc_residue" by simp
  then show ?thesis using len by (subst parity_run) simp_all
qed

theorem tetra_parity_burst_detected_witness:
  "\<not> parity_holds (xor_bits ([True, False] @ crc_bits [True, False])
       (replicate 3 False @ [True, True] @ replicate 13 False) @ []) 2"
  using tetra_parity_burst_detected [of "[True, True]" 3 13 "[True, False]" "[]"]
  by (simp add: numeral_2_eq_2)

subsection \<open>The whole chain\<close>

text \<open>
  What a base station sends, clause 8.3.1: the message, its parity and the tail through the mother
  code, punctured, interleaved, scrambled and paired into dibits. \<open>unstride\<close> is the inverse of the
  stride modulo the block length.
\<close>

definition punctured :: "bool list \<Rightarrow> nat \<Rightarrow> bool list" where
  "punctured mother n = map (\<lambda>j. mother ! the (tetra_rcpc_puncture_index j)) [1..<n + 1]"

definition interleaved :: "bool list \<Rightarrow> nat \<Rightarrow> nat \<Rightarrow> bool list" where
  "interleaved type3 n unstride = map (\<lambda>p. type3 ! ((unstride * p + (n - 1)) mod n)) [0..<n]"

fun dibits_of :: "bool list \<Rightarrow> u8 list" where
  "dibits_of (a # b # rest) = (push_bit 1 (of_bool a) OR of_bool b) # dibits_of rest"
| "dibits_of _ = []"

definition type2_of :: "bool list \<Rightarrow> bool list" where
  "type2_of msg = msg @ crc_bits msg @ replicate 4 False"

definition tetra_encode :: "bool list \<Rightarrow> nat \<Rightarrow> nat \<Rightarrow> bool list option \<Rightarrow> u8 list" where
  "tetra_encode msg n unstride colour =
     dibits_of (xor_bits (interleaved (punctured (mother_encode 0 (type2_of msg)) n) n unstride)
       (scramble_sequence n colour))"

lemma dibit_bits_of:
  assumes "length bs = 2 * n"
  shows "dibit_bits (dibits_of bs) n = bs"
  using assms
proof (induction n arbitrary: bs)
  case 0
  then show ?case by (simp add: dibit_bits_def)
next
  case (Suc n)
  then obtain a b rest where bs: "bs = a # b # rest" "length rest = 2 * n"
    by (cases bs; cases "tl bs") auto
  have shift: "[0..<Suc n] = 0 # map Suc [0..<n]" by (simp add: upt_conv_Cons map_Suc_upt del: upt_Suc)
  have "dibit_bits (d # ds) (Suc n) = bit d 1 # bit d 0 # dibit_bits ds n" for d ds
    by (simp add: dibit_bits_def shift comp_def del: upt_Suc)
  then show ?case using Suc.IH [OF bs(2)] by (simp add: bs(1) bit_simps)
qed

lemma length_scramble_from [simp]: "length (scramble_from n h) = n"
  by (induction n arbitrary: h) (simp_all add: Let_def)

lemma length_scramble_sequence [simp]: "length (scramble_sequence n c) = n"
  by (simp add: scramble_sequence_def)

lemma xor_bits_twice: "length xs = length ys \<Longrightarrow> xor_bits (xor_bits xs ys) ys = xs"
  by (induction xs ys rule: list_induct2) auto

lemma descramble_scrambled:
  "length xs = n \<Longrightarrow> 0 < n \<Longrightarrow> n \<le> 216 \<Longrightarrow>
   tetra_descramble (xor_bits xs (scramble_sequence n c)) n c = xs"
  by (simp add: tetra_descramble_def TETRA_BNCH_SCRAMBLED_BITS_def xor_bits_twice)

lemma deinterleave_interleaved:
  assumes "length type3 = n" "0 < n" "(unstride * stride) mod n = 1 mod n"
  shows "tetra_deinterleave (interleaved type3 n unstride) n stride = type3"
proof (rule nth_equalityI)
  show "length (tetra_deinterleave (interleaved type3 n unstride) n stride) = length type3"
    using assms(1) by (simp add: tetra_deinterleave_def)
  fix i assume "i < length (tetra_deinterleave (interleaved type3 n unstride) n stride)"
  then have i: "i < n" by (simp add: tetra_deinterleave_def del: upt_Suc)
  have "(unstride * ((stride * Suc i) mod n) + (n - 1)) mod n = (unstride * stride * Suc i + (n - 1)) mod n"
    by (metis mod_add_left_eq mod_mult_right_eq mult.assoc)
  also have "\<dots> = (((unstride * stride) mod n) * Suc i + (n - 1)) mod n"
    by (metis mod_add_left_eq mod_mult_left_eq)
  also have "\<dots> = (Suc i + (n - 1)) mod n" unfolding assms(3) by (simp add: mod_simps)
  also have "\<dots> = i" using i assms(2) by simp
  finally have returns: "(unstride * ((stride * Suc i) mod n) + (n - 1)) mod n = i" .
  have "tetra_deinterleave (interleaved type3 n unstride) n stride ! i =
      interleaved type3 n unstride ! ((stride * Suc i) mod n)"
    using i by (simp add: tetra_deinterleave_def del: upt_Suc)
  also have "\<dots> = type3 ! i" using assms(2) returns by (simp add: interleaved_def)
  finally show "tetra_deinterleave (interleaved type3 n unstride) n stride ! i = type3 ! i" .
qed

lemma puncture_index:
  "1 \<le> j \<Longrightarrow> j \<le> 216 \<Longrightarrow>
   tetra_rcpc_puncture_index j = Some (8 * ((j - 1) div 3) + [1, 2, 5] ! ((j - 1) mod 3) - 1)"
  by (simp add: tetra_rcpc_puncture_index_def TETRA_BNCH_SCRAMBLED_BITS_def Let_def minus_mult_div_eq_mod [symmetric] diff_right_commute)

lemma depuncture_punctured:
  assumes "length mother = 4 * n2" "n \<le> 216"
  shows "case depuncture (punctured mother n) n n2 of (m, e) \<Rightarrow>
    length m = 4 * n2 \<and> length e = 4 * n2 \<and>
    (\<forall>at < 4 * n2. \<not> e ! at \<longrightarrow> m ! at = mother ! at) \<and>
    (\<forall>j. 1 \<le> j \<longrightarrow> j \<le> n \<longrightarrow> (case tetra_rcpc_puncture_index j of None \<Rightarrow> True
       | Some at \<Rightarrow> at < 4 * n2 \<longrightarrow> \<not> e ! at))"
proof -
  let ?f = "\<lambda>(m, e) k. case tetra_rcpc_puncture_index k of
           None \<Rightarrow> (m, e)
         | Some at \<Rightarrow> if at \<ge> 4 * n2 then (m, e)
                      else (m[at := punctured mother n ! (k - 1)], e[at := False])"
  have "case foldl ?f (replicate (4 * n2) False, replicate (4 * n2) True) [1..<j + 1] of (m, e) \<Rightarrow>
    length m = 4 * n2 \<and> length e = 4 * n2 \<and>
    (\<forall>at < 4 * n2. \<not> e ! at \<longrightarrow> m ! at = mother ! at) \<and>
    (\<forall>i. 1 \<le> i \<longrightarrow> i \<le> j \<longrightarrow> (case tetra_rcpc_puncture_index i of None \<Rightarrow> True
       | Some at \<Rightarrow> at < 4 * n2 \<longrightarrow> \<not> e ! at))" if "j \<le> n" for j
    using that
  proof (induction j)
    case 0
    show ?case by simp
  next
    case (Suc j)
    obtain m e where me: "foldl ?f (replicate (4 * n2) False, replicate (4 * n2) True) [1..<j + 1] = (m, e)"
      by fastforce
    have ih: "length m = 4 * n2" "length e = 4 * n2" "\<forall>at < 4 * n2. \<not> e ! at \<longrightarrow> m ! at = mother ! at"
      "\<forall>i. 1 \<le> i \<longrightarrow> i \<le> j \<longrightarrow> (case tetra_rcpc_puncture_index i of None \<Rightarrow> True
       | Some at \<Rightarrow> at < 4 * n2 \<longrightarrow> \<not> e ! at)"
      using Suc me by simp_all
    obtain at where at: "tetra_rcpc_puncture_index (Suc j) = Some at"
      using puncture_index [of "Suc j"] Suc.prems assms(2) by simp
    have val: "punctured mother n ! j = mother ! at" using Suc.prems at by (simp add: punctured_def del: upt_Suc)
    have step: "foldl ?f (replicate (4 * n2) False, replicate (4 * n2) True) [1..<Suc j + 1] =
        (if at \<ge> 4 * n2 then (m, e) else (m[at := mother ! at], e[at := False]))"
      using me at val by simp
    show ?case
    proof (cases "at \<ge> 4 * n2")
      case True
      with ih at show ?thesis unfolding step by (auto simp: le_Suc_eq)
    next
      case False
      have "case tetra_rcpc_puncture_index i of None \<Rightarrow> True | Some a \<Rightarrow> a < 4 * n2 \<longrightarrow> \<not> e[at := False] ! a"
        if "1 \<le> i" "i \<le> Suc j" for i
      proof -
        have "\<not> e[at := False] ! a" if a: "tetra_rcpc_puncture_index i = Some a" "a < 4 * n2" for a
        proof (cases "a = at")
          case True
          then show ?thesis using a(2) ih(2) by simp
        next
          case False
          then have "i \<le> j" using a(1) at \<open>i \<le> Suc j\<close> by (auto simp: le_Suc_eq)
          then show ?thesis using ih(4) \<open>1 \<le> i\<close> a False by fastforce
        qed
        then show ?thesis by (simp split: option.split)
      qed
      with False ih(1-3) show ?thesis unfolding step by (simp add: nth_list_update)
    qed
  qed
  from this [OF order_refl] show ?thesis unfolding depuncture_def .
qed

lemma length_mother_encode [simp]: "length (mother_encode s us) = 4 * length us"
  by (induction us arbitrary: s) simp_all

lemma zero_distance:
  "distance mother erased us = 0 \<longleftrightarrow>
   (\<forall>i < 4 * length us. \<not> erased ! i \<longrightarrow> mother ! i = mother_encode 0 us ! i)"
  by (auto simp: distance_def filter_empty_conv)

text \<open>The first output of every step is always sent, and with the state it determines the input.\<close>

lemma first_outputs_determine:
  "length vs = length us \<Longrightarrow>
   (\<And>k. k < length us \<Longrightarrow> mother_encode s us ! (4 * k) = mother_encode s vs ! (4 * k)) \<Longrightarrow> vs = us"
proof (induction us arbitrary: s vs)
  case (Cons u us)
  then obtain v ws where vs: "vs = v # ws" "length ws = length us" by (cases vs) auto
  have "mother_outputs s u ! 0 = mother_outputs s v ! 0"
    using Cons.prems(2) [of 0] by (simp add: vs nth_append)
  then have v: "v = u" by (auto simp: mother_outputs_def Let_def)
  have "ws = us"
  proof (rule Cons.IH [OF vs(2)])
    fix k assume "k < length us"
    then show "mother_encode (next_state s u) us ! (4 * k) = mother_encode (next_state s u) ws ! (4 * k)"
      using Cons.prems(2) [of "Suc k"] by (simp add: vs v nth_append)
  qed
  then show ?case by (simp add: vs v)
qed simp

lemma first_output_sent:
  assumes "2 * n = 3 * n2" "n \<le> 216" "k < n2"
  obtains j where "1 \<le> j" "j \<le> n" "tetra_rcpc_puncture_index j = Some (4 * k)"
proof (cases "even k")
  case True
  then obtain g where g: "k = 2 * g" by blast
  have "3 * g + 1 \<le> n" using assms g by linarith
  moreover have "tetra_rcpc_puncture_index (3 * g + 1) = Some (4 * k)"
    using puncture_index [of "3 * g + 1"] calculation assms(2) by (simp add: g)
  ultimately show thesis by (intro that [of "3 * g + 1"]) simp_all
next
  case False
  then obtain g where g: "k = 2 * g + 1" by (metis oddE)
  have n: "3 * g + 3 \<le> n" using assms g by linarith
  have "3 * g + 3 - 1 = 2 + g * 3" by simp
  then have at: "(3 * g + 3 - 1) div 3 = g" "(3 * g + 3 - 1) mod 3 = 2"
    by (simp_all only: div_mult_self1 mod_mult_self1) simp_all
  have "tetra_rcpc_puncture_index (3 * g + 3) =
      Some (8 * ((3 * g + 3 - 1) div 3) + [1, 2, 5] ! ((3 * g + 3 - 1) mod 3) - 1)"
    by (rule puncture_index) (use n assms(2) in linarith)+
  also have "\<dots> = Some (4 * k)" unfolding at by (simp add: g)
  finally have "tetra_rcpc_puncture_index (3 * g + 3) = Some (4 * k)" .
  with n show thesis by (intro that [of "3 * g + 3"]) simp_all
qed

lemma type2_terminated: "terminated (length msg + 20) (type2_of msg)"
proof -
  have four: "replicate 4 False = [False, False, False, False]" by (simp add: numeral_eq_Suc)
  have "foldl next_state s (replicate 4 False) = 0" for s
    unfolding four foldl_Cons foldl_Nil next_state_bits of_bool_eq add_0_right
    by (simp only: mod_mult_right_eq mult.assoc [symmetric]) simp
  then show ?thesis by (simp add: terminated_def type2_of_def crc_bits_def)
qed

lemma decode_encoded:
  assumes msg: "length msg + 20 = n2" and n: "2 * n = 3 * n2" "n \<le> 216" "0 < n" "n2 \<le> 144"
    and even: "even n" and unstride: "(unstride * stride) mod n = 1 mod n" and old: "\<And>k. length (old k) = 16"
  shows "decode_block old (tetra_encode msg n unstride colour) n n2 (length msg) stride colour = Some msg"
proof -
  let ?type2 = "type2_of msg"
  let ?mother = "mother_encode 0 ?type2"
  let ?type3 = "punctured ?mother n"
  have fin: "terminated n2 ?type2" using type2_terminated [of msg] msg by simp
  then have len2: "length ?type2 = n2" by (simp add: terminated_def)
  have len3: "length ?type3 = n" by (simp add: punctured_def del: upt_Suc)
  have "length (interleaved ?type3 n unstride) = n" by (simp add: interleaved_def)
  then have bits: "tetra_descramble (dibit_bits (tetra_encode msg n unstride colour) (n div 2)) n colour =
      interleaved ?type3 n unstride"
    unfolding tetra_encode_def using even n by (subst dibit_bits_of) (simp_all add: descramble_scrambled)
  have type3: "tetra_deinterleave (interleaved ?type3 n unstride) n stride = ?type3"
    by (rule deinterleave_interleaved [OF len3 n(3) unstride])
  obtain m e where me: "depuncture ?type3 n n2 = (m, e)" by fastforce
  have dep: "\<forall>at < 4 * n2. \<not> e ! at \<longrightarrow> m ! at = ?mother ! at"
    "\<forall>j. 1 \<le> j \<longrightarrow> j \<le> n \<longrightarrow> (case tetra_rcpc_puncture_index j of None \<Rightarrow> True
       | Some at \<Rightarrow> at < 4 * n2 \<longrightarrow> \<not> e ! at)"
    using depuncture_punctured [of ?mother n2 n] len2 n(2) me by simp_all
  have zero: "distance m e ?type2 = 0" using dep(1) len2 by (simp add: zero_distance)
  define out where "out = tetra_rcpc_decode old m e n2"
  have out: "terminated n2 out" "distance m e out \<le> distance m e ?type2"
    using decode_nearest [OF _ _ fin, of old m e] old n(4)
    by (simp_all add: out_def tetra_constants)
  have "out = ?type2"
  proof (rule first_outputs_determine)
    show "length out = length ?type2" using out(1) len2 by (simp add: terminated_def)
    fix k assume "k < length ?type2"
    then have k: "k < n2" by (simp add: len2)
    obtain j where "1 \<le> j" "j \<le> n" "tetra_rcpc_puncture_index j = Some (4 * k)"
      by (rule first_output_sent [OF n(1,2) k])
    then have "\<not> e ! (4 * k)" using dep(2) k by fastforce
    moreover have "distance m e out = 0" using out(2) zero by simp
    ultimately show "mother_encode 0 ?type2 ! (4 * k) = mother_encode 0 out ! (4 * k)"
      using zero out(1) len2 k unfolding zero_distance terminated_def by auto
  qed
  moreover have "parity_holds ?type2 (length msg)" unfolding type2_of_def by (rule parity_of_sent)
  moreover have "take (length msg) ?type2 = msg" by (simp add: type2_of_def)
  ultimately show ?thesis
    unfolding decode_block_def bits type3 me Let_def prod.case using out_def by simp
qed

end
