(* ===== verification/Tetra_Channels.thy ===== *)
theory Tetra_Channels
  imports Tetra_Sync
begin

text \<open>
  What a TETRA base station sends, written from EN 300 392-2 clause 8.2 and 8.3.1 and sharing nothing with the decoder:
  the parity as the remainder of a long division, the mother code as four convolutions, the puncturing, the interleaver
  as a table filled position by position, and the scrambling sequence as a recurrence over a polynomial. The decoder of
  \<open>src/src/tech/tetra_sync.c\<close> reads it back. Nothing in this theory models code.
\<close>

unbundle bit_operations_syntax

subsection \<open>The transmitter of the standard\<close>

text \<open>Clause 8.2.3.3: \<open>G(X) = X^16 + X^12 + X^5 + 1\<close>; the remainder of the message followed by sixteen zeros, its first
  sixteen bits inverted, is sent inverted.\<close>

definition generator_tail :: "bool list" where
  "generator_tail = map (\<lambda>e. e = 12 \<or> e = 5 \<or> e = (0 :: nat)) (rev [0..<16])"

fun divided :: "nat \<Rightarrow> bool list \<Rightarrow> bool list" where
  "divided 0 bs = bs"
| "divided (Suc n) bs = divided n (if hd bs then xor_bits (take 16 (tl bs)) generator_tail @ drop 16 (tl bs) else tl bs)"

definition frame_check :: "bool list \<Rightarrow> bool list" where
  "frame_check msg = map Not (divided (length msg)
     (let sent = msg @ replicate 16 False in map Not (take 16 sent) @ drop 16 sent))"

text \<open>Clause 8.2.3.1.1: \<open>G1 = 1 + D + D^4\<close>, \<open>G2 = 1 + D^2 + D^3 + D^4\<close>, \<open>G3 = 1 + D + D^2 + D^4\<close>,
  \<open>G4 = 1 + D + D^3 + D^4\<close>.\<close>

definition parity_of :: "bool list \<Rightarrow> bool" where
  "parity_of bs = foldr (\<noteq>) bs False"

definition mother_generators :: "nat list list" where
  "mother_generators = [[0, 1, 4], [0, 2, 3, 4], [0, 1, 2, 4], [0, 1, 3, 4]]"

definition mother_code :: "bool list \<Rightarrow> bool list" where
  "mother_code us = concat (map (\<lambda>k. map (\<lambda>g. parity_of (map (\<lambda>d. d \<le> k \<and> us ! (k - d)) g)) mother_generators)
     [0..<length us])"

text \<open>Clause 8.2.3.1.3: of every eight bits of the mother code the first, the second and the fifth.\<close>

fun two_thirds :: "bool list \<Rightarrow> bool list" where
  "two_thirds (a # b # c # d # e # f # g # h # rest) = a # b # e # two_thirds rest"
| "two_thirds _ = []"

text \<open>Clause 8.2.4.1: \<open>b4(k) = b3(i)\<close> with \<open>k = 1 + (a i mod K)\<close>.\<close>

definition block_interleaved :: "nat \<Rightarrow> bool list \<Rightarrow> bool list" where
  "block_interleaved a b3 = foldl (\<lambda>b4 i. b4[(a * i) mod length b3 := b3 ! (i - 1)]) (replicate (length b3) False)
     [1..<length b3 + 1]"

text \<open>Clause 8.2.5.2: \<open>p(k)\<close> is the sum of the \<open>p(k - i)\<close> whose coefficient of \<open>X^i\<close> is one in \<open>c(X) = 1 + X + X^2 + X^4 +
  X^5 + X^7 + X^8 + X^10 + X^11 + X^12 + X^16 + X^22 + X^23 + X^26 + X^32\<close>, which is written here in hexadecimal;
  \<open>p(0)\<close> down to \<open>p(-29)\<close> are the bits of the extended colour code, \<open>p(-30)\<close> and \<open>p(-31)\<close> are one. \<open>generated k\<close> is
  \<open>p(k)\<close> and the 31 before it, the newest first.\<close>

definition scrambling_polynomial :: int where
  "scrambling_polynomial = 0x104C11DB7"

primrec generated :: "bool list \<Rightarrow> nat \<Rightarrow> bool list" where
  "generated colour 0 = colour @ [True, True]"
| "generated colour (Suc k) =
     parity_of (map (\<lambda>i. bit scrambling_polynomial i \<and> generated colour k ! (i - 1)) [1..<33]) # butlast (generated colour k)"

definition scrambling_bits :: "bool list \<Rightarrow> nat \<Rightarrow> bool list" where
  "scrambling_bits colour n = map (\<lambda>k. hd (generated colour (k + 1))) [0..<n]"

definition transmitted :: "bool list \<Rightarrow> nat \<Rightarrow> bool list \<Rightarrow> u8 list" where
  "transmitted msg a colour =
     (let b3 = two_thirds (mother_code (msg @ frame_check msg @ replicate 4 False))
      in dibits_of (xor_bits (block_interleaved a b3) (scrambling_bits colour (length b3))))"

subsection \<open>The decoder's parts against the standard\<close>

lemma length_generated [simp]: "length colour = 30 \<Longrightarrow> length (generated colour k) = 32"
  by (induction k) simp_all

lemma parity_append: "parity_of (xs @ ys) = (parity_of xs \<noteq> parity_of ys)"
  by (induction xs) (auto simp: parity_of_def)

lemma parity_polynomial:
  "parity_of (map (\<lambda>i. bit scrambling_polynomial i \<and> h ! (i - 1)) [1..<33]) = foldl (\<lambda>b t. b \<noteq> h ! (t - 1)) False scramble_taps"
proof -
  have "[1..<33] = [1, 2, 3, 4, 5, 6, 7, 8, 9, 10, 11, 12, 13, 14, 15, 16, 17, 18, 19, 20, 21, 22, 23, 24, 25, 26, 27, 28, 29, 30, 31, 32 :: nat]"
    by (simp add: upt_conv_Cons)
  then show ?thesis
    by (simp add: parity_of_def scrambling_polynomial_def scramble_taps_def) argo
qed

lemma scramble_from_generated:
  assumes "length colour = 30"
  shows "scramble_from n (generated colour k) = map (\<lambda>j. hd (generated colour (k + j + 1))) [0..<n]"
proof (induction n arbitrary: k)
  case (Suc n)
  have butlast: "butlast (generated colour k) = take 31 (generated colour k)"
    using assms by (simp add: butlast_conv_take)
  have "scramble_from (Suc n) (generated colour k) =
      hd (generated colour (k + 1)) # scramble_from n (generated colour (Suc k))"
    by (simp only: scramble_from.simps Let_def generated.simps(2) parity_polynomial butlast list.sel Suc_eq_plus1 [symmetric])
  also have "\<dots> = map (\<lambda>j. hd (generated colour (k + j + 1))) [0..<Suc n]"
    unfolding Suc.IH by (simp add: upt_conv_Cons map_Suc_upt [symmetric] comp_def del: upt_Suc generated.simps)
  finally show ?case .
qed simp

lemma scramble_standard:
  "length colour = 30 \<Longrightarrow> scramble_sequence n (Some colour) = scrambling_bits colour n"
  "scramble_sequence n None = scrambling_bits (replicate 30 False) n"
  using scramble_from_generated [of colour n 0] scramble_from_generated [of "replicate 30 False" n 0]
  by (simp_all add: scramble_sequence_def scrambling_bits_def)

lemma state_holds_inputs:
  "j < 4 \<Longrightarrow> bit (foldl next_state 0 us) j = (j < length us \<and> us ! (length us - 1 - j))"
proof (induction us arbitrary: j rule: rev_induct)
  case (snoc u us)
  have "bit (next_state s u) j = (if j = 0 then u else bit s (j - 1))" for s
  proof -
    have "next_state s u = take_bit 4 (2 * s + of_bool u)" by (simp add: next_state_bits take_bit_eq_mod)
    moreover have "bit (2 * s + of_bool u) j = (if j = 0 then u else bit s (j - 1))"
      by (cases j; cases u) (simp_all add: bit_0 bit_Suc)
    ultimately show ?thesis using snoc.prems by (simp add: bit_take_bit_iff)
  qed
  then show ?case using snoc by (cases j) (auto simp: nth_append Suc_diff_Suc)
qed simp

lemma mother_standard_from:
  "mother_encode (foldl next_state 0 us) vs = concat (map (\<lambda>k. map (\<lambda>g. parity_of (map (\<lambda>d. d \<le> k \<and> (us @ vs) ! (k - d)) g)) mother_generators)
     [length us..<length us + length vs])"
proof (induction vs arbitrary: us)
  case (Cons v vs)
  let ?n = "length us"
  have past: "(d \<le> ?n \<and> (us @ v # vs) ! (?n - d)) = bit (foldl next_state 0 us) (d - 1)" if "1 \<le> d" "d \<le> 4" for d
    using that state_holds_inputs [of "d - 1" us] by (auto simp: nth_append)
  have now: "(0 \<le> ?n \<and> (us @ v # vs) ! (?n - 0)) = v" by simp
  have "mother_outputs (foldl next_state 0 us) v =
      map (\<lambda>g. parity_of (map (\<lambda>d. d \<le> ?n \<and> (us @ v # vs) ! (?n - d)) g)) mother_generators"
    by (simp only: mother_generators_def list.map past now parity_of_def one_le_numeral order_refl le_numeral_simps
        numeral_le_iff semiring_norm foldr.simps comp_def id_def)
      (simp add: mother_outputs_def Let_def, argo)
  then show ?case using Cons.IH [of "us @ [v]"] by (simp add: upt_conv_Cons del: upt_Suc)
qed simp

lemma mother_standard: "mother_encode 0 us = mother_code us"
  using mother_standard_from [of "[]" us] by (simp add: mother_code_def)

lemma two_thirds_nth:
  "length mother = 8 * m \<Longrightarrow> length (two_thirds mother) = 3 * m \<and>
    (\<forall>j < 3 * m. two_thirds mother ! j = mother ! (8 * (j div 3) + [0, 1, 4] ! (j mod 3)))"
proof (induction m arbitrary: mother)
  case (Suc m)
  obtain a b c d e f g h rest where mother: "mother = a # b # c # d # e # f # g # h # rest" "length rest = 8 * m"
    using Suc.prems by (auto simp: length_Suc_conv eval_nat_numeral)
  note ih = Suc.IH [OF mother(2)]
  have "two_thirds mother ! j = mother ! (8 * (j div 3) + [0, 1, 4] ! (j mod 3))" if j: "j < 3 * Suc m" for j
  proof (cases "j < 3")
    case True
    then have "j = 0 \<or> j = 1 \<or> j = 2" by auto
    then show ?thesis by (auto simp: mother(1))
  next
    case False
    then obtain i where i: "j = i + 3" by (metis add.commute le_Suc_ex not_less)
    then have "i < 3 * m" using j by simp
    then have "two_thirds rest ! i = rest ! (8 * (i div 3) + [0, 1, 4] ! (i mod 3))" using ih by blast
    moreover have three: "length [a, b, e] = 3" by simp
    have "two_thirds mother ! (i + 3) = two_thirds rest ! i"
      using nth_append_length_plus [of "[a, b, e]" "two_thirds rest" i] unfolding three mother(1) by (simp add: add.commute)
    moreover have eight: "length [a, b, c, d, e, f, g, h] = 8" by simp
    have "mother ! (8 + x) = rest ! x" for x
      using nth_append_length_plus [of "[a, b, c, d, e, f, g, h]" rest x] unfolding eight mother(1) by simp
    then have "mother ! (8 * Suc (i div 3) + x) = rest ! (8 * (i div 3) + x)" for x
      by (metis add.assoc mult_Suc_right)
    moreover have "j div 3 = Suc (i div 3)" "j mod 3 = i mod 3" by (simp_all add: i)
    ultimately show ?thesis by (simp only: i)
  qed
  then show ?case using ih by (simp add: mother(1))
qed simp

lemma punctured_standard:
  assumes "length mother = 8 * m" "3 * m \<le> 216" shows "punctured mother (3 * m) = two_thirds mother"
proof (rule nth_equalityI)
  show "length (punctured mother (3 * m)) = length (two_thirds mother)"
    using two_thirds_nth [OF assms(1)] by (simp add: punctured_def del: upt_Suc)
  fix j assume "j < length (punctured mother (3 * m))"
  then have j: "j < 3 * m" by (simp add: punctured_def del: upt_Suc)
  have "[1, 2, 5] ! (j mod 3) = Suc ([0, 1, 4] ! (j mod 3))"
  proof -
    have "j mod 3 = 0 \<or> j mod 3 = 1 \<or> j mod 3 = 2" by linarith
    then show ?thesis by auto
  qed
  then show "punctured mother (3 * m) ! j = two_thirds mother ! j"
    using j assms(2) two_thirds_nth [OF assms(1)] puncture_index [of "Suc j"]
    by (simp add: punctured_def del: upt_Suc)
qed

lemma stride_returns:
  fixes u a k i :: nat
  assumes "(u * a) mod k = 1 mod k" "1 \<le> i" "i \<le> k"
  shows "(u * ((a * i) mod k) + (k - 1)) mod k = i - 1"
proof -
  have "(u * ((a * i) mod k) + (k - 1)) mod k = (u * a * i + (k - 1)) mod k"
    by (metis mod_add_left_eq mod_mult_right_eq mult.assoc)
  also have "\<dots> = (((u * a) mod k) * i + (k - 1)) mod k" by (metis mod_add_left_eq mod_mult_left_eq)
  also have "\<dots> = (i + (k - 1)) mod k" unfolding assms(1) by (simp add: mod_simps)
  also have "\<dots> = ((i - 1) + k) mod k" using assms(2,3) by (intro arg_cong [where f = "\<lambda>x. x mod k"]) linarith
  also have "\<dots> = i - 1" using assms(2,3) unfolding mod_add_self2 by (intro mod_less) linarith
  finally show ?thesis .
qed

lemma length_filled [simp]: "length (foldl (\<lambda>xs i. xs[f i := g i]) z js) = length z"
  by (induction js arbitrary: z) simp_all

lemma interleaver_fills:
  fixes u a :: nat
  assumes "(u * a) mod k = 1 mod k" "n \<le> k" "length b3 = k" "1 \<le> i" "i \<le> n"
  shows "foldl (\<lambda>b4 i. b4[(a * i) mod k := b3 ! (i - 1)]) (replicate k False) [1..<n + 1] ! ((a * i) mod k) = b3 ! (i - 1)"
  using assms(2-)
proof (induction n)
  case (Suc n)
  define b4 where "b4 = foldl (\<lambda>b4 i. b4[(a * i) mod k := b3 ! (i - 1)]) (replicate k False) [1..<n + 1]"
  have "length b4 = k" by (simp only: b4_def length_filled length_replicate)
  have step: "foldl (\<lambda>b4 i. b4[(a * i) mod k := b3 ! (i - 1)]) (replicate k False) [1..<Suc n + 1] = b4[(a * Suc n) mod k := b3 ! n]"
    by (simp add: b4_def)
  show ?case
  proof (cases "i = Suc n")
    case True
    then show ?thesis using Suc.prems \<open>length b4 = k\<close> unfolding step by simp
  next
    case False
    then have "(a * i) mod k \<noteq> (a * Suc n) mod k"
      using stride_returns [OF assms(1), of i] stride_returns [OF assms(1), of "Suc n"] Suc.prems by auto
    moreover have "b4 ! ((a * i) mod k) = b3 ! (i - 1)" unfolding b4_def using Suc False by simp
    ultimately show ?thesis unfolding step by simp
  qed
qed simp

lemma interleaved_standard:
  fixes u a :: nat
  assumes k: "length b3 = k" "0 < k" and u: "(u * a) mod k = 1 mod k"
  shows "interleaved b3 k u = block_interleaved a b3"
proof (rule nth_equalityI)
  show "length (interleaved b3 k u) = length (block_interleaved a b3)"
    by (simp only: interleaved_def block_interleaved_def k(1) length_filled length_replicate length_map length_upt diff_zero)
  fix p assume "p < length (interleaved b3 k u)"
  then have p: "p < k" by (simp add: interleaved_def)
  define i where "i = (u * p + (k - 1)) mod k + 1"
  have i: "1 \<le> i" "i \<le> k" using k(2) by (simp_all add: i_def Suc_leI)
  have "(a * i) mod k = (a * (u * p + (k - 1) + 1)) mod k"
    unfolding i_def by (metis mod_add_left_eq mod_mult_right_eq)
  also have "u * p + (k - 1) + 1 = u * p + k" using k(2) by simp
  also have "a * (u * p + k) = u * a * p + a * k" by (simp add: algebra_simps)
  also have "(u * a * p + a * k) mod k = ((u * a) mod k * p) mod k" by (simp only: mod_mult_self1 mod_mult_left_eq)
  also have "\<dots> = p" unfolding u using p by (simp add: mod_mult_left_eq)
  finally have at: "(a * i) mod k = p" .
  have "block_interleaved a b3 ! ((a * i) mod k) = b3 ! (i - 1)"
    using interleaver_fills [OF u order_refl k(1) i] by (simp add: block_interleaved_def k(1))
  then show "interleaved b3 k u ! p = block_interleaved a b3 ! p"
    using p unfolding at by (simp add: interleaved_def i_def)
qed

lemma division_runs_register:
  assumes "take_bit 16 r = r"
  shows "divided (length msg) (xor_bits (word_bits 16 r) (take 16 (msg @ replicate 16 False)) @ drop 16 (msg @ replicate 16 False)) =
    word_bits 16 (foldl tetra_crc_step r msg)"
  using assms
proof (induction msg arbitrary: r)
  case Nil
  then show ?case by (simp add: xor_bits_False)
next
  case (Cons x msg)
  define z where "z = msg @ replicate 16 False"
  let ?s = "tetra_crc_step r x" and ?p = "take_bit 16 (push_bit 1 r)"
  have zl: "16 \<le> length z" by (simp add: z_def)
  have s: "?s = (if bit r 15 \<noteq> x then ?p XOR 0x1021 else ?p)"
    by (simp add: tetra_crc_step_def mask_16 Let_def)
  have range: "take_bit 16 ?s = ?s" by (simp add: s take_bit_xor)
  have head: "word_bits 16 r = bit r 15 # word_bits 15 r" using word_bits_Suc [of 15 r] by simp
  have shift: "word_bits 16 ?p = word_bits 15 r @ [False]"
    by (rule nth_equalityI) (auto simp: word_bits_def nth_append bit_take_bit_iff bit_push_bit_iff simp del: push_bit_of_1 push_bit_Suc)
  have tail: "word_bits 16 (0x1021 :: u32) = generator_tail"
    by (simp add: word_bits_def generator_tail_def upt_conv_Cons)
  have z16: "take 16 z = take 15 z @ [z ! 15]" using zl take_Suc_conv_app_nth [of 15 z] by simp
  have "xor_bits (word_bits 16 ?p) (take 16 z) = xor_bits (word_bits 15 r) (take 15 z) @ [z ! 15]"
    unfolding shift z16 using zl by (subst xor_bits_append) simp_all
  then have low: "take 16 (xor_bits (word_bits 15 r) (take 15 z) @ drop 15 z) = xor_bits (word_bits 16 ?p) (take 16 z)"
    using zl by (simp add: take_drop [symmetric] drop_take z16 hd_drop_conv_nth take_Suc Cons_nth_drop_Suc [symmetric] min_absorb2)
  have rest: "drop 16 (xor_bits (word_bits 15 r) (take 15 z) @ drop 15 z) = drop 16 z" using zl by simp
  have whole: "xor_bits (word_bits 15 r) (take 15 z) @ drop 15 z = xor_bits (word_bits 16 ?p) (take 16 z) @ drop 16 z"
    by (metis append_take_drop_id low rest)
  have xored: "xor_bits (xor_bits (word_bits 16 ?p) (take 16 z)) generator_tail = xor_bits (word_bits 16 (?p XOR 0x1021)) (take 16 z)"
    unfolding word_bits_xor tail by (rule nth_equalityI) (auto simp: xor_bits_def)
  have "tl (xor_bits (word_bits 16 r) (take 16 (x # z)) @ drop 16 (x # z)) = xor_bits (word_bits 15 r) (take 15 z) @ drop 15 z"
    "hd (xor_bits (word_bits 16 r) (take 16 (x # z)) @ drop 16 (x # z)) = (bit r 15 \<noteq> x)"
    unfolding head by (simp_all add: take_Cons' drop_Cons')
  then have "divided (length (x # msg)) (xor_bits (word_bits 16 r) (take 16 (x # z)) @ drop 16 (x # z)) =
      divided (length msg) (xor_bits (word_bits 16 ?s) (take 16 z) @ drop 16 z)"
    using xored zl unfolding whole s by (simp only: length_Cons divided.simps(2)) (simp add: min_absorb2 del: push_bit_of_1)
  also have "\<dots> = word_bits 16 (foldl tetra_crc_step ?s msg)" unfolding z_def by (rule Cons.IH [OF range])
  finally show ?case by (simp add: z_def)
qed

lemma inverted_bits: "map Not xs = xor_bits (replicate (length xs) True) xs"
  by (induction xs) simp_all

lemma frame_check_standard: "frame_check msg = crc_bits msg"
proof -
  define sent where "sent = msg @ replicate 16 False"
  have "map (\<lambda>i. bit (0xffff :: u32) (15 - i)) [0..<16] = map (\<lambda>_. True) [0..<16]" by (simp add: upt_conv_Cons)
  then have "word_bits 16 (0xffff :: u32) = replicate 16 True" by (simp add: word_bits_def map_replicate_const)
  moreover have sixteen: "length (take 16 sent) = 16" by (simp add: sent_def)
  ultimately have "map Not (take 16 sent) = xor_bits (word_bits 16 (0xffff :: u32)) (take 16 sent)"
    using inverted_bits [of "take 16 sent"] sixteen by (simp only:)
  moreover have "take_bit 16 (0xffff :: u32) = 0xffff" by simp
  note division_runs_register [OF this, of msg, folded sent_def]
  moreover have "word_bits 16 (NOT w) = map Not (word_bits 16 w)" for w :: u32
    by (rule nth_equalityI) (auto simp: word_bits_def bit_not_iff)
  ultimately show ?thesis
    by (simp add: frame_check_def crc_bits_def crc_of_run word_bits_take_bit sent_def [symmetric] Let_def)
qed

lemma transmitted_encoded:
  assumes msg: "length msg + 20 = 2 * m" "3 * m \<le> 216" "0 < m" and u: "(u * a) mod (3 * m) = 1 mod (3 * m)"
    and colour: "scrambling_bits e (3 * m) = scramble_sequence (3 * m) colour"
  shows "transmitted msg a e = tetra_encode msg (3 * m) u colour"
proof -
  let ?mother = "mother_code (type2_of msg)"
  have len: "length (mother_encode 0 (type2_of msg)) = 8 * m"
    using msg(1) by (simp add: type2_of_def crc_bits_def)
  then have b3: "punctured (mother_encode 0 (type2_of msg)) (3 * m) = two_thirds ?mother"
    using punctured_standard [of _ m] msg(2) by (simp add: mother_standard)
  have "length (two_thirds ?mother) = 3 * m" using two_thirds_nth [of ?mother m] len by (simp add: mother_standard)
  then show ?thesis
    using interleaved_standard [of "two_thirds ?mother" "3 * m" u a] msg(3) u
    by (simp add: transmitted_def tetra_encode_def b3 frame_check_standard colour type2_of_def [symmetric] Let_def)
qed

text \<open>C15: Both channels read back what a base station sends. A transmitter written from the standard alone sends a 60-bit
  synchronization message scrambled with the colour code of all zeros, or a 124-bit broadcast message under any extended
  colour code of 30 bits; descrambling, de-interleaving, depuncturing, the Viterbi decoder and the parity return exactly
  that message, whatever the static tables of the decoder held before.\<close>

theorem tetra_channels_round_trip:
  assumes "length sync = TETRA_SB_MESSAGE_BITS" "length bnch = TETRA_BNCH_MESSAGE_BITS" "length colour = 30"
    and "\<And>k. length (old k) = TETRA_RCPC_STATES"
  shows "tetra_sync_block_decode old (transmitted sync 11 (replicate 30 False)) = Some sync \<and>
    tetra_bnch_decode old (transmitted bnch 101 colour) colour = Some bnch"
  using decode_encoded [of sync 80 120 11 11 old None] decode_encoded [of bnch 144 216 77 101 old "Some colour"]
    transmitted_encoded [of sync 40 11 11 "replicate 30 False" None] transmitted_encoded [of bnch 72 77 101 colour "Some colour"] assms
  by (simp add: tetra_sync_block_decode_def tetra_bnch_decode_def tetra_constants scramble_standard)

theorem tetra_channels_round_trip_witness:
  "tetra_bnch_decode (\<lambda>_. replicate 16 (3, True))
     (transmitted (replicate 62 True @ replicate 62 False) 101 (tetra_extended_colour 268 1 5)) (tetra_extended_colour 268 1 5) =
   Some (replicate 62 True @ replicate 62 False)"
  using tetra_channels_round_trip [of "replicate 60 True" "replicate 62 True @ replicate 62 False" "tetra_extended_colour 268 1 5"
      "\<lambda>_. replicate 16 (3, True)"]
  by (simp add: tetra_constants tetra_extended_colour_def)

end
