(* ===== verification/Gsm_Bcch.thy ===== *)
theory Gsm_Bcch
  imports Trellis Check_Register
begin

text \<open>
  The GSM broadcast channel, \<open>src/src/tech/gsm_bcch.h\<close> and \<open>src/src/tech/gsm_bcch.c\<close>: interleaving,
  the Fire code, the convolutional code and its soft Viterbi decoder, and the System Information
  messages. A byte that holds one bit is a \<open>bool\<close>. The decoder's floating-point arithmetic is an
  argument: a record of the four operations it uses and its two constants. Scores are never NaN (one
  enters the row only when it compares greater), so \<open>metric <= unreachable\<close> is the negation of
  \<open>metric > unreachable\<close>. The static table of survivors keeps its content between calls; that content is
  the argument \<open>old\<close>.
\<close>

unbundle bit_operations_syntax

subsection \<open>Interleaving\<close>

definition interleave_position :: "nat \<Rightarrow> nat \<times> nat" where
  "interleave_position k = (k mod 4, 2 * ((49 * k) mod 57) + (k mod 8) div 4)"

definition gsm_bcch_deinterleave :: "'a list list \<Rightarrow> 'a list" where
  "gsm_bcch_deinterleave bursts =
     map (\<lambda>k. let (burst, at) = interleave_position k in bursts ! burst ! at) [0..<456]"

definition gsm_bcch_interleave :: "'a list \<Rightarrow> 'a list list \<Rightarrow> 'a list list" where
  "gsm_bcch_interleave coded bursts =
     foldl (\<lambda>bursts k. let (burst, at) = interleave_position k
                       in bursts[burst := (bursts ! burst)[at := coded ! k]]) bursts [0..<456]"

subsection \<open>The Fire code\<close>

definition FIRE_TAPS :: u64 where "FIRE_TAPS = 0x4820009"
definition FIRE_SYNDROME :: u64 where "FIRE_SYNDROME = 0xFFFFFFFFFF"

definition fire_step :: "u64 \<Rightarrow> bool \<Rightarrow> u64" where
  "fire_step reg x =
     (let out = drop_bit 39 reg AND 1;
          reg = push_bit 1 reg AND 0xFFFFFFFFFF;
          reg = reg XOR of_bool x
      in if out \<noteq> 0 then reg XOR FIRE_TAPS else reg)"

definition fire_remainder :: "bool list \<Rightarrow> u64" where
  "fire_remainder bits = foldl fire_step 0 bits"

definition gsm_bcch_fire_parity :: "bool list \<Rightarrow> bool list" where
  "gsm_bcch_fire_parity info =
     (let reg = fire_remainder (info @ replicate 40 False)
      in map (\<lambda>j. (drop_bit (40 - 1 - j) reg AND 1) XOR 1 \<noteq> 0) [0..<40])"

definition gsm_bcch_fire_check :: "bool list \<Rightarrow> bool" where
  "gsm_bcch_fire_check codeword \<longleftrightarrow> fire_remainder (take 224 codeword) = FIRE_SYNDROME"

subsection \<open>The convolutional code\<close>

definition conv_outputs :: "nat \<Rightarrow> bool \<Rightarrow> bool \<times> bool" where
  "conv_outputs state x =
     ((x \<noteq> bit state 2) \<noteq> bit state 3, ((x \<noteq> bit state 0) \<noteq> bit state 2) \<noteq> bit state 3)"

definition conv_next :: "nat \<Rightarrow> bool \<Rightarrow> nat" where
  "conv_next state x = (push_bit 1 state OR of_bool x) AND 0xF"

fun conv_encode :: "nat \<Rightarrow> bool list \<Rightarrow> bool list" where
  "conv_encode state [] = []"
| "conv_encode state (x # xs) =
     (let (g0, g1) = conv_outputs state x in g0 # g1 # conv_encode (conv_next state x) xs)"

definition uncoded :: "bool list \<Rightarrow> bool list" where
  "uncoded info = info @ gsm_bcch_fire_parity info @ replicate 4 False"

definition gsm_bcch_encode :: "bool list \<Rightarrow> bool list" where
  "gsm_bcch_encode info = conv_encode 0 (uncoded info)"

subsection \<open>The soft Viterbi decoder\<close>

record 'f float_ops =
  fadd :: "'f \<Rightarrow> 'f \<Rightarrow> 'f"
  fneg :: "'f \<Rightarrow> 'f"
  fgt :: "'f \<Rightarrow> 'f \<Rightarrow> bool"
  fzero :: 'f
  funreachable :: 'f

definition branch_score :: "'f float_ops \<Rightarrow> 'f list \<Rightarrow> nat \<Rightarrow> nat \<Rightarrow> bool \<Rightarrow> 'f \<Rightarrow> 'f" where
  "branch_score F coded k s x metric =
     (let r0 = coded ! (2 * k); r1 = coded ! (2 * k + 1); (g0, g1) = conv_outputs s x
      in fadd F (fadd F metric (if g0 then fneg F r0 else r0)) (if g1 then fneg F r1 else r1))"

definition soft_viterbi :: "'f float_ops \<Rightarrow> (nat \<Rightarrow> survivor list) \<Rightarrow> 'f list \<Rightarrow> bool list" where
  "soft_viterbi F old coded =
     (let metric = (replicate 16 (funreachable F))[0 := fzero F];
          (metric, back) = viterbi_forward (fgt F) (\<lambda>a. \<not> fgt F a (funreachable F)) (funreachable F) 16 conv_next
            (branch_score F coded) old metric 228
      in map (\<lambda>(s, _). bit s 0) (trace_back (rev back) 0))"

record gsm_bcch_block =
  octets :: "u8 list"
  parity_ok :: bool

definition octets_of :: "bool list \<Rightarrow> u8 list" where
  "octets_of u =
     foldl (\<lambda>out i. if u ! i then out[i div 8 := out ! (i div 8) OR push_bit (i mod 8) 1] else out)
       (replicate 23 0) [0..<184]"

definition gsm_bcch_decode_block :: "'f float_ops \<Rightarrow> (nat \<Rightarrow> survivor list) \<Rightarrow> 'f list \<Rightarrow> gsm_bcch_block" where
  "gsm_bcch_decode_block F old coded =
     (let u = soft_viterbi F old coded
      in \<lparr>octets = octets_of u, parity_ok = gsm_bcch_fire_check u\<rparr>)"

subsection \<open>System Information\<close>

datatype gsm_si_type =
  SI_UNKNOWN | SI_TYPE_1 | SI_TYPE_2 | SI_TYPE_2BIS | SI_TYPE_2TER | SI_TYPE_3 | SI_TYPE_4 | SI_TYPE_13

definition GSM_SI_MAX_NEIGHBOURS :: nat where "GSM_SI_MAX_NEIGHBOURS = 32"

record gsm_si =
  si_type :: gsm_si_type
  have_lai :: bool
  mcc :: nat
  mnc :: nat
  mnc_digits :: nat
  lac :: nat
  have_cell_id :: bool
  cell_id :: nat
  neighbours :: "nat list"

definition si_type_of :: "u8 \<Rightarrow> gsm_si_type" where
  "si_type_of t =
     (if t = 0x19 then SI_TYPE_1 else if t = 0x1A then SI_TYPE_2 else if t = 0x02 then SI_TYPE_2BIS
      else if t = 0x03 then SI_TYPE_2TER else if t = 0x1B then SI_TYPE_3 else if t = 0x1C then SI_TYPE_4
      else if t = 0x00 then SI_TYPE_13 else SI_UNKNOWN)"

definition low_nibble :: "u8 \<Rightarrow> nat" where "low_nibble b = unat (b AND 0x0F)"
definition high_nibble :: "u8 \<Rightarrow> nat" where "high_nibble b = unat (drop_bit 4 b AND 0x0F)"

definition parse_lai :: "u8 list \<Rightarrow> gsm_si \<Rightarrow> gsm_si" where
  "parse_lai p out =
     (let mcc1 = low_nibble (p ! 0); mcc2 = high_nibble (p ! 0); mcc3 = low_nibble (p ! 1);
          mnc3 = high_nibble (p ! 1); mnc1 = low_nibble (p ! 2); mnc2 = high_nibble (p ! 2)
      in if mcc1 > 9 \<or> mcc2 > 9 \<or> mcc3 > 9 \<or> mnc1 > 9 \<or> mnc2 > 9 then out
         else let out = out\<lparr>mcc := mcc1 * 100 + mcc2 * 10 + mcc3\<rparr>;
                  place = (\<lambda>out. out\<lparr>lac := unat (p ! 3) * 256 + unat (p ! 4), have_lai := True\<rparr>)
         in if mnc3 = 0x0F then place (out\<lparr>mnc := mnc1 * 10 + mnc2, mnc_digits := 2\<rparr>)
            else if mnc3 \<le> 9 then place (out\<lparr>mnc := mnc1 * 100 + mnc2 * 10 + mnc3, mnc_digits := 3\<rparr>)
            else out)"

definition parse_frequency_bitmap :: "u8 list \<Rightarrow> gsm_si \<Rightarrow> gsm_si" where
  "parse_frequency_bitmap p out =
     (if p ! 0 AND 0xC0 \<noteq> 0 then out
      else foldl (\<lambda>out arfcn.
             let offset = 4 + (124 - arfcn); octet = offset div 8; shift = 7 - offset mod 8
             in if drop_bit shift (p ! octet) AND 1 = 0 then out
                else if length (neighbours out) < GSM_SI_MAX_NEIGHBOURS
                then out\<lparr>neighbours := neighbours out @ [arfcn]\<rparr> else out)
           out [1..<125])"

definition gsm_si_empty :: gsm_si where
  "gsm_si_empty = \<lparr>si_type = SI_UNKNOWN, have_lai = False, mcc = 0, mnc = 0, mnc_digits = 0, lac = 0,
     have_cell_id = False, cell_id = 0, neighbours = []\<rparr>"

definition gsm_si_parse :: "u8 list \<Rightarrow> gsm_si option" where
  "gsm_si_parse block =
     (if block ! 1 AND 0x0F \<noteq> 0x06 then None
      else let type = si_type_of (block ! 2); out = gsm_si_empty\<lparr>si_type := type\<rparr>
      in if type = SI_UNKNOWN then None
         else Some (case type of
             SI_TYPE_1 \<Rightarrow> parse_frequency_bitmap (drop 3 block) out
           | SI_TYPE_2 \<Rightarrow> parse_frequency_bitmap (drop 3 block) out
           | SI_TYPE_3 \<Rightarrow> parse_lai (drop 5 block)
               (out\<lparr>cell_id := unat (block ! 3) * 256 + unat (block ! 4), have_cell_id := True\<rparr>)
           | SI_TYPE_4 \<Rightarrow> parse_lai (drop 3 block) out
           | _ \<Rightarrow> out))"

subsection \<open>Interleaving is undone\<close>

lemma position_residues:
  assumes "interleave_position k = interleave_position l"
  shows "k mod 8 = l mod 8" "k mod 57 = l mod 57"
proof -
  have bit_small: "(m mod 8) div 4 < 2" for m :: nat by simp
  from assms have four: "k mod 4 = l mod 4"
    and bits: "2 * ((49 * k) mod 57) + (k mod 8) div 4 = 2 * ((49 * l) mod 57) + (l mod 8) div 4"
    by (simp_all add: interleave_position_def)
  have half: "(k mod 8) div 4 = (l mod 8) div 4" "(49 * k) mod 57 = (49 * l) mod 57"
  proof -
    have "a = b \<and> x = y" if "2 * x + a = 2 * y + b" "a < 2" "b < 2" for a b x y :: nat
      using that by presburger
    from this [OF bits bit_small bit_small]
    show "(k mod 8) div 4 = (l mod 8) div 4" "(49 * k) mod 57 = (49 * l) mod 57" by simp_all
  qed
  have eight: "m mod 8 = 4 * ((m mod 8) div 4) + m mod 4" for m :: nat
    using mult_div_mod_eq [of 4 "m mod 8"] mod_mod_cancel [of 4 8 m] by simp
  show "k mod 8 = l mod 8" using eight [of k] eight [of l] half(1) four by simp
  have undo: "m mod 57 = (7 * ((49 * m) mod 57)) mod 57" for m :: nat
  proof -
    have "(7 * ((49 * m) mod 57)) mod 57 = (343 * m) mod 57" by (simp add: mod_mult_right_eq)
    also have "\<dots> = (m + (6 * m) * 57) mod 57" by simp
    finally show ?thesis by (simp only: mod_mult_self1)
  qed
  show "k mod 57 = l mod 57" using undo [of k] undo [of l] half(2) by simp
qed

lemma position_inj: "inj_on interleave_position {0..<456}"
proof (rule inj_onI)
  fix k l
  assume k: "k \<in> {0..<456}" and l: "l \<in> {0..<456}" and eq: "interleave_position k = interleave_position l"
  have crt: "m = (57 * (m mod 8) + 400 * (m mod 57)) mod 456" if "m < 456" for m :: nat
  proof -
    have "57 * r + 400 * t + 456 * (a + 50 * b) = 457 * m" if "8 * a + r = m" "57 * b + t = m"
      for a b r t :: nat
    proof -
      have "57 * m = 456 * a + 57 * r" using that(1) by simp
      moreover have "400 * m = 22800 * b + 400 * t" using that(2) by simp
      ultimately have "457 * m = 456 * a + 57 * r + 22800 * b + 400 * t" by linarith
      then show ?thesis by simp
    qed
    then have "57 * (m mod 8) + 400 * (m mod 57) + 456 * (m div 8 + 50 * (m div 57)) = 457 * m"
      using mult_div_mod_eq [of 8 m] mult_div_mod_eq [of 57 m] by blast
    then have "(57 * (m mod 8) + 400 * (m mod 57)) mod 456 = (457 * m) mod 456"
      by (metis mod_mult_self2)
    also have "\<dots> = (m + m * 456) mod 456" by simp
    also have "\<dots> = m" using that by (simp only: mod_mult_self1) simp
    finally show ?thesis by simp
  qed
  show "k = l" using crt [of k] crt [of l] position_residues [OF eq] k l by simp
qed

lemma position_range: "fst (interleave_position k) < 4" "snd (interleave_position k) < 114"
proof -
  have "(49 * k) mod 57 \<le> 56" "(k mod 8) div 4 \<le> 1" by (simp_all add: less_Suc_eq_le [symmetric] div_less_iff_less_mult)
  then have "2 * ((49 * k) mod 57) + (k mod 8) div 4 \<le> 113" by linarith
  then show "fst (interleave_position k) < 4" "snd (interleave_position k) < 114"
    by (simp_all add: interleave_position_def)
qed

lemma write_cell:
  assumes "length bs = 4" "list_all (\<lambda>b. length b = 114) bs" "burst < 4" "at < 114"
  shows "length (bs[burst := (bs ! burst)[at := x]]) = 4"
    "list_all (\<lambda>b. length b = 114) (bs[burst := (bs ! burst)[at := x]])"
    "bs[burst := (bs ! burst)[at := x]] ! i ! j = (if (i, j) = (burst, at) then x else bs ! i ! j)"
proof -
  have "length (bs ! burst) = 114" using assms by (simp add: list_all_length)
  then show "list_all (\<lambda>b. length b = 114) (bs[burst := (bs ! burst)[at := x]])"
    "bs[burst := (bs ! burst)[at := x]] ! i ! j = (if (i, j) = (burst, at) then x else bs ! i ! j)"
    using assms by (simp_all add: list_all_length nth_list_update)
qed (use assms in simp)

text \<open>Interleaving and de-interleaving are inverse: no two of the 456 coded bits share a place in the
  four bursts, and every coded bit is read back from where it was put, whatever the bursts held.\<close>

theorem gsm_interleave_round_trip:
  assumes "length coded = 456" "length bursts = 4" "list_all (\<lambda>b. length b = 114) bursts"
  shows "gsm_bcch_deinterleave (gsm_bcch_interleave coded bursts) = coded"
proof -
  let ?put = "\<lambda>bursts k. let (burst, at) = interleave_position k
      in bursts[burst := (bursts ! burst)[at := coded ! k]]"
  have inv: "length (foldl ?put bursts [0..<m]) = 4 \<and> list_all (\<lambda>b. length b = 114) (foldl ?put bursts [0..<m]) \<and>
      (\<forall>k < m. foldl ?put bursts [0..<m] ! fst (interleave_position k) ! snd (interleave_position k) = coded ! k)"
    if "m \<le> 456" for m
    using that
  proof (induction m)
    case (Suc m)
    obtain burst at where pos: "interleave_position m = (burst, at)" by fastforce
    have "burst < 4" "at < 114" using position_range [of m] pos by simp_all
    note cell = write_cell [OF _ _ this]
    have "interleave_position k \<noteq> (burst, at)" if "k < m" for k
      using inj_onD [OF position_inj, of k m] that Suc.prems pos by auto
    then have apart: "(fst (interleave_position k), snd (interleave_position k)) \<noteq> (burst, at)" if "k < m" for k
      using that by simp
    have "list_all (\<lambda>b. length b = 114) (foldl ?put bursts [0..<m])" "length (foldl ?put bursts [0..<m]) = 4"
      "\<And>k. k < m \<Longrightarrow> foldl ?put bursts [0..<m] ! fst (interleave_position k) ! snd (interleave_position k) = coded ! k"
      using Suc by simp_all
    then show ?case using apart cell [of "foldl ?put bursts [0..<m]" "coded ! m"]
      by (auto simp: pos less_Suc_eq simp del: prod.collapse)
  qed (simp add: assms)
  show ?thesis
    unfolding gsm_bcch_deinterleave_def gsm_bcch_interleave_def using inv [of 456] assms(1)
    by (intro nth_equalityI) (simp_all add: split_beta)
qed

theorem gsm_interleave_round_trip_witness:
  "gsm_bcch_deinterleave (gsm_bcch_interleave [0..<456] (replicate 4 (replicate 114 0))) = [0..<456]"
  by (rule gsm_interleave_round_trip) (simp_all add: list_all_length)

subsection \<open>The Fire code\<close>

lemma mask_40: "(a :: u64) AND 0xFFFFFFFFFF = take_bit 40 a"
  by (simp add: take_bit_eq_mask mask_eq_exp_minus_1)

lemma low_bit: "(w AND 1 \<noteq> 0) = bit w 0" for w :: "'a::len word"
  using and_test_bit [of w 0] by simp

lemma fire_register: "shift_in_register fire_step 40"
proof (rule masked_shift_registerI)
  fix a :: u64 and x
  show "fire_step a x = (let r = take_bit 40 (push_bit 1 a) XOR of_bool x
      in if bit a (40 - 1) then r XOR FIRE_TAPS else r)"
    by (simp add: fire_step_def mask_40 Let_def low_bit bit_drop_bit_eq)
qed (simp_all add: FIRE_TAPS_def)

interpretation fire: shift_in_register fire_step 40
  by (rule fire_register)

lemma fire_parity_bits:
  "gsm_bcch_fire_parity info = word_bits 40 (NOT (fire_remainder (info @ replicate 40 False)))"
proof -
  have "((drop_bit n r AND 1) XOR 1 \<noteq> 0) = (\<not> bit r n)" for n and r :: u64
    using low_bit [of "drop_bit n r AND 1 XOR 1"] low_bit [of "drop_bit n r"]
    by (auto simp: and_one_eq bit_drop_bit_eq)
  moreover have "bit (NOT r) n = (\<not> bit r n)" if "n < 40" for n and r :: u64
    using that by (simp add: bit_not_iff)
  ultimately show ?thesis
    by (simp add: gsm_bcch_fire_parity_def word_bits_def Let_def)
qed

lemma fire_of_sent:
  "foldl fire_step 0 (info @ gsm_bcch_fire_parity info) = FIRE_SYNDROME"
proof -
  let ?r = "fire_remainder (info @ replicate 40 False)"
  have r: "take_bit 40 ?r = ?r" unfolding fire_remainder_def by (rule fire.run_range) simp
  have "foldl fire_step 0 (info @ gsm_bcch_fire_parity info) =
      ?r XOR word_of_bits (word_bits 40 (NOT ?r))"
    unfolding fire_parity_bits fire_remainder_def by (rule fire.append_check) simp
  also have "\<dots> = ?r XOR take_bit 40 (NOT ?r)" by (simp add: word_of_bits_word_bits)
  also have "\<dots> = mask 40"
    by (rule bit_word_eqI) (use r in \<open>auto simp: bit_simps in_range_iff\<close>)
  finally show ?thesis by (simp add: FIRE_SYNDROME_def mask_eq_exp_minus_1)
qed

lemma length_fire_parity [simp]: "length (gsm_bcch_fire_parity info) = 40"
  by (simp add: fire_parity_bits)

text \<open>The Fire check accepts every codeword the encoder makes and rejects it after any burst of up to
  forty consecutive bit errors, wherever the burst falls.\<close>

theorem gsm_fire_code:
  assumes "length info = 184" "length burst \<le> 40" "True \<in> set burst" "i + length burst + j = 224"
  shows "gsm_bcch_fire_check (info @ gsm_bcch_fire_parity info) \<and>
    \<not> gsm_bcch_fire_check (xor_bits (info @ gsm_bcch_fire_parity info)
        (replicate i False @ burst @ replicate j False))"
proof -
  let ?sent = "info @ gsm_bcch_fire_parity info" and ?err = "replicate i False @ burst @ replicate j False"
  have len: "length ?sent = 224" "length ?sent = length ?err" using assms(1,4) by simp_all
  have "foldl fire_step 0 ?err \<noteq> 0" by (rule fire.burst) (use assms in simp_all)
  then have "foldl fire_step 0 (xor_bits ?sent ?err) \<noteq> foldl fire_step 0 ?sent"
    by (rule fire.error_changes [OF len(2)])
  with fire_of_sent [of info] len show ?thesis
    by (simp add: gsm_bcch_fire_check_def fire_remainder_def)
qed

theorem gsm_fire_code_witness:
  "\<not> gsm_bcch_fire_check (xor_bits (replicate 184 True @ gsm_bcch_fire_parity (replicate 184 True))
        (replicate 100 False @ [True, False, True] @ replicate 121 False))"
  using gsm_fire_code [of "replicate 184 True" "[True, False, True]" 100 121] by simp

subsection \<open>The survivor is a maximum-likelihood path\<close>

text \<open>
  What the decoder relies on of floating point: the integers up to \<open>2 ^ 24\<close> in magnitude are exact
  under addition and negation and ordered as integers, and all lie above \<open>-1e30\<close>.
\<close>

definition float_exact :: "'f float_ops \<Rightarrow> (int \<Rightarrow> 'f) \<Rightarrow> bool" where
  "float_exact F I \<longleftrightarrow>
     fzero F = I 0 \<and> \<not> fgt F (funreachable F) (funreachable F) \<and>
     (\<forall>a b. \<bar>a\<bar> \<le> 2 ^ 24 \<longrightarrow> \<bar>b\<bar> \<le> 2 ^ 24 \<longrightarrow>
        fneg F (I a) = I (- a) \<and> fgt F (I a) (I b) = (b < a) \<and> fgt F (I a) (funreachable F) \<and>
        (\<bar>a + b\<bar> \<le> 2 ^ 24 \<longrightarrow> fadd F (I a) (I b) = I (a + b)))"

definition correlation :: "int list \<Rightarrow> bool list \<Rightarrow> int" where
  "correlation soft us =
     (\<Sum>i < 2 * length us. if conv_encode 0 us ! i then - (soft ! i) else soft ! i)"

definition ended :: "bool list \<Rightarrow> bool" where
  "ended us \<longleftrightarrow> length us = 228 \<and> foldl conv_next 0 us = 0"

lemma conv_next_mod: "conv_next s u = (2 * s + of_bool u) mod 16"
proof -
  have "push_bit 1 s OR of_bool u = 2 * s + of_bool u"
    by (cases u) (simp_all add: mult.commute or_Suc_0_eq)
  moreover have "x AND 15 = x mod 16" for x :: nat
    using take_bit_eq_mask [of 4 x] by (simp add: take_bit_eq_mod mask_eq_exp_minus_1)
  ultimately show ?thesis by (simp add: conv_next_def)
qed

definition branch_value :: "int list \<Rightarrow> nat \<Rightarrow> nat \<Rightarrow> bool \<Rightarrow> int" where
  "branch_value soft k s x =
     (if fst (conv_outputs s x) then - (soft ! (2 * k)) else soft ! (2 * k)) +
     (if snd (conv_outputs s x) then - (soft ! (2 * k + 1)) else soft ! (2 * k + 1))"

definition score_range :: "(int \<Rightarrow> 'f) \<Rightarrow> nat \<Rightarrow> 'f \<Rightarrow> bool" where
  "score_range I k x \<longleftrightarrow> k \<le> 228 \<and> (\<exists>z. x = I z \<and> \<bar>z\<bar> \<le> 2 * 2 ^ 15 * int k)"

definition soft_input :: "'f float_ops \<Rightarrow> (int \<Rightarrow> 'f) \<Rightarrow> int list \<Rightarrow> bool" where
  "soft_input F I soft \<longleftrightarrow>
     float_exact F I \<and> length soft = 456 \<and> list_all (\<lambda>z. \<bar>z\<bar> \<le> 2 ^ 15) soft"

lemma soft_bound: "soft_input F I soft \<Longrightarrow> i < 456 \<Longrightarrow> \<bar>soft ! i\<bar> \<le> 2 ^ 15"
  by (simp add: soft_input_def list_all_length)

lemma exact_neg: "float_exact F I \<Longrightarrow> \<bar>a\<bar> \<le> 2 ^ 24 \<Longrightarrow> fneg F (I a) = I (- a)"
  by (simp add: float_exact_def)

lemma exact_gt: "float_exact F I \<Longrightarrow> \<bar>a\<bar> \<le> 2 ^ 24 \<Longrightarrow> \<bar>b\<bar> \<le> 2 ^ 24 \<Longrightarrow> fgt F (I a) (I b) = (b < a)"
  by (simp add: float_exact_def)

lemma exact_reach: "float_exact F I \<Longrightarrow> \<bar>a\<bar> \<le> 2 ^ 24 \<Longrightarrow> fgt F (I a) (funreachable F)"
  by (simp add: float_exact_def)

lemma exact_add:
  "float_exact F I \<Longrightarrow> \<bar>a\<bar> \<le> 2 ^ 24 \<Longrightarrow> \<bar>b\<bar> \<le> 2 ^ 24 \<Longrightarrow> \<bar>a + b\<bar> \<le> 2 ^ 24 \<Longrightarrow>
   fadd F (I a) (I b) = I (a + b)"
  by (simp add: float_exact_def)

lemma branch_bound:
  assumes "soft_input F I soft" "k < 228"
  shows "\<bar>branch_value soft k s x\<bar> \<le> 2 * 2 ^ 15"
  using soft_bound [OF assms(1), of "2 * k"] soft_bound [OF assms(1), of "2 * k + 1"] assms(2)
  by (auto simp: branch_value_def abs_le_iff)

lemma branch_score_int:
  assumes soft: "soft_input F I soft" and k: "k < 228" and z: "\<bar>z\<bar> \<le> 2 * 2 ^ 15 * int k"
  shows "branch_score F (map I soft) k s x (I z) = I (z + branch_value soft k s x)"
proof -
  have F: "float_exact F I" and len: "length soft = 456" using soft by (simp_all add: soft_input_def)
  define a where "a = (if fst (conv_outputs s x) then - (soft ! (2 * k)) else soft ! (2 * k))"
  define b where "b = (if snd (conv_outputs s x) then - (soft ! (2 * k + 1)) else soft ! (2 * k + 1))"
  have sb: "\<bar>soft ! (2 * k)\<bar> \<le> 2 ^ 15" "\<bar>soft ! (2 * k + 1)\<bar> \<le> 2 ^ 15"
    by (rule soft_bound [OF soft], use k in simp)+
  then have ab: "\<bar>a\<bar> \<le> 2 ^ 15" "\<bar>b\<bar> \<le> 2 ^ 15" by (simp_all add: a_def b_def)
  have "(if fst (conv_outputs s x) then fneg F (I (soft ! (2 * k))) else I (soft ! (2 * k))) = I a"
    "(if snd (conv_outputs s x) then fneg F (I (soft ! (2 * k + 1))) else I (soft ! (2 * k + 1))) = I b"
    using exact_neg [OF F] sb by (simp_all add: a_def b_def)
  then have "branch_score F (map I soft) k s x (I z) = fadd F (fadd F (I z) (I a)) (I b)"
    using k len by (simp only: branch_score_def split_beta Let_def nth_map)
  also have "\<dots> = fadd F (I (z + a)) (I b)"
    using exact_add [OF F, of z a] z ab k by (simp add: abs_le_iff)
  also have "\<dots> = I (z + a + b)"
    using exact_add [OF F, of "z + a" b] z ab k by (simp add: abs_le_iff)
  finally show ?thesis by (simp add: branch_value_def a_def b_def add.assoc)
qed

lemma gsm_trellis:
  assumes soft: "soft_input F I soft"
  shows "trellis (fgt F) (\<lambda>a. \<not> fgt F a (funreachable F)) (funreachable F) 16 0 conv_next (branch_score F (map I soft)) (score_range I)
    (fzero F) 228"
proof -
  have F: "float_exact F I" using soft by (simp add: soft_input_def)
  have range: "\<exists>z. x = I z \<and> \<bar>z\<bar> \<le> 2 ^ 24 \<and> \<bar>z\<bar> \<le> 2 * 2 ^ 15 * int k" if "score_range I k x" for k x
    using that by (auto simp: score_range_def abs_le_iff)
  note gt = exact_gt [OF F]
  have grow: "score_range I (Suc k) (branch_score F (map I soft) k s u x)"
    if k: "k < 228" and x: "score_range I k x" for k s u x
  proof -
    obtain z where z: "x = I z" "\<bar>z\<bar> \<le> 2 * 2 ^ 15 * int k" using x by (auto simp: score_range_def)
    have "\<bar>z + branch_value soft k s u\<bar> \<le> 2 * 2 ^ 15 * int (Suc k)"
      using z(2) branch_bound [OF soft k, of s u] by (simp add: abs_le_iff)
    then show ?thesis using branch_score_int [OF soft k z(2)] k z(1)
      by (auto simp: score_range_def)
  qed
  show ?thesis
  proof
    fix k :: nat and x y z :: 'a and s u
    show "\<not> fgt F x x" if "score_range I k x" using range [OF that] gt by auto
    show "fgt F x z \<or> fgt F z y"
      if "score_range I k x" "score_range I k y" "score_range I k z" "fgt F x y"
      using range [OF that(1)] range [OF that(2)] range [OF that(3)] that(4) gt by auto
    show "\<not> fgt F y x" if "score_range I k x" "score_range I k y" "fgt F x y"
      using range [OF that(1)] range [OF that(2)] that(3) gt by auto
    show "\<not> fgt F (funreachable F) (funreachable F)" using F by (simp add: float_exact_def)
    show "\<not> \<not> fgt F x (funreachable F)" if "score_range I k x" using range [OF that] exact_reach [OF F] by auto
    show "\<not> fgt F (branch_score F (map I soft) k s u x) (branch_score F (map I soft) k s u y)"
      if k: "k < 228" and x: "score_range I k x" and y: "score_range I k y" and xy: "\<not> fgt F x y"
    proof -
      obtain a where a: "x = I a" "\<bar>a\<bar> \<le> 2 ^ 24" "\<bar>a\<bar> \<le> 2 * 2 ^ 15 * int k" using range [OF x] by blast
      obtain b where b: "y = I b" "\<bar>b\<bar> \<le> 2 ^ 24" "\<bar>b\<bar> \<le> 2 * 2 ^ 15 * int k" using range [OF y] by blast
      have "\<bar>a + branch_value soft k s u\<bar> \<le> 2 ^ 24" "\<bar>b + branch_value soft k s u\<bar> \<le> 2 ^ 24"
        using a(3) b(3) branch_bound [OF soft k, of s u] k by (simp_all add: abs_le_iff)
      moreover have "a \<le> b" using xy a b gt by simp
      ultimately show ?thesis
        using branch_score_int [OF soft k a(3)] branch_score_int [OF soft k b(3)] gt a(1) b(1) by simp
    qed
    show "fgt F x (funreachable F)" if "score_range I k x" using range [OF that] exact_reach [OF F] by auto
    show "score_range I 0 (fzero F)" using F by (simp add: score_range_def float_exact_def)
    show "score_range I (Suc k) (branch_score F (map I soft) k s u x)" if "k < 228" "score_range I k x"
      by (rule grow [OF that])
    show "conv_next s u < 16" by (simp add: conv_next_mod)
  qed simp_all
qed

lemma sum_two: "(\<Sum>i < 2 * Suc n. f i) = f 0 + f 1 + (\<Sum>i < 2 * n. f (i + 2))" for f :: "nat \<Rightarrow> int"
proof -
  have "2 * Suc n = Suc (Suc (2 * n))" by simp
  then show ?thesis by (simp only: sum.lessThan_Suc_shift) simp
qed

lemma path_score_int:
  assumes soft: "soft_input F I soft"
  shows "k + length us \<le> 228 \<Longrightarrow> \<bar>z\<bar> \<le> 2 * 2 ^ 15 * int k \<Longrightarrow>
    path_score conv_next (branch_score F (map I soft)) (I z) k s us =
      I (z + (\<Sum>i < 2 * length us. if conv_encode s us ! i then - (soft ! (2 * k + i)) else soft ! (2 * k + i))) \<and>
    \<bar>z + (\<Sum>i < 2 * length us. if conv_encode s us ! i then - (soft ! (2 * k + i)) else soft ! (2 * k + i))\<bar>
      \<le> 2 * 2 ^ 15 * int (k + length us)"
proof (induction us arbitrary: k s z)
  case (Cons u us)
  have k: "k < 228" using Cons.prems(1) by simp
  let ?z = "z + branch_value soft k s u"
  have z: "\<bar>?z\<bar> \<le> 2 * 2 ^ 15 * int (Suc k)"
    using Cons.prems(2) branch_bound [OF soft k, of s u] by (simp add: abs_le_iff)
  let ?t = "\<lambda>i. if conv_encode s (u # us) ! i then - (soft ! (2 * k + i)) else soft ! (2 * k + i)"
  have split: "(\<Sum>i < 2 * length (u # us). ?t i) = branch_value soft k s u +
      (\<Sum>i < 2 * length us. if conv_encode (conv_next s u) us ! i then - (soft ! (2 * Suc k + i)) else soft ! (2 * Suc k + i))"
  proof -
    have "(\<Sum>i < 2 * length (u # us). ?t i) = ?t 0 + ?t 1 + (\<Sum>i < 2 * length us. ?t (i + 2))"
      unfolding length_Cons by (rule sum_two)
    moreover have "?t 0 + ?t 1 = branch_value soft k s u" by (simp add: branch_value_def split_beta)
    moreover have "?t (i + 2) = (if conv_encode (conv_next s u) us ! i
        then - (soft ! (2 * Suc k + i)) else soft ! (2 * Suc k + i))" for i
      by (simp add: split_beta add.left_commute)
    ultimately show ?thesis by simp
  qed
  show ?case
    using Cons.IH [of "Suc k" ?z "conv_next s u"] Cons.prems z branch_score_int [OF soft k Cons.prems(2), of s u]
    unfolding path_score.simps split by (simp add: algebra_simps)
qed simp

lemma score_correlation:
  assumes "soft_input F I soft" "length us \<le> 228"
  shows "path_score conv_next (branch_score F (map I soft)) (fzero F) 0 0 us = I (correlation soft us) \<and>
    \<bar>correlation soft us\<bar> \<le> 2 ^ 24"
proof -
  have "fzero F = I 0" using assms(1) by (simp add: soft_input_def float_exact_def)
  then show ?thesis
    using path_score_int [OF assms(1), of 0 us 0 0] assms(2)
    by (simp add: correlation_def abs_le_iff cong: if_cong)
qed

lemma soft_viterbi_best:
  assumes soft: "soft_input F I soft" and old: "\<And>k. length (old k) = 16" and us: "ended us"
  shows "ended (soft_viterbi F old (map I soft)) \<and>
    correlation soft us \<le> correlation soft (soft_viterbi F old (map I soft))"
proof -
  let ?start = "(replicate 16 (funreachable F))[0 := fzero F]"
  define tr where "tr = trace_back (rev (snd (viterbi_forward (fgt F) (\<lambda>a. \<not> fgt F a (funreachable F)) (funreachable F) 16 conv_next
    (branch_score F (map I soft)) old ?start 228))) 0"
  have state: "path_state conv_next 0 us = 0" and len: "length us = 228"
    using us by (simp_all add: ended_def path_state_def)
  note best = trellis.survivor_best [OF gsm_trellis [OF soft], of old ?start us 228, OF _ refl len order_refl, simplified old,
      unfolded state, folded tr_def]
  have "(\<lambda>(s, _). bit s 0) p = snd p" if "p \<in> set tr" for p
  proof -
    obtain n u where p: "p = (n, u)" by fastforce
    then obtain s where "n = conv_next s u" using best(4) \<open>p \<in> set tr\<close> by (auto simp: list_all_iff)
    then have "n = (2 * s + of_bool u) mod 16" by (simp add: conv_next_mod)
    then have "odd n = u" by (cases u) (simp_all add: dvd_mod_iff)
    then show ?thesis by (simp add: p bit_0)
  qed
  then have out: "soft_viterbi F old (map I soft) = map snd tr"
    unfolding soft_viterbi_def tr_def by (simp add: split_beta Let_def)
  have lo: "length (map snd tr) = 228" using best(1) by simp
  have "\<not> correlation soft (map snd tr) < correlation soft us"
    using best(3) score_correlation [OF soft, of us] score_correlation [OF soft, of "map snd tr"] len lo
      exact_gt [of F I "correlation soft us" "correlation soft (map snd tr)"] soft
    by (simp add: soft_input_def)
  then show ?thesis using best(2) lo by (simp add: out ended_def path_state_def)
qed

text \<open>C3: On integer soft values of at most \<open>2 ^ 15\<close> in size, which the decoder's \<open>float\<close> adds exactly, the Viterbi
  decoder is a maximum-likelihood decoder: among all input sequences that end the trellis in state zero, none correlates
  better with the received values than the one it returns, whatever the static table of survivors held before.\<close>

theorem gsm_soft_viterbi_maximum_likelihood:
  assumes "soft_input F I soft" "\<And>k. length (old k) = 16" "ended us"
  shows "ended (soft_viterbi F old (map I soft)) \<and>
    correlation soft us \<le> correlation soft (soft_viterbi F old (map I soft))"
  by (rule soft_viterbi_best [OF assms])

definition int_floats :: "int float_ops" where
  "int_floats = \<lparr>fadd = (+), fneg = uminus, fgt = (\<lambda>a b. b < a), fzero = 0, funreachable = - (10 ^ 30)\<rparr>"

lemma int_floats_exact: "float_exact int_floats (\<lambda>z. z)"
  by (auto simp: float_exact_def int_floats_def abs_le_iff)

lemma ended_zeros: "ended (replicate 228 False)"
proof -
  have "foldl conv_next 0 (replicate n False) = 0" for n by (induction n) (simp_all add: conv_next_mod)
  then show ?thesis by (simp add: ended_def)
qed

theorem gsm_soft_viterbi_maximum_likelihood_witness:
  "correlation (replicate 456 (- 3)) (replicate 228 False) \<le>
   correlation (replicate 456 (- 3)) (soft_viterbi int_floats (\<lambda>_. replicate 16 (0, False)) (replicate 456 (- 3)))"
  using gsm_soft_viterbi_maximum_likelihood [of int_floats "\<lambda>z. z" "replicate 456 (- 3)"
      "\<lambda>_. replicate 16 (0, False)", OF _ _ ended_zeros]
  by (simp add: soft_input_def int_floats_exact list_all_length)

subsection \<open>A clean block is decoded\<close>

lemma conv_encode_length [simp]: "length (conv_encode s us) = 2 * length us"
  by (induction us arbitrary: s) (simp_all add: split_beta)

lemma conv_encode_inj:
  "length vs = length us \<Longrightarrow> conv_encode s us = conv_encode s vs \<Longrightarrow> us = vs"
proof (induction us arbitrary: s vs)
  case (Cons u us)
  then obtain v ws where vs: "vs = v # ws" "length ws = length us" by (cases vs) auto
  have "u = v" using Cons.prems(2) by (auto simp: vs conv_outputs_def)
  then show ?case using Cons.IH [OF vs(2)] Cons.prems(2) by (simp add: vs split_beta)
qed simp

definition sent_soft :: "bool list \<Rightarrow> int list" where
  "sent_soft info = map (\<lambda>b. if b then - 1 else 1) (gsm_bcch_encode info)"

lemma correlation_sent:
  assumes "length us = 228" "length info = 184"
  shows "correlation (sent_soft info) us =
    (\<Sum>i < 456. if conv_encode 0 us ! i = conv_encode 0 (uncoded info) ! i then 1 else - 1)"
proof -
  have len: "length (uncoded info) = 228" using assms(2) by (simp add: uncoded_def)
  show ?thesis unfolding correlation_def assms(1)
    by (rule sum.cong) (auto simp: sent_soft_def gsm_bcch_encode_def len)
qed

lemma sum_ones:
  assumes "(\<Sum>i < n. if P i then 1 else - 1) \<ge> int n"
  shows "\<forall>i < n. P i"
  using assms
proof (induction n)
  case (Suc n)
  have bound: "(\<Sum>i < m. if P i then 1 else - 1) \<le> int m" for m
    by (induction m) auto
  have "P n" using Suc.prems bound [of n] by (auto split: if_splits)
  then show ?case using Suc by (auto simp: less_Suc_eq)
qed simp

lemma uncoded_ended: "length info = 184 \<Longrightarrow> ended (uncoded info)"
proof -
  have four: "replicate 4 False = [False, False, False, False]" by (simp add: numeral_eq_Suc)
  have "foldl conv_next s (replicate 4 False) = 0" for s
    unfolding four foldl_Cons foldl_Nil conv_next_mod of_bool_eq add_0_right
    by (simp only: mod_mult_right_eq mult.assoc [symmetric]) simp
  then show "length info = 184 \<Longrightarrow> ended (uncoded info)" by (simp add: ended_def uncoded_def)
qed

text \<open>The octets, each from eight bits, least significant first.\<close>

definition packed :: "bool list \<Rightarrow> u8 list" where
  "packed info = map (\<lambda>j. word_of_bits (rev (take 8 (drop (8 * j) info)))) [0..<23]"

lemma octets_of_packed:
  assumes "184 \<le> length u"
  shows "octets_of u = packed u"
proof -
  let ?put = "\<lambda>out i. if u ! i then out[i div 8 := out ! (i div 8) OR push_bit (i mod 8) 1] else out"
  define G where "G m = foldl ?put (replicate 23 (0 :: u8)) [0..<m]" for m
  have G_Suc: "G (Suc m) = ?put (G m) m" for m by (simp add: G_def)
  have inv: "length (G m) = 23 \<and> (\<forall>j < 23. \<forall>n < 8. bit (G m ! j) n = (8 * j + n < m \<and> u ! (8 * j + n)))"
    if "m \<le> 184" for m
    using that
  proof (induction m)
    case 0
    show ?case by (simp add: G_def)
  next
    case (Suc m)
    then have len: "length (G m) = 23"
      and ih: "\<And>j n. j < 23 \<Longrightarrow> n < 8 \<Longrightarrow> bit (G m ! j) n = (8 * j + n < m \<and> u ! (8 * j + n))"
      by simp_all
    have m: "m div 8 < 23" "m mod 8 < 8" "8 * (m div 8) + m mod 8 = m" using Suc.prems by simp_all
    have "bit (G (Suc m) ! j) n = (8 * j + n < Suc m \<and> u ! (8 * j + n))" if j: "j < 23" "n < 8" for j n
    proof (cases "u ! m \<and> j = m div 8")
      case True
      have "bit (G (Suc m) ! j) n = (bit (G m ! j) n \<or> n = m mod 8)"
        using True m(1) j len by (auto simp: G_Suc bit_or_iff bit_exp_iff)
      moreover have "8 * j + n = m \<longleftrightarrow> n = m mod 8" using True m(3) by linarith
      ultimately show ?thesis using ih [OF j] True by (auto simp: less_Suc_eq)
    next
      case False
      have "bit (G (Suc m) ! j) n = bit (G m ! j) n" using False len by (auto simp: G_Suc nth_list_update)
      moreover have "8 * j + n = m \<Longrightarrow> j = m div 8" using j(2) by auto
      ultimately show ?thesis using ih [OF j] False by (auto simp: less_Suc_eq)
    qed
    moreover have "length (G (Suc m)) = 23" using len by (simp add: G_Suc)
    ultimately show ?case by blast
  qed
  have out: "octets_of u = G 184" by (simp add: octets_of_def G_def)
  show ?thesis
  proof (rule nth_equalityI)
    show "length (octets_of u) = length (packed u)" using inv [of 184] by (simp add: out packed_def)
    fix j assume "j < length (octets_of u)"
    then have j: "j < 23" using inv [of 184] by (simp add: out)
    show "octets_of u ! j = packed u ! j"
    proof (rule bit_word_eqI)
      fix n assume n: "n < LENGTH(8)"
      then have at: "8 * j + n < 184" "n < 8" using j by simp_all
      then have "bit (octets_of u ! j) n = u ! (8 * j + n)" using inv [of 184] j by (simp add: out)
      moreover have "bit (packed u ! j) n = u ! (8 * j + n)"
      proof -
        let ?b = "take 8 (drop (8 * j) u)"
        have len: "length ?b = 8" using assms j by simp
        then have "bit (word_of_bits (rev ?b) :: u8) n = rev ?b ! (7 - n)"
          using at(2) by (simp add: bit_word_of_bits)
        also have "\<dots> = ?b ! n" using len at(2) by (simp add: rev_nth)
        also have "\<dots> = u ! (8 * j + n)" using at assms by simp
        finally show ?thesis using j by (simp add: packed_def)
      qed
      ultimately show "bit (octets_of u ! j) n = bit (packed u ! j) n" by simp
    qed
  qed
qed

text \<open>C16: A block received without noise is decoded exactly: the parity holds and the octets are the
  information bits, eight to an octet with the first bit lowest.\<close>

theorem gsm_bcch_block_round_trip:
  assumes "float_exact F I" "\<And>k. length (old k) = 16" "length info = 184"
  shows "gsm_bcch_decode_block F old (map I (sent_soft info)) = \<lparr>octets = packed info, parity_ok = True\<rparr>"
proof -
  let ?out = "soft_viterbi F old (map I (sent_soft info))"
  have len: "length (sent_soft info) = 456" using assms(3) by (simp add: sent_soft_def gsm_bcch_encode_def uncoded_def)
  then have soft: "soft_input F I (sent_soft info)"
    using assms(1) by (auto simp: soft_input_def list_all_iff sent_soft_def)
  note sent = uncoded_ended [OF assms(3)]
  have out: "ended ?out" "correlation (sent_soft info) (uncoded info) \<le> correlation (sent_soft info) ?out"
    using soft_viterbi_best [OF soft assms(2) sent] by simp_all
  have "correlation (sent_soft info) (uncoded info) = 456"
    using correlation_sent [of "uncoded info" info] assms(3) sent by (simp add: ended_def)
  then have "\<forall>i < 456. conv_encode 0 ?out ! i = conv_encode 0 (uncoded info) ! i"
    using out correlation_sent [of ?out info] assms(3)
    by (intro sum_ones) (simp add: ended_def)
  then have "conv_encode 0 ?out = conv_encode 0 (uncoded info)"
    using out(1) sent by (intro nth_equalityI) (simp_all add: ended_def)
  then have eq: "?out = uncoded info" using conv_encode_inj out(1) sent by (metis ended_def)
  have "fire_remainder (take 224 (uncoded info)) = FIRE_SYNDROME"
    using fire_of_sent [of info] assms(3) by (simp add: uncoded_def fire_remainder_def)
  moreover have "packed (uncoded info) = packed info"
    using assms(3) by (auto simp: packed_def uncoded_def)
  moreover have "184 \<le> length (uncoded info)" using assms(3) by (simp add: uncoded_def)
  ultimately show ?thesis
    by (simp add: gsm_bcch_decode_block_def eq Let_def gsm_bcch_fire_check_def octets_of_packed)
qed

theorem gsm_bcch_block_round_trip_witness:
  "gsm_bcch_decode_block int_floats (\<lambda>_. replicate 16 (0, False)) (sent_soft (replicate 184 True)) =
     \<lparr>octets = packed (replicate 184 True), parity_ok = True\<rparr>"
  using gsm_bcch_block_round_trip [OF int_floats_exact, of "\<lambda>_. replicate 16 (0, False)" "replicate 184 True"]
  by simp

subsection \<open>What the messages say\<close>

text \<open>Whether the bitmap of a frequency list names a channel: 128 bits, the last one channel 1.\<close>

definition bitmap_has :: "u8 list \<Rightarrow> nat \<Rightarrow> bool" where
  "bitmap_has p arfcn \<longleftrightarrow> bit (p ! ((128 - arfcn) div 8)) (7 - (128 - arfcn) mod 8)"

lemma collect_neighbours:
  "foldl (\<lambda>out arfcn. if \<not> P arfcn then out
                else if length (neighbours out) < GSM_SI_MAX_NEIGHBOURS
                then out\<lparr>neighbours := neighbours out @ [arfcn]\<rparr> else out) out xs =
   out\<lparr>neighbours := neighbours out @ take (32 - length (neighbours out)) (filter P xs)\<rparr>"
proof (induction xs arbitrary: out)
  case (Cons x xs)
  show ?case
  proof (cases "P x \<and> length (neighbours out) < 32")
    case True
    then have "32 - length (neighbours out) = Suc (32 - Suc (length (neighbours out)))" by arith
    with Cons True show ?thesis by (simp add: GSM_SI_MAX_NEIGHBOURS_def)
  qed (use Cons in \<open>auto simp: GSM_SI_MAX_NEIGHBOURS_def\<close>)
qed simp

text \<open>A System Information 1 or 2 message in the bitmap format lists exactly the channels whose bit is
  set, in ascending order and cut at the table's 32 entries; in any other format it lists none.\<close>

theorem gsm_si_neighbours:
  assumes "block ! 1 AND 0x0F = 0x06" "block ! 2 = (if second then 0x1A else 0x19)" "19 \<le> length block"
  shows "gsm_si_parse block = Some (gsm_si_empty
    \<lparr>si_type := (if second then SI_TYPE_2 else SI_TYPE_1),
     neighbours := (if block ! 3 AND 0xC0 \<noteq> 0 then []
       else take 32 (filter (bitmap_has (drop 3 block)) [1..<125]))\<rparr>)"
proof -
  have step: "(\<lambda>out arfcn. let offset = 4 + (124 - arfcn); octet = offset div 8; shift = 7 - offset mod 8
             in if drop_bit shift (drop 3 block ! octet) AND 1 = 0 then out
                else if length (neighbours out) < GSM_SI_MAX_NEIGHBOURS
                then out\<lparr>neighbours := neighbours out @ [arfcn]\<rparr> else out) out a =
      (if \<not> bitmap_has (drop 3 block) a then out
                else if length (neighbours out) < GSM_SI_MAX_NEIGHBOURS
                then out\<lparr>neighbours := neighbours out @ [a]\<rparr> else out)" if "a \<in> set [1..<125]" for out :: gsm_si and a
  proof -
    have "4 + (124 - a) = 128 - a" using that by auto
    then show ?thesis
      using low_bit [of "drop_bit (7 - (128 - a) mod 8) (drop 3 block ! ((128 - a) div 8))"]
      by (simp add: bitmap_has_def Let_def bit_drop_bit_eq)
  qed
  have "parse_frequency_bitmap (drop 3 block) out = (if block ! 3 AND 0xC0 \<noteq> 0 then out
      else out\<lparr>neighbours := neighbours out @ take (32 - length (neighbours out))
        (filter (bitmap_has (drop 3 block)) [1..<125])\<rparr>)" for out :: gsm_si
  proof -
    have first: "drop 3 block ! 0 = block ! 3" using assms(3) by simp
    show ?thesis
      unfolding parse_frequency_bitmap_def collect_neighbours [symmetric] first
      by (rule if_cong [OF refl refl], rule foldl_cong [OF refl refl], rule step)
  qed
  then show ?thesis
    using assms by (auto simp: gsm_si_parse_def si_type_of_def gsm_si_empty_def Let_def)
qed

definition one_neighbour :: "u8 list" where
  "one_neighbour = [0x55, 0x06, 0x1A, 0x00] @ replicate 14 0 @ [0x01, 0x2B, 0x2B, 0x2B, 0x2B]"

theorem gsm_si_neighbours_witness:
  "gsm_si_parse one_neighbour = Some (gsm_si_empty
    \<lparr>si_type := SI_TYPE_2, neighbours := take 32 (filter (bitmap_has (drop 3 one_neighbour)) [1..<125])\<rparr>)"
  using gsm_si_neighbours [of one_neighbour True] by (simp add: one_neighbour_def)

definition bcd_octet :: "nat \<Rightarrow> nat \<Rightarrow> u8" where
  "bcd_octet low high = of_nat (16 * high + low)"

lemma unat_of_nat_u8: "x < 256 \<Longrightarrow> unat (of_nat x :: u8) = x"
  by (simp add: unsigned_of_nat take_bit_nat_eq_self)

lemma nibbles:
  assumes "a < 16" "b < 16"
  shows "low_nibble (bcd_octet a b) = a" "high_nibble (bcd_octet a b) = b"
proof -
  have small: "16 * b + a < 256" using assms by simp
  have low: "w AND 0x0F = take_bit 4 w" for w :: u8
    by (simp add: take_bit_eq_mask mask_eq_exp_minus_1)
  note u = unat_of_nat_u8 [OF small]
  show "low_nibble (bcd_octet a b) = a"
    unfolding low_nibble_def bcd_octet_def low unsigned_take_bit_eq u using assms by (simp add: take_bit_eq_mod)
  show "high_nibble (bcd_octet a b) = b"
    unfolding high_nibble_def bcd_octet_def low unsigned_take_bit_eq unsigned_drop_bit_eq u
    using assms by (simp add: take_bit_eq_mod drop_bit_eq_div)
qed

text \<open>A Location Area Identification as 24.008 packs it; \<open>third\<close> is the MNC's third digit or 15.\<close>

definition lai_octets :: "nat \<Rightarrow> nat \<Rightarrow> nat \<Rightarrow> nat \<Rightarrow> u8 list" where
  "lai_octets country mnc2 third area =
     [bcd_octet (country div 100) (country div 10 mod 10), bcd_octet (country mod 10) third,
      bcd_octet (mnc2 div 10) (mnc2 mod 10), of_nat (area div 256), of_nat (area mod 256)]"

lemma parse_lai_octets:
  assumes "country < 1000" "mnc2 < 100" "third \<le> 9 \<or> third = 15" "area < 65536"
  shows "parse_lai (lai_octets country mnc2 third area @ rest) out = out
    \<lparr>mcc := country, mnc := (if third = 15 then mnc2 else 10 * mnc2 + third),
     mnc_digits := (if third = 15 then 2 else 3), lac := area, have_lai := True\<rparr>"
proof -
  have d: "country div 100 \<le> 9" "country div 10 mod 10 \<le> 9" "country mod 10 \<le> 9" "mnc2 div 10 \<le> 9" "mnc2 mod 10 \<le> 9"
    using assms(1,2) by (simp_all add: less_Suc_eq_le [symmetric] div_less_iff_less_mult)
  have n: "low_nibble (bcd_octet (country div 100) (country div 10 mod 10)) = country div 100"
    "high_nibble (bcd_octet (country div 100) (country div 10 mod 10)) = country div 10 mod 10"
    "low_nibble (bcd_octet (country mod 10) third) = country mod 10"
    "high_nibble (bcd_octet (country mod 10) third) = third"
    "low_nibble (bcd_octet (mnc2 div 10) (mnc2 mod 10)) = mnc2 div 10"
    "high_nibble (bcd_octet (mnc2 div 10) (mnc2 mod 10)) = mnc2 mod 10"
    using d assms(3) by (auto intro!: nibbles)
  have l: "unat (of_nat (area div 256) :: u8) * 256 + unat (of_nat (area mod 256) :: u8) = area"
    using assms(4) unat_of_nat_u8 [of "area div 256"] unat_of_nat_u8 [of "area mod 256"]
    by (simp add: div_less_iff_less_mult)
  have m: "country div 100 * 100 + country div 10 mod 10 * 10 + country mod 10 = country"
    "mnc2 div 10 * 10 + mnc2 mod 10 = mnc2" "mnc2 div 10 * 100 + mnc2 mod 10 * 10 = 10 * mnc2"
  proof -
    have "country div 100 = country div 10 div 10" by (simp add: div_mult2_eq [symmetric])
    then show "country div 100 * 100 + country div 10 mod 10 * 10 + country mod 10 = country"
      using div_mult_mod_eq [of "country div 10" 10] div_mult_mod_eq [of country 10] by linarith
    show "mnc2 div 10 * 10 + mnc2 mod 10 = mnc2" by (rule div_mult_mod_eq)
    then show "mnc2 div 10 * 100 + mnc2 mod 10 * 10 = 10 * mnc2" by linarith
  qed
  define p where "p = lai_octets country mnc2 third area @ rest"
  have p: "p ! 0 = bcd_octet (country div 100) (country div 10 mod 10)" "p ! 1 = bcd_octet (country mod 10) third"
    "p ! 2 = bcd_octet (mnc2 div 10) (mnc2 mod 10)" "p ! 3 = of_nat (area div 256)" "p ! 4 = of_nat (area mod 256)"
    by (simp_all add: p_def lai_octets_def)
  have valid: "\<not> (country div 100 > 9 \<or> country div 10 mod 10 > 9 \<or> country mod 10 > 9 \<or>
      mnc2 div 10 > 9 \<or> mnc2 mod 10 > 9)" using d by linarith
  show ?thesis
    unfolding p_def [symmetric] parse_lai_def Let_def p n l m if_not_P [OF valid]
    using assms(3) by auto
qed

text \<open>A System Information 3 message says which cell it is and where: for every cell identity, country
  code, two- or three-digit network code and location area the parser returns exactly those numbers,
  and how many digits the network code has.\<close>

theorem gsm_si3_identity:
  assumes "country < 1000" "mnc2 < 100" "third \<le> 9 \<or> third = 15" "area < 65536" "cell < 65536"
  shows "gsm_si_parse ([li, 0x06, 0x1B, of_nat (cell div 256), of_nat (cell mod 256)]
      @ lai_octets country mnc2 third area @ rest) =
    Some (gsm_si_empty\<lparr>si_type := SI_TYPE_3, have_lai := True, mcc := country,
      mnc := (if third = 15 then mnc2 else 10 * mnc2 + third), mnc_digits := (if third = 15 then 2 else 3),
      lac := area, have_cell_id := True, cell_id := cell\<rparr>)"
proof -
  have "unat (of_nat (cell div 256) :: u8) * 256 + unat (of_nat (cell mod 256) :: u8) = cell"
    using assms(5) unat_of_nat_u8 [of "cell div 256"] unat_of_nat_u8 [of "cell mod 256"]
    by (simp add: div_less_iff_less_mult)
  then show ?thesis
    using parse_lai_octets [OF assms(1-4)]
    by (simp add: gsm_si_parse_def si_type_of_def Let_def gsm_si_empty_def)
qed

theorem gsm_si3_identity_witness:
  "gsm_si_parse ([0x49, 0x06, 0x1B, of_nat (4660 div 256), of_nat (4660 mod 256)]
      @ lai_octets 268 1 15 300 @ [0, 0]) =
    Some (gsm_si_empty\<lparr>si_type := SI_TYPE_3, have_lai := True, mcc := 268, mnc := 1, mnc_digits := 2,
      lac := 300, have_cell_id := True, cell_id := 4660\<rparr>)"
  using gsm_si3_identity [of 268 1 15 300 4660 "0x49" "[0, 0]"] by simp

end
