(* ===== verification/Lte_Turbo.thy ===== *)
theory Lte_Turbo
  imports Prelude
begin

text \<open>
  The LTE turbo code of \<open>src/src/tech/lte_turbo.c\<close>: the table of the 188 block sizes with the
  parameters of the quadratic interleaver, the two recursive encoders with their termination and the
  spread of the tail over the three streams, and the max-log-MAP decoder that passes extrinsic values
  between them. A byte that holds one bit is a \<open>bool\<close>; the decoder's floating-point arithmetic is an
  argument of its definitions. The interleaver is a permutation for every size of the table, the tail
  comes apart into the two encoders' own outputs, and a decoder given soft bits of the right sign,
  erasures among the parities included, returns the block that was encoded.
\<close>

unbundle bit_operations_syntax

subsection \<open>Block sizes and the interleaver\<close>

definition qpp :: "(int \<times> int \<times> int) list" where
  "qpp = [
    (40, 3, 10), (48, 7, 12), (56, 19, 42), (64, 7, 16), (72, 7, 18),
    (80, 11, 20), (88, 5, 22), (96, 11, 24), (104, 7, 26), (112, 41, 84),
    (120, 103, 90), (128, 15, 32), (136, 9, 34), (144, 17, 108), (152, 9, 38),
    (160, 21, 120), (168, 101, 84), (176, 21, 44), (184, 57, 46), (192, 23, 48),
    (200, 13, 50), (208, 27, 52), (216, 11, 36), (224, 27, 56), (232, 85, 58),
    (240, 29, 60), (248, 33, 62), (256, 15, 32), (264, 17, 198), (272, 33, 68),
    (280, 103, 210), (288, 19, 36), (296, 19, 74), (304, 37, 76), (312, 19, 78),
    (320, 21, 120), (328, 21, 82), (336, 115, 84), (344, 193, 86), (352, 21, 44),
    (360, 133, 90), (368, 81, 46), (376, 45, 94), (384, 23, 48), (392, 243, 98),
    (400, 151, 40), (408, 155, 102), (416, 25, 52), (424, 51, 106), (432, 47, 72),
    (440, 91, 110), (448, 29, 168), (456, 29, 114), (464, 247, 58), (472, 29, 118),
    (480, 89, 180), (488, 91, 122), (496, 157, 62), (504, 55, 84), (512, 31, 64),
    (528, 17, 66), (544, 35, 68), (560, 227, 420), (576, 65, 96), (592, 19, 74),
    (608, 37, 76), (624, 41, 234), (640, 39, 80), (656, 185, 82), (672, 43, 252),
    (688, 21, 86), (704, 155, 44), (720, 79, 120), (736, 139, 92), (752, 23, 94),
    (768, 217, 48), (784, 25, 98), (800, 17, 80), (816, 127, 102), (832, 25, 52),
    (848, 239, 106), (864, 17, 48), (880, 137, 110), (896, 215, 112), (912, 29, 114),
    (928, 15, 58), (944, 147, 118), (960, 29, 60), (976, 59, 122), (992, 65, 124),
    (1008, 55, 84), (1024, 31, 64), (1056, 17, 66), (1088, 171, 204), (1120, 67, 140),
    (1152, 35, 72), (1184, 19, 74), (1216, 39, 76), (1248, 19, 78), (1280, 199, 240),
    (1312, 21, 82), (1344, 211, 252), (1376, 21, 86), (1408, 43, 88), (1440, 149, 60),
    (1472, 45, 92), (1504, 49, 846), (1536, 71, 48), (1568, 13, 28), (1600, 17, 80),
    (1632, 25, 102), (1664, 183, 104), (1696, 55, 954), (1728, 127, 96), (1760, 27, 110),
    (1792, 29, 112), (1824, 29, 114), (1856, 57, 116), (1888, 45, 354), (1920, 31, 120),
    (1952, 59, 610), (1984, 185, 124), (2016, 113, 420), (2048, 31, 64), (2112, 17, 66),
    (2176, 171, 136), (2240, 209, 420), (2304, 253, 216), (2368, 367, 444), (2432, 265, 456),
    (2496, 181, 468), (2560, 39, 80), (2624, 27, 164), (2688, 127, 504), (2752, 143, 172),
    (2816, 43, 88), (2880, 29, 300), (2944, 45, 92), (3008, 157, 188), (3072, 47, 96),
    (3136, 13, 28), (3200, 111, 240), (3264, 443, 204), (3328, 51, 104), (3392, 51, 212),
    (3456, 451, 192), (3520, 257, 220), (3584, 57, 336), (3648, 313, 228), (3712, 271, 232),
    (3776, 179, 236), (3840, 331, 120), (3904, 363, 244), (3968, 375, 248), (4032, 127, 168),
    (4096, 31, 64), (4160, 33, 130), (4224, 43, 264), (4288, 33, 134), (4352, 477, 408),
    (4416, 35, 138), (4480, 233, 280), (4544, 357, 142), (4608, 337, 480), (4672, 37, 146),
    (4736, 71, 444), (4800, 71, 120), (4864, 37, 152), (4928, 39, 462), (4992, 127, 234),
    (5056, 39, 158), (5120, 39, 80), (5184, 31, 96), (5248, 113, 902), (5312, 41, 166),
    (5376, 251, 336), (5440, 43, 170), (5504, 21, 86), (5568, 43, 174), (5632, 45, 176),
    (5696, 45, 178), (5760, 161, 120), (5824, 89, 182), (5888, 323, 184), (5952, 47, 186),
    (6016, 23, 94), (6080, 47, 190), (6144, 263, 480)
  ]"

definition LTE_TURBO_SIZES :: nat where
  "LTE_TURBO_SIZES = 188"

definition lte_turbo_block_size :: "int \<Rightarrow> int" where
  "lte_turbo_block_size index =
     (if index < 0 \<or> int LTE_TURBO_SIZES \<le> index then 0 else fst (qpp ! nat index))"

fun size_scan :: "(int \<times> int \<times> int) list \<Rightarrow> nat \<Rightarrow> int \<Rightarrow> nat option" where
  "size_scan [] i k = None"
| "size_scan ((size_k, params) # rows) i k =
     (if size_k = k then Some i else if k < size_k then None else size_scan rows (Suc i) k)"

text \<open>\<open>None\<close> is the code's \<open>-1\<close>.\<close>

definition lte_turbo_size_index :: "int \<Rightarrow> nat option" where
  "lte_turbo_size_index k = size_scan qpp 0 k"

definition lte_turbo_fit :: "int \<Rightarrow> int" where
  "lte_turbo_fit want =
     (case find (\<lambda>row. want \<le> fst row) qpp of Some row \<Rightarrow> fst row | None \<Rightarrow> 0)"

definition lte_turbo_params :: "int \<Rightarrow> (int \<times> int) option" where
  "lte_turbo_params k = map_option (\<lambda>i. snd (qpp ! i)) (lte_turbo_size_index k)"

text \<open>The products stay below \<open>2 ^ 63\<close> (\<open>qpp_products_fit\<close>), so the 64-bit arithmetic of the code
  is arithmetic on integers.\<close>

definition lte_turbo_pi :: "int \<Rightarrow> int \<Rightarrow> int" where
  "lte_turbo_pi k i =
     (if i < 0 \<or> k \<le> i then - 1
      else case lte_turbo_params k of None \<Rightarrow> - 1
      | Some (f1, f2) \<Rightarrow>
          let t = (f2 * i) mod k; t = (t * i) mod k in (t + f1 * i) mod k)"

subsection \<open>The encoders\<close>

definition rsc_feedback :: "nat \<Rightarrow> bool \<Rightarrow> bool" where
  "rsc_feedback s u \<longleftrightarrow> (u \<noteq> bit s 1) \<noteq> bit s 2"

definition rsc_parity :: "nat \<Rightarrow> bool \<Rightarrow> bool" where
  "rsc_parity s u \<longleftrightarrow> (rsc_feedback s u \<noteq> bit s 0) \<noteq> bit s 2"

definition rsc_next :: "nat \<Rightarrow> bool \<Rightarrow> nat" where
  "rsc_next s u = of_bool (rsc_feedback s u) OR push_bit 1 (of_bool (bit s 0)) OR push_bit 2 (of_bool (bit s 1))"

definition rsc_terminating_input :: "nat \<Rightarrow> bool" where
  "rsc_terminating_input s \<longleftrightarrow> bit s 1 \<noteq> bit s 2"

fun rsc_data :: "nat \<Rightarrow> bool list \<Rightarrow> nat \<times> bool list" where
  "rsc_data s [] = (s, [])"
| "rsc_data s (u # us) = (let (s', z) = rsc_data (rsc_next s u) us in (s', rsc_parity s u # z))"

fun rsc_tail :: "nat \<Rightarrow> nat \<Rightarrow> bool list \<times> bool list" where
  "rsc_tail s 0 = ([], [])"
| "rsc_tail s (Suc n) =
     (let u = rsc_terminating_input s; (x, z) = rsc_tail (rsc_next s u) n in (u # x, rsc_parity s u # z))"

definition rsc_encode :: "bool list \<Rightarrow> bool list \<times> bool list" where
  "rsc_encode us = (let (s, z) = rsc_data 0 us; (xt, zt) = rsc_tail s 3 in (us @ xt, z @ zt))"

text \<open>\<open>None\<close>: the size is not permitted and the streams are left alone.\<close>

definition lte_turbo_encode :: "bool list \<Rightarrow> int \<Rightarrow> (bool list \<times> bool list \<times> bool list) option" where
  "lte_turbo_encode us k =
     (if lte_turbo_size_index k = None then None
      else let n = nat k;
               second = map (\<lambda>i. us ! nat (lte_turbo_pi k (int i))) [0..<n];
               (x, z) = rsc_encode (take n us); (xp, zp) = rsc_encode second
           in Some (take n x @ [x ! n, z ! (n + 1), xp ! n, zp ! (n + 1)],
                    take n z @ [z ! n, x ! (n + 2), zp ! n, xp ! (n + 2)],
                    take n zp @ [x ! (n + 1), z ! (n + 2), xp ! (n + 1), zp ! (n + 2)]))"

subsection \<open>The decoder\<close>

text \<open>The floating-point operations it uses. Multiplying by \<open>1 - 2 u\<close> changes the sign or nothing.\<close>

record 'f llr_ops =
  fadd :: "'f \<Rightarrow> 'f \<Rightarrow> 'f"
  fsub :: "'f \<Rightarrow> 'f \<Rightarrow> 'f"
  fneg :: "'f \<Rightarrow> 'f"
  fhalf :: "'f \<Rightarrow> 'f"
  fle :: "'f \<Rightarrow> 'f \<Rightarrow> bool"
  fgt :: "'f \<Rightarrow> 'f \<Rightarrow> bool"
  fzero :: 'f
  fninf :: 'f

definition llr_sign :: "'f llr_ops \<Rightarrow> bool \<Rightarrow> 'f \<Rightarrow> 'f" where
  "llr_sign F u x = (if u then fneg F x else x)"

definition maxf :: "'f llr_ops \<Rightarrow> 'f \<Rightarrow> 'f \<Rightarrow> 'f" where
  "maxf F a b = (if fgt F a b then a else b)"

text \<open>One step of the trellis is given its systematic value, its parity and its a priori value.\<close>

definition branch_metric :: "'f llr_ops \<Rightarrow> 'f \<times> 'f \<times> 'f \<Rightarrow> nat \<Rightarrow> bool \<Rightarrow> 'f" where
  "branch_metric F t s u =
     (let (sys, par, ap) = t
      in fhalf F (fadd F (llr_sign F u (fadd F sys ap)) (llr_sign F (rsc_parity s u) par)))"

definition terminal_row :: "'f llr_ops \<Rightarrow> 'f list" where
  "terminal_row F = map (\<lambda>s. if s = 0 then fzero F else fninf F) [0..<8]"

definition alpha_row :: "'f llr_ops \<Rightarrow> 'f \<times> 'f \<times> 'f \<Rightarrow> 'f list \<Rightarrow> 'f list" where
  "alpha_row F t prev =
     foldl (\<lambda>row s. if fle F (prev ! s) (fninf F) then row
         else foldl (\<lambda>row u. row[rsc_next s u :=
             maxf F (row ! rsc_next s u) (fadd F (prev ! s) (branch_metric F t s u))]) row [False, True])
       (replicate 8 (fninf F)) [0..<8]"

definition beta_row :: "'f llr_ops \<Rightarrow> 'f \<times> 'f \<times> 'f \<Rightarrow> 'f list \<Rightarrow> 'f list" where
  "beta_row F t after =
     map (\<lambda>s. foldl (\<lambda>best u. maxf F best (fadd F (after ! rsc_next s u) (branch_metric F t s u)))
       (fninf F) [False, True]) [0..<8]"

fun alphas :: "'f llr_ops \<Rightarrow> ('f \<times> 'f \<times> 'f) list \<Rightarrow> 'f list \<Rightarrow> 'f list list" where
  "alphas F [] row = [row]"
| "alphas F (t # ts) row = row # alphas F ts (alpha_row F t row)"

fun betas :: "'f llr_ops \<Rightarrow> ('f \<times> 'f \<times> 'f) list \<Rightarrow> 'f list list" where
  "betas F [] = [terminal_row F]"
| "betas F (t # ts) = (let rows = betas F ts in beta_row F t (hd rows) # rows)"

definition parity_best :: "'f llr_ops \<Rightarrow> 'f \<Rightarrow> 'f list \<Rightarrow> 'f list \<Rightarrow> bool \<Rightarrow> 'f" where
  "parity_best F par alpha beta u =
     foldl (\<lambda>best s. if fle F (alpha ! s) (fninf F) then best
         else let m = fadd F (fadd F (alpha ! s) (llr_sign F (rsc_parity s u) (fhalf F par)))
                (beta ! rsc_next s u)
              in if fgt F m best then m else best) (fninf F) [0..<8]"

definition bcjr :: "'f llr_ops \<Rightarrow> 'f list \<Rightarrow> 'f list \<Rightarrow> 'f list \<Rightarrow> nat \<Rightarrow> 'f list" where
  "bcjr F sys par apriori n =
     (let ts = map (\<lambda>i. (sys ! i, par ! i, apriori ! i)) [0..<n];
          alpha = alphas F ts (terminal_row F); beta = betas F ts
      in map (\<lambda>i. fsub F (parity_best F (par ! i) (alpha ! i) (beta ! (i + 1)) False)
                         (parity_best F (par ! i) (alpha ! i) (beta ! (i + 1)) True)) [0..<n])"

text \<open>The channel values of each encoder: the tail's spread over the three streams is undone.\<close>

definition first_sys :: "nat \<Rightarrow> 'f list \<Rightarrow> 'f list \<Rightarrow> 'f list \<Rightarrow> 'f list" where
  "first_sys n d0 d1 d2 = take n d0 @ [d0 ! n, d2 ! n, d1 ! (n + 1)]"

definition first_par :: "nat \<Rightarrow> 'f list \<Rightarrow> 'f list \<Rightarrow> 'f list \<Rightarrow> 'f list" where
  "first_par n d0 d1 d2 = take n d1 @ [d1 ! n, d0 ! (n + 1), d2 ! (n + 1)]"

definition second_sys :: "nat \<Rightarrow> 'f list \<Rightarrow> 'f list \<Rightarrow> 'f list \<Rightarrow> 'f list" where
  "second_sys n d0 d1 d2 =
     map (\<lambda>i. d0 ! nat (lte_turbo_pi (int n) (int i))) [0..<n] @ [d0 ! (n + 2), d2 ! (n + 2), d1 ! (n + 3)]"

definition second_par :: "nat \<Rightarrow> 'f list \<Rightarrow> 'f list \<Rightarrow> 'f list \<Rightarrow> 'f list" where
  "second_par n d0 d1 d2 = take n d2 @ [d1 ! (n + 2), d0 ! (n + 3), d2 ! (n + 3)]"

text \<open>One exchange: the a priori values of the first decoder and its extrinsic output.\<close>

definition turbo_exchange ::
  "'f llr_ops \<Rightarrow> nat \<Rightarrow> 'f list \<Rightarrow> 'f list \<Rightarrow> 'f list \<Rightarrow> 'f list \<times> 'f list \<Rightarrow> 'f list \<times> 'f list" where
  "turbo_exchange F n d0 d1 d2 a1_e1 =
     (let e1 = bcjr F (first_sys n d0 d1 d2) (first_par n d0 d1 d2) (fst a1_e1) (n + 3);
          a2 = map (\<lambda>i. e1 ! nat (lte_turbo_pi (int n) (int i))) [0..<n] @ replicate 3 (fzero F);
          e2 = bcjr F (second_sys n d0 d1 d2) (second_par n d0 d1 d2) a2 (n + 3);
          a1 = foldl (\<lambda>a i. a[nat (lte_turbo_pi (int n) (int i)) := e2 ! i]) (fst a1_e1) [0..<n]
      in (take n a1 @ replicate 3 (fzero F), e1))"

text \<open>The extrinsic array is static: before the first exchange it holds what an earlier call left.\<close>

definition lte_turbo_decode ::
  "'f llr_ops \<Rightarrow> 'f list \<Rightarrow> 'f list \<Rightarrow> 'f list \<Rightarrow> 'f list \<Rightarrow> int \<Rightarrow> int \<Rightarrow> bool list option" where
  "lte_turbo_decode F left_over d0 d1 d2 k iterations =
     (if lte_turbo_size_index k = None then None
      else let n = nat k;
               (a1, e1) = (turbo_exchange F n d0 d1 d2 ^^ nat iterations) (replicate (n + 3) (fzero F), left_over);
               sys1 = first_sys n d0 d1 d2
           in Some (map (\<lambda>i. fgt F (fzero F) (fadd F (fadd F (sys1 ! i) (a1 ! i)) (e1 ! i))) [0..<n]))"

subsection \<open>The table and the permutation\<close>

text \<open>Every prime factor of \<open>k\<close> divides \<open>f2\<close> when \<open>k\<close> divides a power of \<open>f2\<close>; four squarings do.\<close>

definition square_mod :: "int \<Rightarrow> int \<Rightarrow> int" where
  "square_mod k x = x * x mod k"

lemma qpp_rows:
  "list_all (\<lambda>(k, f1, f2). gcd f1 k = 1 \<and> square_mod k (square_mod k (square_mod k (square_mod k f2))) = 0 \<and>
     40 \<le> k \<and> k \<le> 6144 \<and> 0 < f1 \<and> f1 < 512 \<and> 0 < f2 \<and> f2 < 1024) qpp"
proof -
  have gcd_step: "gcd (numeral a) (numeral b) = gcd (numeral b) (numeral a mod numeral b :: int)" for a b
    by (metis gcd.commute gcd_red_int)
  have square: "square_mod k (numeral a) = numeral a * numeral a mod k" "square_mod k 0 = 0" for k a
    by (simp_all add: square_mod_def)
  show ?thesis unfolding qpp_def by (simp add: gcd_step square)
qed

lemma qpp_increasing: "successively (<) (map fst qpp)"
  unfolding qpp_def by simp

lemma size_scan_finds:
  "sorted_wrt (<) (map fst rows) \<Longrightarrow> row \<in> set rows \<Longrightarrow> size_scan rows i (fst row) \<noteq> None"
proof (induction rows arbitrary: i)
  case (Cons r rows)
  then show ?case by (cases r) fastforce
qed simp

lemma size_scan_in: "size_scan rows i k = Some j \<Longrightarrow> i \<le> j \<and> j - i < length rows \<and> fst (rows ! (j - i)) = k"
proof (induction rows arbitrary: i)
  case (Cons row rows)
  obtain s p where row: "row = (s, p)" by (cases row)
  show ?case
  proof (cases "s = k")
    case False
    then have "size_scan rows (Suc i) k = Some j" using Cons.prems row by (auto split: if_splits)
    then have "Suc i \<le> j" "j - Suc i < length rows" "fst (rows ! (j - Suc i)) = k" using Cons.IH by blast+
    then show ?thesis by (simp add: nth_Cons')
  qed (use Cons.prems row in auto)
qed simp

lemma params_row: "lte_turbo_params k = Some (f1, f2) \<Longrightarrow> (k, f1, f2) \<in> set qpp"
  using size_scan_in [of qpp 0 k] unfolding lte_turbo_params_def lte_turbo_size_index_def
  by (auto simp: in_set_conv_nth) (metis fst_conv prod.collapse snd_conv)

lemma params_ok:
  assumes "lte_turbo_params k = Some (f1, f2)"
  shows "gcd f1 k = 1" "k dvd f2 ^ 16" "40 \<le> k" "k \<le> 6144" "0 < f1" "f1 < 512" "0 < f2" "f2 < 1024"
proof -
  have row: "gcd f1 k = 1 \<and> square_mod k (square_mod k (square_mod k (square_mod k f2))) = 0 \<and>
      40 \<le> k \<and> k \<le> 6144 \<and> 0 < f1 \<and> f1 < 512 \<and> 0 < f2 \<and> f2 < 1024"
    using bspec [OF qpp_rows [unfolded list_all_iff] params_row [OF assms]] by simp
  then have "f2 ^ 16 mod k = 0" unfolding square_mod_def by (simp add: mod_simps power_numeral_reduce mult.assoc)
  then show "k dvd f2 ^ 16" by (rule mod_0_imp_dvd)
  show "gcd f1 k = 1" "40 \<le> k" "k \<le> 6144" "0 < f1" "f1 < 512" "0 < f2" "f2 < 1024" using row by simp_all
qed

lemma permitted_params: "lte_turbo_size_index k \<noteq> None \<Longrightarrow> \<exists>f1 f2. lte_turbo_params k = Some (f1, f2)"
  by (auto simp: lte_turbo_params_def)

lemma pi_value:
  assumes "lte_turbo_params k = Some (f1, f2)" "0 \<le> i" "i < k"
  shows "lte_turbo_pi k i = (f1 * i + f2 * i ^ 2) mod k"
proof -
  have "(f2 * i mod k * i mod k + f1 * i) mod k = (f2 * i * i + f1 * i) mod k" by (simp add: mod_simps)
  then show ?thesis using assms by (simp add: lte_turbo_pi_def Let_def power2_eq_square ac_simps)
qed

lemma qpp_injective:
  fixes k f1 f2 :: int
  assumes "gcd f1 k = 1" "k dvd f2 ^ 16" "0 \<le> i" "i < k" "0 \<le> j" "j < k"
    and eq: "(f1 * i + f2 * i ^ 2) mod k = (f1 * j + f2 * j ^ 2) mod k"
  shows "i = j"
proof -
  have "coprime (f1 + f2 * (i + j)) k"
  proof (rule coprimeI)
    fix d assume d: "d dvd f1 + f2 * (i + j)" "d dvd k"
    show "is_unit d"
    proof -
      have "coprime d f1"
        using d(2) assms(1) by (metis coprime_commute coprime_divisors coprime_iff_gcd_eq_1 dvd_refl)
      moreover have "d dvd f2 ^ 16" using d(2) assms(2) dvd_trans by blast
      moreover have "gcd d f2 dvd f1"
      proof -
        have "gcd d f2 dvd f1 + f2 * (i + j)" using d(1) dvd_trans gcd_dvd1 by blast
        moreover have "gcd d f2 dvd f2 * (i + j)" by (simp add: dvd_mult2)
        ultimately show ?thesis by (simp add: dvd_add_left_iff)
      qed
      ultimately have "gcd d f2 dvd 1" by (metis coprime_def gcd_dvd1)
      then have "coprime d f2" by (simp add: coprime_iff_gcd_eq_1)
      then have "coprime d (f2 ^ 16)" by simp
      with \<open>d dvd f2 ^ 16\<close> show ?thesis by (metis coprime_absorb_left)
    qed
  qed
  moreover have "k dvd (i - j) * (f1 + f2 * (i + j))"
  proof -
    have "k dvd (f1 * i + f2 * i ^ 2) - (f1 * j + f2 * j ^ 2)" using eq mod_eq_dvd_iff by blast
    then show ?thesis by (simp add: algebra_simps power2_eq_square)
  qed
  ultimately have "k dvd i - j" by (metis coprime_commute coprime_dvd_mult_left_iff)
  then show "i = j" using assms(3-6) by (metis dvd_imp_mod_0 mod_eq_dvd_iff mod_pos_pos_trivial)
qed

lemma pi_range:
  assumes "lte_turbo_size_index k \<noteq> None" "0 \<le> i" "i < k"
  shows "0 \<le> lte_turbo_pi k i" "lte_turbo_pi k i < k"
proof -
  obtain f1 f2 where p: "lte_turbo_params k = Some (f1, f2)" using permitted_params [OF assms(1)] by blast
  show "0 \<le> lte_turbo_pi k i" "lte_turbo_pi k i < k"
    using params_ok [OF p] by (simp_all add: pi_value [OF p assms(2,3)])
qed

lemma qpp_products_fit:
  assumes "lte_turbo_params k = Some (f1, f2)" "0 \<le> i" "i < k" "0 \<le> t" "t < k"
  shows "f2 * i < 2 ^ 63" "t * i < 2 ^ 63" "t + f1 * i < 2 ^ 63"
proof -
  note b = params_ok [OF assms(1)]
  have "f2 * i \<le> 1023 * 6143" using b assms by (intro mult_mono) auto
  then show "f2 * i < 2 ^ 63" by simp
  have "t * i \<le> 6143 * 6143" using b assms by (intro mult_mono) auto
  then show "t * i < 2 ^ 63" by simp
  have "f1 * i \<le> 511 * 6143" using b assms by (intro mult_mono) auto
  then show "t + f1 * i < 2 ^ 63" using b assms by simp
qed

lemma pi_bij:
  assumes "lte_turbo_size_index k \<noteq> None"
  shows "bij_betw (lte_turbo_pi k) {0..<k} {0..<k}"
proof -
  obtain f1 f2 where p: "lte_turbo_params k = Some (f1, f2)" using permitted_params [OF assms] by blast
  have inj: "inj_on (lte_turbo_pi k) {0..<k}"
  proof (rule inj_onI)
    fix i j assume "i \<in> {0..<k}" "j \<in> {0..<k}" and eq: "lte_turbo_pi k i = lte_turbo_pi k j"
    then have r: "0 \<le> i" "i < k" "0 \<le> j" "j < k" by auto
    show "i = j"
      by (rule qpp_injective [OF params_ok(1) [OF p] params_ok(2) [OF p] r
            eq [unfolded pi_value [OF p r(1,2)] pi_value [OF p r(3,4)]]])
  qed
  have "lte_turbo_pi k ` {0..<k} \<subseteq> {0..<k}" using pi_range [OF assms] by auto
  then have "lte_turbo_pi k ` {0..<k} = {0..<k}"
    by (intro endo_inj_surj inj) simp_all
  with inj show ?thesis by (simp add: bij_betw_def)
qed

lemma qpp_found: "list_all (\<lambda>row. lte_turbo_size_index (fst row) \<noteq> None) qpp"
  using size_scan_finds [of qpp] qpp_increasing
  unfolding lte_turbo_size_index_def list_all_iff by (simp add: successively_conv_sorted_wrt)

text \<open>C30: for every block size the table permits, the interleaver is a permutation of the block's
  positions.\<close>

theorem lte_turbo_interleaver_permutes:
  "list_all (\<lambda>row. bij_betw (lte_turbo_pi (fst row)) {0..<fst row} {0..<fst row}) qpp"
proof -
  have found: "list_all (\<lambda>row. lte_turbo_size_index (fst row) \<noteq> None) qpp" by (rule qpp_found)
  have "bij_betw (lte_turbo_pi k) {0..<k} {0..<k}" if "lte_turbo_size_index k \<noteq> None" for k
    by (rule pi_bij [OF that])
  then show ?thesis using found by (auto simp: list_all_iff)
qed

subsection \<open>The encoders end in state zero\<close>

lemma below_8: "s < 8 \<longleftrightarrow> s \<in> set [0, 1, 2, 3, 4, 5, 6, 7 :: nat]"
  by auto

lemma rsc_tail_3:
  "fst (rsc_tail s 3) =
     [rsc_terminating_input s, rsc_terminating_input (rsc_next s (rsc_terminating_input s)),
      rsc_terminating_input (rsc_next (rsc_next s (rsc_terminating_input s))
        (rsc_terminating_input (rsc_next s (rsc_terminating_input s))))]"
  by (simp add: numeral_3_eq_3 Let_def)

lemma rsc_next_table:
  "list_all (\<lambda>s. list_all (\<lambda>u. rsc_next s u < 8) [False, True]) [0, 1, 2, 3, 4, 5, 6, 7]"
  "list_all (\<lambda>s. fst (rsc_data s (fst (rsc_tail s 3))) = 0) [0, 1, 2, 3, 4, 5, 6, 7]"
  by (simp_all add: rsc_tail_3 rsc_next_def rsc_feedback_def rsc_terminating_input_def Let_def bit_numeral_rec)

lemma rsc_next_range: "s < 8 \<Longrightarrow> rsc_next s u < 8"
proof -
  assume "s < 8"
  then have "list_all (\<lambda>u. rsc_next s u < 8) [False, True]"
    using rsc_next_table(1) unfolding list_all_iff [of _ "[0, 1, 2, 3, 4, 5, 6, 7]"] below_8 [of s] by blast
  then show ?thesis by (cases u) simp_all
qed

lemma rsc_tail_zero: "s < 8 \<Longrightarrow> fst (rsc_data s (fst (rsc_tail s 3))) = 0"
  using rsc_next_table(2) unfolding below_8 [of s] list_all_iff by blast

lemma rsc_data_append:
  "rsc_data s (us @ vs) =
     (let (s', z) = rsc_data s us; (s'', z') = rsc_data s' vs in (s'', z @ z'))"
  by (induction us arbitrary: s) (auto simp: Let_def split: prod.splits)

lemma rsc_data_range: "s < 8 \<Longrightarrow> fst (rsc_data s us) < 8"
  by (induction us arbitrary: s) (simp_all add: Let_def rsc_next_range case_prod_beta)

lemma length_rsc_data [simp]: "length (snd (rsc_data s us)) = length us"
  by (induction us arbitrary: s) (simp_all add: Let_def case_prod_beta)

lemma rsc_tail_data: "snd (rsc_data s (fst (rsc_tail s n))) = snd (rsc_tail s n)"
  by (induction n arbitrary: s) (simp_all add: Let_def case_prod_beta)

lemma length_rsc_tail [simp]: "length (fst (rsc_tail s n)) = n" "length (snd (rsc_tail s n)) = n"
  by (induction n arbitrary: s) (simp_all add: Let_def case_prod_beta)

text \<open>What an encoder writes is a run of the trellis from state zero back to state zero.\<close>

lemma rsc_encode_run:
  assumes "rsc_encode us = (x, z)"
  shows "rsc_data 0 x = (0, z)" "length x = length us + 3" "length z = length us + 3" "take (length us) x = us"
proof -
  obtain s z0 where d: "rsc_data 0 us = (s, z0)" by fastforce
  obtain xt zt where t: "rsc_tail s 3 = (xt, zt)" by fastforce
  have x: "x = us @ xt" and z: "z = z0 @ zt" using assms by (simp_all add: rsc_encode_def d t)
  have "s < 8" using rsc_data_range [of 0 us] by (simp add: d)
  then have "fst (rsc_data s xt) = 0" using rsc_tail_zero [of s] by (simp add: t)
  moreover have "snd (rsc_data s xt) = zt" using rsc_tail_data [of s 3] by (simp add: t)
  ultimately have "rsc_data s xt = (0, zt)" by (cases "rsc_data s xt") simp
  then show "rsc_data 0 x = (0, z)" by (simp add: x z rsc_data_append d)
  have lz: "length z0 = length us" "length xt = 3" "length zt = 3"
    using length_rsc_data [of 0 us] length_rsc_tail [of s 3] by (simp_all add: d t)
  then show "length x = length us + 3" "length z = length us + 3" "take (length us) x = us"
    by (simp_all add: x z)
qed

text \<open>The second encoder's input, and the streams taken apart again.\<close>

definition interleaved :: "nat \<Rightarrow> 'a list \<Rightarrow> 'a list" where
  "interleaved n us = map (\<lambda>i. us ! nat (lte_turbo_pi (int n) (int i))) [0..<n]"

lemma encode_streams:
  assumes "lte_turbo_encode us (int n) = Some (d0, d1, d2)" "length us = n"
    and x: "rsc_encode us = (x, z)" and xp: "rsc_encode (interleaved n us) = (xp, zp)"
  shows "first_sys n d0 d1 d2 = x" "first_par n d0 d1 d2 = z"
    "second_par n d0 d1 d2 = zp"
    "d0 ! (n + 2) = xp ! n" "d2 ! (n + 2) = xp ! (n + 1)" "d1 ! (n + 3) = xp ! (n + 2)"
    "take n d0 = us" "length d0 = n + 4" "length d1 = n + 4" "length d2 = n + 4"
proof -
  have d: "d0 = take n x @ [x ! n, z ! (n + 1), xp ! n, zp ! (n + 1)]"
    "d1 = take n z @ [z ! n, x ! (n + 2), zp ! n, xp ! (n + 2)]"
    "d2 = take n zp @ [x ! (n + 1), z ! (n + 2), xp ! (n + 1), zp ! (n + 2)]"
    using assms(1,2) x xp by (auto simp: lte_turbo_encode_def interleaved_def Let_def split: if_splits)
  have len: "length x = n + 3" "length z = n + 3" "length xp = n + 3" "length zp = n + 3"
    using rsc_encode_run(2,3) [OF x] rsc_encode_run(2,3) [OF xp] assms(2) by (simp_all add: interleaved_def)
  have three: "take n ys @ [ys ! n, ys ! (n + 1), ys ! (n + 2)] = ys" if "length ys = n + 3" for ys :: "bool list"
    by (rule nth_equalityI) (use that in \<open>auto simp: nth_append nth_Cons' less_Suc_eq numeral_3_eq_3\<close>)
  show "first_sys n d0 d1 d2 = x" "first_par n d0 d1 d2 = z" "second_par n d0 d1 d2 = zp"
    using len three [of x] three [of z] three [of zp]
    by (simp_all add: d first_sys_def first_par_def second_par_def nth_append)
  show "d0 ! (n + 2) = xp ! n" "d2 ! (n + 2) = xp ! (n + 1)" "d1 ! (n + 3) = xp ! (n + 2)"
    "length d0 = n + 4" "length d1 = n + 4" "length d2 = n + 4"
    using len by (simp_all add: d nth_append)
  show "take n d0 = us" using len rsc_encode_run(4) [OF x] assms(2) by (simp add: d)
qed

subsection \<open>Soft values of the right sign\<close>

text \<open>
  What the decoder relies on of floating point, which rounding to nearest gives for values that are not
  NaN and do not overflow: comparison is a total preorder (the two zeros are equivalent), addition
  is commutative, addition, halving and negation respect the order, adding a non-negative value does not decrease the sum, and a
  difference has the sign of the comparison.
\<close>

definition rounded_order :: "'f llr_ops \<Rightarrow> bool" where
  "rounded_order F \<longleftrightarrow>
     (\<forall>a b. fle F a b \<or> fle F b a) \<and> (\<forall>a b c. fle F a b \<longrightarrow> fle F b c \<longrightarrow> fle F a c) \<and>
     (\<forall>a b. fgt F a b \<longleftrightarrow> \<not> fle F a b) \<and>
     (\<forall>a b c d. fle F a b \<longrightarrow> fle F c d \<longrightarrow> fle F (fadd F a c) (fadd F b d)) \<and>
     (\<forall>a b. fadd F a b = fadd F b a) \<and>
     (\<forall>a b. fle F (fzero F) b \<longrightarrow> fle F a (fadd F a b)) \<and>
     (\<forall>a b. fle F b (fzero F) \<longrightarrow> fle F (fadd F a b) a) \<and>
     (\<forall>a b. fle F a b \<longrightarrow> fle F (fneg F b) (fneg F a)) \<and>
     fle F (fneg F (fzero F)) (fzero F) \<and> fle F (fzero F) (fneg F (fzero F)) \<and>
     (\<forall>a b. fle F a b \<longrightarrow> fle F (fhalf F a) (fhalf F b)) \<and>
     fle F (fhalf F (fzero F)) (fzero F) \<and> fle F (fzero F) (fhalf F (fzero F)) \<and>
     (\<forall>a b. fle F a b \<longrightarrow> fle F (fsub F a b) (fzero F)) \<and>
     (\<forall>a b. fle F a b \<longrightarrow> fle F (fzero F) (fsub F b a)) \<and>
     \<not> fle F (fzero F) (fninf F)"

text \<open>A soft value agrees with a bit: not negative for a zero, not positive for a one.\<close>

definition agrees :: "'f llr_ops \<Rightarrow> bool \<Rightarrow> 'f \<Rightarrow> bool" where
  "agrees F b x \<longleftrightarrow> (if b then fle F x (fzero F) else fle F (fzero F) x)"

definition decides :: "'f llr_ops \<Rightarrow> bool \<Rightarrow> 'f \<Rightarrow> bool" where
  "decides F b x \<longleftrightarrow> (if b then \<not> fle F (fzero F) x else \<not> fle F x (fzero F))"

lemma rounded_orderD:
  assumes F: "rounded_order F"
  shows le_total: "fle F a b \<or> fle F b a"
    and le_trans: "fle F a b \<Longrightarrow> fle F b c \<Longrightarrow> fle F a c"
    and gt_le: "fgt F a b \<longleftrightarrow> \<not> fle F a b"
    and add_mono: "fle F a b \<Longrightarrow> fle F c d \<Longrightarrow> fle F (fadd F a c) (fadd F b d)"
    and add_commute: "fadd F a b = fadd F b a"
    and add_up: "fle F (fzero F) b \<Longrightarrow> fle F a (fadd F a b)"
    and add_down: "fle F b (fzero F) \<Longrightarrow> fle F (fadd F a b) a"
    and neg_anti: "fle F a b \<Longrightarrow> fle F (fneg F b) (fneg F a)"
    and neg_zero_le: "fle F (fneg F (fzero F)) (fzero F)"
    and neg_zero_ge: "fle F (fzero F) (fneg F (fzero F))"
    and half_mono: "fle F a b \<Longrightarrow> fle F (fhalf F a) (fhalf F b)"
    and half_zero_le: "fle F (fhalf F (fzero F)) (fzero F)"
    and half_zero_ge: "fle F (fzero F) (fhalf F (fzero F))"
    and sub_le: "fle F a b \<Longrightarrow> fle F (fsub F a b) (fzero F)"
    and sub_ge: "fle F a b \<Longrightarrow> fle F (fzero F) (fsub F b a)"
    and ninf: "\<not> fle F (fzero F) (fninf F)"
proof -
  note laws = F [unfolded rounded_order_def]
  show "fle F a b \<or> fle F b a"
    by (rule laws [THEN conjunct1, rule_format])
  show "fle F a b \<Longrightarrow> fle F b c \<Longrightarrow> fle F a c"
    by (rule laws [THEN conjunct2, THEN conjunct1, rule_format])
  show "fgt F a b \<longleftrightarrow> \<not> fle F a b"
    by (rule laws [THEN conjunct2, THEN conjunct2, THEN conjunct1, rule_format])
  show "fle F a b \<Longrightarrow> fle F c d \<Longrightarrow> fle F (fadd F a c) (fadd F b d)"
    by (rule laws [THEN conjunct2, THEN conjunct2, THEN conjunct2, THEN conjunct1, rule_format])
  show "fadd F a b = fadd F b a"
    by (rule laws [THEN conjunct2, THEN conjunct2, THEN conjunct2, THEN conjunct2, THEN conjunct1, rule_format])
  show "fle F (fzero F) b \<Longrightarrow> fle F a (fadd F a b)"
    by (rule laws [THEN conjunct2, THEN conjunct2, THEN conjunct2, THEN conjunct2, THEN conjunct2, THEN conjunct1, rule_format])
  show "fle F b (fzero F) \<Longrightarrow> fle F (fadd F a b) a"
    by (rule laws [THEN conjunct2, THEN conjunct2, THEN conjunct2, THEN conjunct2, THEN conjunct2, THEN conjunct2, THEN conjunct1, rule_format])
  show "fle F a b \<Longrightarrow> fle F (fneg F b) (fneg F a)"
    by (rule laws [THEN conjunct2, THEN conjunct2, THEN conjunct2, THEN conjunct2, THEN conjunct2, THEN conjunct2, THEN conjunct2, THEN conjunct1, rule_format])
  show "fle F (fneg F (fzero F)) (fzero F)"
    by (rule laws [THEN conjunct2, THEN conjunct2, THEN conjunct2, THEN conjunct2, THEN conjunct2, THEN conjunct2, THEN conjunct2, THEN conjunct2, THEN conjunct1, rule_format])
  show "fle F (fzero F) (fneg F (fzero F))"
    by (rule laws [THEN conjunct2, THEN conjunct2, THEN conjunct2, THEN conjunct2, THEN conjunct2, THEN conjunct2, THEN conjunct2, THEN conjunct2, THEN conjunct2, THEN conjunct1, rule_format])
  show "fle F a b \<Longrightarrow> fle F (fhalf F a) (fhalf F b)"
    by (rule laws [THEN conjunct2, THEN conjunct2, THEN conjunct2, THEN conjunct2, THEN conjunct2, THEN conjunct2, THEN conjunct2, THEN conjunct2, THEN conjunct2, THEN conjunct2, THEN conjunct1, rule_format])
  show "fle F (fhalf F (fzero F)) (fzero F)"
    by (rule laws [THEN conjunct2, THEN conjunct2, THEN conjunct2, THEN conjunct2, THEN conjunct2, THEN conjunct2, THEN conjunct2, THEN conjunct2, THEN conjunct2, THEN conjunct2, THEN conjunct2, THEN conjunct1, rule_format])
  show "fle F (fzero F) (fhalf F (fzero F))"
    by (rule laws [THEN conjunct2, THEN conjunct2, THEN conjunct2, THEN conjunct2, THEN conjunct2, THEN conjunct2, THEN conjunct2, THEN conjunct2, THEN conjunct2, THEN conjunct2, THEN conjunct2, THEN conjunct2, THEN conjunct1, rule_format])
  show "fle F a b \<Longrightarrow> fle F (fsub F a b) (fzero F)"
    by (rule laws [THEN conjunct2, THEN conjunct2, THEN conjunct2, THEN conjunct2, THEN conjunct2, THEN conjunct2, THEN conjunct2, THEN conjunct2, THEN conjunct2, THEN conjunct2, THEN conjunct2, THEN conjunct2, THEN conjunct2, THEN conjunct1, rule_format])
  show "fle F a b \<Longrightarrow> fle F (fzero F) (fsub F b a)"
    by (rule laws [THEN conjunct2, THEN conjunct2, THEN conjunct2, THEN conjunct2, THEN conjunct2, THEN conjunct2, THEN conjunct2, THEN conjunct2, THEN conjunct2, THEN conjunct2, THEN conjunct2, THEN conjunct2, THEN conjunct2, THEN conjunct2, THEN conjunct1, rule_format])
  show "\<not> fle F (fzero F) (fninf F)"
    by (rule laws [THEN conjunct2, THEN conjunct2, THEN conjunct2, THEN conjunct2, THEN conjunct2, THEN conjunct2, THEN conjunct2, THEN conjunct2, THEN conjunct2, THEN conjunct2, THEN conjunct2, THEN conjunct2, THEN conjunct2, THEN conjunct2, THEN conjunct2, rule_format])
qed

lemma maxf_bounds:
  assumes "rounded_order F"
  shows "fle F a (maxf F a b)" "fle F b (maxf F a b)" "fle F a c \<Longrightarrow> fle F b c \<Longrightarrow> fle F (maxf F a b) c"
  using le_total [OF assms, of a b] le_total [OF assms, of a a] le_total [OF assms, of b b]
  by (auto simp: maxf_def gt_le [OF assms])

lemma sign_dominates:
  assumes F: "rounded_order F" and "agrees F b x"
  shows "fle F (llr_sign F u x) (llr_sign F b x)" "fle F (fzero F) (llr_sign F b x)"
proof -
  note trans = le_trans [OF F]
  have signs: "fle F (llr_sign F (\<not> b) x) (fzero F) \<and> fle F (fzero F) (llr_sign F b x)"
  proof (cases b)
    case True
    then have x: "fle F x (fzero F)" using assms(2) by (simp add: agrees_def)
    show ?thesis using x trans [OF neg_zero_ge [OF F] neg_anti [OF F x]] True by (simp add: llr_sign_def)
  next
    case False
    then have x: "fle F (fzero F) x" using assms(2) by (simp add: agrees_def)
    show ?thesis using x trans [OF neg_anti [OF F x] neg_zero_le [OF F]] False by (simp add: llr_sign_def)
  qed
  then show "fle F (fzero F) (llr_sign F b x)" ..
  have "fle F (llr_sign F (\<not> b) x) (llr_sign F b x)" by (rule trans) (use signs in blast)+
  then show "fle F (llr_sign F u x) (llr_sign F b x)"
    using le_total [OF F, of "llr_sign F b x" "llr_sign F b x"] by (cases "u = b") auto
qed

lemma agrees_add:
  assumes F: "rounded_order F" and "agrees F b x" "agrees F b y"
  shows "agrees F b (fadd F x y)"
proof (cases b)
  case True
  then have "fle F (fadd F x y) x" "fle F x (fzero F)" using assms add_down [OF F] by (simp_all add: agrees_def)
  from le_trans [OF F this] show ?thesis using True by (simp add: agrees_def)
next
  case False
  then have "fle F (fzero F) x" "fle F x (fadd F x y)" using assms add_up [OF F] by (simp_all add: agrees_def)
  from le_trans [OF F this] show ?thesis using False by (simp add: agrees_def)
qed

lemma agrees_half:
  assumes F: "rounded_order F" and "agrees F b x"
  shows "agrees F b (fhalf F x)"
proof (cases b)
  case True
  then have "fle F x (fzero F)" using assms by (simp add: agrees_def)
  from le_trans [OF F half_mono [OF F this] half_zero_le [OF F]] show ?thesis using True by (simp add: agrees_def)
next
  case False
  then have "fle F (fzero F) x" using assms by (simp add: agrees_def)
  from le_trans [OF F half_zero_ge [OF F] half_mono [OF F this]] show ?thesis using False by (simp add: agrees_def)
qed

lemma agrees_zero: "rounded_order F \<Longrightarrow> agrees F b (fzero F)"
  using le_total [of F "fzero F" "fzero F"] by (auto simp: agrees_def)

lemma decides_agrees: "rounded_order F \<Longrightarrow> decides F b x \<Longrightarrow> agrees F b x"
  using le_total [of F "fzero F" x] by (auto simp: decides_def agrees_def split: if_splits)

lemma decides_add:
  assumes F: "rounded_order F" and "decides F b x" "agrees F b y"
  shows "decides F b (fadd F x y)"
proof (cases b)
  case True
  then show ?thesis
    using assms add_down [OF F, of y x] le_trans [OF F, of "fzero F" "fadd F x y" x]
    by (auto simp: decides_def agrees_def)
next
  case False
  then show ?thesis
    using assms add_up [OF F, of y x] le_trans [OF F, of x "fadd F x y" "fzero F"]
    by (auto simp: decides_def agrees_def)
qed

text \<open>The branch that was sent has the largest metric of all branches of its step.\<close>

definition sent_step :: "'f llr_ops \<Rightarrow> nat \<Rightarrow> bool \<Rightarrow> 'f \<times> 'f \<times> 'f \<Rightarrow> bool" where
  "sent_step F s u t \<longleftrightarrow> (case t of (sys, par, ap) \<Rightarrow>
     agrees F u sys \<and> agrees F (rsc_parity s u) par \<and> agrees F u ap)"

lemma branch_dominates:
  assumes F: "rounded_order F" and "sent_step F s u t"
  shows "fle F (branch_metric F t s' u') (branch_metric F t s u)" "fle F (fzero F) (branch_metric F t s u)"
proof -
  obtain sys par ap where t: "t = (sys, par, ap)" by (cases t)
  have a: "agrees F u (fadd F sys ap)" "agrees F (rsc_parity s u) par"
    using assms by (simp_all add: sent_step_def t agrees_add)
  show "fle F (branch_metric F t s' u') (branch_metric F t s u)"
    unfolding branch_metric_def t Let_def prod.case
    by (intro half_mono [OF F] add_mono [OF F] sign_dominates [OF F] a)
  have "fle F (fzero F) (fadd F (llr_sign F u (fadd F sys ap)) (llr_sign F (rsc_parity s u) par))"
    by (rule le_trans [OF F sign_dominates(2) [OF F a(1)] add_up [OF F sign_dominates(2) [OF F a(2)]]])
  then show "fle F (fzero F) (branch_metric F t s u)"
    unfolding branch_metric_def t Let_def prod.case
    by (rule le_trans [OF F half_zero_ge [OF F] half_mono [OF F]])
qed

text \<open>A row of metrics in which state \<open>s\<close> is nowhere beaten.\<close>

definition leads :: "'f llr_ops \<Rightarrow> 'f list \<Rightarrow> nat \<Rightarrow> bool" where
  "leads F row s \<longleftrightarrow> length row = 8 \<and> s < 8 \<and> fle F (fzero F) (row ! s) \<and> (\<forall>m < 8. fle F (row ! m) (row ! s))"

lemma leads_terminal: "rounded_order F \<Longrightarrow> leads F (terminal_row F) 0"
  using ninf [of F] le_total [of F "fzero F"] by (auto simp: leads_def terminal_row_def)

definition alpha_try :: "'f llr_ops \<Rightarrow> 'f \<times> 'f \<times> 'f \<Rightarrow> 'f list \<Rightarrow> nat \<Rightarrow> 'f list \<Rightarrow> bool \<Rightarrow> 'f list" where
  "alpha_try F t prev s row u =
     row[rsc_next s u := maxf F (row ! rsc_next s u) (fadd F (prev ! s) (branch_metric F t s u))]"

lemma alpha_try_nth:
  "alpha_try F t prev s row u ! m =
     (if m = rsc_next s u \<and> m < length row
      then maxf F (row ! m) (fadd F (prev ! s) (branch_metric F t s u)) else row ! m)"
  by (cases "rsc_next s u < length row") (auto simp: alpha_try_def nth_list_update list_update_beyond linorder_not_less)

lemma alpha_try_above:
  "rounded_order F \<Longrightarrow> fle F c (row ! m) \<Longrightarrow> fle F c (alpha_try F t prev s row u ! m)"
  using le_trans [of F c "row ! m", OF _ _ maxf_bounds(1)] by (auto simp: alpha_try_nth)

lemma alpha_try_below:
  "rounded_order F \<Longrightarrow> fle F (row ! m) c \<Longrightarrow> fle F (fadd F (prev ! s) (branch_metric F t s u)) c \<Longrightarrow>
   fle F (alpha_try F t prev s row u ! m) c"
  by (auto simp: alpha_try_nth maxf_bounds(3))

lemma alpha_row_tries:
  "alpha_row F t prev = foldl (\<lambda>row s. if fle F (prev ! s) (fninf F) then row
     else foldl (alpha_try F t prev s) row [False, True]) (replicate 8 (fninf F)) [0..<8]"
  unfolding alpha_row_def alpha_try_def ..

lemma leads_alpha_row:
  assumes F: "rounded_order F" and lead: "leads F prev s" and step: "sent_step F s u t"
  shows "leads F (alpha_row F t prev) (rsc_next s u)"
proof -
  let ?add = "\<lambda>row s. if fle F (prev ! s) (fninf F) then row else foldl (alpha_try F t prev s) row [False, True]"
  let ?c = "fadd F (prev ! s) (branch_metric F t s u)"
  have s: "s < 8" "fle F (fzero F) (prev ! s)" using lead by (simp_all add: leads_def)
  have best: "fle F (prev ! m) (prev ! s)" if "m < 8" for m using lead that by (simp add: leads_def)
  have c: "fle F (fzero F) ?c"
    by (rule le_trans [OF F s(2) add_up [OF F branch_dominates(2) [OF F step]]])
  have ninf_c: "fle F (fninf F) ?c" using le_total [OF F, of "fninf F" ?c] le_trans [OF F c, of "fninf F"] ninf [OF F] by blast
  have live: "\<not> fle F (prev ! s) (fninf F)" using le_trans [OF F s(2), of "fninf F"] ninf [OF F] s(1) by blast
  have cand: "fle F (fadd F (prev ! m) (branch_metric F t m v)) ?c" if "m < 8" for m v
    by (intro add_mono [OF F] best that branch_dominates(1) [OF F step])
  have below: "length row = 8 \<and> (\<forall>m < 8. fle F (row ! m) ?c)"
    if "row = foldl ?add (replicate 8 (fninf F)) ss" "set ss \<subseteq> {..<8}" for row ss
    unfolding that(1)
  proof (rule foldl_invariant)
    fix row m assume "length row = 8 \<and> (\<forall>i < 8. fle F (row ! i) ?c)" "m \<in> set ss"
    then show "length (?add row m) = 8 \<and> (\<forall>i < 8. fle F (?add row m ! i) ?c)"
      using that(2) cand by (auto simp: alpha_try_def [symmetric] intro!: alpha_try_below [OF F])
         (simp_all add: alpha_try_def)
  qed (simp add: ninf_c)
  have above: "fle F ?c (foldl ?add row ss ! m)" if "fle F ?c (row ! m)" for row ss m
    by (rule foldl_invariant [where P = "\<lambda>row. fle F ?c (row ! m)"])
       (use that in \<open>auto intro!: alpha_try_above [OF F]\<close>)
  have range: "rsc_next s u < 8" by (rule rsc_next_range) (rule s(1))
  have split: "[0..<8] = [0..<s] @ s # [Suc s..<8]"
    using s(1) by (metis upt_conv_Cons le_add_diff_inverse less_imp_le upt_add_eq_append zero_le)
  let ?before = "foldl ?add (replicate 8 (fninf F)) [0..<s]"
  have len: "length ?before = 8" by (rule below [THEN conjunct1, OF refl]) (use s(1) in auto)
  have hit: "fle F ?c (alpha_try F t prev s row u ! rsc_next s u)" if "length row = 8" for row
    using that range by (simp add: alpha_try_nth maxf_bounds(2) [OF F])
  have at: "fle F ?c (?add ?before s ! rsc_next s u)"
    using live len hit [of ?before] hit [of "alpha_try F t prev s ?before False"] alpha_try_above [OF F]
    by (cases u) (simp_all add: alpha_try_def)
  have whole: "alpha_row F t prev = foldl ?add (?add ?before s) [Suc s..<8]"
    unfolding alpha_row_tries split foldl_append by simp
  have reach: "fle F ?c (alpha_row F t prev ! rsc_next s u)" unfolding whole by (rule above [OF at])
  have "length (alpha_row F t prev) = 8 \<and> (\<forall>m < 8. fle F (alpha_row F t prev ! m) ?c)"
    by (rule below [of _ "[0..<8]"]) (auto simp: alpha_row_tries)
  then show ?thesis using range le_trans [OF F c reach] le_trans [OF F _ reach] unfolding leads_def by blast
qed

lemma leads_beta_row:
  assumes F: "rounded_order F" and lead: "leads F after (rsc_next s u)" and s: "s < 8"
    and step: "sent_step F s u t"
  shows "leads F (beta_row F t after) s"
proof -
  let ?c = "fadd F (after ! rsc_next s u) (branch_metric F t s u)"
  let ?best = "\<lambda>s. foldl (\<lambda>best u. maxf F best (fadd F (after ! rsc_next s u) (branch_metric F t s u)))
      (fninf F) [False, True]"
  have row: "length (beta_row F t after) = 8" "m < 8 \<Longrightarrow> beta_row F t after ! m = ?best m" for m
    by (simp_all add: beta_row_def)
  have next_s: "fle F (fzero F) (after ! rsc_next s u)"
    and best: "m < 8 \<Longrightarrow> fle F (after ! rsc_next m v) (after ! rsc_next s u)" for m v
    using lead rsc_next_range [of m v] by (simp_all add: leads_def)
  have c: "fle F (fzero F) ?c" by (rule le_trans [OF F next_s add_up [OF F branch_dominates(2) [OF F step]]])
  have ninf_c: "fle F (fninf F) ?c"
    using le_total [OF F, of "fninf F" ?c] le_trans [OF F c, of "fninf F"] ninf [OF F] by blast
  have "fle F (?best m) ?c" if "m < 8" for m
    unfolding foldl_Cons foldl_Nil
    by (intro maxf_bounds(3) [OF F] ninf_c add_mono [OF F] best that branch_dominates(1) [OF F step])
  moreover have reach: "fle F ?c (?best s)"
    unfolding foldl_Cons foldl_Nil
    by (cases u) (use maxf_bounds(1,2) [OF F] le_trans [OF F maxf_bounds(2) [OF F] maxf_bounds(1) [OF F]] in simp_all)
  ultimately show ?thesis
    using row s le_trans [OF F c reach] le_trans [OF F _ reach] unfolding leads_def by simp
qed

text \<open>A run of the encoder, with the values received for it.\<close>

fun sent_run :: "'f llr_ops \<Rightarrow> nat \<Rightarrow> bool list \<Rightarrow> ('f \<times> 'f \<times> 'f) list \<Rightarrow> bool" where
  "sent_run F s [] [] \<longleftrightarrow> s = 0"
| "sent_run F s (u # us) (t # ts) \<longleftrightarrow> s < 8 \<and> sent_step F s u t \<and> sent_run F (rsc_next s u) us ts"
| "sent_run F s _ _ \<longleftrightarrow> False"

abbreviation state_after :: "nat \<Rightarrow> bool list \<Rightarrow> nat" where
  "state_after s us \<equiv> fst (rsc_data s us)"

lemma sent_run_alphas:
  "rounded_order F \<Longrightarrow> sent_run F s us ts \<Longrightarrow> leads F row s \<Longrightarrow> i \<le> length us \<Longrightarrow>
    leads F (alphas F ts row ! i) (state_after s (take i us))"
proof (induction F s us ts arbitrary: row i rule: sent_run.induct)
  case (2 F s u us t ts)
  then show ?case
    using leads_alpha_row [of F row s u t]
    by (cases i) (auto simp: Let_def case_prod_beta)
qed auto

lemma betas_not_Nil: "betas F ts \<noteq> []"
  by (cases ts) (simp_all add: Let_def)

lemma sent_run_betas:
  "rounded_order F \<Longrightarrow> sent_run F s us ts \<Longrightarrow> i \<le> length us \<Longrightarrow> leads F (betas F ts ! i) (state_after s (take i us))"
proof (induction F s us ts arbitrary: i rule: sent_run.induct)
  case (1 F s)
  then show ?case using leads_terminal by simp
next
  case (2 F s u us t ts)
  have rest: "leads F (betas F ts ! j) (state_after (rsc_next s u) (take j us))" if "j \<le> length us" for j
    using 2 that by simp
  show ?case
  proof (cases i)
    case 0
    have "leads F (beta_row F t (betas F ts ! 0)) s"
      using leads_beta_row [of F "betas F ts ! 0" s u t] rest [of 0] 2 by simp
    then show ?thesis using 0 by (simp add: Let_def hd_conv_nth betas_not_Nil)
  next
    case (Suc j)
    then show ?thesis using rest [of j] 2 by (simp add: Let_def case_prod_beta)
  qed
qed auto

text \<open>The larger of the two sums over a step belongs to the bit that was sent.\<close>

lemma parity_best_sent:
  assumes F: "rounded_order F" and a: "leads F alpha s" and b: "leads F beta (rsc_next s u)"
    and par: "agrees F (rsc_parity s u) par"
  shows "fle F (parity_best F par alpha beta (\<not> u)) (parity_best F par alpha beta u)"
proof -
  let ?m = "\<lambda>s u. fadd F (fadd F (alpha ! s) (llr_sign F (rsc_parity s u) (fhalf F par))) (beta ! rsc_next s u)"
  let ?pick = "\<lambda>u best s. if fle F (alpha ! s) (fninf F) then best else if fgt F (?m s u) best then ?m s u else best"
  have def: "parity_best F par alpha beta u = foldl (?pick u) (fninf F) [0..<8]" for u
    unfolding parity_best_def Let_def ..
  have half: "agrees F (rsc_parity s u) (fhalf F par)" by (rule agrees_half [OF F par])
  have s: "s < 8" "fle F (fzero F) (alpha ! s)" "fle F (fzero F) (beta ! rsc_next s u)"
    using a b by (simp_all add: leads_def)
  have refl: "fle F x x" for x using le_total [OF F, of x x] by simp
  have sent: "fle F (?m r v) (?m s u)" if "r < 8" for r v
    using a b that rsc_next_range [OF that, of v]
    by (intro add_mono [OF F] sign_dominates(1) [OF F half]) (simp_all add: leads_def)
  have pos: "fle F (fzero F) (?m s u)"
    by (rule le_trans [OF F le_trans [OF F s(2) add_up [OF F sign_dominates(2) [OF F half]]] add_up [OF F s(3)]])
  have "fle F (fninf F) (?m s u)"
    using le_total [OF F, of "fninf F" "?m s u"] le_trans [OF F pos, of "fninf F"] ninf [OF F] by blast
  then have "fle F (foldl (?pick v) (fninf F) [0..<8]) (?m s u)" for v
    by (intro foldl_invariant [where P = "\<lambda>x. fle F x (?m s u)"]) (auto simp: sent)
  moreover have "fle F (?m s u) (foldl (?pick u) (fninf F) [0..<8])"
  proof -
    have keep: "fle F (?m s u) (?pick u x r)" if "fle F (?m s u) x" for x r
      using that le_trans [OF F that, of "?m r u"] le_total [OF F, of x "?m r u"] by (auto simp: gt_le [OF F])
    have "[0..<8] = [0..<s] @ s # [Suc s..<8]"
      using s(1) by (metis upt_conv_Cons le_add_diff_inverse less_imp_le upt_add_eq_append zero_le)
    moreover have "\<not> fle F (alpha ! s) (fninf F)" using le_trans [OF F s(2), of "fninf F"] ninf [OF F] by blast
    then have "fle F (?m s u) (?pick u x s)" for x
      using le_total [OF F, of "?m s u" x] refl by (auto simp: gt_le [OF F])
    ultimately show ?thesis
      by (simp only: foldl_append foldl_Cons) (rule foldl_invariant [where P = "\<lambda>x. fle F (?m s u) x"], simp, rule keep)
  qed
  ultimately show ?thesis unfolding def by (rule le_trans [OF F])
qed

lemma bcjr_agrees:
  assumes F: "rounded_order F" and run: "rsc_data 0 x = (0, z)" and len: "length x = n"
    and sys: "\<And>i. i < n \<Longrightarrow> agrees F (x ! i) (sys ! i)" and par: "\<And>i. i < n \<Longrightarrow> agrees F (z ! i) (par ! i)"
    and ap: "\<And>i. i < n \<Longrightarrow> agrees F (x ! i) (ap ! i)" and i: "i < n"
  shows "agrees F (x ! i) (bcjr F sys par ap n ! i)"
proof -
  let ?ts = "map (\<lambda>i. (sys ! i, par ! i, ap ! i)) [0..<n]"
  have runs: "sent_run F s x ts"
    if "rsc_data s x = (0, z)" "s < 8" "length ts = length x"
      "\<And>i. i < length x \<Longrightarrow> case ts ! i of (sy, pa, a) \<Rightarrow>
         agrees F (x ! i) sy \<and> agrees F (z ! i) pa \<and> agrees F (x ! i) a" for s x z ts
    using that
  proof (induction x arbitrary: s z ts)
    case (Cons u x)
    obtain t ts' where ts: "ts = t # ts'" using Cons.prems(3) by (cases ts) auto
    obtain z' where z: "rsc_data (rsc_next s u) x = (0, z')" "z = rsc_parity s u # z'"
      using Cons.prems(1) by (auto simp: Let_def split: prod.splits)
    have "sent_run F (rsc_next s u) x ts'"
    proof (rule Cons.IH [OF z(1) rsc_next_range [OF Cons.prems(2)]])
      show "length ts' = length x" using Cons.prems(3) ts by simp
      show "case ts' ! i of (sy, pa, a) \<Rightarrow> agrees F (x ! i) sy \<and> agrees F (z' ! i) pa \<and> agrees F (x ! i) a"
        if "i < length x" for i
        using Cons.prems(4) [of "Suc i"] that by (simp add: ts z)
    qed
    moreover have "sent_step F s u t" using Cons.prems(4) [of 0] by (simp add: ts z sent_step_def)
    ultimately show ?case using Cons.prems(2) by (simp add: ts)
  qed simp
  have sent: "sent_run F 0 x ?ts" by (rule runs [OF run]) (use len sys par ap in auto)
  let ?s = "state_after 0 (take i x)"
  have next_s: "state_after 0 (take (Suc i) x) = rsc_next ?s (x ! i)"
    using i len by (simp add: take_Suc_conv_app_nth rsc_data_append Let_def case_prod_beta)
  have zi: "z ! i = rsc_parity ?s (x ! i)"
  proof -
    have "x = take i x @ x ! i # drop (Suc i) x" using i len by (simp add: id_take_nth_drop)
    then have "z = snd (rsc_data 0 (take i x @ x ! i # drop (Suc i) x))" using run by simp
    then show ?thesis using i len by (simp add: rsc_data_append Let_def case_prod_beta nth_append)
  qed
  have "leads F (alphas F ?ts (terminal_row F) ! i) ?s"
    by (rule sent_run_alphas [OF F sent leads_terminal [OF F]]) (use i len in simp)
  moreover have "leads F (betas F ?ts ! (i + 1)) (rsc_next ?s (x ! i))"
    using sent_run_betas [OF F sent, of "Suc i"] i len next_s by simp
  moreover have "agrees F (rsc_parity ?s (x ! i)) (par ! i)" using par [OF i] zi by simp
  ultimately have "fle F (parity_best F (par ! i) (alphas F ?ts (terminal_row F) ! i) (betas F ?ts ! (i + 1)) (\<not> x ! i))
      (parity_best F (par ! i) (alphas F ?ts (terminal_row F) ! i) (betas F ?ts ! (i + 1)) (x ! i))"
    by (rule parity_best_sent [OF F])
  then show ?thesis
    using i sub_le [OF F] sub_ge [OF F] by (cases "x ! i") (simp_all add: bcjr_def Let_def agrees_def)
qed

lemma set_all:
  assumes "i < length a" "P i (a ! i)" "\<And>j. j < n \<Longrightarrow> g j = i \<Longrightarrow> P i (f j)"
  shows "P i (foldl (\<lambda>a i. a[g i := f i]) a [0..<n] ! i)"
proof -
  have "length (foldl (\<lambda>a i. a[g i := f i]) a js) = length a \<and>
      ((\<forall>j \<in> set js. j < n) \<longrightarrow> P i (foldl (\<lambda>a i. a[g i := f i]) a js ! i))" for js
  proof (induction js rule: rev_induct)
    case (snoc j js)
    then show ?case using assms(1,3) by (cases "g j = i") (auto simp: nth_list_update)
  qed (use assms(2) in simp)
  then show ?thesis by auto
qed

lemma length_fold_updates [simp]: "length (foldl (\<lambda>a i. a[g i := f i]) a js) = length a"
  by (induction js arbitrary: a) simp_all

text \<open>The transmitted streams and the received values: every value agrees with its bit.\<close>

definition received_as :: "'f llr_ops \<Rightarrow> bool list \<Rightarrow> 'f list \<Rightarrow> bool" where
  "received_as F bs rs \<longleftrightarrow> list_all2 (agrees F) bs rs"

lemma received_nth: "received_as F bs rs \<Longrightarrow> i < length bs \<Longrightarrow> agrees F (bs ! i) (rs ! i)"
  by (simp add: received_as_def list_all2_conv_all_nth)

lemma received_tail:
  "received_as F ds rs \<Longrightarrow> agrees F a a' \<Longrightarrow> agrees F b b' \<Longrightarrow> agrees F c c' \<Longrightarrow>
   received_as F (take n ds @ [a, b, c]) (take n rs @ [a', b', c'])"
  unfolding received_as_def by (intro list_all2_appendI list_all2_takeI) simp_all

lemma three_nth: "length ys = n \<Longrightarrow> (ys @ [a, b, c]) ! n = a" "length ys = n \<Longrightarrow> (ys @ [a, b, c]) ! (n + 1) = b"
  "length ys = n \<Longrightarrow> (ys @ [a, b, c]) ! (n + 2) = c"
  by (simp_all add: nth_append)

lemma exchange_agrees:
  assumes F: "rounded_order F" and k: "lte_turbo_size_index (int n) \<noteq> None" and n: "length us = n"
    and enc: "lte_turbo_encode us (int n) = Some (d0, d1, d2)"
    and r: "received_as F d0 r0" "received_as F d1 r1" "received_as F d2 r2"
    and prior: "length (fst p) = n + 3" "\<forall>i < n + 3. agrees F (fst (rsc_encode us) ! i) (fst p ! i)"
    and next_a: "next_a = turbo_exchange F n r0 r1 r2 p"
  shows "length (fst next_a) = n + 3 \<and>
    (\<forall>i < n + 3. agrees F (fst (rsc_encode us) ! i) (fst next_a ! i)) \<and>
    (\<forall>i < n. agrees F (us ! i) (snd next_a ! i))"
proof -
  define a1 where "a1 = fst p"
  have a1: "length a1 = n + 3" "\<And>i. i < n + 3 \<Longrightarrow> agrees F (fst (rsc_encode us) ! i) (a1 ! i)"
    using prior by (simp_all add: a1_def)
  obtain x z where x: "rsc_encode us = (x, z)" by fastforce
  obtain xp zp where xp: "rsc_encode (interleaved n us) = (xp, zp)" by fastforce
  note str = encode_streams [OF enc n x xp]
  note run = rsc_encode_run [OF x] and runp = rsc_encode_run [OF xp]
  have lp: "length xp = n + 3" "length zp = n + 3" "length x = n + 3" "length z = n + 3"
    using run runp n by (simp_all add: interleaved_def)
  have lr: "length r0 = n + 4" "length r1 = n + 4" "length r2 = n + 4"
    using r str(8-10) by (auto simp: received_as_def dest: list_all2_lengthD)
  have pi: "nat (lte_turbo_pi (int n) (int i)) < n" if "i < n" for i
    using pi_range [OF k, of "int i"] that by simp
  have at: "agrees F (d0 ! i) (r0 ! i)" "agrees F (d1 ! i) (r1 ! i)" "agrees F (d2 ! i) (r2 ! i)" if "i < n + 4" for i
    using that r str(8-10) by (simp_all add: received_nth)
  have parts: "received_as F (first_sys n d0 d1 d2) (first_sys n r0 r1 r2)"
    "received_as F (first_par n d0 d1 d2) (first_par n r0 r1 r2)"
    "received_as F (second_par n d0 d1 d2) (second_par n r0 r1 r2)"
    unfolding first_sys_def first_par_def second_par_def
    by (rule received_tail [OF r(1)] received_tail [OF r(2)] received_tail [OF r(3)]; rule at; simp)+
  have xi: "x ! i = us ! i" if "i < n" for i using run(4) n that by (metis nth_take)
  have xpi: "xp ! i = us ! nat (lte_turbo_pi (int n) (int i))" if "i < n" for i
  proof -
    have "take n xp = interleaved n us" using runp(4) by (simp add: interleaved_def)
    then have "xp ! i = interleaved n us ! i" using that by (metis nth_take)
    then show ?thesis using that by (simp add: interleaved_def)
  qed
  have r0i: "agrees F (us ! i) (r0 ! i)" if "i < n" for i
  proof -
    have "d0 ! i = us ! i" using that by (simp flip: str(7))
    then show ?thesis using at(1) [of i] that by simp
  qed
  have sys2: "agrees F (xp ! i) (second_sys n r0 r1 r2 ! i)" if i: "i < n + 3" for i
  proof (cases "i < n")
    case True
    then show ?thesis using r0i [OF pi [OF True]] by (simp add: second_sys_def nth_append xpi)
  next
    case False
    with i consider "i = n" | "i = n + 1" | "i = n + 2" by linarith
    then show ?thesis
      using at(1) [of "n + 2"] at(3) [of "n + 2"] at(2) [of "n + 3"] unfolding str(4-6)
      by cases (simp_all add: second_sys_def nth_append)
  qed
  define e1 where "e1 = bcjr F (first_sys n r0 r1 r2) (first_par n r0 r1 r2) a1 (n + 3)"
  have e1: "agrees F (x ! i) (e1 ! i)" if "i < n + 3" for i
    unfolding e1_def
    by (rule bcjr_agrees [OF F run(1)])
       (use that received_nth [OF parts(1)] received_nth [OF parts(2)] a1 str(1,2) lp x n run(2) in simp_all)
  define a2 where "a2 = map (\<lambda>i. e1 ! nat (lte_turbo_pi (int n) (int i))) [0..<n] @ replicate 3 (fzero F)"
  have a2: "agrees F (xp ! i) (a2 ! i)" if "i < n + 3" for i
  proof (cases "i < n")
    case True
    let ?j = "nat (lte_turbo_pi (int n) (int i))"
    have "agrees F (us ! ?j) (e1 ! ?j)" using e1 [of ?j] pi [OF True] xi [OF pi [OF True]] by simp
    then show ?thesis using True by (simp add: a2_def nth_append xpi)
  qed (use that agrees_zero [OF F] in \<open>simp add: a2_def nth_append\<close>)
  define e2 where "e2 = bcjr F (second_sys n r0 r1 r2) (second_par n r0 r1 r2) a2 (n + 3)"
  have e2: "agrees F (xp ! i) (e2 ! i)" if "i < n + 3" for i
    unfolding e2_def
    by (rule bcjr_agrees [OF F runp(1)])
       (use that sys2 received_nth [OF parts(3)] a2 str(3) lp in simp_all)
  let ?a = "foldl (\<lambda>a i. a[nat (lte_turbo_pi (int n) (int i)) := e2 ! i]) a1 [0..<n]"
  have step: "next_a = (take n ?a @ replicate 3 (fzero F), e1)"
    by (simp add: next_a turbo_exchange_def Let_def a1_def [symmetric] e1_def [symmetric] a2_def [symmetric] e2_def [symmetric])
  have upd: "agrees F (us ! i) (?a ! i)" if i: "i < n" for i
  proof (rule set_all [where P = "\<lambda>i v. agrees F (us ! i) v" and n = n])
    show "agrees F (us ! i) (a1 ! i)" using a1(2) [of i] i x xi by simp
    show "agrees F (us ! i) (e2 ! j)" if "j < n" "nat (lte_turbo_pi (int n) (int j)) = i" for j
      using e2 [of j] that xpi by simp
  qed (use i a1 in simp_all)
  have "agrees F (x ! i) ((take n ?a @ replicate 3 (fzero F)) ! i)" if "i < n + 3" for i
    using that upd [of i] xi [of i] agrees_zero [OF F] a1(1) by (auto simp: nth_append)
  moreover have "agrees F (us ! i) (e1 ! i)" if "i < n" for i using e1 [of i] xi [OF that] that by simp
  ultimately show ?thesis using a1(1) by (simp add: step x)
qed

lemma decode_signs:
  assumes "rounded_order F" "lte_turbo_encode us k = Some (d0, d1, d2)" "length us = nat k" "0 \<le> k"
    and "received_as F d0 r0" "received_as F d1 r1" "received_as F d2 r2"
    and "\<And>i. i < length us \<Longrightarrow> decides F (us ! i) (r0 ! i)" and "0 < iterations"
  shows "lte_turbo_decode F left_over r0 r1 r2 k iterations = Some us"
proof -
  note F = assms(1)
  define n where "n = nat k"
  have k: "k = int n" and n: "length us = n" using assms(3,4) by (simp_all add: n_def)
  have idx: "lte_turbo_size_index (int n) \<noteq> None"
    using assms(2) by (auto simp: lte_turbo_encode_def k split: if_splits)
  note enc = assms(2) [unfolded k]
  obtain x z where x: "rsc_encode us = (x, z)" by fastforce
  let ?init = "(replicate (n + 3) (fzero F), left_over)"
  let ?ok = "\<lambda>p. length (fst p) = n + 3 \<and> (\<forall>i < n + 3. agrees F (x ! i) (fst p ! i))"
  note step = exchange_agrees [OF F idx n enc assms(5-7) _ _ refl, unfolded x fst_conv]
  have ok: "?ok ((turbo_exchange F n r0 r1 r2 ^^ m) ?init)" for m
  proof (induction m)
    case 0
    show ?case using agrees_zero [OF F] by simp
  next
    case (Suc m)
    show ?case using step [OF conjunct1 [OF Suc] conjunct2 [OF Suc]] by simp
  qed
  obtain m where m: "nat iterations = Suc m" using assms(9) by (metis Suc_pred zero_less_nat_eq)
  obtain a1 e1 where run: "(turbo_exchange F n r0 r1 r2 ^^ nat iterations) ?init = (a1, e1)" by fastforce
  then have run_m: "turbo_exchange F n r0 r1 r2 ((turbo_exchange F n r0 r1 r2 ^^ m) ?init) = (a1, e1)" by (simp add: m)
  have a: "\<forall>i < n + 3. agrees F (x ! i) (a1 ! i)" and e: "\<forall>i < n. agrees F (us ! i) (e1 ! i)"
    using step [OF conjunct1 [OF ok [of m]] conjunct2 [OF ok [of m]]] unfolding run_m fst_conv snd_conv by blast+
  have "fgt F (fzero F) (fadd F (fadd F (first_sys n r0 r1 r2 ! i) (a1 ! i)) (e1 ! i)) = us ! i" if i: "i < n" for i
  proof -
    have "x ! i = us ! i" using rsc_encode_run(4) [OF x] i n by (metis nth_take)
    then have ai: "agrees F (us ! i) (a1 ! i)" using spec [OF a, of i] i by simp
    have "length r0 = n + 4"
      using assms(5) encode_streams(8) [OF enc n x] by (metis list_all2_lengthD received_as_def surj_pair)
    then have "first_sys n r0 r1 r2 ! i = r0 ! i" using i by (simp add: first_sys_def nth_append)
    moreover have "decides F (us ! i) (fadd F (fadd F (r0 ! i) (a1 ! i)) (e1 ! i))"
      using assms(8) [of i] i n ai e by (intro decides_add [OF F]) auto
    ultimately show ?thesis
      using le_total [OF F] by (auto simp: decides_def gt_le [OF F] split: if_splits)
  qed
  then show ?thesis
    using idx n by (auto simp: lte_turbo_decode_def k run Let_def intro: nth_equalityI)
qed

text \<open>A decoder that receives soft values of the right sign returns the block that was encoded, for
  every permitted size, every number of exchanges but zero and whatever an earlier call left in its
  static arrays. Only the information bits have to be decided; every parity and every tail position may
  be an erasure.\<close>

theorem lte_turbo_decode_signs:
  assumes "rounded_order F" "lte_turbo_encode us k = Some (d0, d1, d2)" "length us = nat k" "0 \<le> k"
    and "received_as F d0 r0" "received_as F d1 r1" "received_as F d2 r2"
    and "\<And>i. i < length us \<Longrightarrow> decides F (us ! i) (r0 ! i)" and "0 < iterations"
  shows "lte_turbo_decode F left_over r0 r1 r2 k iterations = Some us"
  by (rule decode_signs) (use assms in simp_all)

text \<open>Integers with a rounding halving satisfy the laws.\<close>

definition int_llrs :: "int llr_ops" where
  "int_llrs = \<lparr>fadd = (+), fsub = (-), fneg = uminus, fhalf = (\<lambda>a. a div 2), fle = (\<le>), fgt = (>),
     fzero = 0, fninf = - (10 ^ 30)\<rparr>"

lemma int_llrs_rounded: "rounded_order int_llrs"
  by (auto simp: rounded_order_def int_llrs_def zdiv_mono1)

definition sent_values :: "bool list \<Rightarrow> int list" where
  "sent_values bs = map (\<lambda>b. if b then - 1 else 1) bs"

lemma sent_values_received: "received_as int_llrs bs (sent_values bs)"
  by (auto simp: received_as_def sent_values_def list_all2_conv_all_nth agrees_def int_llrs_def)

lemma lte_turbo_decode_signs_witness:
  "\<exists>d0 d1 d2. lte_turbo_encode (replicate 40 True) 40 = Some (d0, d1, d2) \<and>
     lte_turbo_decode int_llrs [] (sent_values d0) (sent_values d1) (sent_values d2) 40 8 = Some (replicate 40 True)"
proof -
  have idx: "lte_turbo_size_index 40 = Some 0" by (simp add: lte_turbo_size_index_def qpp_def)
  then obtain d0 d1 d2 where enc: "lte_turbo_encode (replicate 40 True) 40 = Some (d0, d1, d2)"
    by (simp add: lte_turbo_encode_def Let_def case_prod_beta)
  obtain x z where x: "rsc_encode (replicate 40 True) = (x, z)" by fastforce
  obtain xp zp where xp: "rsc_encode (interleaved 40 (replicate 40 True)) = (xp, zp)" by fastforce
  have d0: "take 40 d0 = replicate 40 True" "length d0 = 44"
    using encode_streams(7,8) [of "replicate 40 True" 40, OF _ _ x xp] enc by simp_all
  have "decides int_llrs (replicate 40 True ! i) (sent_values d0 ! i)" if i: "i < length (replicate 40 True)" for i
  proof -
    have "d0 ! i = replicate 40 True ! i" using i by (metis d0(1) length_replicate nth_take)
    then show ?thesis using i d0(2) by (simp add: sent_values_def decides_def int_llrs_def)
  qed
  then show ?thesis
    using enc lte_turbo_decode_signs [OF int_llrs_rounded enc _ _ sent_values_received sent_values_received
        sent_values_received, of 8 "[]"] by auto
qed

end
