(* ===== verification/Lte_Transport.thy ===== *)
theory Lte_Transport
  imports Lte_Turbo Check_Register
begin

text \<open>
  What happens to an LTE transport block around the turbo code, from \<open>src/src/tech/lte_transport.c\<close>:
  the two 24-bit parities, and the rate matching that reads a circular buffer from one of four starting
  points, past the interleaver's padding and the block's fillers, as often as the allocation needs.
  The buffer's bookkeeping is a bijection onto the bits that are transmitted, every one of them is sent
  equally often up to one, and the receiver's chain (de-matching, turbo decoding) gives a block back.
\<close>

unbundle bit_operations_syntax

subsection \<open>Parity\<close>

definition LTE_CRC24A_POLY :: u32 where "LTE_CRC24A_POLY = 0x864cfb"
definition LTE_CRC24B_POLY :: u32 where "LTE_CRC24B_POLY = 0x800063"

definition crc24_step :: "u32 \<Rightarrow> u32 \<Rightarrow> bool \<Rightarrow> u32" where
  "crc24_step poly reg x =
     (let feedback = (bit reg 23 \<noteq> x); reg = push_bit 1 reg AND 0xffffff
      in if feedback then reg XOR poly else reg)"

definition crc24 :: "bool list \<Rightarrow> u32 \<Rightarrow> u32" where
  "crc24 bits poly = foldl (crc24_step poly) 0 bits"

definition lte_crc24a :: "bool list \<Rightarrow> u32" where
  "lte_crc24a bits = crc24 bits LTE_CRC24A_POLY"

definition lte_crc24b :: "bool list \<Rightarrow> u32" where
  "lte_crc24b bits = crc24 bits LTE_CRC24B_POLY"

subsection \<open>The circular buffer\<close>

definition LTE_TURBO_TAIL :: nat where "LTE_TURBO_TAIL = 4"
definition LTE_TURBO_MAX_K :: nat where "LTE_TURBO_MAX_K = 6144"
definition LTE_RM_COLUMNS :: nat where "LTE_RM_COLUMNS = 32"

definition rm_column_order :: "nat list" where
  "rm_column_order =
     [0, 16,  8, 24,  4, 20, 12, 28,  2, 18, 10, 26,  6, 22, 14, 30,
      1, 17,  9, 25,  5, 21, 13, 29,  3, 19, 11, 27,  7, 23, 15, 31]"

record lte_rm_plan =
  rm_k :: nat
  rm_fillers :: nat
  rm_coded :: nat
  rm_rows :: nat
  rm_padding :: nat
  rm_stream :: nat
  rm_buffer :: nat

definition lte_rm_plan_make :: "int \<Rightarrow> int \<Rightarrow> lte_rm_plan option" where
  "lte_rm_plan_make k fillers =
     (if lte_turbo_size_index k = None \<or> fillers < 0 \<or> k \<le> fillers then None
      else let coded = nat k + LTE_TURBO_TAIL;
               rows = (coded + LTE_RM_COLUMNS - 1) div LTE_RM_COLUMNS;
               stream = rows * LTE_RM_COLUMNS
           in Some \<lparr>rm_k = nat k, rm_fillers = nat fillers, rm_coded = coded, rm_rows = rows,
                rm_padding = stream - coded, rm_stream = stream, rm_buffer = 3 * stream\<rparr>)"

definition interleaved_source :: "lte_rm_plan \<Rightarrow> nat \<Rightarrow> nat" where
  "interleaved_source p at =
     (let column = at div rm_rows p; row = at mod rm_rows p
      in row * LTE_RM_COLUMNS + rm_column_order ! column)"

definition interleaved_source_two :: "lte_rm_plan \<Rightarrow> nat \<Rightarrow> nat" where
  "interleaved_source_two p at =
     (let column = at div rm_rows p; row = at mod rm_rows p
      in (rm_column_order ! column + LTE_RM_COLUMNS * row + 1) mod rm_stream p)"

text \<open>\<open>None\<close>: nothing was ever written there.\<close>

definition lte_rm_origin :: "lte_rm_plan \<Rightarrow> int \<Rightarrow> nat option" where
  "lte_rm_origin p at0 =
     (if at0 < 0 \<or> int (rm_buffer p) \<le> at0 then None
      else let at = nat at0;
               (stream, cell) =
                 (if at < rm_stream p then (0, interleaved_source p at)
                  else if even (at - rm_stream p) then (1, interleaved_source p ((at - rm_stream p) div 2))
                  else (2, interleaved_source_two p ((at - rm_stream p) div 2)))
           in if cell < rm_padding p then None
              else let index = cell - rm_padding p
                   in if rm_coded p \<le> index then None
                      else if stream \<noteq> 2 \<and> index < rm_fillers p then None
                      else Some (stream * rm_coded p + index))"

definition lte_rm_start :: "lte_rm_plan \<Rightarrow> int \<Rightarrow> nat option" where
  "lte_rm_start p rv =
     (if rv < 0 \<or> 3 < rv then None
      else let per_window = (rm_buffer p + 8 * rm_rows p - 1) div (8 * rm_rows p)
           in Some ((rm_rows p * (2 * per_window * nat rv + 2)) mod rm_buffer p))"

subsection \<open>Bit selection\<close>

text \<open>One trip round the buffer, then the found positions again in the same order.\<close>

definition walk_buffer :: "lte_rm_plan \<Rightarrow> nat \<Rightarrow> nat \<Rightarrow> nat list" where
  "walk_buffer p start want =
     foldl (\<lambda>positions step.
         let at = (start + step) mod rm_buffer p
         in if length positions < want \<and> lte_rm_origin p (int at) \<noteq> None then positions @ [at] else positions)
       [] [0..<rm_buffer p]"

definition repeat_positions :: "nat list \<Rightarrow> nat \<Rightarrow> nat list" where
  "repeat_positions positions want =
     foldl (\<lambda>ps found. ps @ [ps ! (found mod length positions)]) positions [length positions..<want]"

definition selection :: "lte_rm_plan \<Rightarrow> int \<Rightarrow> nat \<Rightarrow> nat list" where
  "selection p rv want =
     (case lte_rm_start p rv of None \<Rightarrow> []
      | Some start \<Rightarrow>
          let positions = walk_buffer p start want
          in if positions = [] then [] else repeat_positions positions want)"

definition RM_POSITIONS :: nat where
  "RM_POSITIONS = 3 * (LTE_TURBO_MAX_K + LTE_TURBO_TAIL) + 32"

definition lte_rate_match ::
  "lte_rm_plan \<Rightarrow> int \<Rightarrow> bool list \<Rightarrow> bool list \<Rightarrow> bool list \<Rightarrow> int \<Rightarrow> bool list" where
  "lte_rate_match p rv d0 d1 d2 e =
     (if e \<le> 0 then [] else if int RM_POSITIONS < e then []
      else map (\<lambda>at. let origin = the (lte_rm_origin p (int at))
                     in [d0, d1, d2] ! (origin div rm_coded p) ! (origin mod rm_coded p))
             (selection p rv (nat e)))"

text \<open>The filler positions of stream 0 are known: \<open>known\<close> is \<open>LTE_RM_KNOWN_LLR\<close>, ten.\<close>

definition lte_rate_dematch ::
  "'f llr_ops \<Rightarrow> 'f \<Rightarrow> lte_rm_plan \<Rightarrow> int \<Rightarrow> 'f list \<Rightarrow> int \<Rightarrow> 'f list \<times> 'f list \<times> 'f list" where
  "lte_rate_dematch F known p rv soft e =
     (let zeros = replicate (rm_coded p) (fzero F)
      in if e \<le> 0 \<or> int RM_POSITIONS < e then (zeros, zeros, zeros)
         else let positions = selection p rv (nat e);
                  streams = foldl (\<lambda>streams i.
                      let origin = the (lte_rm_origin p (int (positions ! i)));
                          s = origin div rm_coded p; j = origin mod rm_coded p
                      in streams[s := (streams ! s)[j := fadd F (streams ! s ! j) (soft ! i)]])
                    [zeros, zeros, zeros] [0..<length positions];
                  d0 = foldl (\<lambda>d i. d[i := known]) (streams ! 0) [0..<rm_fillers p]
              in (d0, streams ! 1, streams ! 2))"

subsection \<open>What the parities detect\<close>

lemma mask_24: "a AND 0xffffff = take_bit 24 (a :: u32)"
  by (simp add: take_bit_eq_mask mask_eq_exp_minus_1)

lemma crc24_register:
  assumes "bit poly 0" "take_bit 24 poly = poly"
  shows "feedback_register (crc24_step poly) 24"
  by (rule feedback_registerI [where poly = poly]) (use assms in \<open>simp_all add: crc24_step_def mask_24 Let_def\<close>)

interpretation crc24a: feedback_register "crc24_step LTE_CRC24A_POLY" 24
  by (rule crc24_register) (simp_all add: LTE_CRC24A_POLY_def)

interpretation crc24b: feedback_register "crc24_step LTE_CRC24B_POLY" 24
  by (rule crc24_register) (simp_all add: LTE_CRC24B_POLY_def)

text \<open>Either parity of a block followed by its parity bits is zero, and no burst of up to 24 wrong
  bits, anywhere in the block or its parity, leaves it zero.\<close>

theorem lte_crc24_detects_bursts:
  assumes "length burst \<le> 24" "True \<in> set burst" "i + length burst + j = length msg + 24"
  defines "err \<equiv> replicate i False @ burst @ replicate j False"
  shows "lte_crc24a (msg @ word_bits 24 (lte_crc24a msg)) = 0 \<and>
    lte_crc24a (xor_bits (msg @ word_bits 24 (lte_crc24a msg)) err) \<noteq> 0 \<and>
    lte_crc24b (msg @ word_bits 24 (lte_crc24b msg)) = 0 \<and>
    lte_crc24b (xor_bits (msg @ word_bits 24 (lte_crc24b msg)) err) \<noteq> 0"
proof -
  have a: "lte_crc24a (msg @ word_bits 24 (lte_crc24a msg)) = 0"
    using crc24a.append_check [OF crc24a.run_range [of 0 msg]] by (simp add: lte_crc24a_def crc24_def)
  have b: "lte_crc24b (msg @ word_bits 24 (lte_crc24b msg)) = 0"
    using crc24b.append_check [OF crc24b.run_range [of 0 msg]] by (simp add: lte_crc24b_def crc24_def)
  have len: "length (msg @ word_bits 24 r) = length err" for r :: u32
    using assms(3) by (simp add: err_def)
  have "foldl (crc24_step LTE_CRC24A_POLY) 0 err \<noteq> 0" unfolding err_def
    by (rule crc24a.burst) (use assms in simp_all)
  moreover have "foldl (crc24_step LTE_CRC24B_POLY) 0 err \<noteq> 0" unfolding err_def
    by (rule crc24b.burst) (use assms in simp_all)
  ultimately show ?thesis
    using a b crc24a.error_changes [OF len, of 0 "lte_crc24a msg"] crc24b.error_changes [OF len, of 0 "lte_crc24b msg"]
    by (simp add: lte_crc24a_def lte_crc24b_def crc24_def)
qed

lemma lte_crc24_detects_bursts_witness:
  "lte_crc24a (xor_bits ([True, False] @ word_bits 24 (lte_crc24a [True, False]))
     (replicate 1 False @ [True] @ replicate 24 False)) \<noteq> 0"
  using lte_crc24_detects_bursts [of "[True]" 1 24 "[True, False]"] by simp

subsection \<open>The buffer is a bijection onto what is transmitted\<close>

text \<open>What a plan promises.\<close>

definition rm_ok :: "lte_rm_plan \<Rightarrow> bool" where
  "rm_ok p \<longleftrightarrow> 0 < rm_rows p \<and> rm_stream p = 32 * rm_rows p \<and> rm_buffer p = 3 * rm_stream p \<and>
     rm_coded p + rm_padding p = rm_stream p \<and> rm_fillers p < rm_coded p \<and> 0 < rm_coded p \<and>
     lte_turbo_size_index (int (rm_k p)) \<noteq> None \<and> rm_coded p = rm_k p + 4 \<and> rm_fillers p < rm_k p"

lemma plan_make_ok:
  assumes "lte_rm_plan_make k fillers = Some p"
  shows "rm_ok p"
proof -
  define c r where "c = nat k + 4" and "r = (nat k + 35) div 32"
  have k: "lte_turbo_size_index k \<noteq> None" "0 \<le> fillers" "fillers < k"
    using assms by (simp_all add: lte_rm_plan_make_def split: if_splits)
  obtain y where "lte_turbo_size_index k = Some y" using k(1) by auto
  with k have p: "p = \<lparr>rm_k = nat k, rm_fillers = nat fillers, rm_coded = c, rm_rows = r, rm_padding = r * 32 - c,
      rm_stream = r * 32, rm_buffer = 3 * (r * 32)\<rparr>"
    using assms by (simp add: lte_rm_plan_make_def Let_def LTE_TURBO_TAIL_def LTE_RM_COLUMNS_def c_def r_def ac_simps)
  have "n + 4 \<le> (n + 35) div 32 * 32" for n :: nat by presburger
  then have "c \<le> r * 32" unfolding c_def r_def .
  moreover have "0 < r" unfolding r_def by (simp add: div_greater_zero_iff)
  ultimately show ?thesis using k by (simp add: p rm_ok_def c_def)
qed

lemma column_order: "length rm_column_order = 32" "distinct rm_column_order" "set rm_column_order \<subseteq> {..<32}"
  by (simp_all add: rm_column_order_def)

lemma column_below: "c < 32 \<Longrightarrow> rm_column_order ! c < 32"
  by (metis column_order(1,3) lessThan_iff nth_mem subsetD)

lemma interleaved_source_inj:
  assumes "rm_ok p" "a < rm_stream p" "b < rm_stream p" "interleaved_source p a = interleaved_source p b"
  shows "a = b"
proof -
  define r where "r = rm_rows p"
  have ab: "a div r < 32" "b div r < 32"
    using assms(1-3) by (simp_all add: rm_ok_def r_def div_less_iff_less_mult)
  then have c: "rm_column_order ! (a div r) < 32" "rm_column_order ! (b div r) < 32"
    by (simp_all add: column_below)
  have eq: "a mod r * 32 + rm_column_order ! (a div r) = b mod r * 32 + rm_column_order ! (b div r)"
    using assms(4) by (simp add: interleaved_source_def Let_def LTE_RM_COLUMNS_def r_def)
  then have "(a mod r * 32 + rm_column_order ! (a div r)) div 32 = (b mod r * 32 + rm_column_order ! (b div r)) div 32"
    "(a mod r * 32 + rm_column_order ! (a div r)) mod 32 = (b mod r * 32 + rm_column_order ! (b div r)) mod 32"
    by simp_all
  then have "a mod r = b mod r" "rm_column_order ! (a div r) = rm_column_order ! (b div r)" using c by simp_all
  moreover from this(2) have "a div r = b div r"
    using column_order(1,2) ab by (simp add: nth_eq_iff_index_eq)
  ultimately show ?thesis by (metis div_mult_mod_eq)
qed

lemma interleaved_source_range: "rm_ok p \<Longrightarrow> a < rm_stream p \<Longrightarrow> interleaved_source p a < rm_stream p"
proof -
  assume p: "rm_ok p" and a: "a < rm_stream p"
  define r where "r = rm_rows p"
  have "0 < r" "rm_stream p = 32 * r" "a div r < 32" using p a by (simp_all add: rm_ok_def r_def div_less_iff_less_mult)
  moreover from this have "rm_column_order ! (a div r) < 32" by (simp add: column_below)
  moreover have "a mod r < r" using \<open>0 < r\<close> by simp
  then have "(a mod r + 1) * 32 \<le> r * 32" by simp
  ultimately show ?thesis by (simp add: interleaved_source_def Let_def LTE_RM_COLUMNS_def r_def [symmetric])
qed

lemma interleaved_source_two_shift: "rm_ok p \<Longrightarrow> interleaved_source_two p a = (interleaved_source p a + 1) mod rm_stream p"
  by (simp add: interleaved_source_two_def interleaved_source_def Let_def ac_simps)

lemma interleaved_source_two_inj:
  assumes "rm_ok p" "a < rm_stream p" "b < rm_stream p" "interleaved_source_two p a = interleaved_source_two p b"
  shows "a = b"
proof -
  let ?n = "rm_stream p"
  have step: "x = y" if "x < ?n" "y < ?n" "(x + 1) mod ?n = (y + 1) mod ?n" for x y
    using that by (cases "x + 1 = ?n"; cases "y + 1 = ?n") auto
  show ?thesis
    using interleaved_source_inj [OF assms(1-3)] step [of "interleaved_source p a" "interleaved_source p b"]
      interleaved_source_range [OF assms(1)] assms by (simp add: interleaved_source_two_shift)
qed

text \<open>Position \<open>a\<close> of the buffer: which stream, and which cell of its rectangle.\<close>

definition rm_cell :: "lte_rm_plan \<Rightarrow> nat \<Rightarrow> nat \<times> nat" where
  "rm_cell p a =
     (if a < rm_stream p then (0, interleaved_source p a)
      else if even (a - rm_stream p) then (1, interleaved_source p ((a - rm_stream p) div 2))
      else (2, interleaved_source_two p ((a - rm_stream p) div 2)))"

lemma rm_cell_range:
  assumes "rm_ok p" "a < rm_buffer p"
  shows "rm_cell p a \<in> {..<3} \<times> {..<rm_stream p}"
proof -
  have s: "0 < rm_stream p" using assms(1) by (simp add: rm_ok_def)
  have "(a - rm_stream p) div 2 < rm_stream p" using assms by (simp add: rm_ok_def div_less_iff_less_mult)
  then show ?thesis
    using interleaved_source_range [OF assms(1)] s
    by (auto simp: rm_cell_def interleaved_source_two_shift [OF assms(1)])
qed

lemma rm_cell_inj: "rm_ok p \<Longrightarrow> inj_on (rm_cell p) {..<rm_buffer p}"
proof (rule inj_onI)
  fix a b assume p: "rm_ok p" and "a \<in> {..<rm_buffer p}" "b \<in> {..<rm_buffer p}" and eq: "rm_cell p a = rm_cell p b"
  then have half: "(a - rm_stream p) div 2 < rm_stream p" "(b - rm_stream p) div 2 < rm_stream p"
    by (simp_all add: rm_ok_def div_less_iff_less_mult)
  have halves: "x = y" if "even x = even y" "x div 2 = y div 2" for x y :: nat
    using that by (metis div_mult_mod_eq even_iff_mod_2_eq_zero not_mod_2_eq_0_eq_1)
  have cell: "x < rm_stream p \<Longrightarrow> rm_cell p x = (0, interleaved_source p x)"
    "\<not> x < rm_stream p \<Longrightarrow> even (x - rm_stream p) \<Longrightarrow>
     rm_cell p x = (1, interleaved_source p ((x - rm_stream p) div 2))"
    "\<not> x < rm_stream p \<Longrightarrow> odd (x - rm_stream p) \<Longrightarrow>
     rm_cell p x = (2, interleaved_source_two p ((x - rm_stream p) div 2))" for x
    by (simp_all only: rm_cell_def if_True if_False simp_thms)
  have number: "fst (rm_cell p x) = (if x < rm_stream p then 0 else if even (x - rm_stream p) then 1 else 2)" for x
    by (cases "x < rm_stream p"; cases "even (x - rm_stream p)") (simp_all only: cell fst_conv if_True if_False simp_thms)
  have nums: "(0 :: nat) \<noteq> 1" "(0 :: nat) \<noteq> 2" "(1 :: nat) \<noteq> 2" by simp_all
  have side: "(a < rm_stream p) = (b < rm_stream p)"
    using arg_cong [OF eq, of fst] nums unfolding number by metis
  show "a = b"
  proof (cases "a < rm_stream p")
    case True
    then have "interleaved_source p a = interleaved_source p b" using eq side cell(1) by simp
    then show ?thesis using interleaved_source_inj [OF p] True side by blast
  next
    case False
    then have parity: "even (a - rm_stream p) = even (b - rm_stream p)"
      using arg_cong [OF eq, of fst] nums side unfolding number by metis
    have "(a - rm_stream p) div 2 = (b - rm_stream p) div 2"
    proof (cases "even (a - rm_stream p)")
      case True
      then show ?thesis
        using eq side parity False cell(2) [of a] cell(2) [of b] by (intro interleaved_source_inj [OF p half]) simp
    next
      case odd: False
      then show ?thesis
        using eq side parity False cell(3) [of a] cell(3) [of b] by (intro interleaved_source_two_inj [OF p half]) simp
    qed
    then have "a - rm_stream p = b - rm_stream p" by (rule halves [OF parity])
    then show ?thesis using False side by linarith
  qed
qed

lemma rm_cell_bij:
  assumes "rm_ok p"
  shows "bij_betw (rm_cell p) {..<rm_buffer p} ({..<3} \<times> {..<rm_stream p})"
proof -
  have "rm_cell p ` {..<rm_buffer p} \<subseteq> {..<3} \<times> {..<rm_stream p}" using rm_cell_range [OF assms] by blast
  moreover have "card (rm_cell p ` {..<rm_buffer p}) = card ({..<3 :: nat} \<times> {..<rm_stream p})"
    unfolding card_image [OF rm_cell_inj [OF assms]] using assms by (simp add: rm_ok_def card_cartesian_product)
  ultimately have "rm_cell p ` {..<rm_buffer p} = {..<3} \<times> {..<rm_stream p}"
    by (intro card_subset_eq) simp_all
  then show ?thesis using rm_cell_inj [OF assms] by (simp add: bij_betw_def)
qed

text \<open>The bits that are transmitted, and the positions that carry one.\<close>

definition rm_sent :: "lte_rm_plan \<Rightarrow> nat set" where
  "rm_sent p = {s * rm_coded p + i | s i. s < 3 \<and> i < rm_coded p \<and> (s = 2 \<or> rm_fillers p \<le> i)}"

definition rm_places :: "lte_rm_plan \<Rightarrow> nat set" where
  "rm_places p = {a. a < rm_buffer p \<and> lte_rm_origin p (int a) \<noteq> None}"

lemma origin_cell:
  assumes "rm_ok p" "a < rm_buffer p"
  shows "lte_rm_origin p (int a) = (case rm_cell p a of (s, c) \<Rightarrow>
    if c < rm_padding p \<or> s \<noteq> 2 \<and> c - rm_padding p < rm_fillers p then None
    else Some (s * rm_coded p + (c - rm_padding p)))"
proof -
  obtain s c where cell: "rm_cell p a = (s, c)" by fastforce
  then have "c < rm_stream p" using rm_cell_range [OF assms] by auto
  moreover have "rm_coded p + rm_padding p = rm_stream p" using assms(1) by (simp add: rm_ok_def)
  ultimately have "\<not> rm_coded p \<le> c - rm_padding p \<or> c < rm_padding p" by linarith
  moreover have "lte_rm_origin p (int a) = (let (s, c) = rm_cell p a in
      if c < rm_padding p then None else if rm_coded p \<le> c - rm_padding p then None
      else if s \<noteq> 2 \<and> c - rm_padding p < rm_fillers p then None
      else Some (s * rm_coded p + (c - rm_padding p)))"
    using assms(2) by (simp add: lte_rm_origin_def rm_cell_def Let_def)
  ultimately show ?thesis by (auto simp: cell)
qed

lemma sent_number:
  "i < (c :: nat) \<Longrightarrow> j < c \<Longrightarrow> s * c + i = t * c + j \<longleftrightarrow> s = t \<and> i = j"
proof -
  assume "i < c" "j < c"
  then have "(s * c + i) div c = s" "(t * c + j) div c = t" "(s * c + i) mod c = i" "(t * c + j) mod c = j" by simp_all
  then show ?thesis by metis
qed

lemma origin_bij:
  assumes p: "rm_ok p"
  shows "bij_betw (\<lambda>a. the (lte_rm_origin p (int a))) (rm_places p) (rm_sent p)"
proof (rule bij_betw_imageI)
  have padding: "rm_coded p + rm_padding p = rm_stream p" using p by (simp add: rm_ok_def)
  have place: "\<exists>s c. rm_cell p a = (s, c) \<and> s < 3 \<and> rm_padding p \<le> c \<and> c - rm_padding p < rm_coded p \<and>
      (s = 2 \<or> rm_fillers p \<le> c - rm_padding p) \<and>
      the (lte_rm_origin p (int a)) = s * rm_coded p + (c - rm_padding p)" if a: "a \<in> rm_places p" for a
  proof -
    obtain s c where cell: "rm_cell p a = (s, c)" by fastforce
    have "a < rm_buffer p" "lte_rm_origin p (int a) \<noteq> None" using a by (simp_all add: rm_places_def)
    then show ?thesis
      using origin_cell [OF p, of a] rm_cell_range [OF p, of a] padding cell by (auto split: if_splits)
  qed
  show "inj_on (\<lambda>a. the (lte_rm_origin p (int a))) (rm_places p)"
  proof (rule inj_onI)
    fix a b assume a: "a \<in> rm_places p" and b: "b \<in> rm_places p"
      and eq: "the (lte_rm_origin p (int a)) = the (lte_rm_origin p (int b))"
    obtain s c where 1: "rm_cell p a = (s, c)" "rm_padding p \<le> c" "c - rm_padding p < rm_coded p"
      "the (lte_rm_origin p (int a)) = s * rm_coded p + (c - rm_padding p)" using place [OF a] by blast
    obtain t d where 2: "rm_cell p b = (t, d)" "rm_padding p \<le> d" "d - rm_padding p < rm_coded p"
      "the (lte_rm_origin p (int b)) = t * rm_coded p + (d - rm_padding p)" using place [OF b] by blast
    have "s = t \<and> c - rm_padding p = d - rm_padding p"
      using eq 1(3,4) 2(3,4) sent_number by metis
    then have "s = t" "c = d" using 1(2) 2(2) by linarith+
    then have "rm_cell p a = rm_cell p b" using 1(1) 2(1) by simp
    then show "a = b" using inj_onD [OF rm_cell_inj [OF p]] a b by (simp add: rm_places_def)
  qed
  show "(\<lambda>a. the (lte_rm_origin p (int a))) ` rm_places p = rm_sent p"
  proof
    show "(\<lambda>a. the (lte_rm_origin p (int a))) ` rm_places p \<subseteq> rm_sent p"
      using place unfolding rm_sent_def by fastforce
    show "rm_sent p \<subseteq> (\<lambda>a. the (lte_rm_origin p (int a))) ` rm_places p"
    proof
      fix v assume "v \<in> rm_sent p"
      then obtain s i where v: "v = s * rm_coded p + i" "s < 3" "i < rm_coded p" "s = 2 \<or> rm_fillers p \<le> i"
        by (auto simp: rm_sent_def)
      then have "(s, i + rm_padding p) \<in> rm_cell p ` {..<rm_buffer p}"
        using rm_cell_bij [OF p] padding by (auto simp: bij_betw_def)
      then obtain a where a: "a < rm_buffer p" "rm_cell p a = (s, i + rm_padding p)" by (auto simp: image_iff)
      then have "lte_rm_origin p (int a) = Some v" using origin_cell [OF p a(1)] v by auto
      then show "v \<in> (\<lambda>a. the (lte_rm_origin p (int a))) ` rm_places p"
        using a(1) by (intro image_eqI [of _ _ a]) (simp_all add: rm_places_def)
    qed
  qed
qed

text \<open>Reading the circular buffer misses nothing and repeats nothing: the positions that carry a bit
  correspond one to one to the encoded bits that are transmitted, which are all but the fillers of
  streams 0 and 1.\<close>

theorem lte_rm_origin_bijection:
  assumes "lte_rm_plan_make k fillers = Some p"
  shows "bij_betw (\<lambda>a. the (lte_rm_origin p (int a))) (rm_places p) (rm_sent p)"
  by (rule origin_bij [OF plan_make_ok [OF assms]])

lemma lte_rm_origin_bijection_witness:
  "case lte_rm_plan_make 40 8 of None \<Rightarrow> False
   | Some p \<Rightarrow> bij_betw (\<lambda>a. the (lte_rm_origin p (int a))) (rm_places p) (rm_sent p)"
proof -
  have "lte_turbo_size_index 40 = Some 0" by (simp add: lte_turbo_size_index_def qpp_def)
  then obtain p where p: "lte_rm_plan_make 40 8 = Some p" by (simp add: lte_rm_plan_make_def Let_def)
  show ?thesis using lte_rm_origin_bijection [OF p] by (simp add: p)
qed

subsection \<open>How often every bit is sent\<close>

definition rm_order :: "lte_rm_plan \<Rightarrow> nat \<Rightarrow> nat list" where
  "rm_order p start =
     filter (\<lambda>a. lte_rm_origin p (int a) \<noteq> None) (map (\<lambda>step. (start + step) mod rm_buffer p) [0..<rm_buffer p])"

lemma walk_is_take: "walk_buffer p start want = take want (rm_order p start)"
proof -
  let ?f = "\<lambda>positions step.
         let at = (start + step) mod rm_buffer p
         in if length positions < want \<and> lte_rm_origin p (int at) \<noteq> None then positions @ [at] else positions"
  have "foldl ?f acc js = acc @ take (want - length acc)
      (filter (\<lambda>a. lte_rm_origin p (int a) \<noteq> None) (map (\<lambda>step. (start + step) mod rm_buffer p) js))"
    if "length acc \<le> want" for acc js
    using that
  proof (induction js arbitrary: acc)
    case (Cons j js)
    then show ?case by (cases "length acc < want") (auto simp: Let_def Suc_diff_Suc take_Cons')
  qed simp
  from this [of "[]"] show ?thesis by (simp add: walk_buffer_def rm_order_def)
qed

lemma rm_order_props:
  assumes "rm_ok p"
  shows "distinct (rm_order p start)" "set (rm_order p start) = rm_places p"
    "length (rm_order p start) = card (rm_sent p)"
proof -
  let ?n = "rm_buffer p"
  have n: "0 < ?n" using assms by (simp add: rm_ok_def)
  have rotate: "y \<le> x" if "x \<le> y" "y < ?n" "(start + x) mod ?n = (start + y) mod ?n" for x y
  proof -
    have "?n dvd (start + y) - (start + x)" using that mod_eq_dvd_iff_nat [of "start + x" "start + y" ?n] by simp
    then show ?thesis using that(2) by (auto dest: dvd_imp_le)
  qed
  have inj: "inj_on (\<lambda>step. (start + step) mod ?n) {0..<?n}"
  proof (rule inj_onI)
    fix x y assume "x \<in> {0..<?n}" "y \<in> {0..<?n}" and eq: "(start + x) mod ?n = (start + y) mod ?n"
    then have "x < ?n" "y < ?n" by simp_all
    then show "x = y" using rotate [OF _ _ eq] rotate [OF _ _ eq [symmetric]] by (meson le_antisym linear)
  qed
  have onto: "(\<lambda>step. (start + step) mod ?n) ` {0..<?n} = {0..<?n}"
    by (rule endo_inj_surj [OF _ _ inj]) (use n in auto)
  show d: "distinct (rm_order p start)" using inj by (simp add: rm_order_def distinct_map)
  show s: "set (rm_order p start) = rm_places p"
  proof -
    have "set (rm_order p start) = {a \<in> (\<lambda>step. (start + step) mod ?n) ` {0..<?n}. lte_rm_origin p (int a) \<noteq> None}"
      by (simp add: rm_order_def)
    also have "\<dots> = rm_places p" unfolding onto rm_places_def by auto
    finally show ?thesis .
  qed
  show "length (rm_order p start) = card (rm_sent p)"
    using distinct_card [OF d] s bij_betw_same_card [OF origin_bij [OF assms]] by simp
qed

lemma repeat_positions_nth:
  assumes "ps \<noteq> []"
  shows "length ps \<le> want \<Longrightarrow> repeat_positions ps want = map (\<lambda>i. ps ! (i mod length ps)) [0..<want]"
proof (induction "want - length ps" arbitrary: want)
  case 0
  then have "want = length ps" by simp
  then show ?case by (auto simp: repeat_positions_def intro: nth_equalityI)
next
  case (Suc m)
  then obtain w where w: "want = Suc w" "length ps \<le> w" by (cases want) auto
  have "repeat_positions ps w = map (\<lambda>i. ps ! (i mod length ps)) [0..<w]" using Suc w by simp
  moreover have "repeat_positions ps want = repeat_positions ps w @ [repeat_positions ps w ! (w mod length ps)]"
    using w(2) by (simp add: w(1) repeat_positions_def)
  moreover have "w mod length ps < w \<or> w mod length ps < length ps" using assms by simp
  moreover have "w mod length ps < w" using w(2) assms by (meson length_greater_0_conv mod_less_divisor order_less_le_trans)
  ultimately show ?case by (simp add: w(1))
qed

text \<open>The selection goes round the positions that carry a bit, as often as it takes.\<close>

lemma selection_cyclic:
  assumes p: "rm_ok p" and start: "lte_rm_start p rv = Some start"
  defines "w \<equiv> rm_order p start"
  shows "selection p rv want = map (\<lambda>i. w ! (i mod length w)) [0..<want]"
proof -
  have "card (rm_sent p) > 0"
  proof -
    have "2 * rm_coded p + 0 \<in> rm_sent p" 
      unfolding rm_sent_def mem_Collect_eq by (intro exI [of _ 2] exI [of _ 0]) (use p in \<open>simp add: rm_ok_def\<close>)
    moreover have "finite (rm_sent p)" using bij_betw_finite [OF origin_bij [OF p]] by (simp add: rm_places_def)
    ultimately show ?thesis by (auto simp: card_gt_0_iff)
  qed
  then have w: "w \<noteq> []" using rm_order_props(3) [OF p, of start] by (auto simp: w_def)
  show ?thesis
  proof (cases "want \<le> length w")
    case True
    then have "map (\<lambda>i. w ! (i mod length w)) [0..<want] = take want w"
      by (intro nth_equalityI) simp_all
    moreover have "repeat_positions (take want w) want = take want w"
      using True by (simp add: repeat_positions_def)
    ultimately show ?thesis by (simp add: selection_def start walk_is_take w_def Let_def)
  next
    case False
    then show ?thesis
      using w repeat_positions_nth [OF w, of want] by (simp add: selection_def start walk_is_take w_def Let_def)
  qed
qed

lemma count_residue:
  "j < n \<Longrightarrow> length (filter (\<lambda>i. i mod n = j) [0..<e]) = e div n + (if j < e mod n then 1 else 0)"
proof (induction e)
  case (Suc e)
  have n: "0 < n" using Suc.prems by simp
  show ?case
  proof (cases "Suc (e mod n) = n")
    case True
    then have "Suc e mod n = 0" "Suc e div n = Suc (e div n)" by (simp_all add: mod_Suc div_Suc)
    then show ?thesis using Suc True by auto
  next
    case False
    then have "Suc e mod n = Suc (e mod n)" "Suc e div n = e div n" by (simp_all add: mod_Suc div_Suc)
    then show ?thesis using Suc by auto
  qed
qed simp

lemma card_rm_sent: "rm_ok p \<Longrightarrow> card (rm_sent p) = 3 * rm_coded p - 2 * rm_fillers p"
proof -
  assume p: "rm_ok p"
  define c f where "c = rm_coded p" and "f = rm_fillers p"
  have f: "f < c" using p by (simp add: rm_ok_def c_def f_def)
  have "rm_sent p = {f..<c} \<union> {c + f..<2 * c} \<union> {2 * c..<3 * c}"
  proof (intro equalityI subsetI)
    fix x assume "x \<in> rm_sent p"
    then obtain s i where x: "x = s * c + i" "s < 3" "i < c" "s = 2 \<or> f \<le> i" by (auto simp: rm_sent_def c_def f_def)
    from x(2) consider "s = 0" | "s = 1" | "s = 2" by linarith
    then show "x \<in> {f..<c} \<union> {c + f..<2 * c} \<union> {2 * c..<3 * c}" using x by cases auto
  next
    fix x assume "x \<in> {f..<c} \<union> {c + f..<2 * c} \<union> {2 * c..<3 * c}"
    then have "\<exists>s i. x = s * c + i \<and> s < 3 \<and> i < c \<and> (s = 2 \<or> f \<le> i)"
    proof (elim UnE)
      assume "x \<in> {f..<c}"
      then show ?thesis by (intro exI [of _ 0] exI [of _ x]) auto
    next
      assume "x \<in> {c + f..<2 * c}"
      then show ?thesis by (intro exI [of _ 1] exI [of _ "x - c"]) auto
    next
      assume "x \<in> {2 * c..<3 * c}"
      then show ?thesis by (intro exI [of _ 2] exI [of _ "x - 2 * c"]) auto
    qed
    then show "x \<in> rm_sent p" by (simp add: rm_sent_def c_def f_def)
  qed
  moreover have "card ({f..<c} \<union> {c + f..<2 * c} \<union> {2 * c..<3 * c}) = (c - f) + (c - f) + c"
    using f by (subst card_Un_disjoint; (subst card_Un_disjoint)?) auto
  ultimately show ?thesis using f by (simp add: c_def f_def)
qed

text \<open>Where the \<open>i\<close>-th transmitted bit comes from.\<close>

definition rm_target :: "lte_rm_plan \<Rightarrow> int \<Rightarrow> nat \<Rightarrow> nat \<Rightarrow> nat" where
  "rm_target p rv e i = the (lte_rm_origin p (int (selection p rv e ! i)))"

lemma rm_target_props:
  assumes p: "rm_ok p" and rv: "0 \<le> rv" "rv \<le> 3"
  shows "length (selection p rv e) = e"
    and "i < e \<Longrightarrow> rm_target p rv e i \<in> rm_sent p"
    and "t \<in> rm_sent p \<Longrightarrow> length (filter (\<lambda>i. rm_target p rv e i = t) [0..<e]) \<in>
      {e div card (rm_sent p), e div card (rm_sent p) + 1}"
proof -
  obtain start where start: "lte_rm_start p rv = Some start" using rv by (simp add: lte_rm_start_def Let_def)
  define w where "w = rm_order p start"
  note sel = selection_cyclic [OF p start, of e, folded w_def]
  note order = rm_order_props [OF p, of start, folded w_def]
  note bij = origin_bij [OF p]
  have n: "length w = card (rm_sent p)" by (rule order(3))
  show "length (selection p rv e) = e" by (simp add: sel)
  have target: "rm_target p rv e i = the (lte_rm_origin p (int (w ! (i mod length w))))" if "i < e" for i
    using that by (simp add: rm_target_def sel)
  show "rm_target p rv e i \<in> rm_sent p" if "i < e"
  proof -
    have "w \<noteq> []" using selection_cyclic [OF p start, of 1] p card_rm_sent [OF p] n by (auto simp: rm_ok_def)
    then have "w ! (i mod length w) \<in> rm_places p" using order(2) by (metis length_greater_0_conv mod_less_divisor nth_mem)
    then show ?thesis using target [OF that] bij_betwE [OF bij] by auto
  qed
  show "length (filter (\<lambda>i. rm_target p rv e i = t) [0..<e]) \<in>
      {e div card (rm_sent p), e div card (rm_sent p) + 1}" if t: "t \<in> rm_sent p"
  proof -
    obtain a where a: "a \<in> rm_places p" "the (lte_rm_origin p (int a)) = t" using t unfolding bij_betw_imp_surj_on [OF bij, symmetric] by blast
    then obtain j where j: "j < length w" "w ! j = a" using order(2) by (metis in_set_conv_nth)
    have "(rm_target p rv e i = t) = (i mod length w = j)" if i: "i < e" for i
    proof -
      have m: "i mod length w < length w" using j(1) by (intro mod_less_divisor) linarith
      have "(rm_target p rv e i = t) = (w ! (i mod length w) = w ! j)"
        unfolding target [OF i] a(2) [symmetric] j(2)
        using inj_on_eq_iff [OF bij_betw_imp_inj_on [OF bij], of "w ! (i mod length w)" a] order(2) nth_mem [OF m] a(1)
        by blast
      then show ?thesis using nth_eq_iff_index_eq [OF order(1) m j(1)] by simp
    qed
    then have "filter (\<lambda>i. rm_target p rv e i = t) [0..<e] = filter (\<lambda>i. i mod length w = j) [0..<e]"
      by (intro filter_cong) auto
    then show ?thesis using count_residue [OF j(1), of e] n by simp
  qed
qed

text \<open>Adding the same value \<open>m\<close> times, as the receiver does.\<close>

definition added :: "'f llr_ops \<Rightarrow> nat \<Rightarrow> 'f \<Rightarrow> 'f" where
  "added F m v = ((\<lambda>a. fadd F a v) ^^ m) (fzero F)"

lemma accumulate:
  fixes F :: "'f llr_ops"
  assumes "list_all (\<lambda>i. g i < 3 * c) js" "0 < c" "s < 3" "j < c"
    and "\<And>i. i \<in> set js \<Longrightarrow> g i = s * c + j \<Longrightarrow> x i = v"
    and r: "r = foldl (\<lambda>st i. st[g i div c := (st ! (g i div c))[g i mod c := fadd F (st ! (g i div c) ! (g i mod c)) (x i)]])
      (replicate 3 (replicate c (fzero F))) js"
  shows "length r = 3" "length (r ! s) = c"
    "r ! s ! j = added F (length (filter (\<lambda>i. g i = s * c + j) js)) v"
proof -
  have "length r = 3 \<and> (\<forall>s < 3. length (r ! s) = c) \<and>
      r ! s ! j = added F (length (filter (\<lambda>i. g i = s * c + j) js)) v"
    unfolding r using assms(1,5)
  proof (induction js rule: rev_induct)
    case (snoc i js)
    have gi: "g i div c < 3" "g i mod c < c" using snoc.prems(1) assms(2) by (simp_all add: div_less_iff_less_mult)
    have hit: "(g i = s * c + j) = (g i div c = s \<and> g i mod c = j)"
      using assms(2,4) sent_number [of j c "g i mod c" s "g i div c"] by auto
    show ?case
      using snoc gi assms(3,4) by (auto simp: nth_list_update hit added_def)
  qed (use assms(3,4) in \<open>simp add: added_def\<close>)
  then show "length r = 3" "length (r ! s) = c"
    "r ! s ! j = added F (length (filter (\<lambda>i. g i = s * c + j) js)) v" using assms(3) by auto
qed

lemma fold_known: "m \<le> length d \<Longrightarrow> foldl (\<lambda>d i. d[i := x]) d [0..<m] = replicate m x @ drop m d"
proof (induction m)
  case (Suc m)
  then show ?case by (simp add: list_update_append Cons_nth_drop_Suc [symmetric] replicate_append_same)
qed simp

text \<open>What the receiver makes of what was sent: every transmitted position has been added up as often as
  it was sent, the fillers of stream 0 are known and those of stream 1 erased.\<close>

lemma dematch_matched:
  assumes plan: "lte_rm_plan_make k fillers = Some p" and rv: "0 \<le> rv" "rv \<le> 3" and e: "0 < e" "e \<le> int RM_POSITIONS"
    and len: "length d0 = rm_coded p" "length d1 = rm_coded p" "length d2 = rm_coded p"
    and soft: "soft = map v (lte_rate_match p rv d0 d1 d2 e)"
    and r: "lte_rate_dematch F known p rv soft e = (r0, r1, r2)"
    and s: "s < 3" and j: "j < rm_coded p"
  defines "rounds \<equiv> nat e div card (rm_sent p)"
  shows "length ([r0, r1, r2] ! s) = rm_coded p"
    and "if s \<noteq> 2 \<and> j < rm_fillers p then [r0, r1, r2] ! s ! j = (if s = 0 then known else fzero F)
      else \<exists>m \<in> {rounds, rounds + 1}. [r0, r1, r2] ! s ! j = added F m (v ([d0, d1, d2] ! s ! j))"
proof -
  note p = plan_make_ok [OF plan]
  let ?c = "rm_coded p" and ?t = "rm_target p rv (nat e)" and ?n = "nat e"
  have c: "0 < ?c" "rm_fillers p < ?c" using p by (simp_all add: rm_ok_def)
  note tp = rm_target_props [OF p rv, where e = ?n]
  have small: "?t i < 3 * ?c" if i: "i < ?n" for i
  proof -
    obtain s i' where t: "?t i = s * ?c + i'" "s < 3" "i' < ?c" using tp(2) [OF i] by (auto simp: rm_sent_def)
    have "s * ?c + ?c \<le> 3 * ?c" using mult_le_mono1 [of "s + 1" 3 ?c] t(2) by simp
    then show ?thesis using t(1,3) by linarith
  qed
  have matched: "lte_rate_match p rv d0 d1 d2 e = map (\<lambda>i. [d0, d1, d2] ! (?t i div ?c) ! (?t i mod ?c)) [0..<?n]"
    using e tp(1) by (auto simp: lte_rate_match_def Let_def rm_target_def intro!: nth_equalityI)
  define st where "st = foldl (\<lambda>st i. st[?t i div ?c := (st ! (?t i div ?c))[?t i mod ?c :=
      fadd F (st ! (?t i div ?c) ! (?t i mod ?c)) (soft ! i)]]) (replicate 3 (replicate ?c (fzero F))) [0..<?n]"
  have res: "r0 = foldl (\<lambda>d i. d[i := known]) (st ! 0) [0..<rm_fillers p]" "r1 = st ! 1" "r2 = st ! 2"
    using r e tp(1) by (simp_all add: lte_rate_dematch_def Let_def rm_target_def [symmetric] st_def numeral_3_eq_3)
  have acc: "length (st ! s) = ?c"
    "st ! s ! j = added F (length (filter (\<lambda>i. ?t i = s * ?c + j) [0..<?n])) (v ([d0, d1, d2] ! s ! j))"
    if "s < 3" "j < ?c" for s j
  proof -
    have val: "soft ! i = v ([d0, d1, d2] ! s ! j)" if "i \<in> set [0..<?n]" "?t i = s * ?c + j" for i
      using that \<open>j < ?c\<close> by (simp add: soft matched)
    have all: "list_all (\<lambda>i. ?t i < 3 * ?c) [0..<?n]" using small by (simp add: list_all_iff)
    show "length (st ! s) = ?c"
      "st ! s ! j = added F (length (filter (\<lambda>i. ?t i = s * ?c + j) [0..<?n])) (v ([d0, d1, d2] ! s ! j))"
      using accumulate(2,3) [where x = "(!) soft", OF all c(1) that val st_def] by auto
  qed
  have r0: "length r0 = ?c" "j < ?c \<Longrightarrow> r0 ! j = (if j < rm_fillers p then known else st ! 0 ! j)" for j
    using acc(1) [of 0 0] c by (simp_all add: res fold_known nth_append)
  show "length ([r0, r1, r2] ! s) = ?c"
    using s r0(1) acc(1) [of 1 0] acc(1) [of 2 0] c by (auto simp: res(2,3) less_Suc_eq numeral_3_eq_3 numeral_2_eq_2)
  have pick: "[r0, r1, r2] ! s ! j = (if s = 0 \<and> j < rm_fillers p then known else st ! s ! j)"
    using s j r0(2) by (auto simp: res(2,3) less_Suc_eq numeral_3_eq_3 numeral_2_eq_2)
  show "if s \<noteq> 2 \<and> j < rm_fillers p then [r0, r1, r2] ! s ! j = (if s = 0 then known else fzero F)
      else \<exists>m \<in> {rounds, rounds + 1}. [r0, r1, r2] ! s ! j = added F m (v ([d0, d1, d2] ! s ! j))"
  proof (cases "s \<noteq> 2 \<and> j < rm_fillers p")
    case True
    have out: "s * ?c + j \<notin> rm_sent p"
      using True j sent_number by (auto simp: rm_sent_def)
    have "?t i \<noteq> s * ?c + j" if "i < ?n" for i using tp(2) [OF that] out by metis
    then have "filter (\<lambda>i. ?t i = s * ?c + j) [0..<?n] = []" by (auto simp: filter_empty_conv)
    then show ?thesis using True pick acc(2) [OF s j] by (simp add: added_def)
  next
    case False
    then have "s * ?c + j \<in> rm_sent p"
      unfolding rm_sent_def mem_Collect_eq by (intro exI [of _ s] exI [of _ j]) (use s j in auto)
    then have "length (filter (\<lambda>i. ?t i = s * ?c + j) [0..<?n]) \<in> {rounds, rounds + 1}"
      unfolding rounds_def by (rule tp(3))
    moreover have "[r0, r1, r2] ! s ! j =
        added F (length (filter (\<lambda>i. ?t i = s * ?c + j) [0..<?n])) (v ([d0, d1, d2] ! s ! j))"
      using False pick acc(2) [OF s j] by (cases "s = 0") simp_all
    ultimately show ?thesis unfolding if_not_P [OF False] by (rule bexI [rotated])
  qed
qed

text \<open>Whatever the redundancy version and the length of the allocation, the receiver's sums describe
  what was sent: with \<open>n\<close> bits in the buffer that carry information, every one of them has been received
  \<open>e div n\<close> times or once more and added up as often, the fillers of stream 0 are the known value and
  those of stream 1 are erasures.\<close>

theorem lte_rate_match_received:
  assumes "lte_rm_plan_make k fillers = Some p" "0 \<le> rv" "rv \<le> 3" "0 < e" "e \<le> int RM_POSITIONS"
    and "length d0 = rm_coded p" "length d1 = rm_coded p" "length d2 = rm_coded p" "s < 3" "j < rm_coded p"
  shows "case lte_rate_dematch F known p rv (map v (lte_rate_match p rv d0 d1 d2 e)) e of (r0, r1, r2) \<Rightarrow>
    (if s \<noteq> 2 \<and> j < rm_fillers p then [r0, r1, r2] ! s ! j = (if s = 0 then known else fzero F)
     else \<exists>m. (m = nat e div (3 * rm_coded p - 2 * rm_fillers p) \<or>
                m = nat e div (3 * rm_coded p - 2 * rm_fillers p) + 1) \<and>
              [r0, r1, r2] ! s ! j = added F m (v ([d0, d1, d2] ! s ! j)))"
proof -
  obtain r0 r1 r2 where r: "lte_rate_dematch F known p rv (map v (lte_rate_match p rv d0 d1 d2 e)) e = (r0, r1, r2)"
    by (rule prod_cases3)
  show ?thesis
    using dematch_matched(2) [OF assms(1-8) refl r assms(9,10)] card_rm_sent [OF plan_make_ok [OF assms(1)]]
    by (auto simp: r split: if_splits)
qed

subsection \<open>A block sent and received\<close>

lemma added_agrees: "rounded_order F \<Longrightarrow> agrees F b v \<Longrightarrow> agrees F b (added F m v)"
  by (induction m) (simp_all add: added_def agrees_zero agrees_add)

lemma added_decides:
  assumes F: "rounded_order F" and v: "decides F b v"
  shows "decides F b (added F (Suc m) v)"
proof -
  have "decides F b (fadd F v (added F m v))"
    by (rule decides_add [OF F v added_agrees [OF F decides_agrees [OF F v]]])
  then show ?thesis by (simp add: added_def add_commute [OF F, of v])
qed

text \<open>What one whole transmission leaves in the three streams: every coded bit was heard, the fillers of
  stream 0 are known, those of stream 1 are zero.\<close>

lemma dematch_received:
  assumes F: "rounded_order F" and plan: "lte_rm_plan_make k fillers = Some p" and rv: "0 \<le> rv" "rv \<le> 3"
    and len: "length d0 = rm_coded p" "length d1 = rm_coded p" "length d2 = rm_coded p"
    and e: "int (3 * rm_coded p - 2 * rm_fillers p) \<le> e" "e \<le> int RM_POSITIONS"
    and vb: "\<And>b. decides F b (v b)" and known: "decides F False known"
    and filled: "\<And>j. j < rm_fillers p \<Longrightarrow> \<not> d0 ! j"
    and r: "lte_rate_dematch F known p rv (map v (lte_rate_match p rv d0 d1 d2 e)) e = (r0, r1, r2)"
  shows "s < 3 \<Longrightarrow> received_as F ([d0, d1, d2] ! s) ([r0, r1, r2] ! s)"
    and "j < rm_coded p \<Longrightarrow> decides F (d0 ! j) (r0 ! j)"
proof -
  note p = plan_make_ok [OF plan]
  have n: "0 < 3 * rm_coded p - 2 * rm_fillers p" using p by (auto simp: rm_ok_def)
  then have e0: "0 < e" using e by simp
  note got = dematch_matched [OF plan rv e0 e(2) len refl r]
  have times: "1 \<le> nat e div card (rm_sent p)"
    using e n card_rm_sent [OF p] by (simp add: div_greater_zero_iff Suc_leI nat_le_iff le_nat_iff)
  have heard: "decides F ([d0, d1, d2] ! s ! j) ([r0, r1, r2] ! s ! j)"
    if s: "s < 3" "j < rm_coded p" "\<not> (s \<noteq> 2 \<and> j < rm_fillers p)" for s j
  proof -
    obtain m where "1 \<le> m" "[r0, r1, r2] ! s ! j = added F m (v ([d0, d1, d2] ! s ! j))"
      using got(2) [OF s(1,2)] s(3) times by auto
    then show ?thesis using added_decides [OF F vb] by (cases m) auto
  qed
  have filler: "s = 0 \<Longrightarrow> decides F ([d0, d1, d2] ! s ! j) ([r0, r1, r2] ! s ! j)"
    "s = 1 \<Longrightarrow> agrees F b ([r0, r1, r2] ! s ! j)"
    if "s < 3" "j < rm_coded p" "j < rm_fillers p" for s j b
    using got(2) [OF that(1,2)] that(3) filled known agrees_zero [OF F] by auto
  show "received_as F ([d0, d1, d2] ! s) ([r0, r1, r2] ! s)" if s: "s < 3" for s
  proof -
    have l: "length ([d0, d1, d2] ! s) = rm_coded p" "length ([r0, r1, r2] ! s) = rm_coded p"
      using s len got(1) [OF s, of 0] p by (auto simp: rm_ok_def less_Suc_eq numeral_3_eq_3 numeral_2_eq_2)
    have "agrees F ([d0, d1, d2] ! s ! j) ([r0, r1, r2] ! s ! j)" if j: "j < rm_coded p" for j
      using heard [OF s j] filler [OF s j] decides_agrees [OF F] s
      by (cases "j < rm_fillers p"; cases "s = 2"; cases "s = 0") auto
    then show ?thesis unfolding received_as_def by (simp add: list_all2_conv_all_nth l)
  qed
  show "decides F (d0 ! j) (r0 ! j)" if "j < rm_coded p" for j
    using heard [of 0 j] filler(1) [of 0 j] that by (cases "j < rm_fillers p") auto
qed

text \<open>C29: A transport block comes through the whole chain: turbo encoding, rate matching at any redundancy version to any
  allocation that carries every bit at least once and is no longer than the 18476 positions of the table, de-matching and
  turbo decoding with at least one iteration give back the block, fillers included, whatever the static arrays held. The
  received values decide each bit, and the decoder's additions keep the order of what is added.\<close>

theorem lte_transport_chain_round_trip:
  assumes "rounded_order F" and plan: "lte_rm_plan_make k fillers = Some p"
    and enc: "lte_turbo_encode us k = Some (d0, d1, d2)" and us: "length us = nat k"
    and filled: "take (nat fillers) us = replicate (nat fillers) False"
    and rv: "0 \<le> rv" "rv \<le> 3" and e: "int (3 * rm_coded p - 2 * rm_fillers p) \<le> e" "e \<le> int RM_POSITIONS"
    and v: "decides F False (v False)" "decides F True (v True)" and known: "decides F False known"
    and "0 < iterations"
  shows "case lte_rate_dematch F known p rv (map v (lte_rate_match p rv d0 d1 d2 e)) e of (r0, r1, r2) \<Rightarrow>
    lte_turbo_decode F left_over r0 r1 r2 k iterations = Some us"
proof -
  note F = assms(1)
  note p = plan_make_ok [OF plan]
  have kp: "rm_k p = nat k" "rm_fillers p = nat fillers" "0 < k"
    using plan by (auto simp: lte_rm_plan_make_def Let_def split: if_splits)
  have enc': "lte_turbo_encode us (int (nat k)) = Some (d0, d1, d2)" using enc kp by simp
  obtain x z where x: "rsc_encode us = (x, z)" by fastforce
  obtain xp zp where xp: "rsc_encode (interleaved (nat k) us) = (xp, zp)" by fastforce
  note str = encode_streams [OF enc' us x xp]
  have len: "length d0 = rm_coded p" "length d1 = rm_coded p" "length d2 = rm_coded p"
    using str(8-10) p kp by (simp_all add: rm_ok_def)
  have below: "rm_fillers p < nat k" "nat k \<le> rm_coded p" using p kp by (simp_all add: rm_ok_def)
  have filler_bit: "\<not> d0 ! j" if "j < rm_fillers p" for j
  proof -
    have "d0 ! j = us ! j" using that below by (simp flip: str(7))
    also have "\<dots> = take (nat fillers) us ! j" using that kp by simp
    finally show ?thesis using that kp by (simp add: filled)
  qed
  have vb: "decides F b (v b)" for b using v by (cases b) simp_all
  obtain r0 r1 r2 where r: "lte_rate_dematch F known p rv (map v (lte_rate_match p rv d0 d1 d2 e)) e = (r0, r1, r2)"
    by (rule prod_cases3)
  note got = dematch_received [OF F plan rv len e vb known filler_bit r]
  have "decides F (us ! i) (r0 ! i)" if "i < length us" for i
  proof -
    have "d0 ! i = us ! i" using that us by (simp flip: str(7))
    then show ?thesis using got(2) [of i] that us below by simp
  qed
  then have "lte_turbo_decode F left_over r0 r1 r2 k iterations = Some us"
    using got(1) [of 0] got(1) [of 1] got(1) [of 2] kp(3)
    by (intro decode_signs [OF F enc us]) (simp_all add: assms)
  then show ?thesis by (simp add: r)
qed

subsection \<open>Witnesses\<close>

lemma sample_plan:
  obtains p where "lte_rm_plan_make 40 8 = Some p" "rm_coded p = 44" "rm_fillers p = 8"
proof -
  have "lte_turbo_size_index 40 = Some 0" by (simp add: lte_turbo_size_index_def qpp_def)
  then show ?thesis using that by (simp add: lte_rm_plan_make_def Let_def LTE_TURBO_TAIL_def)
qed

lemma lte_rate_match_received_witness:
  "case lte_rm_plan_make 40 8 of None \<Rightarrow> False
   | Some p \<Rightarrow>
      (case lte_rate_dematch int_llrs 10 p 1 (map (\<lambda>b. if b then - 1 else 1)
         (lte_rate_match p 1 (replicate 44 True) (replicate 44 True) (replicate 44 True) 500)) 500 of
       (r0, r1, r2) \<Rightarrow> r0 ! 20 = - 4 \<or> r0 ! 20 = - 5)"
proof -
  obtain p where p: "lte_rm_plan_make 40 8 = Some p" "rm_coded p = 44" "rm_fillers p = 8" by (rule sample_plan)
  have "added int_llrs m (- 1) = - int m" for m by (induction m) (simp_all add: added_def int_llrs_def)
  then show ?thesis
    using lte_rate_match_received [OF p(1), where rv = 1 and e = 500 and ?d0.0 = "replicate 44 True"
        and ?d1.0 = "replicate 44 True" and ?d2.0 = "replicate 44 True" and s = 0 and j = 20 and F = int_llrs
        and known = 10 and v = "\<lambda>b. if b then - 1 else 1"]
    by (auto simp: p RM_POSITIONS_def LTE_TURBO_MAX_K_def LTE_TURBO_TAIL_def split: prod.splits)
qed

lemma lte_transport_chain_round_trip_witness:
  "\<exists>p d0 d1 d2. lte_rm_plan_make 40 8 = Some p \<and> lte_turbo_encode (replicate 8 False @ replicate 32 True) 40 = Some (d0, d1, d2) \<and>
    (case lte_rate_dematch int_llrs 10 p 2 (map (\<lambda>b. if b then - 1 else 1) (lte_rate_match p 2 d0 d1 d2 300)) 300 of
       (r0, r1, r2) \<Rightarrow> lte_turbo_decode int_llrs [] r0 r1 r2 40 8 = Some (replicate 8 False @ replicate 32 True))"
proof -
  obtain p where p: "lte_rm_plan_make 40 8 = Some p" "rm_coded p = 44" "rm_fillers p = 8" by (rule sample_plan)
  have "lte_turbo_size_index 40 = Some 0" by (simp add: lte_turbo_size_index_def qpp_def)
  then obtain d0 d1 d2 where enc: "lte_turbo_encode (replicate 8 False @ replicate 32 True) 40 = Some (d0, d1, d2)"
    by (simp add: lte_turbo_encode_def Let_def case_prod_beta)
  have "decides int_llrs False 1" "decides int_llrs True (- 1)" "decides int_llrs False 10"
    by (simp_all add: decides_def int_llrs_def)
  then show ?thesis
    using p(1) enc lte_transport_chain_round_trip [OF int_llrs_rounded p(1) enc, where rv = 2 and e = 300
        and v = "\<lambda>b. if b then - 1 else 1" and known = 10 and iterations = 8 and left_over = "[]"]
    by (auto simp: p RM_POSITIONS_def LTE_TURBO_MAX_K_def LTE_TURBO_TAIL_def)
qed

end
