(* ===== verification/Lte_Mib.thy ===== *)
theory Lte_Mib
  imports Lte_Turbo Check_Register Trellis
begin

text \<open>
  The LTE Master Information Block, \<open>src/src/tech/lte_mib.c\<close>, and the Gold sequence it is scrambled with,
  \<open>src/src/tech/lte_gold.h\<close>: the message's 24 bits, the parity masked by the number of antenna ports, the
  tail-biting convolutional code, rate matching, scrambling, and the search over the four quarters of
  the 40 ms period. A byte that holds one bit is a \<open>bool\<close>; floating-point arithmetic is an argument.
\<close>

unbundle bit_operations_syntax

subsection \<open>The Gold sequence\<close>

definition LTE_GOLD_NC :: nat where "LTE_GOLD_NC = 1600"

fun gold_step :: "u32 \<times> u32 \<Rightarrow> u32 \<times> u32" where
  "gold_step (x1, x2) =
     (let b1 = (drop_bit 3 x1 XOR x1) AND 1;
          b2 = (drop_bit 3 x2 XOR drop_bit 2 x2 XOR drop_bit 1 x2 XOR x2) AND 1
      in (drop_bit 1 x1 OR push_bit 30 b1, drop_bit 1 x2 OR push_bit 30 b2))"

primrec gold_bits :: "nat \<Rightarrow> u32 \<times> u32 \<Rightarrow> bool list" where
  "gold_bits 0 x = []"
| "gold_bits (Suc n) x = ((fst x XOR snd x) AND 1 \<noteq> 0) # gold_bits n (gold_step x)"

definition lte_gold_sequence :: "u32 \<Rightarrow> nat \<Rightarrow> bool list" where
  "lte_gold_sequence c_init n = gold_bits n ((gold_step ^^ LTE_GOLD_NC) (1, c_init AND 0x7fffffff))"

subsection \<open>The message\<close>

definition LTE_MIB_BITS :: nat where "LTE_MIB_BITS = 24"
definition LTE_MIB_CRC_BITS :: nat where "LTE_MIB_CRC_BITS = 16"
definition LTE_MIB_BLOCK_BITS :: nat where "LTE_MIB_BLOCK_BITS = 40"
definition LTE_MIB_CODED_BITS :: nat where "LTE_MIB_CODED_BITS = 120"
definition LTE_MIB_RATE_MATCHED_BITS :: nat where "LTE_MIB_RATE_MATCHED_BITS = 1920"
definition LTE_MIB_QUARTERS :: nat where "LTE_MIB_QUARTERS = 4"
definition LTE_MIB_QUARTER_BITS :: nat where "LTE_MIB_QUARTER_BITS = 480"

lemmas mib_sizes = LTE_MIB_BITS_def LTE_MIB_CRC_BITS_def LTE_MIB_BLOCK_BITS_def LTE_MIB_CODED_BITS_def
  LTE_MIB_RATE_MATCHED_BITS_def LTE_MIB_QUARTERS_def LTE_MIB_QUARTER_BITS_def

record lte_mib =
  bandwidth_prb :: int
  phich_extended :: int
  phich_resource_sixths :: int
  system_frame_number :: int
  antenna_ports :: int
  quarter :: int

definition bandwidths :: "int list" where "bandwidths = [6, 15, 25, 50, 75, 100]"
definition phich_resources :: "int list" where "phich_resources = [1, 3, 6, 12]"

definition lte_phich_resource_name :: "int \<Rightarrow> string option" where
  "lte_phich_resource_name sixths =
     (if sixths = 1 then Some ''1/6'' else if sixths = 3 then Some ''1/2''
      else if sixths = 6 then Some ''1'' else if sixths = 12 then Some ''2'' else None)"

definition put_bits :: "bool list \<Rightarrow> nat \<Rightarrow> nat \<Rightarrow> u32 \<Rightarrow> bool list" where
  "put_bits bits from count val =
     foldl (\<lambda>bits i. bits[from + i := drop_bit (count - 1 - i) val AND 1 \<noteq> 0]) bits [0..<count]"

definition take_bits :: "bool list \<Rightarrow> nat \<Rightarrow> nat \<Rightarrow> u32" where
  "take_bits bits from count = foldl (\<lambda>v i. push_bit 1 v OR of_bool (bits ! (from + i))) 0 [0..<count]"

text \<open>The last match of a table, and entry 0 without one.\<close>

definition code_of :: "int list \<Rightarrow> int \<Rightarrow> nat" where
  "code_of table x = foldl (\<lambda>code i. if table ! i = x then i else code) 0 [0..<length table]"

definition lte_mib_pack :: "lte_mib \<Rightarrow> bool list" where
  "lte_mib_pack mib =
     (let bits = replicate LTE_MIB_BITS False;
          bits = put_bits bits 0 3 (of_nat (code_of bandwidths (bandwidth_prb mib)));
          bits = put_bits bits 3 1 (if phich_extended mib \<noteq> 0 then 1 else 0);
          bits = put_bits bits 4 2 (of_nat (code_of phich_resources (phich_resource_sixths mib)))
      in put_bits bits 6 8 (of_int (drop_bit 2 (system_frame_number mib) AND 0xff)))"

definition lte_mib_unpack :: "bool list \<Rightarrow> lte_mib option" where
  "lte_mib_unpack bits =
     (let bandwidth_code = take_bits bits 0 3
      in if 6 \<le> bandwidth_code then None
         else Some \<lparr>bandwidth_prb = bandwidths ! unat bandwidth_code,
                phich_extended = uint (take_bits bits 3 1),
                phich_resource_sixths = phich_resources ! unat (take_bits bits 4 2),
                system_frame_number = uint (push_bit 2 (take_bits bits 6 8)),
                antenna_ports = 0, quarter = 0\<rparr>)"

definition lte_mib_same_cell :: "lte_mib option \<Rightarrow> lte_mib option \<Rightarrow> bool" where
  "lte_mib_same_cell x y =
     (case (x, y) of
        (Some a, Some b) \<Rightarrow> bandwidth_prb a = bandwidth_prb b \<and> phich_extended a = phich_extended b \<and>
          phich_resource_sixths a = phich_resource_sixths b \<and> antenna_ports a = antenna_ports b
      | _ \<Rightarrow> False)"

subsection \<open>Parity\<close>

definition port_mask_bit :: "int \<Rightarrow> nat \<Rightarrow> bool" where
  "port_mask_bit ports index = (if ports = 1 then False else if ports = 2 then True else odd index)"

definition mib_crc_step :: "u32 \<Rightarrow> bool \<Rightarrow> u32" where
  "mib_crc_step reg x =
     (let feedback = (bit reg 15 \<noteq> x); reg = push_bit 1 reg AND 0xffff
      in if feedback then reg XOR 0x1021 else reg)"

definition crc16 :: "bool list \<Rightarrow> nat \<Rightarrow> u32" where
  "crc16 bits count = foldl mib_crc_step 0 (take count bits)"

definition lte_mib_parity :: "bool list \<Rightarrow> int \<Rightarrow> bool list" where
  "lte_mib_parity bits ports =
     (let remainder = crc16 bits LTE_MIB_BITS
      in map (\<lambda>i. (drop_bit (LTE_MIB_CRC_BITS - 1 - i) remainder AND 1 \<noteq> 0) \<noteq> port_mask_bit ports i)
           [0..<LTE_MIB_CRC_BITS])"

text \<open>\<open>0\<close>: none fits.\<close>

definition lte_mib_parity_ports :: "bool list \<Rightarrow> int" where
  "lte_mib_parity_ports block =
     (case find (\<lambda>c. lte_mib_parity block c = take LTE_MIB_CRC_BITS (drop LTE_MIB_BITS block)) [1, 2, 4] of
        Some c \<Rightarrow> c | None \<Rightarrow> 0)"

subsection \<open>The convolutional code\<close>

definition LTE_MIB_STATES :: nat where "LTE_MIB_STATES = 64"

definition encoder_output :: "nat \<Rightarrow> bool \<Rightarrow> bool list" where
  "encoder_output s u =
     (let s1 = bit s 0; s2 = bit s 1; s3 = bit s 2; s4 = bit s 3; s5 = bit s 4; s6 = bit s 5
      in [(((u \<noteq> s2) \<noteq> s3) \<noteq> s5) \<noteq> s6, (((u \<noteq> s1) \<noteq> s2) \<noteq> s3) \<noteq> s6, (((u \<noteq> s1) \<noteq> s2) \<noteq> s4) \<noteq> s6])"

definition encoder_next :: "nat \<Rightarrow> bool \<Rightarrow> nat" where
  "encoder_next s u = (push_bit 1 s OR of_bool u) AND 63"

definition tail_biting_state :: "bool list \<Rightarrow> nat" where
  "tail_biting_state block =
     foldl (\<lambda>s i. s OR push_bit i (of_bool (block ! (LTE_MIB_BLOCK_BITS - 1 - i)))) 0 [0..<6]"

fun encoder_run :: "nat \<Rightarrow> bool list \<Rightarrow> bool list list" where
  "encoder_run s [] = []"
| "encoder_run s (u # us) = encoder_output s u # encoder_run (encoder_next s u) us"

definition lte_mib_convolutional_encode :: "bool list \<Rightarrow> bool list" where
  "lte_mib_convolutional_encode block =
     (let outputs = encoder_run (tail_biting_state block) (take LTE_MIB_BLOCK_BITS block)
      in concat (map (\<lambda>stream. map (\<lambda>out. out ! stream) outputs) [0..<3]))"

subsection \<open>Rate matching\<close>

definition mib_column_order :: "nat list" where
  "mib_column_order =
     [1, 17,  9, 25,  5, 21, 13, 29,  3, 19, 11, 27,  7, 23, 15, 31,
      0, 16,  8, 24,  4, 20, 12, 28,  2, 18, 10, 26,  6, 22, 14, 30]"

definition SUBBLOCK_COLUMNS :: nat where "SUBBLOCK_COLUMNS = 32"
definition SUBBLOCK_ROWS :: nat where "SUBBLOCK_ROWS = 2"
definition SUBBLOCK_SIZE :: nat where "SUBBLOCK_SIZE = SUBBLOCK_ROWS * SUBBLOCK_COLUMNS"
definition SUBBLOCK_PADDING :: nat where "SUBBLOCK_PADDING = SUBBLOCK_SIZE - LTE_MIB_BLOCK_BITS"

definition cycle_map :: "nat list" where
  "cycle_map =
     concat (map (\<lambda>stream. concat (map (\<lambda>m.
       let column = mib_column_order ! (m div SUBBLOCK_ROWS); row = m mod SUBBLOCK_ROWS;
           source = row * SUBBLOCK_COLUMNS + column
       in if source < SUBBLOCK_PADDING then []
          else [stream * LTE_MIB_BLOCK_BITS + (source - SUBBLOCK_PADDING)]) [0..<SUBBLOCK_SIZE])) [0..<3])"

definition lte_mib_rate_match :: "bool list \<Rightarrow> bool list" where
  "lte_mib_rate_match coded =
     map (\<lambda>n. coded ! (cycle_map ! (n mod LTE_MIB_CODED_BITS))) [0..<LTE_MIB_RATE_MATCHED_BITS]"

definition lte_mib_rate_dematch :: "'f llr_ops \<Rightarrow> 'f list \<Rightarrow> 'f list" where
  "lte_mib_rate_dematch F matched =
     foldl (\<lambda>coded n. let at = cycle_map ! (n mod LTE_MIB_CODED_BITS)
                      in coded[at := fadd F (coded ! at) (matched ! n)])
       (replicate LTE_MIB_CODED_BITS (fzero F)) [0..<LTE_MIB_RATE_MATCHED_BITS]"

subsection \<open>Scrambling, and the whole chain forwards\<close>

definition lte_mib_descramble :: "'f llr_ops \<Rightarrow> int \<Rightarrow> nat \<Rightarrow> 'f list \<Rightarrow> 'f list" where
  "lte_mib_descramble F pci q soft =
     (let scramble = lte_gold_sequence (of_int pci) LTE_MIB_RATE_MATCHED_BITS
      in map (\<lambda>n. if scramble ! (q * LTE_MIB_QUARTER_BITS + n) then fneg F (soft ! n) else soft ! n)
           [0..<LTE_MIB_QUARTER_BITS])"

text \<open>\<open>one\<close> is the constant \<open>1.0f\<close>.\<close>

definition lte_mib_block :: "lte_mib \<Rightarrow> bool list" where
  "lte_mib_block mib = (let bits = lte_mib_pack mib in bits @ lte_mib_parity bits (antenna_ports mib))"

definition lte_mib_encode :: "'f llr_ops \<Rightarrow> 'f \<Rightarrow> lte_mib \<Rightarrow> int \<Rightarrow> nat \<Rightarrow> 'f list" where
  "lte_mib_encode F one mib pci q =
     (let matched = lte_mib_rate_match (lte_mib_convolutional_encode (lte_mib_block mib));
          soft = map (\<lambda>n. if matched ! (q * LTE_MIB_QUARTER_BITS + n) then fneg F one else one)
                   [0..<LTE_MIB_QUARTER_BITS]
      in lte_mib_descramble F pci q soft)"

subsection \<open>Every closed path\<close>

text \<open>\<open>lost\<close> is \<open>-1e29f\<close>, above the score of a state nothing reached, below every other.\<close>

definition mib_branch :: "'f llr_ops \<Rightarrow> 'f list \<Rightarrow> nat \<Rightarrow> nat \<Rightarrow> bool \<Rightarrow> 'f \<Rightarrow> 'f" where
  "mib_branch F coded k s u m =
     foldl (\<lambda>m stream. fadd F m (llr_sign F (encoder_output s u ! stream)
       (coded ! (stream * LTE_MIB_BLOCK_BITS + k)))) m [0..<3]"

definition closed_paths ::
  "'f llr_ops \<Rightarrow> 'f \<Rightarrow> 'f list \<Rightarrow> (nat \<Rightarrow> survivor list) \<Rightarrow> nat \<Rightarrow> 'f list \<times> survivor list list" where
  "closed_paths F lost coded old start =
     viterbi_forward (fgt F) (\<lambda>m. fgt F lost m) (fninf F) LTE_MIB_STATES encoder_next (mib_branch F coded)
       old ((replicate LTE_MIB_STATES (fninf F))[start := fzero F]) LTE_MIB_BLOCK_BITS"

definition try_start ::
  "'f llr_ops \<Rightarrow> 'f \<Rightarrow> 'f list \<Rightarrow> (nat \<Rightarrow> survivor list) \<times> ('f \<times> bool list) option \<Rightarrow> nat \<Rightarrow>
   (nat \<Rightarrow> survivor list) \<times> ('f \<times> bool list) option" where
  "try_start F lost coded found start =
     (let (old, best) = found; (metric, survivor) = closed_paths F lost coded old start;
          closed = metric ! start;
          block = map (\<lambda>(s, _). bit s 0) (trace_back (rev survivor) start)
      in ((!) survivor,
          if fgt F lost closed then best
          else if best = None \<or> fgt F closed (fst (the best)) then Some (closed, block) else best))"

text \<open>\<open>None\<close> is a search in which no path ended where it started. The C function then returns a block it never wrote; that
  this does not happen is part of \<open>decode_best\<close>.\<close>

definition lte_mib_convolutional_decode ::
  "'f llr_ops \<Rightarrow> 'f \<Rightarrow> (nat \<Rightarrow> survivor list) \<Rightarrow> 'f list \<Rightarrow> bool list option" where
  "lte_mib_convolutional_decode F lost old coded =
     map_option snd (snd (foldl (try_start F lost coded) (old, None) [0..<LTE_MIB_STATES]))"

subsection \<open>The four quarters\<close>

definition mib_quarter ::
  "'f llr_ops \<Rightarrow> 'f \<Rightarrow> (nat \<Rightarrow> survivor list) \<Rightarrow> 'f list \<Rightarrow> int \<Rightarrow> nat \<Rightarrow> lte_mib option" where
  "mib_quarter F lost old soft pci q =
     (let attempt = lte_mib_descramble F pci q soft;
          whole = replicate (q * LTE_MIB_QUARTER_BITS) (fzero F) @ attempt @
            replicate ((LTE_MIB_QUARTERS - 1 - q) * LTE_MIB_QUARTER_BITS) (fzero F)
      in case lte_mib_convolutional_decode F lost old (lte_mib_rate_dematch F whole) of
           None \<Rightarrow> None
         | Some block \<Rightarrow>
             (let ports = lte_mib_parity_ports block
              in if ports = 0 then None
                 else case lte_mib_unpack block of None \<Rightarrow> None
                   | Some mib \<Rightarrow> Some (mib\<lparr>antenna_ports := ports, quarter := int q,
                       system_frame_number := system_frame_number mib OR int q\<rparr>)))"

primrec first_quarter :: "(nat \<Rightarrow> lte_mib option) \<Rightarrow> nat list \<Rightarrow> lte_mib option" where
  "first_quarter attempt [] = None"
| "first_quarter attempt (q # qs) = (case attempt q of Some mib \<Rightarrow> Some mib | None \<Rightarrow> first_quarter attempt qs)"

definition lte_mib_decode ::
  "'f llr_ops \<Rightarrow> 'f \<Rightarrow> (nat \<Rightarrow> nat \<Rightarrow> survivor list) \<Rightarrow> 'f list \<Rightarrow> int \<Rightarrow> lte_mib option" where
  "lte_mib_decode F lost old soft pci =
     first_quarter (\<lambda>q. mib_quarter F lost (old q) soft pci q) [0..<LTE_MIB_QUARTERS]"

subsection \<open>The Gold sequence is the standard's recurrence\<close>

fun gold_x1 :: "nat \<Rightarrow> bool" where
  "gold_x1 n = (if n < 31 then n = 0 else gold_x1 (n - 28) \<noteq> gold_x1 (n - 31))"

fun gold_x2 :: "u32 \<Rightarrow> nat \<Rightarrow> bool" where
  "gold_x2 c n = (if n < 31 then bit c n
     else ((gold_x2 c (n - 28) \<noteq> gold_x2 c (n - 29)) \<noteq> gold_x2 c (n - 30)) \<noteq> gold_x2 c (n - 31))"

declare gold_x1.simps [simp del] gold_x2.simps [simp del]

definition gold_window :: "(nat \<Rightarrow> bool) \<Rightarrow> nat \<Rightarrow> u32 \<Rightarrow> bool" where
  "gold_window x n w \<longleftrightarrow> (\<forall>i. bit w i = (i < 31 \<and> x (n + i)))"

lemma gold_window_step:
  assumes "gold_window x n w" "bit b 0 = x (n + 31)"
  shows "gold_window x (Suc n) (drop_bit 1 w OR push_bit 30 (b AND 1))"
proof -
  have one_bit: "b AND 1 = of_bool (bit b 0)" by (rule bit_word_eqI) (auto simp: bit_simps)
  have "bit (drop_bit 1 w OR push_bit 30 (b AND 1)) i = (i < 31 \<and> x (Suc n + i))" for i
  proof -
    have "bit (push_bit 30 (b AND 1)) i = (i = 30 \<and> bit b 0)"
      unfolding one_bit unfolding bit_push_bit_iff bit_of_bool_iff by auto
    moreover have "bit (drop_bit 1 w) i = (i < 30 \<and> x (Suc n + i))"
      using assms(1) by (auto simp: gold_window_def bit_drop_bit_eq)
    moreover have "(i < 31 \<and> x (Suc n + i)) = ((i < 30 \<and> x (Suc n + i)) \<or> (i = 30 \<and> x (n + 31)))"
      by (cases "i = 30") (auto simp: add.commute)
    ultimately show ?thesis unfolding bit_or_iff using assms(2) by blast
  qed
  then show ?thesis by (simp add: gold_window_def)
qed

lemma gold_step_windows:
  assumes "gold_window gold_x1 n (fst x)" "gold_window (gold_x2 c) n (snd x)"
  shows "gold_window gold_x1 (Suc n) (fst (gold_step x)) \<and> gold_window (gold_x2 c) (Suc n) (snd (gold_step x))"
proof -
  obtain x1 x2 where x: "x = (x1, x2)" by (cases x)
  have "bit (drop_bit 3 x1 XOR x1) 0 = gold_x1 (n + 31)"
    using assms(1) by (simp add: x gold_window_def bit_simps gold_x1.simps [of "n + 31"] add.commute)
  moreover have "bit (drop_bit 3 x2 XOR drop_bit 2 x2 XOR drop_bit 1 x2 XOR x2) 0 = gold_x2 c (n + 31)"
  proof -
    have "gold_x2 c (n + 31) = (((gold_x2 c (n + 3) \<noteq> gold_x2 c (n + 2)) \<noteq> gold_x2 c (n + 1)) \<noteq> gold_x2 c n)"
      by (subst gold_x2.simps) (simp add: add.commute [of n])
    moreover have "bit x2 3 = gold_x2 c (n + 3)" "bit x2 2 = gold_x2 c (n + 2)" "bit x2 1 = gold_x2 c (n + 1)"
      "bit x2 0 = gold_x2 c n"
      using assms(2) by (simp_all add: x gold_window_def)
    ultimately show ?thesis by (simp only: bit_xor_iff bit_drop_bit_eq comp_apply add_0_right) blast
  qed
  ultimately show ?thesis
    unfolding x gold_step.simps Let_def fst_conv snd_conv using assms [unfolded x fst_conv snd_conv]
    by (blast intro: gold_window_step)
qed

lemma gold_bits_windows:
  "gold_window gold_x1 m (fst x) \<Longrightarrow> gold_window (gold_x2 c) m (snd x) \<Longrightarrow>
   gold_bits n x = map (\<lambda>i. gold_x1 (m + i) \<noteq> gold_x2 c (m + i)) [0..<n]"
proof (induction n arbitrary: m x)
  case (Suc n)
  have "((fst x XOR snd x) AND 1 \<noteq> 0) = (gold_x1 m \<noteq> gold_x2 c m)"
    using Suc.prems and_test_bit [of "fst x XOR snd x" 0] by (simp add: gold_window_def bit_simps)
  then show ?case
    using gold_step_windows [OF Suc.prems] Suc.IH [of "Suc m" "gold_step x"]
    by (simp add: upt_conv_Cons map_Suc_upt [symmetric] del: upt_Suc)
qed simp

text \<open>The Gold sequence is the one of the standard: bit \<open>i\<close> is the sum of two recurrences of degree 31
  at \<open>1600 + i\<close>, the first started from a single one, the second from the caller's 31 bits.\<close>

theorem lte_gold_sequence_recurrence:
  "lte_gold_sequence c n = map (\<lambda>i. gold_x1 (1600 + i) \<noteq> gold_x2 c (1600 + i)) [0..<n]"
proof -
  have "gold_window gold_x1 m (fst ((gold_step ^^ m) (1, c AND 0x7fffffff))) \<and>
      gold_window (gold_x2 c) m (snd ((gold_step ^^ m) (1, c AND 0x7fffffff)))" for m
  proof (induction m)
    case 0
    have "(c AND 0x7fffffff) = take_bit 31 c" by (simp add: take_bit_eq_mask mask_eq_exp_minus_1)
    then show ?case
      by (auto simp: gold_window_def bit_simps gold_x1.simps gold_x2.simps)
  next
    case (Suc m)
    then show ?case using gold_step_windows [of m "(gold_step ^^ m) (1, c AND 0x7fffffff)" c] by simp
  qed
  then show ?thesis unfolding lte_gold_sequence_def LTE_GOLD_NC_def by (intro gold_bits_windows) simp_all
qed

subsection \<open>The encoder\<close>

lemma encoder_next_take: "encoder_next s u = take_bit 6 (push_bit 1 s OR of_bool u)"
  by (simp only: encoder_next_def take_bit_eq_mask) (simp add: mask_eq_exp_minus_1)

lemma bit_push_nat: "bit (push_bit m (a :: nat)) n \<longleftrightarrow> m \<le> n \<and> bit a (n - m)"
  by (simp add: bit_push_bit_iff possible_bit_def)

lemma bit_one_nat: "bit (of_bool b :: nat) n \<longleftrightarrow> b \<and> n = 0"
  by (auto simp: bit_of_bool_iff)

lemma bit_encoder_next: "bit (encoder_next s u) n \<longleftrightarrow> n < 6 \<and> (if n = 0 then u else bit s (n - 1))"
  unfolding encoder_next_take bit_take_bit_iff bit_or_iff bit_push_nat bit_one_nat by auto

lemma encoder_next_range: "encoder_next s u < 64"
  using take_bit_nat_less_exp [of 6 "push_bit 1 s OR of_bool u"] by (simp only: encoder_next_take) simp

lemma bit_encoder_state:
  "n < 6 \<Longrightarrow> bit (foldl encoder_next s us) n =
     (if n < length us then us ! (length us - 1 - n) else bit s (n - length us))"
  by (induction us arbitrary: n rule: rev_induct) (auto simp: bit_encoder_next nth_append)

lemma bit_tail_biting: "bit (tail_biting_state us) n \<longleftrightarrow> n < 6 \<and> us ! (39 - n)"
proof -
  have six: "[0..<6] = [0, 1, 2, 3, 4, 5 :: nat]" by (simp add: upt_conv_Cons)
  have cases: "n = 0 \<or> n = 1 \<or> n = 2 \<or> n = 3 \<or> n = 4 \<or> n = 5 \<or> 6 \<le> n" by linarith
  show ?thesis unfolding tail_biting_state_def six using cases
    unfolding foldl.simps bit_or_iff bit_push_nat bit_one_nat LTE_MIB_BLOCK_BITS_def
    by (elim disjE) simp_all
qed

lemma state_eqI:
  assumes "s < 64" "t < 64" "\<And>n. n < 6 \<Longrightarrow> bit s n = bit t n"
  shows "s = (t :: nat)"
proof -
  have "take_bit 6 s = s" "take_bit 6 t = t" using assms(1,2) by (simp_all add: take_bit_nat_eq_self_iff)
  moreover have "take_bit 6 s = take_bit 6 t" by (rule bit_eqI) (use assms(3) in \<open>auto simp: bit_take_bit_iff\<close>)
  ultimately show ?thesis by metis
qed

lemma tail_biting_range: "tail_biting_state us < 64"
proof -
  have "take_bit 6 (tail_biting_state us) = tail_biting_state us"
    by (rule bit_eqI) (auto simp: bit_take_bit_iff bit_tail_biting)
  then show ?thesis using take_bit_nat_less_exp [of 6 "tail_biting_state us"] by simp
qed

lemma encoder_closes:
  assumes "length us = 40"
  shows "foldl encoder_next s us = tail_biting_state us"
proof (rule state_eqI)
  show "foldl encoder_next s us < 64"
    using assms by (cases us rule: rev_cases) (simp_all add: encoder_next_range)
next
  fix n :: nat
  assume "n < 6"
  then show "bit (foldl encoder_next s us) n = bit (tail_biting_state us) n"
    using assms by (simp only: bit_encoder_state bit_tail_biting) simp
qed (simp add: tail_biting_range)


subsection \<open>The message and its parity\<close>

lemma nth_fold_puts:
  "k \<le> length xs - from \<Longrightarrow> from \<le> length xs \<Longrightarrow>
   length (foldl (\<lambda>xs i. xs[from + i := f i]) xs [0..<k]) = length xs \<and>
   (\<forall>j < length xs. foldl (\<lambda>xs i. xs[from + i := f i]) xs [0..<k] ! j =
     (if from \<le> j \<and> j < from + k then f (j - from) else xs ! j))"
  by (induction k) (auto simp: nth_list_update)

lemma put_bits_word:
  assumes "from + count \<le> length bits"
  shows "put_bits bits from count w = take from bits @ word_bits count w @ drop (from + count) bits"
proof -
  have "put_bits bits from count w =
      foldl (\<lambda>xs i. xs[from + i := bit w (count - 1 - i)]) bits [0..<count]"
    unfolding put_bits_def using and_test_bit [where n = 0 and 'w = 32] by (simp add: bit_drop_bit_eq)
  moreover note nth_fold_puts [of count bits "from" "\<lambda>i. bit w (count - 1 - i)"]
  ultimately show ?thesis
    using assms by (intro nth_equalityI) (auto simp: nth_append word_bits_def)
qed

lemma take_bits_word:
  assumes "from + count \<le> length bits"
  shows "take_bits bits from count = word_of_bits (take count (drop from bits))"
proof -
  have "take count (drop from bits) = map (\<lambda>i. bits ! (from + i)) [0..<count]"
    using assms by (intro nth_equalityI) auto
  then show ?thesis by (simp add: take_bits_def word_of_bits_def foldl_map)
qed

text \<open>A message the standard has a code for.\<close>

definition mib_valid :: "lte_mib \<Rightarrow> bool" where
  "mib_valid m \<longleftrightarrow> bandwidth_prb m \<in> set bandwidths \<and> phich_extended m \<in> {0, 1} \<and>
     phich_resource_sixths m \<in> set phich_resources \<and> 0 \<le> system_frame_number m \<and>
     system_frame_number m < 1024 \<and> antenna_ports m \<in> {1, 2, 4}"

definition mib_words :: "lte_mib \<Rightarrow> bool list" where
  "mib_words m = word_bits 3 (of_nat (code_of bandwidths (bandwidth_prb m)) :: u32) @
     word_bits 1 (if phich_extended m \<noteq> 0 then 1 else 0 :: u32) @
     word_bits 2 (of_nat (code_of phich_resources (phich_resource_sixths m)) :: u32) @
     word_bits 8 (of_int (drop_bit 2 (system_frame_number m) AND 0xff) :: u32)"

lemma pack_words: "lte_mib_pack m = mib_words m @ replicate 10 False"
proof -
  have drops: "drop k (word_bits n w @ xs) = (if k < n then drop k (word_bits n w) @ xs else drop (k - n) xs)"
    "take k (word_bits n w @ xs) = (if k < n then take k (word_bits n w) else word_bits n w @ take (k - n) xs)"
    for k n xs and w :: u32
    by auto
  show ?thesis
    by (simp add: lte_mib_pack_def put_bits_word Let_def mib_sizes mib_words_def drops)
qed

lemma code_of_bandwidth:
  "b \<in> set bandwidths \<Longrightarrow> code_of bandwidths b < 6 \<and> bandwidths ! code_of bandwidths b = b"
  by (auto simp: bandwidths_def code_of_def upt_conv_Cons)

lemma code_of_resource:
  "r \<in> set phich_resources \<Longrightarrow> code_of phich_resources r < 4 \<and> phich_resources ! code_of phich_resources r = r"
  by (auto simp: phich_resources_def code_of_def upt_conv_Cons)

lemma take_bit_of_nat_small: "x < 2 ^ n \<Longrightarrow> take_bit n (of_nat x :: u32) = of_nat x"
  by (simp add: take_bit_of_nat take_bit_nat_eq_self)

lemma unpack_words:
  assumes "mib_valid m"
  shows "lte_mib_unpack (mib_words m @ rest) = Some (m\<lparr>antenna_ports := 0, quarter := 0,
    system_frame_number := system_frame_number m - system_frame_number m mod 4\<rparr>)"
proof -
  let ?b = "code_of bandwidths (bandwidth_prb m)" and ?r = "code_of phich_resources (phich_resource_sixths m)"
  let ?d = "system_frame_number m div 4"
  have b: "?b < 6" "bandwidths ! ?b = bandwidth_prb m" and r: "?r < 4" "phich_resources ! ?r = phich_resource_sixths m"
    using assms code_of_bandwidth code_of_resource by (simp_all add: mib_valid_def)
  have d: "0 \<le> ?d" "?d < 256" using assms by (auto simp: mib_valid_def)
  have code: "take_bits (mib_words m @ rest) 0 3 = of_nat ?b" "take_bits (mib_words m @ rest) 4 2 = of_nat ?r"
    using b(1) r(1) by (simp_all add: take_bits_word mib_words_def word_of_bits_word_bits take_bit_of_nat_small)
  have ext: "uint (take_bits (mib_words m @ rest) 3 1) = phich_extended m"
    using assms by (auto simp: take_bits_word mib_words_def word_of_bits_word_bits mib_valid_def)
  have byte: "drop_bit 2 (system_frame_number m) AND 0xff = ?d"
  proof -
    have "drop_bit 2 (system_frame_number m) AND 0xff = take_bit 8 ?d"
      by (simp add: take_bit_eq_mask mask_eq_exp_minus_1 drop_bit_eq_div)
    then show ?thesis using d by (simp add: take_bit_int_eq_self)
  qed
  have "take_bits (mib_words m @ rest) 6 8 = take_bit 8 (of_int ?d)"
    by (simp add: take_bits_word mib_words_def word_of_bits_word_bits byte)
  also have "\<dots> = of_int ?d" using d by (simp add: take_bit_of_int take_bit_int_eq_self)
  finally have "uint (push_bit 2 (take_bits (mib_words m @ rest) 6 8)) = 4 * ?d"
    using d by (simp add: push_bit_eq_mult uint_word_ariths take_bit_int_eq_self unsigned_of_int)
  moreover have "4 * ?d = system_frame_number m - system_frame_number m mod 4" by presburger
  moreover have "\<not> 6 \<le> (of_nat ?b :: u32)" "unat (of_nat ?b :: u32) = ?b" "unat (of_nat ?r :: u32) = ?r"
    using b(1) r(1) by (simp_all add: word_le_nat_alt unat_of_nat)
  ultimately show ?thesis
    using ext code b r by (auto simp: lte_mib_unpack_def Let_def intro!: lte_mib.equality)
qed


definition port_mask :: "int \<Rightarrow> bool list" where
  "port_mask ports = map (port_mask_bit ports) [0..<16]"

lemma mib_register: "feedback_register mib_crc_step 16"
  by (rule feedback_registerI [where poly = "0x1021"])
    (simp_all add: mib_crc_step_def take_bit_eq_mask mask_eq_exp_minus_1 Let_def)

interpretation mib_crc: feedback_register mib_crc_step 16
  by (rule mib_register)

lemma length_port_mask [simp]: "length (port_mask ports) = 16"
  by (simp add: port_mask_def)

lemma parity_masked: "lte_mib_parity bits ports = xor_bits (word_bits 16 (crc16 bits 24)) (port_mask ports)"
  by (rule nth_equalityI)
    (simp_all add: lte_mib_parity_def mib_sizes Let_def xor_bits_def port_mask_def word_bits_def
      and_test_bit [where n = 0 and 'w = 32, simplified] bit_drop_bit_eq)

lemma length_mib_parity [simp]: "length (lte_mib_parity bits ports) = 16"
  by (simp add: parity_masked)

lemma xor_bits_swap:
  "length xs = length ms \<Longrightarrow> length ys = length ms \<Longrightarrow> (xor_bits xs ms = ys) = (xor_bits ys ms = xs)"
  unfolding xor_bits_def by (auto simp: list_eq_iff_nth_eq)

text \<open>A block fits a port count when the register, run over it with the mask taken off, ends at zero.\<close>

lemma parity_fits:
  assumes "length block = 40"
  shows "lte_mib_parity block ports = take 16 (drop 24 block) \<longleftrightarrow>
    foldl mib_crc_step 0 (take 24 block @ xor_bits (drop 24 block) (port_mask ports)) = 0"
proof -
  let ?r = "crc16 block 24"
  have r: "take_bit 16 ?r = ?r" unfolding crc16_def by (rule mib_crc.run_range) simp
  have "take 16 (drop 24 block) = drop 24 block" using assms by simp
  then have "lte_mib_parity block ports = take 16 (drop 24 block) \<longleftrightarrow>
      xor_bits (drop 24 block) (port_mask ports) = word_bits 16 ?r"
    unfolding parity_masked using xor_bits_swap [of "word_bits 16 ?r" "port_mask ports" "drop 24 block"] assms by simp
  also have "\<dots> \<longleftrightarrow> foldl mib_crc_step ?r (xor_bits (drop 24 block) (port_mask ports)) = 0"
    by (rule mib_crc.check_zero [OF r, symmetric]) (simp add: assms)
  finally show ?thesis by (simp add: crc16_def)
qed

lemma port_masks_differ: "a \<in> {1, 2, 4} \<Longrightarrow> b \<in> {1, 2, 4} \<Longrightarrow> port_mask a = port_mask b \<Longrightarrow> a = b"
proof -
  assume "a \<in> {1, 2, 4}" "b \<in> {1, 2, 4}" and eq: "port_mask a = port_mask b"
  moreover have "port_mask_bit a n = port_mask_bit b n" if "n < 16" for n
    using arg_cong [OF eq, of "\<lambda>ms. ms ! n"] that by (simp add: port_mask_def)
  from this [of 0] this [of 1] have "port_mask_bit a 0 = port_mask_bit b 0" "port_mask_bit a 1 = port_mask_bit b 1"
    by simp_all
  ultimately show "a = b" by (auto simp: port_mask_bit_def)
qed

lemma xor_bits_inj: "length xs = length ys \<Longrightarrow> length xs = length zs \<Longrightarrow> xor_bits xs ys = xor_bits xs zs \<Longrightarrow> ys = zs"
  by (metis xor_bits_cancel)

lemma parity_ports_sent:
  assumes "length msg = 24" "ports \<in> {1, 2, 4}"
  shows "lte_mib_parity_ports (msg @ lte_mib_parity msg ports) = ports"
proof -
  have same: "lte_mib_parity (msg @ rest) c = lte_mib_parity msg c" for rest c
    using assms(1) by (simp add: parity_masked crc16_def)
  have "lte_mib_parity msg c \<noteq> lte_mib_parity msg ports" if "c \<in> {1, 2, 4}" "c \<noteq> ports" for c
    using that assms(2) port_masks_differ [of c ports] xor_bits_inj [of "word_bits 16 (crc16 msg 24)"]
    unfolding parity_masked by (metis length_port_mask length_word_bits)
  then have "find (\<lambda>c. lte_mib_parity msg c = lte_mib_parity msg ports) [1, 2, 4] = Some ports"
    using assms(2) by (simp only: find.simps insert_iff empty_iff) (elim disjE; simp)
  then show ?thesis using assms(1) unfolding lte_mib_parity_ports_def same by (simp add: mib_sizes)
qed

text \<open>A block sent for one, two or four antenna ports is recognised as sent for that number, and a burst
  of up to 16 wrong bits anywhere in the block, its parity included, is never recognised as that number.\<close>

theorem lte_mib_parity_names_ports:
  assumes "length msg = 24" "ports \<in> {1, 2, 4}"
    and "length burst \<le> 16" "True \<in> set burst" "i + length burst + j = 40"
  shows "lte_mib_parity_ports (msg @ lte_mib_parity msg ports) = ports \<and>
    lte_mib_parity_ports (xor_bits (msg @ lte_mib_parity msg ports)
      (replicate i False @ burst @ replicate j False)) \<noteq> ports"
proof -
  define err where "err = replicate i False @ burst @ replicate j False"
  define block where "block = msg @ lte_mib_parity msg ports"
  have len: "length block = 40" "length err = 40" using assms by (simp_all add: block_def err_def)
  have fits: "lte_mib_parity block ports = take 16 (drop 24 block)"
    using assms(1) by (simp add: block_def parity_masked crc16_def)
  let ?run = "\<lambda>b. take 24 b @ xor_bits (drop 24 b) (port_mask ports)"
  have "?run (xor_bits block err) = xor_bits (?run block) err"
    by (rule nth_equalityI) (use len in \<open>auto simp: xor_bits_def nth_append\<close>)
  moreover have "foldl mib_crc_step 0 err \<noteq> 0" unfolding err_def by (rule mib_crc.burst) (use assms in simp_all)
  ultimately have "foldl mib_crc_step 0 (?run (xor_bits block err)) \<noteq> 0"
    using mib_crc.error_changes [of "?run block" err 0] fits parity_fits [OF len(1), of ports] len by simp
  then have "lte_mib_parity (xor_bits block err) ports \<noteq> take 16 (drop 24 (xor_bits block err))"
    using parity_fits [of "xor_bits block err" ports] len by simp
  then have "lte_mib_parity_ports (xor_bits block err) \<noteq> ports"
    using assms(2) by (auto simp: lte_mib_parity_ports_def mib_sizes find_Some_iff split: option.splits)
  then show ?thesis using parity_ports_sent [OF assms(1,2)] by (simp add: block_def err_def)
qed

lemma lte_mib_parity_names_ports_witness:
  "lte_mib_parity_ports (replicate 24 True @ lte_mib_parity (replicate 24 True) 2) = 2 \<and>
    lte_mib_parity_ports (xor_bits (replicate 24 True @ lte_mib_parity (replicate 24 True) 2)
      (replicate 20 False @ replicate 16 True @ replicate 4 False)) \<noteq> 2"
  by (rule lte_mib_parity_names_ports) simp_all


subsection \<open>The decoder finds a best closed path\<close>

definition llr_exact :: "'f llr_ops \<Rightarrow> 'f \<Rightarrow> (int \<Rightarrow> 'f) \<Rightarrow> bool" where
  "llr_exact F lost I \<longleftrightarrow>
     fzero F = I 0 \<and> \<not> fgt F (fninf F) (fninf F) \<and> fgt F lost (fninf F) \<and>
     (\<forall>a. \<bar>a\<bar> \<le> 2 ^ 24 \<longrightarrow> fneg F (I a) = I (- a) \<and> fgt F (I a) (fninf F) \<and> \<not> fgt F lost (I a)) \<and>
     (\<forall>a b. \<bar>a\<bar> \<le> 2 ^ 24 \<longrightarrow> \<bar>b\<bar> \<le> 2 ^ 24 \<longrightarrow> (fgt F (I a) (I b) \<longleftrightarrow> b < a) \<and>
        (\<bar>a + b\<bar> \<le> 2 ^ 24 \<longrightarrow> fadd F (I a) (I b) = I (a + b)))"

lemma llr_exactD:
  assumes "llr_exact F lost I"
  shows exact_zero: "fzero F = I 0"
    and exact_lost: "fgt F lost (fninf F)"
    and exact_dead: "\<not> fgt F (fninf F) (fninf F)"
    and exact_neg: "\<bar>a\<bar> \<le> 2 ^ 24 \<Longrightarrow> fneg F (I a) = I (- a)"
    and exact_reached: "\<bar>a\<bar> \<le> 2 ^ 24 \<Longrightarrow> fgt F (I a) (fninf F)"
    and exact_kept: "\<bar>a\<bar> \<le> 2 ^ 24 \<Longrightarrow> \<not> fgt F lost (I a)"
    and exact_gt: "\<bar>a\<bar> \<le> 2 ^ 24 \<Longrightarrow> \<bar>b\<bar> \<le> 2 ^ 24 \<Longrightarrow> fgt F (I a) (I b) \<longleftrightarrow> b < a"
    and exact_add: "\<bar>a\<bar> \<le> 2 ^ 24 \<Longrightarrow> \<bar>b\<bar> \<le> 2 ^ 24 \<Longrightarrow> \<bar>a + b\<bar> \<le> 2 ^ 24 \<Longrightarrow> fadd F (I a) (I b) = I (a + b)"
  using assms unfolding llr_exact_def by blast+

text \<open>A received value counts for a codeword bit of zero and against a one.\<close>

definition with_sign :: "bool \<Rightarrow> int \<Rightarrow> int" where
  "with_sign b x = (if b then - x else x)"

lemma abs_with_sign [simp]: "\<bar>with_sign b x\<bar> = \<bar>x\<bar>"
  by (simp add: with_sign_def)

definition mib_soft :: "'f llr_ops \<Rightarrow> 'f \<Rightarrow> (int \<Rightarrow> 'f) \<Rightarrow> int list \<Rightarrow> bool" where
  "mib_soft F lost I soft \<longleftrightarrow>
     llr_exact F lost I \<and> length soft = 120 \<and> list_all (\<lambda>z. \<bar>z\<bar> \<le> 2 ^ 17) soft"

definition stage_value :: "int list \<Rightarrow> nat \<Rightarrow> bool list \<Rightarrow> int" where
  "stage_value soft k out = (\<Sum>stream < 3. with_sign (out ! stream) (soft ! (stream * 40 + k)))"

lemma three: "{..<3 :: nat} = {0, 1, 2}" "[0..<3] = [0, 1, 2]"
  by (auto simp: upt_rec)

lemma soft_small: "mib_soft F lost I soft \<Longrightarrow> i < 120 \<Longrightarrow> \<bar>soft ! i\<bar> \<le> 2 ^ 17"
  by (simp add: mib_soft_def list_all_length)

lemma stage_value_bound:
  assumes "mib_soft F lost I soft" "k < 40"
  shows "\<bar>stage_value soft k out\<bar> \<le> 3 * 2 ^ 17"
proof -
  have "\<bar>stage_value soft k out\<bar> \<le> (\<Sum>stream < 3. \<bar>with_sign (out ! stream) (soft ! (stream * 40 + k))\<bar>)"
    unfolding stage_value_def by (rule sum_abs)
  also have "\<dots> \<le> (\<Sum>stream < (3::nat). 2 ^ 17)"
    by (rule sum_mono) (use assms in \<open>auto intro!: soft_small [OF assms(1), simplified]\<close>)
  finally show ?thesis by simp
qed

lemma mib_branch_int:
  assumes soft: "mib_soft F lost I soft" and k: "k < 40" and z: "\<bar>z\<bar> \<le> 3 * 2 ^ 17 * int k"
  shows "mib_branch F (map I soft) k s u (I z) = I (z + stage_value soft k (encoder_output s u))"
proof -
  have F: "llr_exact F lost I" and len: "length soft = 120" using soft by (simp_all add: mib_soft_def)
  define v where "v stream = with_sign (encoder_output s u ! stream) (soft ! (stream * 40 + k))" for stream
  have small: "\<bar>v stream\<bar> \<le> 2 ^ 17" if "stream < 3" for stream
    using soft_small [OF soft, of "stream * 40 + k"] k that by (simp add: v_def)
  have sign: "llr_sign F (encoder_output s u ! stream) (map I soft ! (stream * 40 + k)) = I (v stream)"
    if "stream < 3" for stream
    using exact_neg [OF F, of "soft ! (stream * 40 + k)"] soft_small [OF soft, of "stream * 40 + k"] len k that
    by (simp add: llr_sign_def v_def with_sign_def)
  have zk: "\<bar>z\<bar> \<le> 3 * 2 ^ 17 * 39" using z k by simp
  note v = small [of 0] small [of 1] small [of 2]
  have "mib_branch F (map I soft) k s u (I z) = fadd F (fadd F (fadd F (I z) (I (v 0))) (I (v 1))) (I (v 2))"
    using sign [of 0] sign [of 1] sign [of 2]
    by (simp add: mib_branch_def three LTE_MIB_BLOCK_BITS_def)
  also have "\<dots> = I (z + v 0 + v 1 + v 2)"
    using exact_add [OF F, of z "v 0"] exact_add [OF F, of "z + v 0" "v 1"]
      exact_add [OF F, of "z + v 0 + v 1" "v 2"] v zk by (simp add: abs_le_iff)
  finally show ?thesis by (simp add: stage_value_def v_def three add.assoc)
qed

definition score_ok :: "(int \<Rightarrow> 'f) \<Rightarrow> nat \<Rightarrow> 'f \<Rightarrow> bool" where
  "score_ok I k x \<longleftrightarrow> k \<le> 40 \<and> (\<exists>z. x = I z \<and> \<bar>z\<bar> \<le> 3 * 2 ^ 17 * int k)"

lemma score_okD:
  assumes "score_ok I k x"
  obtains z where "x = I z" "\<bar>z\<bar> \<le> 3 * 2 ^ 17 * int k" "\<bar>z\<bar> \<le> 2 ^ 24" "k \<le> 40"
  using assms unfolding score_ok_def by (auto simp: abs_le_iff)

lemma mib_trellis:
  assumes soft: "mib_soft F lost I soft" and start: "start < 64"
  shows "trellis (fgt F) (\<lambda>m. fgt F lost m) (fninf F) 64 start encoder_next (mib_branch F (map I soft))
    (score_ok I) (fzero F) 40"
proof -
  have F: "llr_exact F lost I" using soft by (simp add: mib_soft_def)
  note gt = exact_gt [OF F]
  show ?thesis
  proof
    fix k :: nat and x y z :: 'a and s u
    show "\<not> fgt F x x" if "score_ok I k x" using that by (auto elim!: score_okD simp: gt)
    show "fgt F x z \<or> fgt F z y" if "score_ok I k x" "score_ok I k y" "score_ok I k z" "fgt F x y"
      using that by (auto elim!: score_okD simp: gt)
    show "\<not> fgt F y x" if "score_ok I k x" "score_ok I k y" "fgt F x y"
      using that by (auto elim!: score_okD simp: gt)
    show "fgt F lost (fninf F)" by (rule exact_lost [OF F])
    show "\<not> fgt F lost x" if "score_ok I k x" using that by (auto elim!: score_okD simp: exact_kept [OF F])
    show "fgt F x (fninf F)" if "score_ok I k x" using that by (auto elim!: score_okD simp: exact_reached [OF F])
    show "score_ok I (Suc k) (mib_branch F (map I soft) k s u x)" if "k < 40" "score_ok I k x"
    proof -
      obtain z where z: "x = I z" "\<bar>z\<bar> \<le> 3 * 2 ^ 17 * int k" using \<open>score_ok I k x\<close> by (rule score_okD)
      have "\<bar>z + stage_value soft k (encoder_output s u)\<bar> \<le> 3 * 2 ^ 17 * int (Suc k)"
        using z(2) stage_value_bound [OF soft \<open>k < 40\<close>, of "encoder_output s u"] by (simp add: abs_le_iff)
      then show ?thesis using mib_branch_int [OF soft \<open>k < 40\<close> z(2)] z(1) \<open>k < 40\<close> by (auto simp: score_ok_def)
    qed
    show "\<not> fgt F (mib_branch F (map I soft) k s u x) (mib_branch F (map I soft) k s u y)"
      if k: "k < 40" and x: "score_ok I k x" and y: "score_ok I k y" and xy: "\<not> fgt F x y"
    proof -
      obtain a where a: "x = I a" "\<bar>a\<bar> \<le> 3 * 2 ^ 17 * int k" "\<bar>a\<bar> \<le> 2 ^ 24" using x by (rule score_okD)
      obtain b where b: "y = I b" "\<bar>b\<bar> \<le> 3 * 2 ^ 17 * int k" "\<bar>b\<bar> \<le> 2 ^ 24" using y by (rule score_okD)
      let ?v = "stage_value soft k (encoder_output s u)"
      have "\<bar>a + ?v\<bar> \<le> 2 ^ 24" "\<bar>b + ?v\<bar> \<le> 2 ^ 24"
        using a(2) b(2) stage_value_bound [OF soft k, of "encoder_output s u"] k by (simp_all add: abs_le_iff)
      moreover have "a \<le> b" using xy gt a b by simp
      ultimately show ?thesis
        using mib_branch_int [OF soft k a(2)] mib_branch_int [OF soft k b(2)] gt a(1) b(1) by simp
    qed
    show "score_ok I 0 (fzero F)" by (simp add: score_ok_def exact_zero [OF F])
    show "encoder_next s u < 64" by (rule encoder_next_range)
  qed (use start in simp_all)
qed

text \<open>How well a block's codeword agrees with what was received.\<close>

definition agreement :: "int list \<Rightarrow> bool list \<Rightarrow> int" where
  "agreement soft block =
     (\<Sum>i < 120. with_sign (lte_mib_convolutional_encode block ! i) (soft ! i))"

lemma length_encoder_run [simp]: "length (encoder_run s us) = length us"
  by (induction us arbitrary: s) simp_all

lemma mib_path_score:
  assumes soft: "mib_soft F lost I soft"
  shows "k + length us \<le> 40 \<Longrightarrow> \<bar>z\<bar> \<le> 3 * 2 ^ 17 * int k \<Longrightarrow>
    path_score encoder_next (mib_branch F (map I soft)) (I z) k s us =
      I (z + (\<Sum>j < length us. stage_value soft (k + j) (encoder_run s us ! j)))"
proof (induction us arbitrary: k s z)
  case (Cons u us)
  have k: "k < 40" using Cons.prems(1) by simp
  let ?z = "z + stage_value soft k (encoder_output s u)"
  have z: "\<bar>?z\<bar> \<le> 3 * 2 ^ 17 * int (Suc k)"
    using Cons.prems(2) stage_value_bound [OF soft k, of "encoder_output s u"] by (simp add: abs_le_iff)
  have "path_score encoder_next (mib_branch F (map I soft)) (I z) k s (u # us) =
      I (?z + (\<Sum>j < length us. stage_value soft (Suc k + j) (encoder_run (encoder_next s u) us ! j)))"
    using Cons.IH [of "Suc k" ?z "encoder_next s u"] Cons.prems z mib_branch_int [OF soft k Cons.prems(2), of s u]
    by simp
  then show ?case by (simp add: sum.lessThan_Suc_shift add.assoc del: sum.lessThan_Suc path_score.simps)
qed simp

lemma coded_nth:
  assumes "length us = 40" "stream < 3" "j < 40"
  shows "lte_mib_convolutional_encode us ! (stream * 40 + j) = encoder_run (tail_biting_state us) us ! j ! stream"
proof -
  have "stream = 0 \<or> stream = 1 \<or> stream = 2" using assms(2) by linarith
  then show ?thesis
    using assms by (auto simp: lte_mib_convolutional_encode_def Let_def LTE_MIB_BLOCK_BITS_def three nth_append)
qed

lemma length_coded [simp]: "length us = 40 \<Longrightarrow> length (lte_mib_convolutional_encode us) = 120"
  by (simp add: lte_mib_convolutional_encode_def Let_def LTE_MIB_BLOCK_BITS_def three)

lemma agreement_stages:
  assumes "length us = 40"
  shows "agreement soft us = (\<Sum>j < 40. stage_value soft j (encoder_run (tail_biting_state us) us ! j))"
proof -
  let ?g = "\<lambda>i. with_sign (lte_mib_convolutional_encode us ! i) (soft ! i)"
  have "agreement soft us = (\<Sum>stream < 3. sum ?g {stream * 40..<stream * 40 + 40})"
    unfolding agreement_def by (subst sum.nat_group) simp
  also have "\<dots> = (\<Sum>stream < 3. \<Sum>j < 40. ?g (stream * 40 + j))"
  proof (rule sum.cong [OF refl])
    fix stream
    show "sum ?g {stream * 40..<stream * 40 + 40} = (\<Sum>j < 40. ?g (stream * 40 + j))"
      using sum.shift_bounds_nat_ivl [of ?g 0 "stream * 40" 40] by (simp add: lessThan_atLeast0 add.commute)
  qed
  also have "\<dots> = (\<Sum>j < 40. \<Sum>stream < 3. ?g (stream * 40 + j))" by (rule sum.swap)
  also have "\<dots> = (\<Sum>j < 40. stage_value soft j (encoder_run (tail_biting_state us) us ! j))"
    unfolding stage_value_def by (intro sum.cong refl) (simp add: coded_nth [OF assms])
  finally show ?thesis .
qed

lemma agreement_bound:
  assumes "mib_soft F lost I soft"
  shows "\<bar>agreement soft us\<bar> \<le> 2 ^ 24"
proof -
  have "\<bar>agreement soft us\<bar> \<le> (\<Sum>i < 120. \<bar>with_sign (lte_mib_convolutional_encode us ! i) (soft ! i)\<bar>)"
    unfolding agreement_def by (rule sum_abs)
  also have "\<dots> \<le> (\<Sum>i < (120 :: nat). 2 ^ 17)"
    by (rule sum_mono) (use soft_small [OF assms] in simp)
  finally show ?thesis by simp
qed


text \<open>The survivor of one starting state is a best closed path through it.\<close>

lemma closed_path_from:
  assumes "start < 64"
  shows "\<exists>us. length us = 40 \<and> tail_biting_state us = start"
proof -
  let ?us = "map (\<lambda>j. bit start (39 - j)) [0..<40]"
  have "tail_biting_state ?us = start"
    by (rule state_eqI [OF tail_biting_range assms]) (simp add: bit_tail_biting less_imp_diff_less)
  then show ?thesis by (intro exI [of _ ?us]) simp
qed

lemma closed_paths_best:
  assumes soft: "mib_soft F lost I soft" and start: "start < 64" and old: "\<forall>k < 40. length (old k) = 64"
  defines "tr \<equiv> trace_back (rev (snd (closed_paths F lost (map I soft) old start))) start"
  defines "block \<equiv> map (\<lambda>(s, _). bit s 0) tr"
  shows "length block = 40" "tail_biting_state block = start"
    "fst (closed_paths F lost (map I soft) old start) ! start = I (agreement soft block)"
    "length us = 40 \<Longrightarrow> tail_biting_state us = start \<Longrightarrow> agreement soft us \<le> agreement soft block"
proof -
  have F: "llr_exact F lost I" using soft by (simp add: mib_soft_def)
  let ?score = "path_score encoder_next (mib_branch F (map I soft)) (fzero F) 0 start"
  have path: "path_state encoder_next start us = tail_biting_state us"
    and score: "tail_biting_state us = start \<Longrightarrow> ?score us = I (agreement soft us)" if "length us = 40" for us
    using that mib_path_score [OF soft, of 0 us 0 start]
    by (simp_all add: path_state_def encoder_closes agreement_stages exact_zero [OF F])
  note best = trellis.survivor_best [OF mib_trellis [OF soft start], of old _ _ 40, OF old refl _ order_refl]
  have row: "closed_paths F lost (map I soft) old start = viterbi_forward (fgt F) (\<lambda>m. fgt F lost m) (fninf F) 64
      encoder_next (mib_branch F (map I soft)) old ((replicate 64 (fninf F))[start := fzero F]) 40"
    by (simp add: closed_paths_def LTE_MIB_STATES_def LTE_MIB_BLOCK_BITS_def)
  obtain vs where vs: "length vs = 40" "tail_biting_state vs = start" using closed_path_from [OF start] by blast
  note b = best [OF vs(1), unfolded path [OF vs(1)] vs(2), folded row, folded tr_def]
  have "(\<lambda>(s, _). bit s 0) p = snd p" if "p \<in> set tr" for p
    using b(4) that by (auto simp: list_all_iff bit_encoder_next)
  then have block: "block = map snd tr" by (simp add: block_def)
  show len: "length block = 40" using b(1) by (simp add: block)
  show tail: "tail_biting_state block = start" using b(2) path [OF len] by (simp add: block)
  show "fst (closed_paths F lost (map I soft) old start) ! start = I (agreement soft block)"
    using b(5) score [OF len tail] by (simp add: block)
  show "agreement soft us \<le> agreement soft block" if us: "length us = 40" "tail_biting_state us = start"
  proof -
    have "\<not> fgt F (?score us) (?score block)"
      using best(3) [OF us(1), unfolded path [OF us(1)] us(2), folded row, folded tr_def] by (simp add: block)
    then show ?thesis
      using score [OF us] score [OF len tail] exact_gt [OF F] agreement_bound [OF soft] by auto
  qed
qed

text \<open>After the starting states below \<open>m\<close>: the best of their closed paths.\<close>

definition best_so_far :: "(int \<Rightarrow> 'f) \<Rightarrow> int list \<Rightarrow> nat \<Rightarrow> ('f \<times> bool list) option \<Rightarrow> bool" where
  "best_so_far I soft m best \<longleftrightarrow>
     (case best of None \<Rightarrow> m = 0
      | Some (peak, block) \<Rightarrow> length block = 40 \<and> peak = I (agreement soft block) \<and>
          (\<forall>us. length us = 40 \<longrightarrow> tail_biting_state us < m \<longrightarrow> agreement soft us \<le> agreement soft block))"

lemma try_start_best:
  assumes soft: "mib_soft F lost I soft" and m: "m < 64" and old: "\<forall>k < 40. length (old k) = 64"
    and best: "best_so_far I soft m best"
  shows "best_so_far I soft (Suc m) (snd (try_start F lost (map I soft) (old, best) m))"
proof -
  have F: "llr_exact F lost I" using soft by (simp add: mib_soft_def)
  obtain metric survivor where row: "closed_paths F lost (map I soft) old m = (metric, survivor)" by fastforce
  define block where "block = map (\<lambda>(s, _). bit s 0) (trace_back (rev survivor) m)"
  note new = closed_paths_best [OF soft m old, unfolded row fst_conv snd_conv, folded block_def]
  have kept: "\<not> fgt F lost (metric ! m)"
    using exact_kept [OF F] agreement_bound [OF soft] by (simp add: new(3))
  have result: "snd (try_start F lost (map I soft) (old, best) m) =
      (if best = None \<or> fgt F (metric ! m) (fst (the best)) then Some (metric ! m, block) else best)"
    using kept by (simp add: try_start_def row block_def)
  show ?thesis
  proof (cases best)
    case None
    then have "m = 0" using best by (simp add: best_so_far_def)
    then show ?thesis unfolding result best_so_far_def using new None by auto
  next
    case (Some b)
    obtain peak other where b: "b = (peak, other)" by fastforce
    have o: "length other = 40" "peak = I (agreement soft other)"
      "\<And>us. length us = 40 \<Longrightarrow> tail_biting_state us < m \<Longrightarrow> agreement soft us \<le> agreement soft other"
      using best by (simp_all add: Some b best_so_far_def)
    have "fgt F (metric ! m) peak \<longleftrightarrow> agreement soft other < agreement soft block"
      using exact_gt [OF F] agreement_bound [OF soft] by (simp add: new(3) o(2))
    then show ?thesis
      unfolding result unfolding best_so_far_def Some b using new o
      by (auto simp: less_Suc_eq) (metis less_imp_le order_trans linorder_not_le)+
  qed
qed

lemma decode_best:
  assumes soft: "mib_soft F lost I soft" and old: "\<forall>k < 40. length (old k) = 64"
  shows "\<exists>block. lte_mib_convolutional_decode F lost old (map I soft) = Some block \<and> length block = 40 \<and>
    (\<forall>us. length us = 40 \<longrightarrow> agreement soft us \<le> agreement soft block)"
proof -
  let ?after = "\<lambda>m. foldl (try_start F lost (map I soft)) (old, None) [0..<m]"
  have "(\<forall>k < 40. length (fst (?after m) k) = 64) \<and> best_so_far I soft m (snd (?after m))" if "m \<le> 64" for m
    using that
  proof (induction m)
    case (Suc m)
    obtain t best where a: "?after m = (t, best)" by fastforce
    have ih: "\<forall>k < 40. length (t k) = 64" "best_so_far I soft m best" using Suc a by simp_all
    have "length (fst (try_start F lost (map I soft) (t, best) m) k) = 64" if "k < 40" for k
      using ih(1) that by (simp add: try_start_def split_beta Let_def closed_paths_def LTE_MIB_STATES_def
          LTE_MIB_BLOCK_BITS_def length_survivor)
    then show ?case using Suc.prems try_start_best [OF soft _ ih] a by simp
  qed (use old in \<open>simp add: best_so_far_def\<close>)
  then have "best_so_far I soft 64 (snd (?after 64))" by simp
  then show ?thesis
    by (auto simp: best_so_far_def lte_mib_convolutional_decode_def LTE_MIB_STATES_def tail_biting_range split: option.splits)
qed


text \<open>C18: The tail-biting decoder is a maximum-likelihood decoder: on integer soft values of at most \<open>2 ^ 17\<close> in size, which
  the decoder's \<open>float\<close> adds exactly, it returns a block of 40 bits, and no block of 40 bits has a codeword that agrees
  better with what was received. Each of the 64 starting states is tried, and the tables may hold anything before.\<close>

theorem lte_mib_decode_maximum_likelihood:
  assumes "mib_soft F lost I soft" "\<forall>k < 40. length (old k) = 64"
  shows "\<exists>block. lte_mib_convolutional_decode F lost old (map I soft) = Some block \<and> length block = 40 \<and>
    (\<forall>us. length us = 40 \<longrightarrow> agreement soft us \<le> agreement soft block)"
  by (rule decode_best [OF assms])

definition mib_ints :: "int llr_ops" where
  "mib_ints = \<lparr>fadd = (+), fsub = (-), fneg = uminus, fhalf = (\<lambda>x. x div 2), fle = (\<le>), fgt = (\<lambda>a b. b < a),
     fzero = 0, fninf = - (10 ^ 30)\<rparr>"

lemma mib_ints_exact: "llr_exact mib_ints (- (10 ^ 29)) (\<lambda>z. z)"
  unfolding llr_exact_def mib_ints_def by (auto simp: abs_le_iff)

lemma lte_mib_decode_maximum_likelihood_witness:
  "\<exists>block. lte_mib_convolutional_decode mib_ints (- (10 ^ 29)) (\<lambda>_. replicate 64 (0, False))
      (map (\<lambda>z. z) (replicate 120 (- 3))) = Some block \<and> length block = 40 \<and>
    (\<forall>us. length us = 40 \<longrightarrow> agreement (replicate 120 (- 3)) us \<le> agreement (replicate 120 (- 3)) block)"
  by (rule lte_mib_decode_maximum_likelihood) (simp_all add: mib_soft_def mib_ints_exact [simplified] list_all_length)

subsection \<open>A codeword belongs to one block\<close>

definition parity_of :: "bool list \<Rightarrow> bool" where
  "parity_of bs = foldr (\<noteq>) bs False"

text \<open>Sums of bits in a normal form: the negation outside, the terms in order, pairs gone.\<close>

lemma xor_norm:
  "((\<not> a) = b) = (\<not> (a = b))" "(a = (\<not> b)) = (\<not> (a = b))" "(a = (a = b)) = b" "(a = a) = True"
  "(a = True) = a" "(True = a) = a" "(a = False) = (\<not> a)" "(False = a) = (\<not> a)" "(\<not> \<not> a) = a"
  for a b :: bool
  by auto

text \<open>The starting state, read off the first three stages.\<close>

lemma encoder_seen:
  assumes "out = encoder_run s [u0, u1, u2]"
  shows "bit s 0 = parity_of [out ! 0 ! 0, out ! 0 ! 2, out ! 1 ! 0, out ! 2 ! 0, out ! 2 ! 2]"
    "bit s 1 = parity_of [out ! 0 ! 0, out ! 0 ! 2, out ! 1 ! 0, out ! 2 ! 0, out ! 2 ! 1]"
    "bit s 2 = parity_of [out ! 0 ! 0, out ! 0 ! 2, out ! 1 ! 0, out ! 1 ! 1, out ! 1 ! 2, out ! 2 ! 0, out ! 2 ! 1]"
    "bit s 3 = parity_of [out ! 0 ! 0, out ! 0 ! 1, out ! 1 ! 0, out ! 1 ! 1, out ! 1 ! 2, out ! 2 ! 0, out ! 2 ! 1]"
    "bit s 4 = parity_of [out ! 0 ! 1, out ! 0 ! 2, out ! 1 ! 0, out ! 2 ! 0, out ! 2 ! 2]"
    "bit s 5 = parity_of [out ! 0 ! 2, out ! 1 ! 0, out ! 1 ! 1, out ! 2 ! 1, out ! 2 ! 2]"
proof -
  have low: "bit (encoder_next a b) 0 = b" "bit (encoder_next a b) (Suc 0) = bit a 0" "bit (encoder_next a b) 2 = bit a 1"
    "bit (encoder_next a b) 3 = bit a 2" "bit (encoder_next a b) 4 = bit a 3" "bit (encoder_next a b) 5 = bit a 4" for a b
    by (simp_all add: bit_encoder_next)
  have third: "xs ! 2 = xs ! Suc (Suc 0)" "ys ! 2 = ys ! Suc (Suc 0)" for xs :: "bool list" and ys :: "bool list list" by (simp_all add: numeral_2_eq_2)
  note out = assms [unfolded encoder_run.simps encoder_output_def Let_def]
  show "bit s 0 = parity_of [out ! 0 ! 0, out ! 0 ! 2, out ! 1 ! 0, out ! 2 ! 0, out ! 2 ! 2]"
    unfolding parity_of_def out
    by (simp only: low nth_Cons_0 nth_Cons_Suc third One_nat_def foldr.simps o_apply id_apply xor_norm eq_ac)
  show "bit s 1 = parity_of [out ! 0 ! 0, out ! 0 ! 2, out ! 1 ! 0, out ! 2 ! 0, out ! 2 ! 1]"
    unfolding parity_of_def out
    by (simp only: low nth_Cons_0 nth_Cons_Suc third One_nat_def foldr.simps o_apply id_apply xor_norm eq_ac)
  show "bit s 2 = parity_of [out ! 0 ! 0, out ! 0 ! 2, out ! 1 ! 0, out ! 1 ! 1, out ! 1 ! 2, out ! 2 ! 0, out ! 2 ! 1]"
    unfolding parity_of_def out
    by (simp only: low nth_Cons_0 nth_Cons_Suc third One_nat_def foldr.simps o_apply id_apply xor_norm eq_ac)
  show "bit s 3 = parity_of [out ! 0 ! 0, out ! 0 ! 1, out ! 1 ! 0, out ! 1 ! 1, out ! 1 ! 2, out ! 2 ! 0, out ! 2 ! 1]"
    unfolding parity_of_def out
    by (simp only: low nth_Cons_0 nth_Cons_Suc third One_nat_def foldr.simps o_apply id_apply xor_norm eq_ac)
  show "bit s 4 = parity_of [out ! 0 ! 1, out ! 0 ! 2, out ! 1 ! 0, out ! 2 ! 0, out ! 2 ! 2]"
    unfolding parity_of_def out
    by (simp only: low nth_Cons_0 nth_Cons_Suc third One_nat_def foldr.simps o_apply id_apply xor_norm eq_ac)
  show "bit s 5 = parity_of [out ! 0 ! 2, out ! 1 ! 0, out ! 1 ! 1, out ! 2 ! 1, out ! 2 ! 2]"
    unfolding parity_of_def out
    by (simp only: low nth_Cons_0 nth_Cons_Suc third One_nat_def foldr.simps o_apply id_apply xor_norm eq_ac)
qed

lemma encoder_start:
  assumes "encoder_run s [u0, u1, u2] = encoder_run t [v0, v1, v2]" "n < 6"
  shows "bit s n = bit t n"
proof -
  have "n = 0 \<or> n = 1 \<or> n = 2 \<or> n = 3 \<or> n = 4 \<or> n = 5" using assms(2) by linarith
  then show ?thesis
    using encoder_seen [OF refl [of "encoder_run s [u0, u1, u2]"]] encoder_seen [OF assms(1)]
    by (elim disjE) (simp_all only:)
qed

lemma encoder_run_inj:
  "length us = length vs \<Longrightarrow> encoder_run s us = encoder_run s vs \<Longrightarrow> us = vs"
proof (induction us vs arbitrary: s rule: list_induct2)
  case (Cons u us v vs)
  then have "u = v" by (auto simp: encoder_output_def Let_def)
  then show ?case using Cons by simp
qed simp

lemma list_of_40:
  assumes "length us = 40"
  obtains a b c rest where "us = a # b # c # rest"
  using assms by (cases us; cases "tl us"; cases "tl (tl us)") auto

lemma codeword_inj:
  assumes "length us = 40" "length vs = 40"
    and "lte_mib_convolutional_encode us = lte_mib_convolutional_encode vs"
  shows "us = vs"
proof -
  let ?s = "tail_biting_state us" and ?t = "tail_biting_state vs"
  have lengths: "length out = 3" if "out \<in> set (encoder_run a bs)" for out a bs
    using that by (induction bs arbitrary: a) (auto simp: encoder_output_def Let_def)
  have runs: "encoder_run ?s us = encoder_run ?t vs"
  proof (rule nth_equalityI)
    fix j assume "j < length (encoder_run ?s us)"
    then have j: "j < 40" using assms(1) by simp
    show "encoder_run ?s us ! j = encoder_run ?t vs ! j"
    proof (rule nth_equalityI)
      have three: "length (encoder_run ?s us ! j) = 3" "length (encoder_run ?t vs ! j) = 3"
        by (rule lengths [OF nth_mem], use j assms in simp)+
      then show "length (encoder_run ?s us ! j) = length (encoder_run ?t vs ! j)" by simp
      show "encoder_run ?s us ! j ! k = encoder_run ?t vs ! j ! k" if "k < length (encoder_run ?s us ! j)" for k
        using three coded_nth [OF assms(1) _ j, of k] coded_nth [OF assms(2) _ j, of k] that assms(3) by simp_all
    qed
  qed (use assms in simp)
  obtain a b c as where us: "us = a # b # c # as" using assms(1) by (rule list_of_40)
  obtain d e f bs where vs: "vs = d # e # f # bs" using assms(2) by (rule list_of_40)
  have "encoder_run ?s [a, b, c] = encoder_run ?t [d, e, f]" using runs by (simp add: us vs)
  then have "?s = ?t" by (intro state_eqI [OF tail_biting_range tail_biting_range] encoder_start)
  then show ?thesis using runs encoder_run_inj [of us vs ?t] assms(1,2) by simp
qed

text \<open>When every soft value is the sent bit's, with the same weight, only the sent block agrees with all.\<close>

lemma best_is_sent:
  assumes "length block = 40" "length got = 40" "0 < w"
    and soft: "soft = map (\<lambda>b. with_sign b w) (lte_mib_convolutional_encode block)"
    and best: "agreement soft block \<le> agreement soft got"
  shows "got = block"
proof -
  let ?c = "lte_mib_convolutional_encode block" and ?d = "lte_mib_convolutional_encode got"
  have worth: "agreement soft us = (\<Sum>i < 120. if lte_mib_convolutional_encode us ! i = ?c ! i then w else - w)" for us
    unfolding agreement_def soft using assms(1) by (intro sum.cong) (auto simp: with_sign_def)
  have "(\<Sum>i < 120. if ?d ! i = ?c ! i then w else - w) = (\<Sum>i < (120 :: nat). w)"
  proof (rule antisym)
    show "(\<Sum>i < 120. if ?d ! i = ?c ! i then w else - w) \<le> (\<Sum>i < (120 :: nat). w)"
      by (rule sum_mono) (use assms(3) in simp)
  qed (use best in \<open>simp add: worth\<close>)
  then have "(\<Sum>i < 120. w - (if ?d ! i = ?c ! i then w else - w)) = 0" by (simp add: sum_subtractf)
  then have "\<forall>i \<in> {..<120}. w - (if ?d ! i = ?c ! i then w else - w) = 0"
    using assms(3) sum_nonneg_eq_0_iff [of "{..<120}" "\<lambda>i. w - (if ?d ! i = ?c ! i then w else - w)"] by simp
  then have "?d = ?c" using assms(1-3) by (intro nth_equalityI) (auto split: if_splits)
  then show ?thesis using codeword_inj [OF assms(2,1)] by simp
qed


subsection \<open>One quarter hears every coded bit four times\<close>

lemma cycle_map_list: "cycle_map =
  [9, 25, 17, 1, 33, 13, 29, 21, 5, 37, 11, 27, 19, 3, 35, 15, 31, 23, 7, 39, 8, 24, 16, 0,
   32, 12, 28, 20, 4, 36, 10, 26, 18, 2, 34, 14, 30, 22, 6, 38, 49, 65, 57, 41, 73, 53, 69, 61,
   45, 77, 51, 67, 59, 43, 75, 55, 71, 63, 47, 79, 48, 64, 56, 40, 72, 52, 68, 60, 44, 76, 50, 66,
   58, 42, 74, 54, 70, 62, 46, 78, 89, 105, 97, 81, 113, 93, 109, 101, 85, 117, 91, 107, 99, 83, 115, 95,
   111, 103, 87, 119, 88, 104, 96, 80, 112, 92, 108, 100, 84, 116, 90, 106, 98, 82, 114, 94, 110, 102, 86, 118]"
  by (simp add: cycle_map_def SUBBLOCK_SIZE_def SUBBLOCK_ROWS_def SUBBLOCK_COLUMNS_def SUBBLOCK_PADDING_def
      LTE_MIB_BLOCK_BITS_def mib_column_order_def upt_conv_Cons Let_def)

lemma cycle_map_perm: "length cycle_map = 120" "distinct cycle_map" "set cycle_map = {..<120}"
proof -
  have d: "length cycle_map = 120 \<and> distinct cycle_map \<and> list_all (\<lambda>j. j < 120) cycle_map"
    unfolding cycle_map_list by simp
  then show "length cycle_map = 120" "distinct cycle_map" by simp_all
  have "card (set cycle_map) = 120" using d by (simp add: distinct_card)
  moreover have "set cycle_map \<subseteq> {..<120}" using d by (auto simp: list_all_iff)
  ultimately show "set cycle_map = {..<120}" by (intro card_subset_eq) simp_all
qed

lemma cycle_map_below: "cycle_map ! (n mod 120) < 120"
  using nth_mem [of "n mod 120" cycle_map] cycle_map_perm by simp

lemma update_mapped:
  assumes "a < n"
  shows "(map f [0..<n])[a := x] = map (f(a := x)) [0..<n]"
  using assms by (intro nth_equalityI) (auto simp: nth_list_update)

lemma dematch_sums:
  assumes F: "llr_exact F lost I" and w: "length w = 1920" "list_all (\<lambda>x. \<bar>x\<bar> \<le> 1) w"
  shows "lte_mib_rate_dematch F (map I w) =
    map I (map (\<lambda>j. \<Sum>n < 1920. if cycle_map ! (n mod 120) = j then w ! n else 0) [0..<120])"
proof -
  let ?sum = "\<lambda>m j. \<Sum>n < m. if cycle_map ! (n mod 120) = j then w ! n else 0"
  let ?put = "\<lambda>coded n. coded[cycle_map ! (n mod 120) :=
      fadd F (coded ! (cycle_map ! (n mod 120))) (map I w ! n)]"
  have small: "\<bar>?sum m j\<bar> \<le> int m" if "m \<le> 1920" for m j
  proof -
    have "\<bar>?sum m j\<bar> \<le> (\<Sum>n < m. \<bar>if cycle_map ! (n mod 120) = j then w ! n else 0\<bar>)" by (rule sum_abs)
    also have "\<dots> \<le> (\<Sum>n < m. 1)"
      by (rule sum_mono) (use w that in \<open>auto simp: list_all_length\<close>)
    finally show ?thesis by simp
  qed
  have "foldl ?put (replicate 120 (fzero F)) [0..<m] = map (\<lambda>j. I (?sum m j)) [0..<120]" if "m \<le> 1920" for m
    using that
  proof (induction m)
    case 0
    show ?case by (rule nth_equalityI) (simp_all add: exact_zero [OF F])
  next
    case (Suc m)
    let ?a = "cycle_map ! (m mod 120)"
    have m: "m < 1920" using Suc.prems by simp
    have "fadd F (I (?sum m ?a)) (I (w ! m)) = I (?sum m ?a + w ! m)"
    proof (rule exact_add [OF F])
      have "\<bar>w ! m\<bar> \<le> 1" using w m by (simp add: list_all_length)
      then show "\<bar>?sum m ?a\<bar> \<le> 2 ^ 24" "\<bar>w ! m\<bar> \<le> 2 ^ 24" "\<bar>?sum m ?a + w ! m\<bar> \<le> 2 ^ 24"
        using small [of m ?a] m by (simp_all add: abs_le_iff)
    qed
    then show ?case
      using Suc m cycle_map_below [of m] w(1) by (auto simp: update_mapped fun_upd_def cong: map_cong)
  qed
  from this [of 1920] show ?thesis
    by (simp add: lte_mib_rate_dematch_def mib_sizes Let_def)
qed

lemma four_times:
  assumes "j < 120"
  shows "(\<Sum>i < 480. if cycle_map ! (i mod 120) = j then x else 0) = 4 * (x :: int)"
proof -
  have "j \<in> set cycle_map" using cycle_map_perm(3) assms by simp
  then obtain r where r: "r < 120" "cycle_map ! r = j" using cycle_map_perm(1) by (auto simp: in_set_conv_nth)
  have only: "(cycle_map ! i = j) = (i = r)" if "i < 120" for i
    using that r cycle_map_perm(1,2) by (auto simp: nth_eq_iff_index_eq)
  let ?f = "\<lambda>i. if cycle_map ! (i mod 120) = j then x else 0"
  have "sum ?f {t * 120..<t * 120 + 120} = x" for t
  proof -
    have "sum ?f {t * 120..<t * 120 + 120} = (\<Sum>i < 120. ?f (i + t * 120))"
      using sum.shift_bounds_nat_ivl [of ?f 0 "t * 120" 120] by (simp add: lessThan_atLeast0 add.commute)
    also have "\<dots> = (\<Sum>i < 120. if i = r then x else 0)" by (rule sum.cong) (simp_all add: only)
    also have "\<dots> = x" using r by simp
    finally show ?thesis .
  qed
  then have "(\<Sum>t < 4. sum ?f {t * 120..<t * 120 + 120}) = 4 * x" by simp
  then show ?thesis by (subst (asm) sum.nat_group) simp
qed

text \<open>What a quarter of a block's rate-matched codeword leaves in the decoder, the rest unknown.\<close>

definition quarter_soft :: "bool list \<Rightarrow> nat \<Rightarrow> int list" where
  "quarter_soft coded q = replicate (q * 480) 0 @
     map (\<lambda>n. with_sign (coded ! (cycle_map ! ((q * 480 + n) mod 120))) 1) [0..<480] @ replicate ((3 - q) * 480) 0"

lemma dematch_quarter:
  assumes F: "llr_exact F lost I" and q: "q < 4" and coded: "length coded = 120"
  shows "lte_mib_rate_dematch F (map I (quarter_soft coded q)) = map I (map (\<lambda>b. with_sign b 4) coded)"
proof -
  let ?w = "quarter_soft coded q"
  have len: "length ?w = 1920" using q by (simp add: quarter_soft_def)
  have "(\<Sum>n < 1920. if cycle_map ! (n mod 120) = j then ?w ! n else 0) = with_sign (coded ! j) 4"
    if j: "j < 120" for j
  proof -
    let ?g = "\<lambda>n. if cycle_map ! (n mod 120) = j then ?w ! n else 0"
    have zero: "?g n = 0" if "n < 1920" "n \<notin> {q * 480..<q * 480 + 480}" for n
      using that q by (auto simp: quarter_soft_def nth_append)
    have "sum ?g {..<1920} = sum ?g {q * 480..<q * 480 + 480}"
      by (rule sum.mono_neutral_right) (use q zero in auto)
    also have "\<dots> = (\<Sum>i < 480. ?g (i + q * 480))"
      using sum.shift_bounds_nat_ivl [of ?g 0 "q * 480" 480] by (simp add: lessThan_atLeast0 add.commute)
    also have "\<dots> = (\<Sum>i < 480. if cycle_map ! (i mod 120) = j then with_sign (coded ! j) 1 else 0)"
    proof (rule sum.cong [OF refl])
      fix i :: nat assume i: "i \<in> {..<480}"
      have "(i + q * 480) mod 120 = i mod 120"
        using mod_mult_self1 [of i "4 * q" 120] by (simp add: ac_simps)
      then show "?g (i + q * 480) = (if cycle_map ! (i mod 120) = j then with_sign (coded ! j) 1 else 0)"
        using i by (simp add: quarter_soft_def nth_append add.commute [of i])
    qed
    also have "\<dots> = 4 * with_sign (coded ! j) 1" by (rule four_times [OF j])
    finally show ?thesis by (simp add: with_sign_def)
  qed
  then show ?thesis
    using coded by (subst dematch_sums [OF F len])
      (auto simp: quarter_soft_def list_all_iff with_sign_def intro!: nth_equalityI)
qed

lemma length_pack [simp]: "length (lte_mib_pack m) = 24"
  by (simp add: pack_words mib_words_def)

lemma length_mib_block [simp]: "length (lte_mib_block m) = 40"
  by (simp add: lte_mib_block_def Let_def)

lemma descramble_encoded:
  assumes F: "llr_exact F lost I" and q: "q < 4"
  shows "lte_mib_descramble F pci q (lte_mib_encode F (I 1) m pci q) =
    map (\<lambda>n. I (with_sign (lte_mib_convolutional_encode (lte_mib_block m) ! (cycle_map ! ((q * 480 + n) mod 120))) 1))
      [0..<480]"
proof -
  have neg: "fneg F (I 1) = I (- 1)" "fneg F (I (- 1)) = I 1"
    using exact_neg [OF F, of 1] exact_neg [OF F, of "- 1"] by simp_all
  have "q * 480 + n < 1920" if "n < 480" for n using that q by simp
  then show ?thesis
    by (intro nth_equalityI)
      (simp_all add: lte_mib_descramble_def lte_mib_encode_def lte_mib_rate_match_def Let_def mib_sizes
        with_sign_def neg)
qed

lemma frame_number_joined:
  assumes "0 \<le> n" "n mod 4 = int q"
  shows "(n - n mod 4) OR int q = n"
proof -
  have "q < 4" using assms by linarith
  have "n - n mod 4 = push_bit 2 (n div 4)" by (simp add: push_bit_eq_mult minus_mod_eq_div_mult)
  moreover have "int q = take_bit 2 (int q)" using \<open>q < 4\<close> by (simp add: take_bit_int_eq_self)
  moreover have "push_bit 2 a AND take_bit 2 b = 0" for a b :: int
    by (rule bit_eqI) (auto simp: bit_and_iff bit_push_bit_iff bit_take_bit_iff)
  ultimately have "(n - n mod 4) OR int q = (n - n mod 4) + int q"
    by (metis disjunctive_add_eq_or)
  then show ?thesis using assms(2) by simp
qed

lemma quarter_sent:
  assumes F: "llr_exact F lost I" and q: "q < 4" and old: "\<forall>k < 40. length (old k) = 64"
    and m: "mib_valid m" "system_frame_number m mod 4 = int q"
  shows "mib_quarter F lost old (lte_mib_encode F (I 1) m pci q) pci q = Some (m\<lparr>quarter := int q\<rparr>)"
proof -
  let ?block = "lte_mib_block m"
  let ?coded = "lte_mib_convolutional_encode ?block"
  have whole: "replicate (q * LTE_MIB_QUARTER_BITS) (fzero F) @
      lte_mib_descramble F pci q (lte_mib_encode F (I 1) m pci q) @
      replicate ((LTE_MIB_QUARTERS - 1 - q) * LTE_MIB_QUARTER_BITS) (fzero F) = map I (quarter_soft ?coded q)"
    by (simp add: descramble_encoded [OF F q] quarter_soft_def mib_sizes exact_zero [OF F] comp_def)
  let ?soft = "map (\<lambda>b. with_sign b 4) ?coded"
  have soft: "mib_soft F lost I ?soft" using F by (simp add: mib_soft_def list_all_length with_sign_def)
  obtain got where got: "lte_mib_convolutional_decode F lost old (map I ?soft) = Some got" "length got = 40"
    "agreement ?soft ?block \<le> agreement ?soft got"
    using decode_best [OF soft old] by auto
  then have "got = ?block" using best_is_sent [of ?block got 4 ?soft] by simp
  moreover have "lte_mib_parity_ports ?block = antenna_ports m"
    using parity_ports_sent [of "lte_mib_pack m" "antenna_ports m"] m(1)
    by (simp add: lte_mib_block_def mib_valid_def Let_def)
  moreover have "antenna_ports m \<noteq> 0" using m(1) by (auto simp: mib_valid_def)
  moreover have "?block = mib_words m @ (replicate 10 False @ lte_mib_parity (lte_mib_pack m) (antenna_ports m))"
    by (simp add: lte_mib_block_def Let_def pack_words)
  then have "lte_mib_unpack ?block = Some (m\<lparr>antenna_ports := 0, quarter := 0,
      system_frame_number := system_frame_number m - system_frame_number m mod 4\<rparr>)"
    using unpack_words [OF m(1)] by metis
  moreover have "(system_frame_number m - system_frame_number m mod 4) OR int q = system_frame_number m"
    by (rule frame_number_joined [OF _ m(2)]) (use m(1) in \<open>simp add: mib_valid_def\<close>)
  ultimately show ?thesis
    unfolding mib_quarter_def Let_def whole dematch_quarter [OF F q length_coded [OF length_mib_block]]
    by (auto simp: got(1) simp del: map_map intro!: lte_mib.equality)
qed

text \<open>C17: The broadcast channel end to end: of a message the standard has a code for, sent in the quarter its
  frame number says and received alone, the search reports exactly that message with that quarter, unless
  an earlier quarter's hypothesis already passed the parity by chance; for the first quarter none can.\<close>

theorem lte_mib_broadcast_round_trip:
  fixes pci :: int
  assumes "llr_exact F lost I" "q < 4" "\<forall>q < 4. \<forall>k < 40. length (old q k) = 64"
    and "mib_valid m" "system_frame_number m mod 4 = int q"
  defines "soft \<equiv> lte_mib_encode F (I 1) m pci q"
  shows "lte_mib_decode F lost old soft pci = Some (m\<lparr>quarter := int q\<rparr>) \<or>
    (\<exists>p < q. mib_quarter F lost (old p) soft pci p \<noteq> None \<and>
       lte_mib_decode F lost old soft pci = mib_quarter F lost (old p) soft pci p)"
proof -
  have sent: "mib_quarter F lost (old q) soft pci q = Some (m\<lparr>quarter := int q\<rparr>)"
    unfolding soft_def by (rule quarter_sent) (use assms in auto)
  have "first_quarter f qs = f q \<or> (\<exists>p \<in> set qs. p < q \<and> f p \<noteq> None \<and> first_quarter f qs = f p)"
    if "f q \<noteq> None" "q \<in> set qs" "sorted_wrt (<) qs" for f :: "nat \<Rightarrow> lte_mib option" and qs
    using that by (induction qs) (auto split: option.splits)
  from this [of "\<lambda>q. mib_quarter F lost (old q) soft pci q" "[0..<4]"] show ?thesis
    using sent assms(2) by (auto simp: lte_mib_decode_def LTE_MIB_QUARTERS_def)
qed

definition sample_mib :: lte_mib where
  "sample_mib = \<lparr>bandwidth_prb = 50, phich_extended = 0, phich_resource_sixths = 6, system_frame_number = 684,
     antenna_ports = 2, quarter = 0\<rparr>"

lemma lte_mib_broadcast_round_trip_witness:
  "lte_mib_decode mib_ints (- 100000000000000000000000000000) (\<lambda>_ _. replicate 64 (0, False))
    (lte_mib_encode mib_ints 1 sample_mib 147 0) 147 = Some sample_mib"
  using lte_mib_broadcast_round_trip [OF mib_ints_exact [simplified], of 0 "\<lambda>_ _. replicate 64 (0, False)" sample_mib 147]
  by (simp add: sample_mib_def mib_valid_def bandwidths_def phich_resources_def)

end
