(* ===== verification/Floating.thy ===== *)
theory Floating
  imports Prelude Complex_Main
begin

text \<open>
  The floating-point operations the decoders call: \<open>float\<close> is any type with \<open>sample_ops\<close>, \<open>double\<close> any
  type with \<open>double_ops\<close>, so what is proved of them holds whatever the rounding. The instances on the
  reals compute without any. Nothing in this theory models code.
\<close>

text \<open>\<open>s_lit n k\<close> and \<open>d_lit n k\<close> are the literals \<open>n / 10 ^ k\<close>.\<close>

record 'f sample_ops =
  s_gt :: "'f \<Rightarrow> 'f \<Rightarrow> bool"
  s_ge :: "'f \<Rightarrow> 'f \<Rightarrow> bool"
  s_add :: "'f \<Rightarrow> 'f \<Rightarrow> 'f"
  s_sub :: "'f \<Rightarrow> 'f \<Rightarrow> 'f"
  s_mul :: "'f \<Rightarrow> 'f \<Rightarrow> 'f"
  s_div :: "'f \<Rightarrow> 'f \<Rightarrow> 'f"
  s_abs :: "'f \<Rightarrow> 'f"
  s_lit :: "int \<Rightarrow> nat \<Rightarrow> 'f"

record 'd double_ops =
  d_gt :: "'d \<Rightarrow> 'd \<Rightarrow> bool"
  d_ge :: "'d \<Rightarrow> 'd \<Rightarrow> bool"
  d_add :: "'d \<Rightarrow> 'd \<Rightarrow> 'd"
  d_sub :: "'d \<Rightarrow> 'd \<Rightarrow> 'd"
  d_mul :: "'d \<Rightarrow> 'd \<Rightarrow> 'd"
  d_div :: "'d \<Rightarrow> 'd \<Rightarrow> 'd"
  d_neg :: "'d \<Rightarrow> 'd"
  d_abs :: "'d \<Rightarrow> 'd"
  d_floor :: "'d \<Rightarrow> 'd"
  d_ceil :: "'d \<Rightarrow> 'd"
  d_fmod :: "'d \<Rightarrow> 'd \<Rightarrow> 'd"
  d_round :: "'d \<Rightarrow> 'd"
  d_sqrt :: "'d \<Rightarrow> 'd"
  d_cos :: "'d \<Rightarrow> 'd"
  d_acos :: "'d \<Rightarrow> 'd"
  d_atan2 :: "'d \<Rightarrow> 'd \<Rightarrow> 'd"
  d_of_int :: "int \<Rightarrow> 'd"
  d_to_int :: "'d \<Rightarrow> int"
  d_lit :: "int \<Rightarrow> nat \<Rightarrow> 'd"
  d_infinity :: 'd

text \<open>Arithmetic without rounding, in which \<open>M_PI\<close> is the number it stands for.\<close>

definition exact_samples :: "real sample_ops" where
  "exact_samples = \<lparr>s_gt = (>), s_ge = (\<ge>), s_add = (+), s_sub = (-), s_mul = (*), s_div = (/), s_abs = abs,
     s_lit = (\<lambda>n k. real_of_int n / 10 ^ k)\<rparr>"

definition exact_doubles :: "real double_ops" where
  "exact_doubles = \<lparr>d_gt = (>), d_ge = (\<ge>), d_add = (+), d_sub = (-), d_mul = (*), d_div = (/), d_neg = uminus,
     d_abs = abs, d_floor = (\<lambda>x. real_of_int \<lfloor>x\<rfloor>), d_ceil = (\<lambda>x. real_of_int \<lceil>x\<rceil>),
     d_fmod = (\<lambda>a b. if 0 \<le> a / b then a - b * real_of_int \<lfloor>a / b\<rfloor> else a - b * real_of_int \<lceil>a / b\<rceil>),
     d_round = (\<lambda>x. if 0 \<le> x then real_of_int \<lfloor>x + 1 / 2\<rfloor> else real_of_int \<lceil>x - 1 / 2\<rceil>), d_sqrt = sqrt, d_cos = cos, d_acos = arccos, d_atan2 = (\<lambda>y x. Arg (Complex x y)), d_of_int = real_of_int,
     d_to_int = (\<lambda>x. if 0 \<le> x then \<lfloor>x\<rfloor> else \<lceil>x\<rceil>), d_lit = (\<lambda>n k. if n = 314159265358979323846 then pi else real_of_int n / 10 ^ k),
     d_infinity = 10 ^ 300\<rparr>"

lemma exact_ops [simp]:
  "d_gt exact_doubles = (>)" "d_ge exact_doubles = (\<ge>)" "d_add exact_doubles = (+)"
  "d_sub exact_doubles = (-)" "d_mul exact_doubles = (*)" "d_div exact_doubles = (/)"
  "d_neg exact_doubles = uminus" "d_abs exact_doubles = abs"
  "d_floor exact_doubles = (\<lambda>x. real_of_int \<lfloor>x\<rfloor>)" "d_ceil exact_doubles = (\<lambda>x. real_of_int \<lceil>x\<rceil>)" "d_cos exact_doubles = cos" "d_acos exact_doubles = arccos" "d_sqrt exact_doubles = sqrt"
  "d_of_int exact_doubles = real_of_int"
  "d_to_int exact_doubles (real_of_int i) = i"
  by (simp_all add: exact_doubles_def)

lemma exact_lit: "n \<noteq> 314159265358979323846 \<Longrightarrow> d_lit exact_doubles n k = real_of_int n / 10 ^ k"
  by (simp add: exact_doubles_def)

lemma exact_lits:
  "d_lit exact_doubles 5 1 = 1 / 2" "d_lit exact_doubles 590 1 = 59" "d_lit exact_doubles 600 1 = 60"
  "d_lit exact_doubles 1800 1 = 180" "d_lit exact_doubles 2700 1 = 270" "d_lit exact_doubles 3600 1 = 360"
  by (simp_all add: exact_lit)

end
