(* ===== verification/Adsb.thy ===== *)
theory Adsb
  imports Check_Register Floating
begin

text \<open>
  The Mode S decoder of \<open>src/src/tech/adsb_dsp.c\<close>: the parity, the fields of an extended squitter,
  the preamble test, the modulator of the repository's own checks, the scan over a buffer of
  magnitudes, the cache that pairs position frames and the trace kept for the charts; and the session
  (\<open>adsb_session.c\<close>) and log (\<open>adsb_analysis.h\<close>) over it. Magnitudes are any type with the
  comparisons and arithmetic of \<open>sample_ops\<close>, positions and times any type with \<open>double_ops\<close>.
\<close>

unbundle bit_operations_syntax

subsection \<open>Bits and parity\<close>

definition MODES_GENERATOR_POLY :: u32 where "MODES_GENERATOR_POLY = 0xFFF409"

definition bits_val :: "u8 list \<Rightarrow> nat \<Rightarrow> nat \<Rightarrow> u32" where
  "bits_val bytes start len =
     foldl (\<lambda>value i. push_bit 1 value OR
         (ucast (drop_bit (7 - (start + i) mod 8) (bytes ! ((start + i) div 8))) AND 1)) 0 [0..<len]"

definition crc_shift :: "u32 \<Rightarrow> u32" where
  "crc_shift remainder =
     (if remainder AND 0x800000 \<noteq> 0 then push_bit 1 remainder XOR MODES_GENERATOR_POLY
      else push_bit 1 remainder) AND 0xFFFFFF"

definition adsb_crc :: "u8 list \<Rightarrow> u32" where
  "adsb_crc bytes =
     foldl (\<lambda>remainder b. (crc_shift ^^ 8) (remainder XOR push_bit 16 (ucast b))) 0 bytes"

definition ADSB_LONG_BITS :: nat where "ADSB_LONG_BITS = 112"
definition ADSB_SHORT_BITS :: nat where "ADSB_SHORT_BITS = 56"
definition ADSB_LONG_BYTES :: nat where "ADSB_LONG_BYTES = 14"
definition ADSB_SHORT_BYTES :: nat where "ADSB_SHORT_BYTES = 7"
definition ADSB_SAMPLES_PER_BIT :: nat where "ADSB_SAMPLES_PER_BIT = 2"
definition ADSB_PREAMBLE_SAMPLES :: nat where "ADSB_PREAMBLE_SAMPLES = 16"

lemmas adsb_sizes = ADSB_LONG_BITS_def ADSB_SHORT_BITS_def ADSB_LONG_BYTES_def ADSB_SHORT_BYTES_def
  ADSB_SAMPLES_PER_BIT_def ADSB_PREAMBLE_SAMPLES_def

definition adsb_frame_length_bits :: "nat \<Rightarrow> nat" where
  "adsb_frame_length_bits downlink_format =
     (if downlink_format \<in> set [16, 17, 18, 19, 20, 21, 24] then ADSB_LONG_BITS else ADSB_SHORT_BITS)"

subsection \<open>The fields of a frame\<close>

datatype adsb_message_kind = ADSB_KIND_UNKNOWN | ADSB_KIND_IDENTIFICATION
  | ADSB_KIND_AIRBORNE_POSITION | ADSB_KIND_VELOCITY

text \<open>A message as \<open>memset\<close> leaves it has every number zero; \<open>callsign\<close> is the text up to its NUL,
  \<open>frame_bytes\<close> the octets copied (the rest of the array is zero).\<close>

record 'd adsb_message =
  frame_bytes :: "u8 list"
  downlink_format :: nat
  m_icao :: u32
  type_code :: nat
  kind :: adsb_message_kind
  callsign :: string
  has_altitude :: bool
  altitude_ft :: int
  has_velocity :: bool
  ground_speed_kt :: 'd
  heading_deg :: 'd
  cpr_odd :: bool
  cpr_lat :: u32
  cpr_lon :: u32
  has_position :: bool
  latitude_deg :: 'd
  longitude_deg :: 'd

definition charset :: string where
  "charset = ''#ABCDEFGHIJKLMNOPQRSTUVWXYZ##### ###############0123456789######''"

text \<open>Trailing spaces are overwritten from the end.\<close>

fun trim_spaces :: "string \<Rightarrow> nat \<Rightarrow> string" where
  "trim_spaces text 0 = []"
| "trim_spaces text (Suc e) = (if text ! e = CHR '' '' then trim_spaces text e else take (Suc e) text)"

definition decode_identification :: "u8 list \<Rightarrow> 'd adsb_message \<Rightarrow> 'd adsb_message" where
  "decode_identification bytes out =
     (let tx = map (\<lambda>i. charset ! unat (bits_val bytes (40 + 6 * i) 6)) [0..<8]
      in out\<lparr>callsign := trim_spaces tx 8, kind := ADSB_KIND_IDENTIFICATION\<rparr>)"

definition decode_airborne_position :: "u8 list \<Rightarrow> 'd adsb_message \<Rightarrow> 'd adsb_message" where
  "decode_airborne_position bytes out =
     (let alt12 = bits_val bytes 40 12;
          out = (if drop_bit 4 alt12 AND 1 \<noteq> 0 then
                   let n = push_bit 4 (drop_bit 5 alt12 AND 0x7F) OR (alt12 AND 0x0F)
                   in out\<lparr>has_altitude := True, altitude_ft := int (unat n) * 25 - 1000\<rparr>
                 else out)
      in out\<lparr>cpr_odd := bits_val bytes 53 1 \<noteq> 0, cpr_lat := bits_val bytes 54 17,
             cpr_lon := bits_val bytes 71 17, kind := ADSB_KIND_AIRBORNE_POSITION\<rparr>)"

definition d_pi :: "'d double_ops \<Rightarrow> 'd" where "d_pi D = d_lit D 314159265358979323846 20"

definition decode_velocity :: "'d double_ops \<Rightarrow> u8 list \<Rightarrow> 'd adsb_message \<Rightarrow> 'd adsb_message" where
  "decode_velocity D bytes out =
     (let subtype = bits_val bytes 37 3;
          sign_ew = bits_val bytes 45 1; vew = int (unat (bits_val bytes 46 10));
          sign_ns = bits_val bytes 56 1; vns = int (unat (bits_val bytes 57 10))
      in if subtype \<noteq> 1 \<and> subtype \<noteq> 2 then out
         else if vew = 0 \<or> vns = 0 then out
         else
           let mult = (if subtype = 2 then 4 else 1);
               vx = d_of_int D ((vew - 1) * mult); vy = d_of_int D ((vns - 1) * mult);
               vx = (if sign_ew \<noteq> 0 then d_neg D vx else vx);
               vy = (if sign_ns \<noteq> 0 then d_neg D vy else vy);
               heading = d_div D (d_mul D (d_atan2 D vx vy) (d_lit D 1800 1)) (d_pi D);
               heading = (if d_gt D (d_lit D 0 1) heading then d_add D heading (d_lit D 3600 1) else heading)
           in out\<lparr>has_velocity := True,
                  ground_speed_kt := d_sqrt D (d_add D (d_mul D vx vx) (d_mul D vy vy)),
                  heading_deg := heading, kind := ADSB_KIND_VELOCITY\<rparr>)"

definition blank_message :: "'d double_ops \<Rightarrow> 'd adsb_message" where
  "blank_message D = \<lparr>frame_bytes = [], downlink_format = 0, m_icao = 0, type_code = 0,
     kind = ADSB_KIND_UNKNOWN, callsign = [], has_altitude = False, altitude_ft = 0, has_velocity = False,
     ground_speed_kt = d_lit D 0 0, heading_deg = d_lit D 0 0, cpr_odd = False, cpr_lat = 0, cpr_lon = 0,
     has_position = False, latitude_deg = d_lit D 0 0, longitude_deg = d_lit D 0 0\<rparr>"

definition frame_df :: "u8 list \<Rightarrow> nat" where
  "frame_df bytes = unat (drop_bit 3 (bytes ! 0) AND 0x1F)"

definition frame_icao :: "u8 list \<Rightarrow> u32" where
  "frame_icao bytes = push_bit 16 (ucast (bytes ! 1)) OR push_bit 8 (ucast (bytes ! 2)) OR ucast (bytes ! 3)"

definition adsb_decode_frame :: "'d double_ops \<Rightarrow> u8 list \<Rightarrow> 'd adsb_message option" where
  "adsb_decode_frame D bytes =
     (if length bytes \<noteq> ADSB_SHORT_BYTES \<and> length bytes \<noteq> ADSB_LONG_BYTES then None
      else let df = frame_df bytes in
        if adsb_frame_length_bits df div 8 \<noteq> length bytes then None
        else if df \<noteq> 17 \<and> df \<noteq> 18 then None
        else if adsb_crc bytes \<noteq> 0 then None
        else
          let tc = unat (bits_val bytes 32 5);
              out = (blank_message D)\<lparr>frame_bytes := bytes, downlink_format := df,
                       m_icao := frame_icao bytes, type_code := tc\<rparr>
          in Some (if 1 \<le> tc \<and> tc \<le> 4 then decode_identification bytes out
                   else if 9 \<le> tc \<and> tc \<le> 18 then decode_airborne_position bytes out
                   else if tc = 19 then decode_velocity D bytes out
                   else out))"

subsection \<open>Positions\<close>

definition positive_fmod :: "'d double_ops \<Rightarrow> 'd \<Rightarrow> 'd \<Rightarrow> 'd" where
  "positive_fmod D a b =
     (let r = d_fmod D a b in if d_gt D (d_lit D 0 1) r then d_add D r b else r)"

definition cpr_nl :: "'d double_ops \<Rightarrow> 'd \<Rightarrow> int" where
  "cpr_nl D lat =
     (let lat = (if d_gt D (d_lit D 0 1) lat then d_neg D lat else lat)
      in if d_gt D (d_lit D 1 9) lat then 59
         else if d_gt D (d_lit D 1 9) (d_abs D (d_sub D lat (d_lit D 870 1))) then 2
         else if d_gt D lat (d_lit D 870 1) then 1
         else
           let numerator = d_sub D (d_lit D 10 1)
                 (d_cos D (d_div D (d_pi D) (d_mul D (d_lit D 20 1) (d_lit D 150 1))));
               denominator = d_cos D (d_mul D (d_div D (d_pi D) (d_lit D 1800 1)) lat);
               denominator = d_mul D denominator denominator;
               nl = d_div D (d_mul D (d_lit D 20 1) (d_pi D))
                 (d_acos D (d_sub D (d_lit D 10 1) (d_div D numerator denominator)))
           in d_to_int D (d_floor D nl))"

definition cpr_fraction :: "'d double_ops \<Rightarrow> u32 \<Rightarrow> 'd" where
  "cpr_fraction D v = d_div D (d_of_int D (int (unat v))) (d_lit D 1310720 1)"

definition cpr_longitude :: "'d double_ops \<Rightarrow> bool \<Rightarrow> int \<Rightarrow> 'd \<Rightarrow> 'd \<Rightarrow> 'd" where
  "cpr_longitude D use_odd nl lon_cpr_even lon_cpr_odd =
     (let m = d_floor D (d_add D (d_sub D (d_mul D lon_cpr_even (d_of_int D (nl - 1)))
                (d_mul D lon_cpr_odd (d_of_int D nl))) (d_lit D 5 1));
          lon = (if use_odd then
                   let ni = (if nl - 1 > 1 then nl - 1 else 1)
                   in d_mul D (d_div D (d_lit D 3600 1) (d_of_int D ni))
                        (d_add D (positive_fmod D m (d_of_int D ni)) lon_cpr_odd)
                 else
                   let ni = (if nl > 1 then nl else 1)
                   in d_mul D (d_div D (d_lit D 3600 1) (d_of_int D ni))
                        (d_add D (positive_fmod D m (d_of_int D ni)) lon_cpr_even))
      in if d_ge D lon (d_lit D 1800 1) then d_sub D lon (d_lit D 3600 1) else lon)"

definition adsb_cpr_global ::
    "'d double_ops \<Rightarrow> u32 \<Rightarrow> u32 \<Rightarrow> u32 \<Rightarrow> u32 \<Rightarrow> bool \<Rightarrow> ('d \<times> 'd) option" where
  "adsb_cpr_global D even_lat even_lon odd_lat odd_lon use_odd =
     (let dlat_even = d_div D (d_lit D 3600 1) (d_lit D 600 1);
          dlat_odd = d_div D (d_lit D 3600 1) (d_lit D 590 1);
          lat_cpr_even = cpr_fraction D even_lat; lat_cpr_odd = cpr_fraction D odd_lat;
          j = d_floor D (d_add D (d_sub D (d_mul D (d_lit D 590 1) lat_cpr_even)
                (d_mul D (d_lit D 600 1) lat_cpr_odd)) (d_lit D 5 1));
          lat_e = d_mul D dlat_even (d_add D (positive_fmod D j (d_lit D 600 1)) lat_cpr_even);
          lat_o = d_mul D dlat_odd (d_add D (positive_fmod D j (d_lit D 590 1)) lat_cpr_odd);
          lat_e = (if d_ge D lat_e (d_lit D 2700 1) then d_sub D lat_e (d_lit D 3600 1) else lat_e);
          lat_o = (if d_ge D lat_o (d_lit D 2700 1) then d_sub D lat_o (d_lit D 3600 1) else lat_o)
      in if cpr_nl D lat_e \<noteq> cpr_nl D lat_o then None
         else let lat = (if use_odd then lat_o else lat_e)
              in Some (lat, cpr_longitude D use_odd (cpr_nl D lat) (cpr_fraction D even_lon)
                              (cpr_fraction D odd_lon)))"

definition ADSB_CPR_CACHE :: nat where "ADSB_CPR_CACHE = 64"

record 'd adsb_cpr_entry =
  e_icao :: u32
  has_even :: bool
  has_odd :: bool
  even_lat :: u32
  even_lon :: u32
  odd_lat :: u32
  odd_lon :: u32
  even_time :: 'd
  odd_time :: 'd

definition blank_entry :: "'d double_ops \<Rightarrow> 'd adsb_cpr_entry" where
  "blank_entry D = \<lparr>e_icao = 0, has_even = False, has_odd = False, even_lat = 0, even_lon = 0,
     odd_lat = 0, odd_lon = 0, even_time = d_lit D 0 0, odd_time = d_lit D 0 0\<rparr>"

text \<open>The decoder is its cache.\<close>

definition adsb_decoder_init :: "'d double_ops \<Rightarrow> 'd adsb_cpr_entry list" where
  "adsb_decoder_init D = replicate ADSB_CPR_CACHE (blank_entry D)"

text \<open>The search: \<open>Inl i\<close> is the slot already held by the aircraft, \<open>Inr i\<close> the one to take over.\<close>

fun cache_search :: "'d double_ops \<Rightarrow> u32 \<Rightarrow> nat \<Rightarrow> nat \<Rightarrow> 'd \<Rightarrow> 'd adsb_cpr_entry list \<Rightarrow> nat + nat" where
  "cache_search D icao i oldest oldest_time [] = Inr oldest"
| "cache_search D icao i oldest oldest_time (e # es) =
     (if (has_even e \<or> has_odd e) \<and> e_icao e = icao then Inl i
      else
        let recent = (if d_gt D (even_time e) (odd_time e) then even_time e else odd_time e)
        in if \<not> has_even e \<and> \<not> has_odd e then
             cache_search D icao (i + 1) i (d_neg D (d_infinity D)) es
           else if d_gt D oldest_time recent then cache_search D icao (i + 1) i recent es
           else cache_search D icao (i + 1) oldest oldest_time es)"

definition cache_entry ::
    "'d double_ops \<Rightarrow> 'd adsb_cpr_entry list \<Rightarrow> u32 \<Rightarrow> nat \<times> 'd adsb_cpr_entry list" where
  "cache_entry D cache icao =
     (case cache_search D icao 0 0 (d_infinity D) cache of
        Inl i \<Rightarrow> (i, cache)
      | Inr i \<Rightarrow> (i, cache[i := (blank_entry D)\<lparr>e_icao := icao\<rparr>]))"

definition record_half :: "'d \<Rightarrow> 'd adsb_message \<Rightarrow> 'd adsb_cpr_entry \<Rightarrow> 'd adsb_cpr_entry" where
  "record_half time msg e =
     (if cpr_odd msg then e\<lparr>has_odd := True, odd_lat := cpr_lat msg, odd_lon := cpr_lon msg, odd_time := time\<rparr>
      else e\<lparr>has_even := True, even_lat := cpr_lat msg, even_lon := cpr_lon msg, even_time := time\<rparr>)"

definition resolve_position ::
    "'d double_ops \<Rightarrow> 'd adsb_cpr_entry list \<Rightarrow> 'd \<Rightarrow> 'd adsb_message \<Rightarrow>
       'd adsb_cpr_entry list \<times> 'd adsb_message" where
  "resolve_position D cache time_seconds msg =
     (let (i, cache) = cache_entry D cache (m_icao msg);
          e = record_half time_seconds msg (cache ! i); cache = cache[i := e]
      in if \<not> has_even e \<or> \<not> has_odd e then (cache, msg)
         else if d_gt D (d_abs D (d_sub D (even_time e) (odd_time e))) (d_lit D 100 1) then (cache, msg)
         else case adsb_cpr_global D (even_lat e) (even_lon e) (odd_lat e) (odd_lon e) (cpr_odd msg) of
                None \<Rightarrow> (cache, msg)
              | Some (lat, lon) \<Rightarrow>
                  (cache, msg\<lparr>has_position := True, latitude_deg := lat, longitude_deg := lon\<rparr>))"

subsection \<open>Magnitudes\<close>

definition preamble_at :: "'f sample_ops \<Rightarrow> 'f list \<Rightarrow> nat \<Rightarrow> bool" where
  "preamble_at S m i =
     (let gt = s_gt S; pos = (\<lambda>k. m ! (i + k))
      in if i + ADSB_PREAMBLE_SAMPLES \<ge> length m then False
         else if \<not> (gt (pos 0) (pos 1) \<and> gt (pos 2) (pos 1) \<and> gt (pos 2) (pos 3) \<and> gt (pos 0) (pos 3) \<and>
                 gt (pos 0) (pos 4) \<and> gt (pos 0) (pos 5) \<and> gt (pos 0) (pos 6) \<and> gt (pos 7) (pos 8) \<and>
                 gt (pos 9) (pos 8) \<and> gt (pos 9) (pos 6)) then False
         else
           let high = s_div S (s_add S (s_add S (s_add S (pos 0) (pos 2)) (pos 7)) (pos 9)) (s_lit S 40 1)
           in list_all (\<lambda>k. \<not> s_ge S (pos k) (s_mul S high (s_lit S 75 2))) [10..<ADSB_PREAMBLE_SAMPLES])"

definition preamble_pulses :: "nat list" where "preamble_pulses = [0, 2, 7, 9]"
definition preamble_quiet :: "nat list" where
  "preamble_quiet = [1, 3, 4, 5, 6, 8, 10, 11, 12, 13, 14, 15]"

definition sum_at :: "'f sample_ops \<Rightarrow> 'f list \<Rightarrow> nat \<Rightarrow> nat list \<Rightarrow> 'f" where
  "sum_at S m index ks = foldl (\<lambda>a k. s_add S a (m ! (index + k))) (s_lit S 0 1) ks"

definition adsb_preamble_score :: "'f sample_ops \<Rightarrow> 'f list \<Rightarrow> nat \<Rightarrow> 'f" where
  "adsb_preamble_score S m index =
     (if index + ADSB_PREAMBLE_SAMPLES > length m then s_lit S 0 1
      else
        let high = s_div S (sum_at S m index preamble_pulses) (s_lit S 40 1);
            quiet = s_div S (sum_at S m index preamble_quiet) (s_lit S 120 1);
            quiet = (if s_ge S (s_lit S 1 6) quiet then s_lit S 1 6 else quiet)
        in s_div S high quiet)"

text \<open>Writing a frame into a buffer: \<open>None\<close> is the return of 0, with the buffer untouched.\<close>

definition frame_samples :: "nat \<Rightarrow> nat" where
  "frame_samples bits = ADSB_PREAMBLE_SAMPLES + bits * ADSB_SAMPLES_PER_BIT"

definition write_preamble :: "'f \<Rightarrow> 'f \<Rightarrow> 'f list \<Rightarrow> nat \<Rightarrow> 'f list" where
  "write_preamble high noise m start =
     foldl (\<lambda>m k. m[start + k := high])
       (foldl (\<lambda>m k. m[start + k := noise]) m [0..<ADSB_PREAMBLE_SAMPLES]) preamble_pulses"

definition frame_bit :: "u8 list \<Rightarrow> nat \<Rightarrow> bool" where
  "frame_bit bytes k = (drop_bit (7 - k mod 8) (bytes ! (k div 8)) AND 1 \<noteq> 0)"

definition adsb_modulate_frame ::
    "u8 list \<Rightarrow> 'f \<Rightarrow> 'f \<Rightarrow> 'f list \<Rightarrow> nat \<Rightarrow> (nat \<times> 'f list) option" where
  "adsb_modulate_frame bytes high noise magnitudes start =
     (if length bytes \<noteq> ADSB_SHORT_BYTES \<and> length bytes \<noteq> ADSB_LONG_BYTES then None
      else
        let bits = length bytes * 8; samples = frame_samples bits
        in if start + samples > length magnitudes then None
           else Some (samples,
             foldl (\<lambda>m k. let set = frame_bit bytes k; pos = start + ADSB_PREAMBLE_SAMPLES + k * ADSB_SAMPLES_PER_BIT
                    in m[pos := (if set then high else noise), pos + 1 := (if set then noise else high)])
               (write_preamble high noise magnitudes start) [0..<bits]))"

subsection \<open>The scan over a buffer\<close>

record adsb_demod_stats =
  preambles :: u64
  attempts :: u64
  crc_failed :: u64
  decoded :: u64

definition ADSB_TRACE_HALF_WIDTH :: nat where "ADSB_TRACE_HALF_WIDTH = 32"

record ('f, 'd) adsb_frame_trace =
  t_valid :: bool
  t_crc_ok :: bool
  t_downlink_format :: nat
  t_bit_count :: nat
  t_icao :: u32
  t_time_seconds :: 'd
  landscape :: "'f list"
  landscape_center :: nat
  confidence :: "'f list"
  margin :: "'f list"
  amplitude :: "'f list"
  t_bit :: "bool list"
  envelope :: "'f list"
  preamble_high :: 'f

text \<open>The last attempt: its index, format, length in bits, parity outcome and octets.\<close>

type_synonym attempt = "nat \<times> nat \<times> nat \<times> bool \<times> u8 list"

definition bit_pair :: "'f list \<Rightarrow> nat \<Rightarrow> nat \<Rightarrow> 'f \<times> 'f" where
  "bit_pair m i k = (let pos = i + ADSB_PREAMBLE_SAMPLES + k * ADSB_SAMPLES_PER_BIT in (m ! pos, m ! (pos + 1)))"

definition bit_margin :: "'f sample_ops \<Rightarrow> 'f \<times> 'f \<Rightarrow> 'f option" where
  "bit_margin S p = (case p of (first, second) \<Rightarrow> let total = s_add S first second
     in if s_ge S (s_lit S 1 6) total then None else Some (s_div S (s_sub S first second) total))"

definition padded :: "nat \<Rightarrow> 'a \<Rightarrow> 'a list \<Rightarrow> 'a list" where
  "padded n z xs = xs @ replicate (n - length xs) z"

definition fill_trace ::
    "'f sample_ops \<Rightarrow> 'f list \<Rightarrow> attempt \<Rightarrow> 'd \<Rightarrow> ('f, 'd) adsb_frame_trace" where
  "fill_trace S m traced time_seconds =
     (let (index, df, bit_count, crc_ok, bytes) = traced;
          high = s_div S (sum_at S m index preamble_pulses) (s_lit S 40 1);
          scale = (if s_gt S high (s_lit S 1 6) then high else s_lit S 1 6);
          zero = s_lit S 0 1;
          pairs = map (bit_pair m index) [0..<bit_count]
      in \<lparr>t_valid = True, t_crc_ok = crc_ok, t_downlink_format = df, t_bit_count = bit_count,
          t_icao = (if crc_ok then frame_icao bytes else 0), t_time_seconds = time_seconds,
          landscape = map (\<lambda>k. if index + k < ADSB_TRACE_HALF_WIDTH then zero
                             else adsb_preamble_score S m (index + k - ADSB_TRACE_HALF_WIDTH))
                        [0..<2 * ADSB_TRACE_HALF_WIDTH + 1],
          landscape_center = ADSB_TRACE_HALF_WIDTH,
          confidence = padded ADSB_LONG_BITS zero
            (map (\<lambda>p. case bit_margin S p of None \<Rightarrow> zero | Some x \<Rightarrow> s_abs S x) pairs),
          margin = padded ADSB_LONG_BITS zero
            (map (\<lambda>p. case bit_margin S p of None \<Rightarrow> zero | Some x \<Rightarrow> x) pairs),
          amplitude = padded ADSB_LONG_BITS zero
            (map (\<lambda>p. if bit_margin S p = None then zero
                      else s_div S (s_add S (fst p) (snd p)) (s_mul S (s_lit S 20 1) scale)) pairs),
          t_bit = padded ADSB_LONG_BITS False (map (\<lambda>p. s_gt S (fst p) (snd p)) pairs),
          envelope = padded (frame_samples ADSB_LONG_BITS) zero
            (map (\<lambda>n. s_div S (m ! (index + n)) scale)
              [0..<min (frame_samples bit_count) (length m - index)]),
          preamble_high = high\<rparr>)"

record 'd scan_state =
  sc_cache :: "'d adsb_cpr_entry list"
  sc_stored :: "'d adsb_message list"
  sc_written :: nat
  sc_counts :: adsb_demod_stats
  sc_traced :: "attempt option"

definition slice_frame :: "'f sample_ops \<Rightarrow> 'f list \<Rightarrow> nat \<Rightarrow> u8 list" where
  "slice_frame S m i =
     foldl (\<lambda>bytes k. let (first, second) = bit_pair m i k
         in if s_gt S first second
            then bytes[k div 8 := bytes ! (k div 8) OR push_bit (7 - k mod 8) 1] else bytes)
       (replicate ADSB_LONG_BYTES 0) [0..<ADSB_LONG_BITS]"

definition count_attempt :: "nat \<Rightarrow> u8 list \<Rightarrow> 'd scan_state \<Rightarrow> 'd scan_state" where
  "count_attempt i bytes st =
     (let df = frame_df bytes; byte_count = adsb_frame_length_bits df div 8
      in if df = 17 \<or> df = 18 then
           let crc_ok = (adsb_crc (take byte_count bytes) = 0); c = sc_counts st;
               c = c\<lparr>attempts := attempts c + 1\<rparr>
           in st\<lparr>sc_counts := (if crc_ok then c else c\<lparr>crc_failed := crc_failed c + 1\<rparr>),
                 sc_traced := Some (i, df, byte_count * 8, crc_ok, bytes)\<rparr>
         else st)"

definition take_message :: "'d double_ops \<Rightarrow> 'd \<Rightarrow> nat \<Rightarrow> 'd adsb_message \<Rightarrow> 'd scan_state \<Rightarrow> 'd scan_state" where
  "take_message D time_seconds out_capacity msg st =
     (let c = sc_counts st; c = c\<lparr>decoded := decoded c + 1\<rparr>;
          (cache, msg) = (if kind msg = ADSB_KIND_AIRBORNE_POSITION
                          then resolve_position D (sc_cache st) time_seconds msg else (sc_cache st, msg))
      in st\<lparr>sc_counts := c, sc_cache := cache,
            sc_stored := (if sc_written st < out_capacity then sc_stored st @ [msg] else sc_stored st),
            sc_written := sc_written st + 1\<rparr>)"

definition scan_body :: "'d double_ops \<Rightarrow> 'f sample_ops \<Rightarrow> 'f list \<Rightarrow> 'd \<Rightarrow> nat \<Rightarrow>
    nat \<times> 'd scan_state \<Rightarrow> nat \<times> 'd scan_state" where
  "scan_body D S m time_seconds out_capacity = (\<lambda>(i, st).
     if \<not> preamble_at S m i then (i + 1, st)
     else
       let c = sc_counts st; st = st\<lparr>sc_counts := c\<lparr>preambles := preambles c + 1\<rparr>\<rparr>;
           bytes = slice_frame S m i;
           byte_count = adsb_frame_length_bits (frame_df bytes) div 8;
           st = count_attempt i bytes st
       in case adsb_decode_frame D (take byte_count bytes) of
            None \<Rightarrow> (i + 1, st)
          | Some msg \<Rightarrow> (i + frame_samples (byte_count * 8), take_message D time_seconds out_capacity msg st))"

partial_function (option) adsb_scan :: "'d double_ops \<Rightarrow> 'f sample_ops \<Rightarrow> 'f list \<Rightarrow> 'd \<Rightarrow> nat \<Rightarrow>
    nat \<times> 'd scan_state \<Rightarrow> 'd scan_state option" where
  "adsb_scan D S m time_seconds out_capacity p =
     (if fst p + frame_samples ADSB_LONG_BITS \<le> length m
      then adsb_scan D S m time_seconds out_capacity (scan_body D S m time_seconds out_capacity p)
      else Some (snd p))"

text \<open>The result: the cache, the messages stored, the count returned, the trace when one was kept, the
  counters.\<close>

definition adsb_demod :: "'d double_ops \<Rightarrow> 'f sample_ops \<Rightarrow> 'd adsb_cpr_entry list \<Rightarrow> 'f list \<Rightarrow> 'd \<Rightarrow> nat \<Rightarrow>
    ('d adsb_cpr_entry list \<times> 'd adsb_message list \<times> nat \<times> ('f, 'd) adsb_frame_trace option
      \<times> adsb_demod_stats) option" where
  "adsb_demod D S dec magnitudes time_seconds out_capacity =
     map_option (\<lambda>st. (sc_cache st, sc_stored st, sc_written st,
         map_option (\<lambda>a. fill_trace S magnitudes a time_seconds) (sc_traced st), sc_counts st))
       (adsb_scan D S magnitudes time_seconds out_capacity
         (0, \<lparr>sc_cache = dec, sc_stored = [], sc_written = 0,
              sc_counts = \<lparr>preambles = 0, attempts = 0, crc_failed = 0, decoded = 0\<rparr>, sc_traced = None\<rparr>))"

subsection \<open>The session and the log\<close>

definition ADSB_LOG_CAPACITY :: nat where "ADSB_LOG_CAPACITY = 256"
definition ADSB_SESSION_MESSAGES :: nat where "ADSB_SESSION_MESSAGES = 64"

definition adsb_receiver_ready :: "u32 \<Rightarrow> u32 \<Rightarrow> u32 \<Rightarrow> bool" where
  "adsb_receiver_ready frequency_hz sample_rate mode_s_hz =
     (let delta = int (unat frequency_hz) - int (unat mode_s_hz); delta = (if delta < 0 then - delta else delta)
      in delta < 200000 \<and> sample_rate \<ge> 2000000)"

definition adsb_analysis_visible :: "bool \<Rightarrow> bool \<Rightarrow> bool" where
  "adsb_analysis_visible analysis_mode ready = (analysis_mode \<and> ready)"

text \<open>A trace that is not valid is \<open>None\<close>; the pair is the latest attempt and the last good one.\<close>

definition adsb_trace_keep :: "'t option \<times> 't option \<Rightarrow> ('t \<Rightarrow> bool) \<Rightarrow> 't option \<Rightarrow> 't option \<times> 't option" where
  "adsb_trace_keep kept crc_ok incoming =
     (case incoming of None \<Rightarrow> kept
      | Some t \<Rightarrow> (Some t, if crc_ok t then Some t else snd kept))"

definition adsb_trace_shown :: "'t option \<times> 't option \<Rightarrow> bool \<Rightarrow> 't option" where
  "adsb_trace_shown kept hold = (if hold \<and> snd kept \<noteq> None then snd kept else fst kept)"

text \<open>The log is the whole array and the count of rows in use.\<close>

definition adsb_log_push :: "'e list \<times> nat \<Rightarrow> 'e \<Rightarrow> 'e list \<times> nat" where
  "adsb_log_push = (\<lambda>(rows, count) entry.
     let keep = (if count < ADSB_LOG_CAPACITY then count else ADSB_LOG_CAPACITY - 1);
         rows = take 1 rows @ take keep rows @ drop (keep + 1) rows
     in (rows[0 := entry], if count < ADSB_LOG_CAPACITY then count + 1 else count))"

definition adsb_log_fade :: "('e \<Rightarrow> 'e) \<Rightarrow> 'e list \<Rightarrow> nat \<Rightarrow> 'e list" where
  "adsb_log_fade shade rows count = foldl (\<lambda>rows i. rows[i := shade (rows ! i)]) rows [0..<count]"

definition adsb_totals_add :: "adsb_demod_stats \<Rightarrow> adsb_demod_stats \<Rightarrow> adsb_demod_stats" where
  "adsb_totals_add totals block = totals\<lparr>preambles := preambles totals + preambles block,
     attempts := attempts totals + attempts block, crc_failed := crc_failed totals + crc_failed block,
     decoded := decoded totals + decoded block\<rparr>"

definition adsb_funnel_is_consistent :: "adsb_demod_stats \<Rightarrow> bool" where
  "adsb_funnel_is_consistent totals \<longleftrightarrow> attempts totals \<le> preambles totals \<and>
     crc_failed totals \<le> attempts totals \<and> decoded totals \<le> attempts totals \<and>
     crc_failed totals + decoded totals \<le> attempts totals"

record ('f, 'd) adsb_session =
  ss_decoder :: "'d adsb_cpr_entry list"
  ss_messages :: "'d adsb_message list"
  frames_total :: u64
  positions_total :: u64
  block_stats :: adsb_demod_stats
  totals :: adsb_demod_stats
  traces :: "('f, 'd) adsb_frame_trace option \<times> ('f, 'd) adsb_frame_trace option"

definition no_stats :: adsb_demod_stats where
  "no_stats = \<lparr>preambles = 0, attempts = 0, crc_failed = 0, decoded = 0\<rparr>"

definition adsb_session_reset :: "'d double_ops \<Rightarrow> ('f, 'd) adsb_session" where
  "adsb_session_reset D = \<lparr>ss_decoder = adsb_decoder_init D, ss_messages = [], frames_total = 0,
     positions_total = 0, block_stats = no_stats, totals = no_stats, traces = (None, None)\<rparr>"

text \<open>The messages of a block are its \<open>message_count\<close> entries; an empty block leaves none.\<close>

definition adsb_session_feed :: "'d double_ops \<Rightarrow> 'f sample_ops \<Rightarrow> ('f, 'd) adsb_session \<Rightarrow> 'f list \<Rightarrow> 'd \<Rightarrow>
    ('f, 'd) adsb_session option" where
  "adsb_session_feed D S s magnitudes now =
     (let s = s\<lparr>ss_messages := []\<rparr>
      in if magnitudes = [] then Some s
         else case adsb_demod D S (ss_decoder s) magnitudes now ADSB_SESSION_MESSAGES of
                None \<Rightarrow> None
              | Some (dec, out, count, trace, stats) \<Rightarrow>
                  let messages = take (min count ADSB_SESSION_MESSAGES) out
                  in Some (s\<lparr>ss_decoder := dec, ss_messages := messages, block_stats := stats,
                       totals := adsb_totals_add (totals s) stats,
                       traces := adsb_trace_keep (traces s) t_crc_ok trace,
                       frames_total := frames_total s + of_nat (length messages),
                       positions_total := positions_total s + of_nat (length (filter has_position messages))\<rparr>))"

end
