(* ===== verification/Adsb_Frame.thy ===== *)
theory Adsb_Frame
  imports Adsb
begin

text \<open>
  What an extended squitter carries. Octets as bits; the byte-wise parity is the feedback register of
  \<open>Check_Register\<close> with the Mode S polynomial, so no burst up to its width passes; a specification of
  the squitters a transmitter sends (callsign, airborne position, velocity) and the decode of each.
\<close>

unbundle bit_operations_syntax

subsection \<open>Octets as bits\<close>

definition frame_bits :: "u8 list \<Rightarrow> bool list" where
  "frame_bits bytes = concat (map (word_bits 8) bytes)"

lemma length_frame_bits [simp]: "length (frame_bits bytes) = 8 * length bytes"
  by (induction bytes) (simp_all add: frame_bits_def)

lemma nth_frame_bits:
  "k < 8 * length bytes \<Longrightarrow> frame_bits bytes ! k = bit (bytes ! (k div 8)) (7 - k mod 8)"
proof (induction bytes arbitrary: k)
  case (Cons b bytes)
  show ?case
  proof (cases "k < 8")
    case True
    then show ?thesis by (simp add: frame_bits_def nth_append word_bits_def)
  next
    case False
    then obtain j where "k = 8 + j" using le_Suc_ex [of 8 k] by auto
    moreover have "(8 + j) div 8 = Suc (j div 8)" by simp
    ultimately show ?thesis
      using Cons.prems Cons.IH [of j] by (simp add: frame_bits_def nth_append)
  qed
qed simp

lemma frame_low_bit: "(drop_bit n b AND 1 \<noteq> 0) = bit b n" for b :: "'w::len word"
  using and_test_bit [of "drop_bit n b" 0] by (simp add: bit_simps)

lemma frame_low_bit_value: "ucast (drop_bit n b) AND 1 = (of_bool (bit b n) :: u32)" for b :: u8
  by (rule bit_word_eqI) (auto simp: bit_simps)

lemma frame_bit_nth: "k < 8 * length bytes \<Longrightarrow> frame_bit bytes k = frame_bits bytes ! k"
  by (simp add: frame_bit_def frame_low_bit nth_frame_bits)

lemma bits_val_field:
  assumes "start + len \<le> 8 * length bytes"
  shows "bits_val bytes start len = word_of_bits (take len (drop start (frame_bits bytes)))"
proof -
  have "take len (drop start (frame_bits bytes)) = map (\<lambda>i. frame_bits bytes ! (start + i)) [0..<len]"
    using assms by (intro nth_equalityI) simp_all
  moreover have "foldl (\<lambda>value i. push_bit 1 value OR
         (ucast (drop_bit (7 - (start + i) mod 8) (bytes ! ((start + i) div 8))) AND 1)) a [0..<len] =
      foldl (\<lambda>a i. push_bit 1 a OR of_bool (frame_bits bytes ! (start + i))) (a :: u32) [0..<len]" for a
    by (rule foldl_cong) (use assms in \<open>simp_all only: frame_low_bit_value nth_frame_bits set_upt atLeastLessThan_iff\<close>, simp add: nth_frame_bits)
  ultimately show ?thesis by (simp only: bits_val_def word_of_bits_def foldl_map)
qed

subsection \<open>The parity is a register\<close>

definition crc_step :: "u32 \<Rightarrow> bool \<Rightarrow> u32" where
  "crc_step a x = (let r = take_bit 24 (push_bit 1 a)
     in if bit a 23 \<noteq> x then r XOR MODES_GENERATOR_POLY else r)"

interpretation mode_s: feedback_register crc_step 24
  by (rule feedback_registerI [where poly = MODES_GENERATOR_POLY])
    (simp_all add: crc_step_def MODES_GENERATOR_POLY_def)

lemma frame_mask_24: "w AND 0xFFFFFF = take_bit 24 w" for w :: u32
  by (simp add: take_bit_eq_mask mask_eq_exp_minus_1)

lemma crc_shift_step: "crc_shift a = crc_step a False"
proof -
  have "(a AND 0x800000 \<noteq> 0) = bit a 23" using and_test_bit [of a 23] by simp
  moreover have "take_bit 24 MODES_GENERATOR_POLY = MODES_GENERATOR_POLY" by (simp add: MODES_GENERATOR_POLY_def)
  ultimately show ?thesis by (simp add: crc_shift_def crc_step_def frame_mask_24 take_bit_xor Let_def)
qed

text \<open>Adding bits under the top ones before shifting is feeding them one by one.\<close>

lemma crc_step_top: "crc_step a x = crc_step (a XOR push_bit 23 (of_bool x)) False"
proof (cases x)
  case True
  have "crc_step (a XOR push_bit 23 1) (True \<noteq> True) = crc_step a True XOR crc_step (push_bit 23 1) True"
    by (rule mode_s.step_xor)
  moreover have "crc_step (push_bit 23 1) True = 0" by (simp add: crc_step_def)
  ultimately show ?thesis using True by simp
qed simp

lemma crc_feed:
  "n \<le> 24 \<Longrightarrow> take_bit n w = w \<Longrightarrow>
   (crc_shift ^^ n) (a XOR push_bit (24 - n) w) = foldl crc_step a (word_bits n w)"
proof (induction n arbitrary: a w)
  case 0
  then show ?case by (simp add: word_bits_def)
next
  case (Suc n)
  let ?x = "bit w n" and ?v = "take_bit n w"
  have w: "w = push_bit n (of_bool ?x) XOR ?v"
    using Suc.prems by (intro bit_word_eqI) (auto simp: bit_simps in_range_iff less_Suc_eq)
  have "push_bit (24 - Suc n) w = push_bit 23 (of_bool ?x) XOR push_bit (23 - n) ?v"
    by (subst w) (use Suc.prems in \<open>simp add: push_bit_xor\<close>)
  moreover have "crc_shift (a XOR (push_bit 23 (of_bool ?x) XOR push_bit (23 - n) ?v)) =
      crc_step a ?x XOR push_bit (24 - n) ?v"
  proof -
    have "crc_step ((a XOR push_bit 23 (of_bool ?x)) XOR push_bit (23 - n) ?v) (False \<noteq> False) =
        crc_step a ?x XOR crc_step (push_bit (23 - n) ?v) False"
      unfolding mode_s.step_xor crc_step_top [of a] by simp
    moreover have "crc_step (push_bit (23 - n) ?v) False = push_bit (24 - n) ?v"
    proof -
      have "\<not> bit (push_bit (23 - n) ?v) 23" using Suc.prems by (auto simp: bit_simps)
      moreover have "take_bit 24 (push_bit 1 (push_bit (23 - n) ?v)) = push_bit (24 - n) ?v"
        using Suc.prems by (intro bit_word_eqI) (auto simp: bit_simps bit_times_2)
      ultimately show ?thesis by (simp add: crc_step_def)
    qed
    ultimately show ?thesis by (simp add: crc_shift_step xor.assoc)
  qed
  moreover have "word_bits n ?v = word_bits n w" by (rule word_bits_cong) (simp add: bit_simps)
  ultimately show ?case using Suc.IH [of ?v "crc_step a ?x"] Suc.prems
    by (simp add: funpow_Suc_right word_bits_Suc del: funpow.simps)
qed

lemma adsb_crc_register: "adsb_crc bytes = foldl crc_step 0 (frame_bits bytes)"
proof -
  have "(crc_shift ^^ 8) (a XOR push_bit 16 (ucast b)) = foldl crc_step a (word_bits 8 b)" for a and b :: u8
  proof -
    have "take_bit 8 (ucast b :: u32) = ucast b"
      by (rule bit_word_eqI) (auto simp: bit_simps dest: bit_imp_le_length)
    moreover have "word_bits 8 (ucast b :: u32) = word_bits 8 b"
      by (rule nth_equalityI) (auto simp: word_bits_def bit_simps)
    ultimately show ?thesis using crc_feed [of 8 "ucast b" a] by simp
  qed
  then have "foldl (\<lambda>r b. (crc_shift ^^ 8) (r XOR push_bit 16 (ucast b))) a bytes =
      foldl crc_step a (frame_bits bytes)" for a
    by (induction bytes arbitrary: a) (simp_all add: frame_bits_def)
  then show ?thesis by (simp add: adsb_crc_def)
qed

lemma frame_bits_xor:
  "length err = length bytes \<Longrightarrow> frame_bits (map2 (XOR) bytes err) = xor_bits (frame_bits bytes) (frame_bits err)"
proof (induction err bytes rule: list_induct2)
  case (Cons e err b bytes)
  then show ?case
    by (simp add: frame_bits_def xor_bits_append word_bits_xor)
qed (simp add: frame_bits_def)

text \<open>A frame with a clean parity, hit by any burst of errors no longer than 24 bits, is dropped: the
  decoder never turns it into a message.\<close>

theorem adsb_burst_dropped:
  assumes "adsb_crc bytes = 0" "length err = length bytes"
    and "frame_bits err = replicate i False @ burst @ replicate j False"
    and "length burst \<le> 24" "True \<in> set burst"
  shows "adsb_decode_frame D (map2 (XOR) bytes err) = None"
proof -
  have "foldl crc_step 0 (frame_bits err) \<noteq> 0"
    unfolding assms(3) by (rule mode_s.burst) (use assms in simp_all)
  then have "adsb_crc (map2 (XOR) bytes err) \<noteq> 0"
    using mode_s.error_changes [of "frame_bits bytes" "frame_bits err" 0] assms(1,2)
    by (simp add: adsb_crc_register frame_bits_xor)
  then show ?thesis by (simp add: adsb_decode_frame_def Let_def)
qed

subsection \<open>Squitters\<close>

text \<open>What a transmitter puts in a frame: the contents of an extended squitter, as bits.\<close>

definition octets :: "bool list \<Rightarrow> nat \<Rightarrow> u8 list" where
  "octets bits n = map (\<lambda>i. word_of_bits (take 8 (drop (8 * i) bits))) [0..<n]"

lemma frame_bits_octets: "length bits = 8 * n \<Longrightarrow> frame_bits (octets bits n) = bits"
proof (induction n arbitrary: bits)
  case (Suc n)
  have "octets bits (Suc n) = word_of_bits (take 8 bits) # octets (drop 8 bits) n"
    unfolding octets_def by (rule nth_equalityI) (auto simp: nth_Cons' add.commute less_Suc_eq_0_disj simp del: upt_Suc)
  then have "frame_bits (octets bits (Suc n)) = take 8 bits @ frame_bits (octets (drop 8 bits) n)"
    using Suc.prems by (simp add: frame_bits_def word_bits_word_of_bits)
  then show ?case using Suc by simp
qed (simp add: octets_def frame_bits_def)

datatype squitter =
    Identification (category: nat) (callsign_text: string)
  | Airborne (position_type: nat) (altitude_code: "u32 option") (odd_frame: bool) (lat_code: u32) (lon_code: u32)
  | Velocity (supersonic: bool) (west: bool) (east_speed: nat) (south: bool) (north_speed: nat)

definition char_code :: "char \<Rightarrow> u32" where "char_code c = take_bit 6 (of_char c)"

definition callsign_chars :: string where
  "callsign_chars = ''ABCDEFGHIJKLMNOPQRSTUVWXYZ 0123456789''"

fun squitter_wf :: "squitter \<Rightarrow> bool" where
  "squitter_wf (Identification tc tx) \<longleftrightarrow> 1 \<le> tc \<and> tc \<le> 4 \<and> length tx \<le> 8 \<and>
     set tx \<subseteq> set callsign_chars \<and> (tx = [] \<or> last tx \<noteq> CHR '' '')"
| "squitter_wf (Airborne tc alt par lat lon) \<longleftrightarrow> 9 \<le> tc \<and> tc \<le> 18 \<and>
     (\<forall>n. alt = Some n \<longrightarrow> unat n < 2048) \<and> unat lat < 2 ^ 17 \<and> unat lon < 2 ^ 17"
| "squitter_wf (Velocity fast we ew so ns) \<longleftrightarrow> ew < 1023 \<and> ns < 1023"

fun squitter_bits :: "squitter \<Rightarrow> bool list" where
  "squitter_bits (Identification tc tx) =
     word_bits 5 (of_nat tc :: u32) @ word_bits 3 (0 :: u32) @
     concat (map (\<lambda>c. word_bits 6 (char_code c)) (tx @ replicate (8 - length tx) (CHR '' '')))"
| "squitter_bits (Airborne tc alt par lat lon) =
     word_bits 5 (of_nat tc :: u32) @ word_bits 3 (0 :: u32) @
     (case alt of None \<Rightarrow> replicate 12 False
      | Some n \<Rightarrow> word_bits 7 (drop_bit 4 n) @ [True] @ word_bits 4 n) @
     [False, par] @ word_bits 17 lat @ word_bits 17 lon"
| "squitter_bits (Velocity fast we ew so ns) =
     word_bits 5 (19 :: u32) @ word_bits 3 (if fast then 2 else 1 :: u32) @ replicate 5 False @
     [we] @ word_bits 10 (of_nat (ew + 1) :: u32) @ [so] @ word_bits 10 (of_nat (ns + 1) :: u32) @
     replicate 21 False"

definition squitter_body :: "nat \<Rightarrow> u32 \<Rightarrow> u32 \<Rightarrow> squitter \<Rightarrow> bool list" where
  "squitter_body df ca icao c =
     word_bits 5 (of_nat df :: u32) @ word_bits 3 ca @ word_bits 24 icao @ squitter_bits c"

definition squitter_frame :: "nat \<Rightarrow> u32 \<Rightarrow> u32 \<Rightarrow> squitter \<Rightarrow> u8 list" where
  "squitter_frame df ca icao c =
     (let body = squitter_body df ca icao c in octets (body @ word_bits 24 (foldl crc_step 0 body)) 14)"

fun squitter_fields :: "'d double_ops \<Rightarrow> squitter \<Rightarrow> 'd adsb_message \<Rightarrow> 'd adsb_message" where
  "squitter_fields D (Identification tc tx) msg =
     msg\<lparr>type_code := tc, kind := ADSB_KIND_IDENTIFICATION, callsign := tx\<rparr>"
| "squitter_fields D (Airborne tc alt par lat lon) msg =
     (case alt of None \<Rightarrow> msg | Some n \<Rightarrow> msg\<lparr>has_altitude := True, altitude_ft := 25 * int (unat n) - 1000\<rparr>)
       \<lparr>type_code := tc, kind := ADSB_KIND_AIRBORNE_POSITION, cpr_odd := par, cpr_lat := lat, cpr_lon := lon\<rparr>"
| "squitter_fields D (Velocity fast we ew so ns) msg =
     (let knots = (\<lambda>back v. let x = d_of_int D (int v * (if fast then 4 else 1)) in if back then d_neg D x else x);
          vx = knots we ew; vy = knots so ns;
          track = d_div D (d_mul D (d_atan2 D vx vy) (d_lit D 1800 1)) (d_pi D)
      in msg\<lparr>type_code := 19, kind := ADSB_KIND_VELOCITY, has_velocity := True,
             ground_speed_kt := d_sqrt D (d_add D (d_mul D vx vx) (d_mul D vy vy)),
             heading_deg := (if d_gt D (d_lit D 0 1) track then d_add D track (d_lit D 3600 1) else track)\<rparr>)"

definition squitter_message :: "'d double_ops \<Rightarrow> nat \<Rightarrow> u32 \<Rightarrow> u32 \<Rightarrow> squitter \<Rightarrow> 'd adsb_message" where
  "squitter_message D df ca icao c = squitter_fields D c
     ((blank_message D)\<lparr>frame_bytes := squitter_frame df ca icao c, downlink_format := df, m_icao := icao\<rparr>)"

lemma length_sixes: "length (concat (map (\<lambda>c. word_bits 6 (g c)) cs)) = 6 * length cs"
  by (induction cs) simp_all

lemma nth_sixes:
  "i < length cs \<Longrightarrow> take 6 (drop (6 * i) (concat (map (\<lambda>c. word_bits 6 (g c)) cs))) = word_bits 6 (g (cs ! i))"
proof (induction cs arbitrary: i)
  case (Cons c cs)
  show ?case
  proof (cases i)
    case (Suc j)
    then show ?thesis using Cons by simp
  qed simp
qed simp

lemma length_callsign_bits:
  "length tx \<le> 8 \<Longrightarrow>
   length (concat (map (\<lambda>c. word_bits 6 (g c)) (tx @ replicate (8 - length tx) z))) = 48"
  by (subst length_sixes) simp

lemma length_squitter_bits: "squitter_wf c \<Longrightarrow> length (squitter_bits c) = 56"
  by (cases c) (auto simp: length_callsign_bits simp del: map_append concat_append split: option.split)

lemma squitter_frame_facts:
  assumes "squitter_wf c"
  shows "length (squitter_frame df ca icao c) = 14"
    and "frame_bits (squitter_frame df ca icao c) =
      squitter_body df ca icao c @ word_bits 24 (foldl crc_step 0 (squitter_body df ca icao c))"
    and "adsb_crc (squitter_frame df ca icao c) = 0"
proof -
  let ?body = "squitter_body df ca icao c"
  show "length (squitter_frame df ca icao c) = 14" by (simp add: squitter_frame_def Let_def octets_def)
  show b: "frame_bits (squitter_frame df ca icao c) = ?body @ word_bits 24 (foldl crc_step 0 ?body)"
    unfolding squitter_frame_def Let_def
    by (rule frame_bits_octets) (simp add: squitter_body_def length_squitter_bits [OF assms(1)])
  show "adsb_crc (squitter_frame df ca icao c) = 0"
    using mode_s.append_check [OF mode_s.run_range [of 0 ?body]] by (simp add: adsb_crc_register b)
qed

lemma squitter_field:
  assumes "squitter_wf c" "start + len \<le> 88"
  shows "bits_val (squitter_frame df ca icao c) start len =
    word_of_bits (take len (drop start (squitter_body df ca icao c)))"
  using assms squitter_frame_facts [OF assms(1), of df ca icao]
  by (simp add: bits_val_field squitter_body_def length_squitter_bits)

lemma frame_df_bits: "frame_df bytes = unat (bits_val bytes 0 5)" if "length bytes = 14"
proof -
  have "drop_bit 3 (bytes ! 0) AND 0x1F = take_bit 5 (drop_bit 3 (bytes ! 0))"
    by (simp add: take_bit_eq_mask mask_eq_exp_minus_1)
  then show ?thesis unfolding frame_df_def using that
    by (intro bit_eqI) (auto simp: bit_unsigned_iff bit_simps bits_val_field bit_word_of_bits nth_frame_bits)
qed

lemma frame_icao_bits: "frame_icao bytes = bits_val bytes 8 24" if "length bytes = 14"
proof (rule bit_word_eqI)
  have pos: "(31 - n) div 8 = k" "7 - (31 - n) mod 8 = j" if n: "n = 8 * (3 - k) + j" and j: "j < 8" and k: "k \<le> 3" for n k j :: nat
  proof -
    obtain i where i: "7 - j = i" "i < 8" "7 - i = j" using j by auto
    then have "31 - n = 8 * k + i" using n j k by linarith
    then show "(31 - n) div 8 = k" "7 - (31 - n) mod 8 = j" using i(2,3) by simp_all
  qed
  fix n :: nat assume "n < LENGTH(32)"
  then obtain k j where n: "n = 8 * (3 - k) + j" "j < 8" "k \<le> 3"
    by (intro that [of "3 - n div 8" "n mod 8"]) auto
  then have "k = 0 \<or> k = 1 \<or> k = 2 \<or> k = 3" by auto
  then show "bit (frame_icao bytes) n = bit (bits_val bytes 8 24) n"
    using \<open>length bytes = 14\<close> pos [OF n] n
    by (elim disjE) (auto simp: frame_icao_def bit_simps bits_val_field bit_word_of_bits nth_frame_bits dest: bit_imp_le_length)
qed

lemma char_code_charset: "c \<in> set callsign_chars \<Longrightarrow> charset ! unat (char_code c) = c"
proof -
  have "list_all (\<lambda>c. charset ! unat (char_code c) = c) callsign_chars" by code_simp
  then show "c \<in> set callsign_chars \<Longrightarrow> ?thesis" by (simp add: list_all_iff)
qed

lemma trim_padding:
  "tx = [] \<or> last tx \<noteq> CHR '' '' \<Longrightarrow>
   trim_spaces (tx @ replicate (k + j) (CHR '' '')) (length tx + k) = tx"
proof (induction k arbitrary: j)
  case 0
  then show ?case by (cases tx rule: rev_cases) (simp_all add: nth_append)
next
  case (Suc k)
  then show ?case using Suc.IH [of "Suc j"] by (simp add: nth_append del: replicate_Suc)
qed

lemma decode_callsign:
  assumes "squitter_wf (Identification tc tx)"
    and "bytes = squitter_frame df ca icao (Identification tc tx)"
  shows "map (\<lambda>i. charset ! unat (bits_val bytes (40 + 6 * i) 6)) [0..<8] = tx @ replicate (8 - length tx) (CHR '' '')"
    (is "_ = ?padded")
proof (rule nth_equalityI)
  have len: "length ?padded = 8" using assms(1) by simp
  then show "length (map (\<lambda>i. charset ! unat (bits_val bytes (40 + 6 * i) 6)) [0..<8]) = length ?padded" by simp
  fix i assume "i < length (map (\<lambda>i. charset ! unat (bits_val bytes (40 + 6 * i) 6)) [0..<8])"
  then have i: "i < 8" by simp
  have "take 6 (drop (40 + 6 * i) (squitter_body df ca icao (Identification tc tx))) =
      take 6 (drop (6 * i) (concat (map (\<lambda>c. word_bits 6 (char_code c)) ?padded)))"
    by (simp add: squitter_body_def del: map_append concat_append)
  also have "\<dots> = word_bits 6 (char_code (?padded ! i))" using nth_sixes [of i ?padded] i len by simp
  finally have "bits_val bytes (40 + 6 * i) 6 = take_bit 6 (char_code (?padded ! i))"
    using squitter_field [OF assms(1), of "40 + 6 * i" 6] i by (simp add: assms(2) word_of_bits_word_bits)
  moreover have "?padded ! i \<in> set callsign_chars"
  proof -
    have "?padded ! i \<in> set ?padded" using i len by (metis nth_mem)
    also have "\<dots> \<subseteq> set callsign_chars" using assms(1) by (auto simp: callsign_chars_def)
    finally show ?thesis .
  qed
  ultimately show "map (\<lambda>i. charset ! unat (bits_val bytes (40 + 6 * i) 6)) [0..<8] ! i = ?padded ! i"
    using i char_code_charset by (simp add: char_code_def)
qed

lemma small_word: "n < 2 ^ k \<Longrightarrow> take_bit k (of_nat n :: u32) = of_nat n"
  by (metis take_bit_nat_eq_self take_bit_of_nat)

lemma small_take: "unat w < 2 ^ k \<Longrightarrow> take_bit k w = w" for w :: u32
  using small_word [of "unat w" k] by simp

lemma small_unat: "n < 2 ^ k \<Longrightarrow> k < 32 \<Longrightarrow> unat (of_nat n :: u32) = n"
proof -
  assume "n < 2 ^ k" "k < 32"
  moreover from this have "(2 :: nat) ^ k \<le> 2 ^ 32" by (intro power_increasing) simp_all
  ultimately have "n < 2 ^ 32" by linarith
  then show ?thesis by (simp add: unat_of_nat take_bit_nat_eq_self)
qed

lemma squitter_head:
  assumes "squitter_wf c" "df < 32" "unat icao < 2 ^ 24"
    and "bytes = squitter_frame df ca icao c"
  shows "frame_df bytes = df" "frame_icao bytes = icao"
    and "\<And>start len. start + len \<le> 56 \<Longrightarrow>
      bits_val bytes (32 + start) len = word_of_bits (take len (drop start (squitter_bits c)))"
proof -
  have len: "length bytes = 14" using squitter_frame_facts(1) [OF assms(1)] by (simp add: assms(4))
  have field: "bits_val bytes start len = word_of_bits (take len (drop start (squitter_body df ca icao c)))"
    if "start + len \<le> 88" for start len
    using squitter_field [OF assms(1) that] by (simp add: assms(4))
  show "frame_df bytes = df"
    using assms(2) by (simp add: frame_df_bits len field squitter_body_def word_of_bits_word_bits small_word small_unat [of df 5])
  show "frame_icao bytes = icao"
    using assms(3) by (simp add: frame_icao_bits len field squitter_body_def word_of_bits_word_bits small_take)
  show "bits_val bytes (32 + start) len = word_of_bits (take len (drop start (squitter_bits c)))"
    if "start + len \<le> 56" for start len
    using that by (simp add: field squitter_body_def)
qed

lemma word_of_bits_one [simp]: "word_of_bits [x] = of_bool x"
  by (simp add: word_of_bits_def)

lemma word_of_bits_zeros [simp]: "word_of_bits (replicate n False) = 0"
  by (induction n) (simp_all add: word_of_bits_def)

lemmas squitter_values = word_of_bits_word_bits small_word small_take small_unat

lemma frame_identification:
  assumes "squitter_wf (Identification tc tx)" "df < 32" "unat icao < 2 ^ 24"
    and "bytes = squitter_frame df ca icao (Identification tc tx)"
  shows "unat (bits_val bytes 32 5) = tc"
    and "decode_identification bytes msg = msg\<lparr>callsign := tx, kind := ADSB_KIND_IDENTIFICATION\<rparr>"
proof -
  note field = squitter_head(3) [OF assms]
  show "unat (bits_val bytes 32 5) = tc"
    using field [of 0 5] assms(1) by (simp add: squitter_values small_unat [of tc 5])
  have "trim_spaces (tx @ replicate (8 - length tx) (CHR '' '')) 8 = tx"
    using trim_padding [of tx "8 - length tx" 0] assms(1) by simp
  then show "decode_identification bytes msg = msg\<lparr>callsign := tx, kind := ADSB_KIND_IDENTIFICATION\<rparr>"
    unfolding decode_identification_def Let_def decode_callsign [OF assms(1,4)] by simp
qed

lemma frame_airborne:
  assumes wf: "squitter_wf (Airborne tc alt par lat lon)" and "df < 32" "unat icao < 2 ^ 24"
    and "bytes = squitter_frame df ca icao (Airborne tc alt par lat lon)"
  shows "unat (bits_val bytes 32 5) = tc"
    and "bits_val bytes 53 1 = of_bool par" "bits_val bytes 54 17 = lat" "bits_val bytes 71 17 = lon"
    and "bits_val bytes 40 12 = word_of_bits (case alt of None \<Rightarrow> replicate 12 False
      | Some n \<Rightarrow> word_bits 7 (drop_bit 4 n) @ [True] @ word_bits 4 n)" (is "_ = word_of_bits ?alt")
proof -
  note field = squitter_head(3) [OF assms]
  have len: "length ?alt = 12" by (simp split: option.split)
  show "unat (bits_val bytes 32 5) = tc"
    using field [of 0 5] wf by (simp add: squitter_values small_unat [of tc 5])
  show "bits_val bytes 53 1 = of_bool par" using field [of 21 1] len by (simp add: squitter_values)
  show "bits_val bytes 54 17 = lat" using field [of 22 17] len wf by (simp add: squitter_values)
  show "bits_val bytes 71 17 = lon" using field [of 39 17] len wf by (simp add: squitter_values)
  show "bits_val bytes 40 12 = word_of_bits ?alt" using field [of 8 12] len by simp
qed

lemma altitude_code:
  fixes n :: u32
  assumes "unat n < 2048"
  defines "a \<equiv> word_of_bits (word_bits 7 (drop_bit 4 n) @ [True] @ word_bits 4 n) :: u32"
  shows "drop_bit 4 a AND 1 \<noteq> 0" "push_bit 4 (drop_bit 5 a AND 0x7F) OR (a AND 0x0F) = n"
proof -
  have n: "bit n i \<Longrightarrow> i < 11" for i
    using small_take [of n 11] assms(1) in_range_iff [of 11 n] by simp
  have a: "bit a i \<longleftrightarrow> i < 12 \<and> (if i < 4 then bit n i else if i = 4 then True else bit n (i - 1))" for i
  proof -
    consider "i < 4" | "i = 4" | "4 < i \<and> i < 12" | "12 \<le> i" by linarith
    then show ?thesis
      by cases (auto simp: a_def bit_word_of_bits nth_append nth_Cons' word_bits_def bit_simps)
  qed
  show "drop_bit 4 a AND 1 \<noteq> 0" unfolding frame_low_bit a by simp
  have "drop_bit 5 a AND 0x7F = take_bit 7 (drop_bit 5 a)" "a AND 0x0F = take_bit 4 a"
    by (simp_all add: take_bit_eq_mask mask_eq_exp_minus_1)
  then show "push_bit 4 (drop_bit 5 a AND 0x7F) OR (a AND 0x0F) = n"
    by (intro bit_word_eqI) (auto simp: bit_simps a dest: n)
qed

lemma frame_velocity:
  assumes wf: "squitter_wf (Velocity fast we ew so ns)" and "df < 32" "unat icao < 2 ^ 24"
    and "bytes = squitter_frame df ca icao (Velocity fast we ew so ns)"
  shows "unat (bits_val bytes 32 5) = 19" "bits_val bytes 37 3 = (if fast then 2 else 1)"
    and "bits_val bytes 45 1 = of_bool we" "unat (bits_val bytes 46 10) = ew + 1"
    and "bits_val bytes 56 1 = of_bool so" "unat (bits_val bytes 57 10) = ns + 1"
proof -
  note field = squitter_head(3) [OF assms]
  show "unat (bits_val bytes 32 5) = 19" using field [of 0 5] by (simp add: squitter_values)
  show "bits_val bytes 37 3 = (if fast then 2 else 1)" using field [of 5 3] by (simp add: squitter_values)
  show "bits_val bytes 45 1 = of_bool we" using field [of 13 1] by (simp add: squitter_values)
  show "unat (bits_val bytes 46 10) = ew + 1"
    using field [of 14 10] wf small_word [of "ew + 1" 10] small_unat [of "ew + 1" 10] by (simp add: squitter_values)
  show "bits_val bytes 56 1 = of_bool so" using field [of 24 1] by (simp add: squitter_values)
  show "unat (bits_val bytes 57 10) = ns + 1"
    using field [of 25 10] wf small_word [of "ns + 1" 10] small_unat [of "ns + 1" 10] by (simp add: squitter_values)
qed

lemma decode_squitter:
  assumes "squitter_wf c" "df = 17 \<or> df = 18" "unat icao < 2 ^ 24"
  shows "adsb_decode_frame D (squitter_frame df ca icao c) = Some (squitter_message D df ca icao c)"
proof -
  define bytes where "bytes = squitter_frame df ca icao c"
  have df: "df < 32" using assms(2) by auto
  note facts = squitter_frame_facts [OF assms(1), of df ca icao, folded bytes_def]
  note head = squitter_head(1,2) [OF assms(1) df assms(3) bytes_def]
  have "adsb_frame_length_bits df div 8 = 14" using assms(2) by (auto simp: adsb_frame_length_bits_def adsb_sizes)
  then have "adsb_decode_frame D bytes =
     (let tc = unat (bits_val bytes 32 5);
          out = (blank_message D)\<lparr>frame_bytes := bytes, downlink_format := df, m_icao := icao, type_code := tc\<rparr>
      in Some (if 1 \<le> tc \<and> tc \<le> 4 then decode_identification bytes out
               else if 9 \<le> tc \<and> tc \<le> 18 then decode_airborne_position bytes out
               else if tc = 19 then decode_velocity D bytes out else out))"
    using assms(2) by (auto simp: adsb_decode_frame_def facts head Let_def adsb_sizes)
  also have "\<dots> = Some (squitter_message D df ca icao c)"
  proof (cases c)
    case (Identification tc tx)
    then show ?thesis
      using frame_identification(1) [of tc tx df icao bytes ca] assms df
      by (simp add: frame_identification(2) [of tc tx df icao _ ca, OF _ _ _ refl] bytes_def squitter_message_def
          blank_message_def)
  next
    case (Airborne tc alt par lat lon)
    note f = frame_airborne [of tc alt par lat lon df icao bytes ca]
    have "decode_airborne_position bytes msg =
        (case alt of None \<Rightarrow> msg | Some n \<Rightarrow> msg\<lparr>has_altitude := True, altitude_ft := 25 * int (unat n) - 1000\<rparr>)
        \<lparr>cpr_odd := par, cpr_lat := lat, cpr_lon := lon, kind := ADSB_KIND_AIRBORNE_POSITION\<rparr>"
      for msg :: "'a adsb_message"
    proof (cases alt)
      case None
      then show ?thesis
        using f assms df Airborne
        by (simp add: decode_airborne_position_def Let_def bytes_def)
    next
      case (Some n)
      then show ?thesis
        using f assms df Airborne altitude_code [of n]
        by (simp add: decode_airborne_position_def Let_def bytes_def mult.commute)
    qed
    then show ?thesis
      using f assms df Airborne
      by (simp add: bytes_def squitter_message_def blank_message_def split: option.split)
  next
    case (Velocity fast we ew so ns)
    then show ?thesis
      using frame_velocity [of fast we ew so ns df icao bytes ca] assms df
      by (simp add: bytes_def squitter_message_def blank_message_def decode_velocity_def Let_def)
  qed
  finally show ?thesis by (simp add: bytes_def)
qed

end
