(* ===== verification/Adsb_Scan.thy ===== *)
theory Adsb_Scan
  imports Adsb_Frame
begin

text \<open>
  The scan. What the modulator writes is what the scan finds, for any sequence of frames in a quiet
  buffer; the loop, a partial function, returns for every buffer; its counters account for what it tried;
  the pairing cache reports positions only for two frames of one aircraft; a session over many blocks
  keeps a consistent funnel.
\<close>

unbundle bit_operations_syntax

subsection \<open>The frames a modulator wrote are the frames the scan finds\<close>

definition wave_at :: "'f \<Rightarrow> 'f \<Rightarrow> 'f list \<Rightarrow> nat \<Rightarrow> u8 list \<Rightarrow> bool" where
  "wave_at high noise m start bytes \<longleftrightarrow>
     start + frame_samples (8 * length bytes) \<le> length m \<and>
     (\<forall>k < 16. m ! (start + k) = (if k \<in> set preamble_pulses then high else noise)) \<and>
     (\<forall>k < 8 * length bytes.
        bit_pair m start k = (if frame_bit bytes k then (high, noise) else (noise, high)))"

lemma foldl_write_run:
  "foldl (\<lambda>m k. m[s + k := z]) m [0..<n] = map (\<lambda>i. if s \<le> i \<and> i < s + n then z else m ! i) [0..<length m]"
proof (induction n)
  case 0
  show ?case by (rule nth_equalityI) auto
next
  case (Suc n)
  show ?case unfolding upt_Suc_append [OF le0] foldl_append Suc
    by (rule nth_equalityI) (auto simp: nth_list_update less_Suc_eq)
qed

lemma write_preamble_nth:
  assumes "i < length m" "start + 16 \<le> length m"
  shows "write_preamble high noise m start ! i =
    (if start \<le> i \<and> i < start + 16 then if i - start \<in> set preamble_pulses then high else noise else m ! i)"
  using assms by (auto simp: write_preamble_def adsb_sizes foldl_write_run preamble_pulses_def nth_list_update
      simp del: upt_Suc)

lemma length_write_preamble [simp]: "length (write_preamble high noise m start) = length m"
  by (simp add: write_preamble_def adsb_sizes foldl_write_run preamble_pulses_def del: upt_Suc)

definition write_bits :: "u8 list \<Rightarrow> 'f \<Rightarrow> 'f \<Rightarrow> 'f list \<Rightarrow> nat \<Rightarrow> nat \<Rightarrow> 'f list" where
  "write_bits bytes high noise m start n =
     foldl (\<lambda>m k. let set = frame_bit bytes k; pos = start + ADSB_PREAMBLE_SAMPLES + k * ADSB_SAMPLES_PER_BIT
        in m[pos := (if set then high else noise), pos + 1 := (if set then noise else high)]) m [0..<n]"

lemma length_write_bits [simp]: "length (write_bits bytes high noise m start n) = length m"
  by (induction n) (simp_all add: write_bits_def Let_def)

lemma write_bits_facts:
  assumes "start + 16 + 2 * n \<le> length m"
  shows "k < n \<Longrightarrow> bit_pair (write_bits bytes high noise m start n) start k =
      (if frame_bit bytes k then (high, noise) else (noise, high))" (is "_ \<Longrightarrow> ?A k")
    and "i < start + 16 \<or> start + 16 + 2 * n \<le> i \<Longrightarrow> write_bits bytes high noise m start n ! i = m ! i"
  using assms
proof (induction n arbitrary: k i)
  case (Suc n)
  let ?w = "write_bits bytes high noise m start n"
  have step: "write_bits bytes high noise m start (Suc n) =
      ?w[start + 16 + 2 * n := (if frame_bit bytes n then high else noise),
         start + 17 + 2 * n := (if frame_bit bytes n then noise else high)]"
    by (simp add: write_bits_def Let_def adsb_sizes mult.commute ac_simps)
  {
    case 1
    then show ?case using Suc.IH(1) [of k]
      by (cases "k = n") (auto simp: step bit_pair_def Let_def adsb_sizes mult.commute nth_list_update)
  next
    case 2
    then show ?case using Suc.IH(2) [of k] by (auto simp: step nth_list_update)
  }
qed (simp_all add: write_bits_def)

lemma modulate_writes:
  assumes "adsb_modulate_frame bytes high noise m start = Some (n, m')"
  shows "n = frame_samples (8 * length bytes)" "length m' = length m" "wave_at high noise m' start bytes"
    and "\<And>i. i < start \<or> start + n \<le> i \<Longrightarrow> i < length m \<Longrightarrow> m' ! i = m ! i"
    and "length bytes = 7 \<or> length bytes = 14"
proof -
  let ?p = "write_preamble high noise m start" and ?n = "8 * length bytes"
  have m': "m' = write_bits bytes high noise ?p start ?n" and fit: "start + 16 + 2 * ?n \<le> length m"
    and "length bytes = 7 \<or> length bytes = 14" and n: "n = 16 + 2 * ?n"
    using assms by (auto simp: adsb_modulate_frame_def write_bits_def Let_def frame_samples_def adsb_sizes
        mult.commute split: if_splits)
  then show "length bytes = 7 \<or> length bytes = 14" "n = frame_samples ?n" "length m' = length m"
    by (auto simp: frame_samples_def adsb_sizes)
  note w = write_bits_facts [of start ?n ?p]
  show "wave_at high noise m' start bytes"
    using fit by (auto simp: wave_at_def m' w write_preamble_nth frame_samples_def adsb_sizes)
  show "m' ! i = m ! i" if "i < start \<or> start + n \<le> i" "i < length m" for i
    using that fit n by (auto simp: m' w write_preamble_nth)
qed

definition clean_levels :: "'f sample_ops \<Rightarrow> 'f \<Rightarrow> 'f \<Rightarrow> bool" where
  "clean_levels S high noise \<longleftrightarrow> s_gt S high noise \<and> \<not> s_gt S noise noise \<and> \<not> s_gt S noise high \<and>
     \<not> s_ge S noise (s_mul S (s_div S (s_add S (s_add S (s_add S high high) high) high) (s_lit S 40 1)) (s_lit S 75 2))"

lemma preamble_found:
  assumes "clean_levels S high noise" "wave_at high noise m i bytes" "length bytes = 14"
  shows "preamble_at S m i"
proof -
  have pos: "m ! (i + k) = (if k = 0 \<or> k = 2 \<or> k = 7 \<or> k = 9 then high else noise)" if "k < 16" for k
    using assms(2) that by (simp add: wave_at_def preamble_pulses_def)
  then have "m ! i = high" "m ! Suc i = noise" "m ! Suc (Suc i) = high" using pos [of 0] pos [of 1] pos [of 2] by simp_all
  moreover have "i + 16 < length m" using assms(2,3) by (simp add: wave_at_def frame_samples_def adsb_sizes)
  ultimately show ?thesis
    using assms(1) by (auto simp: preamble_at_def Let_def adsb_sizes pos clean_levels_def list_all_iff)
qed

lemma no_preamble_in_noise:
  assumes "clean_levels S high noise" "set m \<subseteq> {high, noise}" "m ! i = noise" "i + 16 < length m"
  shows "\<not> preamble_at S m i"
proof -
  have "m ! Suc i \<in> set m" by (rule nth_mem) (use assms(4) in simp)
  then have "m ! Suc i = high \<or> m ! Suc i = noise" using assms(2) by auto
  then show ?thesis using assms(1,3) by (auto simp: preamble_at_def clean_levels_def)
qed

lemma octet_at: "n < 8 \<Longrightarrow> (8 * i + 7 - n) div 8 = i" "n < 8 \<Longrightarrow> 7 - (8 * i + 7 - n) mod 8 = (n :: nat)"
proof -
  assume "n < 8"
  then obtain k where k: "7 - n = k" "k < 8" "7 - k = n" by auto
  with \<open>n < 8\<close> have "8 * i + 7 - n = 8 * i + k" by linarith
  with k show "(8 * i + 7 - n) div 8 = i" "7 - (8 * i + 7 - n) mod 8 = n" by simp_all
qed

lemma octet_bits:
  "foldl (\<lambda>bytes k. if P k then bytes[k div 8 := bytes ! (k div 8) OR push_bit (7 - k mod 8) 1] else bytes)
     (replicate n (0 :: u8)) [0..<j] =
   map (\<lambda>i. word_of_bits (map (\<lambda>k. k < j \<and> P k) [8 * i..<8 * i + 8])) [0..<n]" (is "foldl ?f _ _ = ?g j")
  if "j \<le> 8 * n"
  using that
proof (induction j)
  case 0
  have "map (\<lambda>k. False) [a..<a + 8] = replicate 8 False" for a by (rule nth_equalityI) simp_all
  then show ?case by (intro nth_equalityI) simp_all
next
  case (Suc j)
  have "foldl ?f (replicate n 0) [0..<Suc j] = ?f (?g j) j" using Suc by simp
  also have "\<dots> = ?g (Suc j)"
  proof (rule nth_equalityI)
    fix i assume "i < length (?f (?g j) j)"
    then have i: "i < n" by (simp split: if_splits)
    have jn: "j div 8 < n" using Suc.prems by linarith
    show "?f (?g j) j ! i = ?g (Suc j) ! i"
    proof (cases "i = j div 8 \<and> P j")
      case True
      have "word_of_bits (map (\<lambda>k. k < j \<and> P k) [8 * i..<8 * i + 8]) OR push_bit (7 - j mod 8) (1 :: u8) =
          word_of_bits (map (\<lambda>k. k < Suc j \<and> P k) [8 * i..<8 * i + 8])"
      proof (rule bit_word_eqI)
        fix l assume l: "l < LENGTH(8)"
        have j: "j = 8 * i + j mod 8" using True by simp
        have "(8 * i + (7 - l) = j) = (l = 7 - j mod 8)" using l j by auto
        moreover have "7 - (7 - j mod 8) = j mod 8" by simp
        ultimately show "bit (word_of_bits (map (\<lambda>k. k < j \<and> P k) [8 * i..<8 * i + 8]) OR push_bit (7 - j mod 8) (1 :: u8)) l =
            bit (word_of_bits (map (\<lambda>k. k < Suc j \<and> P k) [8 * i..<8 * i + 8]) :: u8) l"
          using True l by (auto simp: bit_simps bit_word_of_bits less_Suc_eq)
      qed
      then show ?thesis using True i jn by simp
    next
      case False
      have "map (\<lambda>k. k < j \<and> P k) [8 * i..<8 * i + 8] = map (\<lambda>k. k < Suc j \<and> P k) [8 * i..<8 * i + 8]"
        using False by (auto simp: less_Suc_eq)
      from arg_cong [OF this, of word_of_bits] show ?thesis using False i jn by auto
    qed
  qed simp
  finally show ?case .
qed

lemma slice_wave:
  assumes "clean_levels S high noise" "wave_at high noise m i bytes" "length bytes = 14"
  shows "slice_frame S m i = bytes"
proof -
  have pair: "bit_pair m i k = (if frame_bit bytes k then (high, noise) else (noise, high))" if "k < 112" for k
    using assms that by (simp add: wave_at_def)
  have gt: "s_gt S high noise" "\<not> s_gt S noise high" using assms(1) by (simp_all add: clean_levels_def)
  have "slice_frame S m i =
      foldl (\<lambda>b k. if frame_bit bytes k then b[k div 8 := b ! (k div 8) OR push_bit (7 - k mod 8) 1] else b)
        (replicate 14 0) [0..<112]"
    unfolding slice_frame_def adsb_sizes
    by (rule foldl_cong) (simp_all add: pair gt)
  also have "\<dots> = map (\<lambda>i. word_of_bits (map (\<lambda>k. k < 112 \<and> frame_bit bytes k) [8 * i..<8 * i + 8])) [0..<14]"
    by (rule octet_bits) simp
  also have "\<dots> = bytes"
  proof (rule nth_equalityI)
    fix i assume "i < length (map (\<lambda>i. word_of_bits (map (\<lambda>k. k < 112 \<and> frame_bit bytes k) [8 * i..<8 * i + 8])) [0..<14] :: u8 list)"
    then have i: "i < 14" by simp
    have "word_of_bits (map (\<lambda>k. k < 112 \<and> frame_bit bytes k) [8 * i..<8 * i + 8]) = bytes ! i"
      by (rule bit_word_eqI) (use i in \<open>auto simp: bit_word_of_bits frame_bit_def frame_low_bit octet_at dest: bit_imp_le_length\<close>)
    then show "map (\<lambda>i. word_of_bits (map (\<lambda>k. k < 112 \<and> frame_bit bytes k) [8 * i..<8 * i + 8])) [0..<14] ! i = bytes ! i"
      using i by simp
  qed (simp add: assms(3))
  finally show ?thesis .
qed

fun modulate_stream :: "'f \<Rightarrow> 'f \<Rightarrow> (nat \<times> u8 list) list \<Rightarrow> 'f list \<Rightarrow> nat \<Rightarrow> 'f list option" where
  "modulate_stream high noise [] m pos = Some m"
| "modulate_stream high noise ((gap, f) # rest) m pos =
     (case adsb_modulate_frame f high noise m (pos + gap) of
        None \<Rightarrow> None
      | Some (n, m') \<Rightarrow> modulate_stream high noise rest m' (pos + gap + n))"

fun layout :: "'f \<Rightarrow> 'f \<Rightarrow> 'f list \<Rightarrow> nat \<Rightarrow> (nat \<times> u8 list) list \<Rightarrow> bool" where
  "layout high noise m pos [] \<longleftrightarrow> (\<forall>k. pos \<le> k \<and> k < length m \<longrightarrow> m ! k = noise)"
| "layout high noise m pos ((gap, f) # rest) \<longleftrightarrow> (\<forall>k. pos \<le> k \<and> k < pos + gap \<longrightarrow> m ! k = noise) \<and>
     wave_at high noise m (pos + gap) f \<and>
     layout high noise m (pos + gap + frame_samples (8 * length f)) rest"

lemma wave_at_cong:
  assumes "wave_at high noise m start bytes" "length m' = length m"
    and "\<And>k. start \<le> k \<Longrightarrow> k < start + frame_samples (8 * length bytes) \<Longrightarrow> m' ! k = m ! k"
  shows "wave_at high noise m' start bytes"
  using assms by (auto simp: wave_at_def bit_pair_def Let_def frame_samples_def adsb_sizes)

lemma wave_levels:
  assumes "wave_at high noise m start bytes" "start \<le> k" "k < start + frame_samples (8 * length bytes)"
  shows "m ! k = high \<or> m ! k = noise"
proof (cases "k < start + 16")
  case True
  then obtain j where "k = start + j" "j < 16" using assms(2) le_Suc_ex by force
  then show ?thesis using assms(1) by (simp add: wave_at_def)
next
  case False
  define j where "j = (k - (start + 16)) div 2"
  have k: "k = start + 16 + 2 * j \<or> k = start + 16 + 2 * j + 1" using False by (auto simp: j_def)
  have j: "j < 8 * length bytes" using assms(3) False by (auto simp: j_def frame_samples_def adsb_sizes)
  then have "bit_pair m start j = (high, noise) \<or> bit_pair m start j = (noise, high)"
    using assms(1) by (auto simp: wave_at_def)
  with k show ?thesis by (auto simp: bit_pair_def Let_def adsb_sizes mult.commute)
qed

lemma modulate_stream_layout:
  assumes "modulate_stream high noise frames m pos = Some m'"
    and "\<forall>k. pos \<le> k \<and> k < length m \<longrightarrow> m ! k = noise"
  shows "length m' = length m \<and> (\<forall>k < pos. k < length m \<longrightarrow> m' ! k = m ! k) \<and> layout high noise m' pos frames"
  using assms
proof (induction frames arbitrary: m pos)
  case (Cons s rest)
  obtain gap f where s: "s = (gap, f)" by (cases s)
  obtain n m1 where m1: "adsb_modulate_frame f high noise m (pos + gap) = Some (n, m1)"
    and rest: "modulate_stream high noise rest m1 (pos + gap + n) = Some m'"
    using Cons.prems(1) by (auto simp: s split: option.splits)
  note w = modulate_writes [OF m1]
  have quiet: "\<forall>k. pos + gap + n \<le> k \<and> k < length m1 \<longrightarrow> m1 ! k = noise"
    using w(2,4) Cons.prems(2) by auto
  note ih = Cons.IH [OF rest quiet]
  have fit: "pos + gap + n \<le> length m1" using w(1,3) by (simp add: wave_at_def)
  have same: "m' ! k = m1 ! k" if "k < pos + gap + n" for k using ih that fit by simp
  have "wave_at high noise m' (pos + gap) f"
    by (rule wave_at_cong [OF w(3)]) (use ih same w(1) in auto)
  then show ?case using ih same w fit Cons.prems(2) by (auto simp: s)
qed auto

lemma layout_levels:
  "layout high noise m pos frames \<Longrightarrow> pos \<le> k \<Longrightarrow> k < length m \<Longrightarrow> m ! k = high \<or> m ! k = noise"
proof (induction frames arbitrary: pos)
  case (Cons s rest)
  obtain gap f where s: "s = (gap, f)" by (cases s)
  show ?case
  proof (cases "pos + gap + frame_samples (8 * length f) \<le> k")
    case True
    then show ?thesis using Cons by (auto simp: s)
  next
    case False
    then show ?thesis
      using Cons.prems wave_levels [of high noise m "pos + gap" f k] by (cases "k < pos + gap") (auto simp: s)
  qed
qed auto

lemma scan_noise:
  assumes "clean_levels S high noise" "set m \<subseteq> {high, noise}"
    and "\<forall>k. i \<le> k \<and> k < i + gap \<longrightarrow> m ! k = noise" "i + gap + 240 \<le> length m"
  shows "adsb_scan D S m t cap (i, st) = adsb_scan D S m t cap (i + gap, st)"
  using assms(3,4)
proof (induction gap arbitrary: i)
  case (Suc gap)
  have "\<not> preamble_at S m i"
    by (rule no_preamble_in_noise [OF assms(1,2)]) (use Suc.prems in auto)
  then have "adsb_scan D S m t cap (i, st) = adsb_scan D S m t cap (i + 1, st)"
    using Suc.prems(2) by (subst adsb_scan.simps) (simp add: frame_samples_def adsb_sizes scan_body_def)
  then show ?case using Suc.IH [of "i + 1"] Suc.prems by simp
qed simp

lemma scan_quiet_end:
  assumes "clean_levels S high noise" "set m \<subseteq> {high, noise}"
    and "\<forall>k. i \<le> k \<and> k < length m \<longrightarrow> m ! k = noise"
  shows "adsb_scan D S m t cap (i, st) = Some st"
  using assms(3)
proof (induction "length m - i" arbitrary: i rule: less_induct)
  case less
  show ?case
  proof (cases "i + 240 \<le> length m")
    case True
    then have "\<not> preamble_at S m i"
      by (intro no_preamble_in_noise [OF assms(1,2)]) (use less.prems in auto)
    then have "adsb_scan D S m t cap (i, st) = adsb_scan D S m t cap (i + 1, st)"
      using True by (subst adsb_scan.simps) (simp add: frame_samples_def adsb_sizes scan_body_def)
    then show ?thesis using less.hyps [of "i + 1"] less.prems True by simp
  qed (subst adsb_scan.simps, simp add: frame_samples_def adsb_sizes)
qed

fun resolve_all :: "'d double_ops \<Rightarrow> 'd \<Rightarrow> 'd adsb_cpr_entry list \<Rightarrow> 'd adsb_message list \<Rightarrow>
    'd adsb_cpr_entry list \<times> 'd adsb_message list" where
  "resolve_all D t cache [] = (cache, [])"
| "resolve_all D t cache (msg # msgs) =
     (let (cache, msg) = (if kind msg = ADSB_KIND_AIRBORNE_POSITION then resolve_position D cache t msg
                          else (cache, msg));
          (cache, msgs) = resolve_all D t cache msgs
      in (cache, msg # msgs))"

lemma decode_frame_facts:
  assumes "adsb_decode_frame D bytes = Some msg"
  shows "frame_df bytes = 17 \<or> frame_df bytes = 18" "adsb_crc bytes = 0" "length bytes = 14"
    and "adsb_frame_length_bits (frame_df bytes) div 8 = 14"
  using assms
  by (auto simp: adsb_decode_frame_def adsb_frame_length_bits_def adsb_sizes Let_def split: if_splits)

lemma scan_frame:
  assumes "clean_levels S high noise" "wave_at high noise m i f" "adsb_decode_frame D f = Some msg"
  shows "adsb_scan D S m t cap (i, st) = adsb_scan D S m t cap (i + 240,
    take_message D t cap msg (st\<lparr>sc_counts := (sc_counts st)\<lparr>preambles := preambles (sc_counts st) + 1,
      attempts := attempts (sc_counts st) + 1\<rparr>, sc_traced := Some (i, frame_df f, 112, True, f)\<rparr>))"
proof -
  note f = decode_frame_facts [OF assms(3)]
  have "i + 240 \<le> length m" using assms(2) f(3) by (simp add: wave_at_def frame_samples_def adsb_sizes)
  moreover have "scan_body D S m t cap (i, st) = (i + 240,
    take_message D t cap msg (st\<lparr>sc_counts := (sc_counts st)\<lparr>preambles := preambles (sc_counts st) + 1,
      attempts := attempts (sc_counts st) + 1\<rparr>, sc_traced := Some (i, frame_df f, 112, True, f)\<rparr>))"
    using preamble_found [OF assms(1,2) f(3)] slice_wave [OF assms(1,2) f(3)] f assms(3)
    by (simp add: scan_body_def count_attempt_def Let_def frame_samples_def adsb_sizes)
  ultimately show ?thesis by (subst adsb_scan.simps) (simp add: frame_samples_def adsb_sizes)
qed

lemma scan_layout:
  assumes "clean_levels S high noise" "set m \<subseteq> {high, noise}"
    and "layout high noise m pos frames"
    and "list_all2 (\<lambda>s msg. adsb_decode_frame D (snd s) = Some msg) frames msgs"
  shows "\<exists>tr. adsb_scan D S m t cap (pos, st) = Some (st\<lparr>sc_cache := fst (resolve_all D t (sc_cache st) msgs),
      sc_stored := sc_stored st @ take (cap - sc_written st) (snd (resolve_all D t (sc_cache st) msgs)),
      sc_written := sc_written st + length msgs,
      sc_counts := (sc_counts st)\<lparr>preambles := preambles (sc_counts st) + of_nat (length msgs),
        attempts := attempts (sc_counts st) + of_nat (length msgs),
        decoded := decoded (sc_counts st) + of_nat (length msgs)\<rparr>, sc_traced := tr\<rparr>)"
  using assms(4,3)
proof (induction frames msgs arbitrary: pos st rule: list_all2_induct)
  case Nil
  then show ?case
    using scan_quiet_end [OF assms(1,2), of pos D t cap st] by (intro exI [of _ "sc_traced st"]) simp
next
  case (Cons s frames msg msgs)
  obtain gap f where s: "s = (gap, f)" by (cases s)
  have wave: "wave_at high noise m (pos + gap) f" and dec: "adsb_decode_frame D f = Some msg"
    and quiet: "\<forall>k. pos \<le> k \<and> k < pos + gap \<longrightarrow> m ! k = noise"
    using Cons by (simp_all add: s)
  have len: "length f = 14" using decode_frame_facts [OF dec] by simp
  have fit: "pos + gap + 240 \<le> length m" using wave len by (simp add: wave_at_def frame_samples_def adsb_sizes)
  have rest: "layout high noise m (pos + gap + 240) frames"
    using Cons.prems len by (simp add: s frame_samples_def adsb_sizes)
  let ?st = "take_message D t cap msg (st\<lparr>sc_counts := (sc_counts st)\<lparr>preambles := preambles (sc_counts st) + 1,
      attempts := attempts (sc_counts st) + 1\<rparr>, sc_traced := Some (pos + gap, frame_df f, 112, True, f)\<rparr>)"
  have "adsb_scan D S m t cap (pos, st) = adsb_scan D S m t cap (pos + gap + 240, ?st)"
    using scan_noise [OF assms(1,2) quiet fit, of D t cap st] scan_frame [OF assms(1) wave dec, of t cap st] by simp
  moreover obtain tr where "adsb_scan D S m t cap (pos + gap + 240, ?st) =
      Some (?st\<lparr>sc_cache := fst (resolve_all D t (sc_cache ?st) msgs),
      sc_stored := sc_stored ?st @ take (cap - sc_written ?st) (snd (resolve_all D t (sc_cache ?st) msgs)),
      sc_written := sc_written ?st + length msgs,
      sc_counts := (sc_counts ?st)\<lparr>preambles := preambles (sc_counts ?st) + of_nat (length msgs),
        attempts := attempts (sc_counts ?st) + of_nat (length msgs),
        decoded := decoded (sc_counts ?st) + of_nat (length msgs)\<rparr>, sc_traced := tr\<rparr>)"
    using Cons.IH [OF rest, of ?st] by blast
  moreover have "take (cap - w) (x # xs) = (if w < cap then x # take (cap - Suc w) xs else [])"
    for w and x :: "'b adsb_message" and xs
    by (simp add: take_Cons')
  ultimately show ?case
    by (intro exI [of _ tr]) (auto simp: take_message_def Let_def ac_simps split: prod.splits)
qed

definition sent_frame :: "nat \<times> nat \<times> u32 \<times> u32 \<times> squitter \<Rightarrow> nat \<times> u8 list" where
  "sent_frame = (\<lambda>(gap, df, ca, icao, c). (gap, squitter_frame df ca icao c))"

definition sent_message :: "'d double_ops \<Rightarrow> nat \<times> nat \<times> u32 \<times> u32 \<times> squitter \<Rightarrow> 'd adsb_message" where
  "sent_message D = (\<lambda>(gap, df, ca, icao, c). squitter_message D df ca icao c)"

definition may_be_sent :: "nat \<times> nat \<times> u32 \<times> u32 \<times> squitter \<Rightarrow> bool" where
  "may_be_sent = (\<lambda>(gap, df, ca, icao, c). squitter_wf c \<and> (df = 17 \<or> df = 18) \<and> unat icao < 2 ^ 24)"

text \<open>C7: Any sequence of extended squitters the repository's own modulator writes into a quiet buffer (identifications,
  airborne positions and velocities), with any gaps between them, comes back from the demodulator exactly: every message,
  as far as the caller has room for them, in order, with the fields that were sent and the positions its cache resolves;
  every counter is the number of frames, none fails its parity, and no noise is taken for a frame.\<close>

theorem adsb_stream_round_trip:
  assumes "clean_levels S high noise"
    and "modulate_stream high noise (map sent_frame sent) (replicate n noise) 0 = Some m"
    and "list_all may_be_sent sent"
  shows "\<exists>trace. adsb_demod D S dec m t cap =
    Some (fst (resolve_all D t dec (map (sent_message D) sent)),
          take cap (snd (resolve_all D t dec (map (sent_message D) sent))), length sent, trace,
          \<lparr>preambles = of_nat (length sent), attempts = of_nat (length sent), crc_failed = 0,
           decoded = of_nat (length sent)\<rparr>)"
proof -
  have "length m = n" and layout: "layout high noise m 0 (map sent_frame sent)"
    using modulate_stream_layout [OF assms(2)] by simp_all
  then have levels: "set m \<subseteq> {high, noise}"
    using layout_levels [OF layout] by (fastforce simp: in_set_conv_nth)
  have "list_all2 (\<lambda>s msg. adsb_decode_frame D (snd s) = Some msg) (map sent_frame sent) (map (sent_message D) sent)"
    using assms(3)
    by (induction sent) (auto simp: sent_frame_def sent_message_def may_be_sent_def decode_squitter)
  from scan_layout [OF assms(1) levels layout this, of t cap] show ?thesis
    by (fastforce simp: adsb_demod_def)
qed

lemma modulate_fits:
  assumes "length bytes = 14" "start + 240 \<le> length m"
  shows "\<exists>m'. adsb_modulate_frame bytes high noise m start = Some (240, m') \<and> length m' = length m"
proof -
  obtain m' where "adsb_modulate_frame bytes high noise m start = Some (240, m')"
    using assms by (simp add: adsb_modulate_frame_def frame_samples_def adsb_sizes Let_def)
  with modulate_writes(2) [OF this] show ?thesis by blast
qed

lemma exact_clean: "clean_levels exact_samples 1 0"
  by (simp add: clean_levels_def exact_samples_def)

lemma adsb_stream_round_trip_witness:
  "\<exists>m trace. modulate_stream 1 0 (map sent_frame [(7, 17, 5, 0x4840D6, Identification 4 ''KLM1023'')])
       (replicate 300 (0 :: real)) 0 = Some m \<and>
     adsb_demod exact_doubles exact_samples [] m 0 8 =
       Some ([], [squitter_message exact_doubles 17 5 0x4840D6 (Identification 4 ''KLM1023'')], 1, trace,
         \<lparr>preambles = 1, attempts = 1, crc_failed = 0, decoded = 1\<rparr>)"
proof -
  let ?sent = "[(7, 17, 5, 0x4840D6, Identification 4 ''KLM1023'')]"
  have wf: "list_all may_be_sent ?sent" by (simp add: may_be_sent_def callsign_chars_def)
  have "length (squitter_frame 17 5 0x4840D6 (Identification 4 ''KLM1023'')) = 14"
    by (rule squitter_frame_facts) (simp add: callsign_chars_def)
  then obtain m where m: "modulate_stream 1 0 (map sent_frame ?sent) (replicate 300 (0 :: real)) 0 = Some m"
    using modulate_fits [of "squitter_frame 17 5 0x4840D6 (Identification 4 ''KLM1023'')" 7 "replicate 300 (0 :: real)" 1 0]
    by (auto simp: sent_frame_def)
  from adsb_stream_round_trip [OF exact_clean this wf, of exact_doubles "[]" 0 8] m show ?thesis
    by (auto simp: sent_message_def squitter_message_def)
qed

subsection \<open>The scan returns, and counts what it did\<close>

lemma scan_invariant:
  assumes "\<And>p. fst p + 240 \<le> length m \<Longrightarrow> P p \<Longrightarrow> P (scan_body D S m t cap p)" and "P p"
  shows "\<exists>q. adsb_scan D S m t cap p = Some (snd q) \<and> P q"
  using assms(2)
proof (induction "length m - fst p" arbitrary: p rule: less_induct)
  case less
  show ?case
  proof (cases "fst p + 240 \<le> length m")
    case True
    let ?q = "scan_body D S m t cap p"
    have "fst p < fst ?q"
      by (cases p) (auto simp: scan_body_def Let_def frame_samples_def adsb_sizes split: option.split)
    then have "\<exists>q. adsb_scan D S m t cap ?q = Some (snd q) \<and> P q"
      using True less.prems assms(1) by (intro less.hyps) auto
    then show ?thesis using True by (subst adsb_scan.simps) (simp add: frame_samples_def adsb_sizes)
  next
    case False
    then have "adsb_scan D S m t cap p = Some (snd p)"
      by (subst adsb_scan.simps) (simp add: frame_samples_def adsb_sizes)
    with less.prems show ?thesis by blast
  qed
qed

definition counts_of :: "nat \<Rightarrow> nat \<Rightarrow> nat \<Rightarrow> adsb_demod_stats" where
  "counts_of p c d = \<lparr>preambles = of_nat p, attempts = of_nat (c + d), crc_failed = of_nat c, decoded = of_nat d\<rparr>"

definition scan_ok :: "nat \<Rightarrow> nat \<Rightarrow> nat \<times> 'd scan_state \<Rightarrow> bool" where
  "scan_ok n cap = (\<lambda>(i, st). i \<le> n \<and> length (sc_stored st) = min (sc_written st) cap \<and>
     (\<exists>p c. sc_counts st = counts_of p c (sc_written st) \<and> c + sc_written st \<le> p \<and> p \<le> i \<and>
        (sc_traced st = None \<longleftrightarrow> c + sc_written st = 0)))"

lemma scan_okI:
  "\<lbrakk>sc_counts st = counts_of p c (sc_written st); c + sc_written st \<le> p; p \<le> i; i \<le> n;
    length (sc_stored st) = min (sc_written st) cap; sc_traced st = None \<longleftrightarrow> c + sc_written st = 0\<rbrakk>
   \<Longrightarrow> scan_ok n cap (i, st)"
  unfolding scan_ok_def case_prod_conv by (intro conjI exI) assumption+

lemma scan_ok_body:
  assumes "fst p + 240 \<le> length m" "scan_ok (length m) cap p"
  shows "scan_ok (length m) cap (scan_body D S m t cap p)"
proof -
  obtain i st where p: "p = (i, st)" by (cases p)
  obtain n c where inv: "sc_counts st = counts_of n c (sc_written st)" "c + sc_written st \<le> n" "n \<le> i"
      "sc_traced st = None \<longleftrightarrow> c + sc_written st = 0" "length (sc_stored st) = min (sc_written st) cap"
    using assms(2) unfolding scan_ok_def p case_prod_conv
    by (elim conjE exE) (rule that)
  have "i \<le> length m" using assms(1) by (simp add: p)
  define bytes where "bytes = slice_frame S m i"
  define k where "k = adsb_frame_length_bits (frame_df bytes) div 8"
  have len: "length bytes = 14" unfolding bytes_def slice_frame_def adsb_sizes
    by (rule foldl_invariant) (auto simp: Let_def split: prod.split)
  show ?thesis
  proof (cases "preamble_at S m i")
    case False
    then show ?thesis using inv assms(1)
      by (auto simp: scan_body_def p intro!: scan_okI [of _ n c])
  next
    case True
    let ?w = "sc_written st"
    consider (other) "\<not> (frame_df bytes = 17 \<or> frame_df bytes = 18)" "adsb_decode_frame D (take k bytes) = None"
      | (bad) "frame_df bytes = 17 \<or> frame_df bytes = 18" "k = 14" "adsb_crc bytes \<noteq> 0"
          "adsb_decode_frame D bytes = None"
      | (good) msg where "frame_df bytes = 17 \<or> frame_df bytes = 18" "k = 14" "adsb_crc bytes = 0"
          "adsb_decode_frame D bytes = Some msg"
    proof (cases "frame_df bytes = 17 \<or> frame_df bytes = 18")
      case False
      have "frame_df (take k bytes) = frame_df bytes"
        by (simp add: frame_df_def k_def adsb_frame_length_bits_def adsb_sizes)
      then show ?thesis using False other by (simp add: adsb_decode_frame_def Let_def)
    next
      case True
      then have k: "k = 14" by (auto simp: k_def adsb_frame_length_bits_def adsb_sizes)
      then show ?thesis using True bad good len
        by (cases "adsb_crc bytes = 0") (auto simp: adsb_decode_frame_def Let_def k_def adsb_sizes)
    qed
    then show ?thesis
    proof cases
      case other
      then show ?thesis using inv assms(1) True
        by (auto simp: scan_body_def p bytes_def [symmetric] k_def [symmetric] Let_def count_attempt_def
           counts_of_def intro!: scan_okI [of _ "n + 1" c])
    next
      case bad
      then show ?thesis using inv assms(1) True len
        by (auto simp: scan_body_def p bytes_def [symmetric] k_def [symmetric] Let_def count_attempt_def
           counts_of_def ac_simps intro!: scan_okI [of _ "n + 1" "c + 1"])
    next
      case good
      then show ?thesis using inv assms(1) True len
        by (auto simp: scan_body_def p bytes_def [symmetric] k_def [symmetric] Let_def count_attempt_def
           counts_of_def ac_simps take_message_def frame_samples_def adsb_sizes split: prod.splits
           intro!: scan_okI [of _ "n + 1" c])
    qed
  qed
qed

lemma demod_facts:
  "\<exists>dec' out w trace p c. adsb_demod D S dec m t cap = Some (dec', out, w, trace, counts_of p c w) \<and>
     c + w \<le> p \<and> p \<le> length m \<and> length out = min w cap \<and> (trace = None \<longleftrightarrow> c + w = 0)"
proof -
  let ?st = "\<lparr>sc_cache = dec, sc_stored = [], sc_written = 0,
    sc_counts = \<lparr>preambles = 0, attempts = 0, crc_failed = 0, decoded = 0\<rparr>, sc_traced = None\<rparr>"
  have "scan_ok (length m) cap (0, ?st)" by (rule scan_okI [of _ 0 0]) (simp_all add: counts_of_def)
  from scan_invariant [OF scan_ok_body this] obtain i st
    where "adsb_scan D S m t cap (0, ?st) = Some st" "scan_ok (length m) cap (i, st)" by force
  moreover from this(2) obtain p c where "sc_counts st = counts_of p c (sc_written st)" "c + sc_written st \<le> p" "p \<le> i"
      "i \<le> length m" "length (sc_stored st) = min (sc_written st) cap" "sc_traced st = None \<longleftrightarrow> c + sc_written st = 0"
    unfolding scan_ok_def case_prod_conv by (elim conjE exE) (rule that)
  ultimately show ?thesis
    by (intro exI [of _ "sc_cache st"] exI [of _ "sc_stored st"] exI [of _ "sc_written st"]
        exI [of _ "map_option (\<lambda>a. fill_trace S m a t) (sc_traced st)"] exI [of _ p] exI [of _ c])
      (simp add: adsb_demod_def)
qed

text \<open>The scan returns for every buffer, whatever its magnitudes and whatever the comparisons say of them:
  the loop cannot run on.\<close>

theorem adsb_demod_returns: "\<exists>result. adsb_demod D S dec magnitudes t cap = Some result"
  using demod_facts [of D S dec magnitudes t cap] by blast

text \<open>The counters of one buffer account for every attempt: what was tried either failed its parity or
  was decoded, no more was tried than preambles were found, and no more found than samples seen. The
  count returned is that of the frames decoded; as many messages are stored as fit.\<close>

theorem adsb_demod_accounts:
  assumes "length magnitudes < 2 ^ 64"
    and "adsb_demod D S dec magnitudes t cap = Some (dec', out, w, trace, c)"
  shows "unat (attempts c) = unat (crc_failed c) + unat (decoded c) \<and>
    unat (attempts c) \<le> unat (preambles c) \<and> unat (preambles c) \<le> length magnitudes \<and>
    w = unat (decoded c) \<and> length out = min w cap \<and> (trace = None \<longleftrightarrow> attempts c = 0)"
proof -
  obtain p b where c: "c = counts_of p b w" "b + w \<le> p" "p \<le> length magnitudes" "length out = min w cap"
      "trace = None \<longleftrightarrow> b + w = 0"
    using demod_facts [of D S dec magnitudes t cap] assms(2) by auto
  have small: "n < 2 ^ 64 \<Longrightarrow> unat (of_nat n :: u64) = n" for n by (simp add: unat_of_nat take_bit_nat_eq_self)
  have "unat (of_nat p :: u64) = p" "unat (of_nat b :: u64) = b" "unat (of_nat w :: u64) = w"
    "unat (of_nat (b + w) :: u64) = b + w"
    using c assms(1) by (intro small; simp)+
  moreover from this(4) have "of_nat (b + w) = (0 :: u64) \<longleftrightarrow> b + w = 0" 
    using unat_eq_0 [of "of_nat (b + w) :: u64"] by (simp del: of_nat_add)
  ultimately show ?thesis using c(2-5)
    unfolding c(1) counts_of_def adsb_demod_stats.select_convs by (simp del: of_nat_add)
qed

lemma adsb_demod_accounts_witness:
  "\<exists>dec' out w trace c. adsb_demod exact_doubles exact_samples [] [1, 0, 1] 0 0 = Some (dec', out, w, trace, c) \<and>
     unat (attempts c) \<le> unat (preambles c) \<and> unat (preambles c) \<le> 3"
proof -
  obtain dec' out w trace c where "adsb_demod exact_doubles exact_samples [] [1, 0, 1] 0 0 = Some (dec', out, w, trace, c)"
    using demod_facts [of exact_doubles exact_samples "[]" "[1, 0, 1]" 0 0] by blast
  with adsb_demod_accounts [OF _ this] show ?thesis by simp
qed

subsection \<open>Positions come from two frames of one aircraft\<close>

definition held :: "'d adsb_cpr_entry \<Rightarrow> bool" where "held e = (has_even e \<or> has_odd e)"

text \<open>The last message heard from an aircraft with the given parity.\<close>

definition last_heard :: "('d \<times> 'd adsb_message) list \<Rightarrow> u32 \<Rightarrow> bool \<Rightarrow> ('d \<times> 'd adsb_message) option" where
  "last_heard hist icao par = find (\<lambda>(t, msg). m_icao msg = icao \<and> cpr_odd msg = par) (rev hist)"

definition backed :: "('d \<times> 'd adsb_message) list \<Rightarrow> 'd adsb_cpr_entry \<Rightarrow> bool" where
  "backed hist e \<longleftrightarrow>
     (has_even e \<longrightarrow> (\<exists>msg. last_heard hist (e_icao e) False = Some (even_time e, msg) \<and>
        cpr_lat msg = even_lat e \<and> cpr_lon msg = even_lon e)) \<and>
     (has_odd e \<longrightarrow> (\<exists>msg. last_heard hist (e_icao e) True = Some (odd_time e, msg) \<and>
        cpr_lat msg = odd_lat e \<and> cpr_lon msg = odd_lon e))"

definition cache_ok :: "('d \<times> 'd adsb_message) list \<Rightarrow> 'd adsb_cpr_entry list \<Rightarrow> bool" where
  "cache_ok hist cache \<longleftrightarrow> length cache = ADSB_CPR_CACHE \<and> list_all (backed hist) cache \<and>
     (\<forall>i j. i < j \<and> j < length cache \<and> held (cache ! i) \<and> held (cache ! j) \<longrightarrow>
        e_icao (cache ! i) \<noteq> e_icao (cache ! j))"

lemma last_heard_snoc:
  "last_heard (hist @ [(t, msg)]) icao par =
     (if m_icao msg = icao \<and> cpr_odd msg = par then Some (t, msg) else last_heard hist icao par)"
  by (simp add: last_heard_def)

lemma cache_search_found:
  "cache_search D icao i old time es = Inl j \<Longrightarrow>
   i \<le> j \<and> j < i + length es \<and> held (es ! (j - i)) \<and> e_icao (es ! (j - i)) = icao"
proof (induction es arbitrary: i old time)
  case (Cons e es)
  show ?case
  proof (cases "held e \<and> e_icao e = icao")
    case True
    then show ?thesis using Cons.prems by (auto simp: held_def)
  next
    case False
    then obtain old' time' where "cache_search D icao (i + 1) old' time' es = Inl j"
      using Cons.prems by (auto simp: held_def Let_def split: if_splits)
    from Cons.IH [OF this] show ?thesis by (auto simp: nth_Cons' Suc_diff_le diff_Suc)
  qed
qed simp

lemma cache_search_free:
  "cache_search D icao i old time es = Inr j \<Longrightarrow>
   (j = old \<or> i \<le> j \<and> j < i + length es) \<and> (\<forall>e \<in> set es. held e \<longrightarrow> e_icao e \<noteq> icao)"
proof (induction es arbitrary: i old time)
  case (Cons e es)
  then have e: "\<not> (held e \<and> e_icao e = icao)" by (auto simp: held_def)
  then obtain old' time' where "cache_search D icao (i + 1) old' time' es = Inr j" "old' = old \<or> old' = i"
    using Cons.prems by (auto simp: held_def Let_def split: if_splits)
  with Cons.IH [OF this(1)] e show ?case by auto
qed simp

text \<open>The slot the search hands out: the only one that may hold the aircraft, filled with what was heard.\<close>

lemma cache_entry_ok:
  assumes "cache_ok hist cache" "cache_entry D cache icao = (i, cache')"
  shows "cache_ok hist cache'" "i < ADSB_CPR_CACHE" "e_icao (cache' ! i) = icao"
    and "\<forall>j. j < length cache' \<and> j \<noteq> i \<and> held (cache' ! j) \<longrightarrow> e_icao (cache' ! j) \<noteq> icao"
proof -
  have len: "length cache = 64" using assms(1) by (simp add: cache_ok_def ADSB_CPR_CACHE_def)
  have "cache_ok hist cache' \<and> i < 64 \<and> e_icao (cache' ! i) = icao \<and>
      (\<forall>j. j < length cache' \<and> j \<noteq> i \<and> held (cache' ! j) \<longrightarrow> e_icao (cache' ! j) \<noteq> icao)"
  proof (cases "cache_search D icao 0 0 (d_infinity D) cache")
    case (Inl k)
    then have "k = i" "cache' = cache" using assms(2) by (simp_all add: cache_entry_def)
    moreover from this have here: "i < 64" "held (cache ! i)" "e_icao (cache ! i) = icao"
      using cache_search_found [OF Inl] len by simp_all
    moreover have "e_icao (cache ! j) \<noteq> icao" if "j < length cache" "j \<noteq> i" "held (cache ! j)" for j
    proof -
      have u: "e_icao (cache ! a) \<noteq> e_icao (cache ! b)"
        if "a < b" "b < length cache" "held (cache ! a)" "held (cache ! b)" for a b
        using assms(1) that by (simp add: cache_ok_def)
      show ?thesis using u [of i j] u [of j i] that here len by (cases "i < j") auto
    qed
    ultimately show ?thesis using assms(1) by simp
  next
    case (Inr k)
    then have k: "k = i" and cache': "cache' = cache[i := (blank_entry D)\<lparr>e_icao := icao\<rparr>]"
      using assms(2) by (auto simp: cache_entry_def)
    have i: "i < 64" and none: "\<forall>e \<in> set cache. held e \<longrightarrow> e_icao e \<noteq> icao"
      using cache_search_free [OF Inr] len k by auto
    have "backed hist ((blank_entry D)\<lparr>e_icao := icao\<rparr>)" "\<not> held ((blank_entry D)\<lparr>e_icao := icao\<rparr>)"
      by (simp_all add: backed_def held_def blank_entry_def)
    then have "cache_ok hist cache'"
      using assms(1) i len unfolding cache_ok_def cache'
      by (auto simp: list_all_length nth_list_update)
    moreover have "\<forall>j. j < length cache' \<and> j \<noteq> i \<and> held (cache' ! j) \<longrightarrow> e_icao (cache' ! j) \<noteq> icao"
      using none by (auto simp: cache')
    ultimately show ?thesis using i len by (simp add: cache')
  qed
  then show "cache_ok hist cache'" "i < ADSB_CPR_CACHE" "e_icao (cache' ! i) = icao"
    "\<forall>j. j < length cache' \<and> j \<noteq> i \<and> held (cache' ! j) \<longrightarrow> e_icao (cache' ! j) \<noteq> icao"
    by (simp_all add: ADSB_CPR_CACHE_def)
qed

lemma resolve_position_ok:
  assumes "cache_ok hist cache"
  shows "cache_ok (hist @ [(t, msg)]) (fst (resolve_position D cache t msg))"
proof -
  obtain i cache1 where c1: "cache_entry D cache (m_icao msg) = (i, cache1)" by fastforce
  note e = cache_entry_ok [OF assms c1]
  define new where "new = record_half t msg (cache1 ! i)"
  have i: "i < length cache1" and len: "length cache1 = 64" using e(1,2) by (simp_all add: cache_ok_def ADSB_CPR_CACHE_def)
  have old: "backed hist x" if "x \<in> set cache1" for x using e(1) that by (simp add: cache_ok_def list_all_iff)
  have new_backed: "backed (hist @ [(t, msg)]) new"
    using old [of "cache1 ! i"] i e(3)
    by (auto simp: new_def record_half_def backed_def last_heard_snoc)
  have new_icao: "e_icao new = m_icao msg" using e(3) by (simp add: new_def record_half_def)
  have others: "backed (hist @ [(t, msg)]) (cache1 ! j)" if "j < length cache1" "j \<noteq> i" for j
    using old [of "cache1 ! j"] e(4) that by (auto simp: backed_def last_heard_snoc held_def)
  have "cache_ok (hist @ [(t, msg)]) (cache1[i := new])"
    using e(1,4) i new_backed others new_icao unfolding cache_ok_def
    by (auto simp: list_all_length nth_list_update)
  moreover have "fst (resolve_position D cache t msg) = cache1[i := new]"
    by (auto simp: resolve_position_def c1 new_def Let_def split: option.split)
  ultimately show ?thesis by simp
qed

fun resolve_run :: "'d double_ops \<Rightarrow> 'd adsb_cpr_entry list \<Rightarrow> ('d \<times> 'd adsb_message) list \<Rightarrow> 'd adsb_cpr_entry list" where
  "resolve_run D cache [] = cache"
| "resolve_run D cache ((t, msg) # rest) = resolve_run D (fst (resolve_position D cache t msg)) rest"

lemma cache_ok_run: "cache_ok hist cache \<Longrightarrow> cache_ok (hist @ msgs) (resolve_run D cache msgs)"
proof (induction msgs arbitrary: hist cache)
  case (Cons s msgs)
  obtain t msg where s: "s = (t, msg)" by (cases s)
  have "cache_ok ((hist @ [(t, msg)]) @ msgs) (resolve_run D (fst (resolve_position D cache t msg)) msgs)"
    by (rule Cons.IH [OF resolve_position_ok [OF Cons.prems]])
  then show ?case by (simp add: s)
qed simp

lemma cache_ok_init: "cache_ok [] (adsb_decoder_init D)"
  by (auto simp: cache_ok_def adsb_decoder_init_def backed_def held_def blank_entry_def list_all_length)

text \<open>C35: A position is reported only for a pair: the frame just heard and the last frame of the opposite
  parity heard from the same aircraft, not judged more than ten seconds apart, and it is the global decode
  of exactly those two; whatever was heard before, from however many aircraft, and whatever the cache
  had to give up.\<close>

theorem adsb_position_from_pair:
  assumes "resolve_position D (resolve_run D (adsb_decoder_init D) hist) t msg = (cache, msg')"
    and "\<not> has_position msg" "has_position msg'"
  shows "\<exists>t0 msg0. last_heard hist (m_icao msg) (\<not> cpr_odd msg) = Some (t0, msg0) \<and>
    (let even = if cpr_odd msg then msg0 else msg; odd = if cpr_odd msg then msg else msg0;
         dt = if cpr_odd msg then d_sub D t0 t else d_sub D t t0
     in \<not> d_gt D (d_abs D dt) (d_lit D 100 1) \<and>
        adsb_cpr_global D (cpr_lat even) (cpr_lon even) (cpr_lat odd) (cpr_lon odd) (cpr_odd msg) =
          Some (latitude_deg msg', longitude_deg msg'))"
proof -
  let ?c = "resolve_run D (adsb_decoder_init D) hist"
  have ok: "cache_ok hist ?c" using cache_ok_run [OF cache_ok_init, of hist] by simp
  obtain i cache1 where c1: "cache_entry D ?c (m_icao msg) = (i, cache1)" by fastforce
  note e = cache_entry_ok [OF ok c1]
  have i: "i < length cache1" using e(1,2) by (simp add: cache_ok_def)
  have b: "backed hist (cache1 ! i)" using e(1) i by (simp add: cache_ok_def list_all_length)
  show ?thesis
    using assms b e(3) i
    by (auto simp: resolve_position_def c1 Let_def record_half_def backed_def split: if_splits option.splits)
qed

subsection \<open>A session\<close>

fun session_run :: "'d double_ops \<Rightarrow> 'f sample_ops \<Rightarrow> ('f, 'd) adsb_session \<Rightarrow> ('f list \<times> 'd) list \<Rightarrow>
    ('f, 'd) adsb_session option" where
  "session_run D S s [] = Some s"
| "session_run D S s ((magnitudes, now) # rest) =
     (case adsb_session_feed D S s magnitudes now of
        None \<Rightarrow> None
      | Some s' \<Rightarrow> session_run D S s' rest)"

definition session_ok :: "nat \<Rightarrow> ('f, 'd) adsb_session \<Rightarrow> bool" where
  "session_ok n s \<longleftrightarrow>
     (\<exists>p c d f q. totals s = counts_of p c d \<and> c + d \<le> p \<and> p \<le> n \<and> frames_total s = of_nat f \<and> f \<le> d \<and>
        positions_total s = of_nat q \<and> q \<le> f \<and> (fst (traces s) = None \<longleftrightarrow> c + d = 0)) \<and>
     (\<forall>g. snd (traces s) = Some g \<longrightarrow> t_crc_ok g)"

lemma session_okI:
  "\<lbrakk>totals s = counts_of p c d; c + d \<le> p; p \<le> n; frames_total s = of_nat f; f \<le> d; positions_total s = of_nat q;
    q \<le> f; fst (traces s) = None \<longleftrightarrow> c + d = 0; \<forall>g. snd (traces s) = Some g \<longrightarrow> t_crc_ok g\<rbrakk> \<Longrightarrow> session_ok n s"
  unfolding session_ok_def by (intro conjI exI) assumption+

lemma session_feed_ok:
  assumes "session_ok n s"
  shows "\<exists>s'. adsb_session_feed D S s m now = Some s' \<and> session_ok (n + length m) s'"
proof -
  obtain p c d f q where s: "totals s = counts_of p c d" "c + d \<le> p" "p \<le> n" "frames_total s = of_nat f" "f \<le> d"
      "positions_total s = of_nat q" "q \<le> f" "fst (traces s) = None \<longleftrightarrow> c + d = 0"
      "\<forall>g. snd (traces s) = Some g \<longrightarrow> t_crc_ok g"
    using assms unfolding session_ok_def by (elim conjE exE) (rule that)
  show ?thesis
  proof (cases "m = []")
    case True
    have "session_ok n (s\<lparr>ss_messages := []\<rparr>)" by (rule session_okI [of _ p c d _ f q]) (use s in simp_all)
    then show ?thesis using True by (simp add: adsb_session_feed_def)
  next
    case False
    obtain dec' out w trace p' c' where r: "adsb_demod D S (ss_decoder s) m now ADSB_SESSION_MESSAGES =
        Some (dec', out, w, trace, counts_of p' c' w)" "c' + w \<le> p'" "p' \<le> length m"
        "length out = min w ADSB_SESSION_MESSAGES" "trace = None \<longleftrightarrow> c' + w = 0"
      using demod_facts [of D S "ss_decoder s" m now ADSB_SESSION_MESSAGES] by blast
    let ?ms = "take (min w ADSB_SESSION_MESSAGES) out"
    let ?s = "s\<lparr>ss_messages := ?ms, ss_decoder := dec', block_stats := counts_of p' c' w,
        totals := adsb_totals_add (totals s) (counts_of p' c' w), traces := adsb_trace_keep (traces s) t_crc_ok trace,
        frames_total := frames_total s + of_nat (length ?ms),
        positions_total := positions_total s + of_nat (length (filter has_position ?ms))\<rparr>"
    have "session_ok (n + length m) ?s"
    proof (rule session_okI [of _ "p + p'" "c + c'" "d + w" _ "f + length ?ms" "q + length (filter has_position ?ms)"])
      show "totals ?s = counts_of (p + p') (c + c') (d + w)"
        by (simp add: s(1) adsb_totals_add_def counts_of_def)
      show "q + length (filter has_position ?ms) \<le> f + length ?ms"
        using s(7) length_filter_le [of has_position ?ms] by linarith
      show "f + length ?ms \<le> d + w" using s(5) r(4) by simp
      show "fst (traces ?s) = None \<longleftrightarrow> c + c' + (d + w) = 0"
        using s(8) r(5) by (auto simp: adsb_trace_keep_def split: option.split)
      show "\<forall>g. snd (traces ?s) = Some g \<longrightarrow> t_crc_ok g"
        using s(9) by (auto simp: adsb_trace_keep_def split: option.split)
    qed (use s r in simp_all)
    moreover have "adsb_session_feed D S s m now = Some ?s"
      using False by (simp add: adsb_session_feed_def r(1) Let_def)
    ultimately show ?thesis by blast
  qed
qed

lemma session_run_ok:
  "session_ok n s \<Longrightarrow>
   \<exists>s'. session_run D S s blocks = Some s' \<and> session_ok (n + sum_list (map (length \<circ> fst) blocks)) s'"
proof (induction blocks arbitrary: n s)
  case (Cons b blocks)
  obtain m now where b: "b = (m, now)" by (cases b)
  obtain s1 where "adsb_session_feed D S s m now = Some s1" "session_ok (n + length m) s1"
    using session_feed_ok [OF Cons.prems] by blast
  with Cons.IH [OF this(2)] show ?case by (auto simp: b add.assoc)
qed simp

lemma session_reset_ok: "session_ok 0 (adsb_session_reset D)"
  by (rule session_okI [of _ 0 0 0 _ 0 0]) (simp_all add: adsb_session_reset_def no_stats_def counts_of_def)

text \<open>C34: A session answers every block, and its funnel can be believed after any run of them, as
  \<open>adsb_funnel_is_consistent\<close> demands; no more positions are counted than frames and no more frames than
  were decoded, the trace kept for a reader to pin is one that passed its parity, and there is a latest
  trace exactly when something was attempted. The bound keeps the 64-bit counters from wrapping.\<close>

theorem adsb_session_consistent:
  assumes "sum_list (map (length \<circ> fst) blocks) < 2 ^ 64"
  shows "\<exists>s. session_run D S (adsb_session_reset D) blocks = Some s \<and> adsb_funnel_is_consistent (totals s) \<and>
    positions_total s \<le> frames_total s \<and> frames_total s \<le> decoded (totals s) \<and>
    (\<forall>g. snd (traces s) = Some g \<longrightarrow> t_crc_ok g) \<and> (fst (traces s) = None \<longleftrightarrow> attempts (totals s) = 0)"
proof -
  obtain s where s: "session_run D S (adsb_session_reset D) blocks = Some s"
    "session_ok (sum_list (map (length \<circ> fst) blocks)) s"
    using session_run_ok [OF session_reset_ok [of D], of D S blocks] by auto
  then obtain p c d f q where k: "totals s = counts_of p c d" "c + d \<le> p" "p \<le> sum_list (map (length \<circ> fst) blocks)"
      "frames_total s = of_nat f" "f \<le> d" "positions_total s = of_nat q" "q \<le> f"
      "fst (traces s) = None \<longleftrightarrow> c + d = 0" "\<forall>g. snd (traces s) = Some g \<longrightarrow> t_crc_ok g"
    unfolding session_ok_def by (elim conjE exE) (rule that)
  have small: "unat (of_nat x :: u64) = x" if "x \<le> p" for x
    using that k(3) assms by (simp add: unat_of_nat take_bit_nat_eq_self)
  have u: "unat (of_nat p :: u64) = p" "unat (of_nat c :: u64) = c" "unat (of_nat d :: u64) = d"
    "unat (of_nat (c + d) :: u64) = c + d" "unat (of_nat f :: u64) = f" "unat (of_nat q :: u64) = q"
    by (rule small; use k in linarith)+
  have "of_nat (c + d) = (0 :: u64) \<longleftrightarrow> c + d = 0"
    using unat_eq_0 [of "of_nat (c + d) :: u64"] u(4) by (simp del: of_nat_add)
  moreover have "of_nat c + of_nat d = (of_nat (c + d) :: u64)" by simp
  ultimately show ?thesis using s(1) k u
    unfolding adsb_funnel_is_consistent_def word_le_nat_alt
    by (intro exI [of _ s]) (simp add: counts_of_def del: of_nat_add)
qed

lemma adsb_session_consistent_witness:
  "\<exists>s. session_run exact_doubles exact_samples (adsb_session_reset exact_doubles) [([1, 0, 1], 0), ([], 1)] = Some s \<and>
     adsb_funnel_is_consistent (totals s)"
  using adsb_session_consistent [of "[([1, 0, 1], 0), ([], 1)]" exact_doubles exact_samples] by auto

text \<open>The log keeps its rows newest first and loses the oldest when it is full.\<close>

lemma log_push_rows:
  assumes "length rows = 256" "count \<le> 256" "adsb_log_push (rows, count) e = (rows', count')"
  shows "length rows' = 256" "count' = min 256 (count + 1)" "take count' rows' = take count' (e # take count rows)"
proof -
  define keep where "keep = (if count < 256 then count else 255)"
  obtain x xs where rows: "rows = x # xs" using assms(1) by (cases rows) auto
  have rows': "rows' = e # take keep rows @ drop (keep + 1) rows"
    using assms(3) rows by (auto simp: adsb_log_push_def ADSB_LOG_CAPACITY_def keep_def Let_def split: if_splits)
  show "length rows' = 256" "count' = min 256 (count + 1)"
    using assms by (auto simp: rows' keep_def adsb_log_push_def ADSB_LOG_CAPACITY_def Let_def split: if_splits)
  then show "take count' rows' = take count' (e # take count rows)"
    using assms(1,2) by (cases "count < 256") (simp_all add: rows' keep_def)
qed

end
