(* ===== verification/Adsb_Position.thy ===== *)
theory Adsb_Position
  imports Adsb_Scan
begin

text \<open>
  The global position decode in exact real arithmetic: it inverts the encoding of a pair of frames to
  within half a step. The rounding of the doubles the code computes with is not part of this claim.
\<close>

unbundle bit_operations_syntax

subsection \<open>The position decode in exact arithmetic\<close>

lemma exact_pi [simp]: "d_pi exact_doubles = pi"
  by (simp add: exact_doubles_def d_pi_def)

lemma exact_fmod:
  assumes "0 < n"
  shows "positive_fmod exact_doubles (real_of_int j) (real_of_int n) = real_of_int (j mod n)"
proof -
  have fl: "\<lfloor>real_of_int j / real_of_int n\<rfloor> = j div n" by (simp add: floor_divide_of_int_eq)
  have cl: "\<lceil>real_of_int j / real_of_int n\<rceil> = - ((- j) div n)"
    using floor_divide_of_int_eq [of "- j" n] by (simp add: ceiling_def)
  have pos: "0 \<le> real_of_int j / real_of_int n \<longleftrightarrow> 0 \<le> j" using assms by (simp add: zero_le_divide_iff)
  show ?thesis
  proof (cases "0 \<le> j")
    case True
    have "real_of_int j - real_of_int n * real_of_int (j div n) = real_of_int (j mod n)"
      by (simp only: of_int_mult [symmetric] of_int_diff [symmetric] minus_mult_div_eq_mod)
    moreover have "0 \<le> j mod n" using assms by simp
    ultimately show ?thesis using True pos fl by (simp add: positive_fmod_def exact_doubles_def Let_def)
  next
    case False
    define r where "r = (- j) mod n"
    have eq: "real_of_int j - real_of_int n * real_of_int (- ((- j) div n)) = - real_of_int r"
    proof -
      have "j - n * (- ((- j) div n)) = - ((- j) - n * ((- j) div n))" by simp
      also have "\<dots> = - r" by (simp only: minus_mult_div_eq_mod r_def)
      finally show ?thesis by (metis of_int_diff of_int_minus of_int_mult)
    qed
    have r: "0 \<le> r" "r < n" using assms by (simp_all add: r_def)
    have "j mod n = (if r = 0 then 0 else n - r)" using zmod_zminus1_eq_if [of "- j" n] assms by (simp add: r_def)
    then show ?thesis using False pos cl eq r by (simp add: positive_fmod_def exact_doubles_def Let_def)
  qed
qed

lemma exact_fraction: "cpr_fraction exact_doubles v = real (unat v) / 131072"
  by (simp add: cpr_fraction_def exact_doubles_def)

text \<open>The number of longitude zones.\<close>

lemma zone_angle:
  assumes "0 < x" "x < 87"
  defines "a \<equiv> 1 - (1 - cos (pi / 30)) / (cos (pi / 180 * x) * cos (pi / 180 * x))"
  shows "- 1 \<le> a" "a < cos (pi / 30)"
proof -
  let ?c = "cos (pi / 180 * x)"
  have num: "1 - cos (pi / 30) = 2 * (sin (pi / 60))\<^sup>2"
    using cos_double_sin [of "pi / 60"] by simp
  have "sin (pi / 60) = cos (pi / 2 - pi / 60)" using sin_cos_eq [of "pi / 60"] by simp
  also have "\<dots> \<le> ?c"
  proof (rule cos_monotone_0_pi_le)
    show "0 \<le> pi / 180 * x" using assms by simp
    show "pi / 180 * x \<le> pi / 2 - pi / 60" using assms by (simp add: field_simps)
    show "pi / 2 - pi / 60 \<le> pi" by simp
  qed
  finally have le: "sin (pi / 60) \<le> ?c" .
  have "0 < sin (pi / 60)" by (rule sin_gt_zero) (simp_all add: field_simps)
  with le have pos: "0 < ?c" by simp
  have sq: "(sin (pi / 60))\<^sup>2 \<le> ?c * ?c"
    unfolding power2_eq_square by (rule mult_mono) (use le \<open>0 < sin (pi / 60)\<close> pos in simp_all)
  show "- 1 \<le> a" unfolding a_def num using sq pos by (simp add: field_simps)
  have "?c < cos 0" by (rule cos_monotone_0_pi) (use assms in \<open>simp_all add: field_simps\<close>)
  then have "?c * ?c < 1 * 1" by (intro mult_strict_mono) (use pos in simp_all)
  moreover have "0 < 1 - cos (pi / 30)" unfolding num using \<open>0 < sin (pi / 60)\<close> by simp
  ultimately have "(1 - cos (pi / 30)) * (?c * ?c) < (1 - cos (pi / 30)) * 1"
    by (intro mult_strict_left_mono) simp_all
  then have "1 - cos (pi / 30) < (1 - cos (pi / 30)) / (?c * ?c)"
    using pos by (simp only: less_divide_eq mult_pos_pos if_True mult_1_right)
  then show "a < cos (pi / 30)" by (simp add: a_def)
qed

lemma zones_range: "1 \<le> cpr_nl exact_doubles lat \<and> cpr_nl exact_doubles lat \<le> 59"
proof -
  define x where "x = \<bar>lat\<bar>"
  have abs_lat: "(if 0 > lat then - lat else lat) = x" by (simp add: x_def)
  define a where "a = 1 - (1 - cos (pi / 30)) / (cos (pi / 180 * x) * cos (pi / 180 * x))"
  have nl: "cpr_nl exact_doubles lat =
     (if x < 1 / 10 ^ 9 then 59 else if \<bar>x - 87\<bar> < 1 / 10 ^ 9 then 2 else if x > 87 then 1
      else \<lfloor>2 * pi / arccos a\<rfloor>)"
    unfolding cpr_nl_def exact_ops exact_pi Let_def by (simp add: exact_lit abs_lat a_def)
  show ?thesis
  proof (cases "1 / 10 ^ 9 \<le> x \<and> x < 87")
    case True
    then have x: "0 < x" "x < 87" by (auto intro: less_le_trans [of 0 "1 / 10 ^ 9"])
    note a = zone_angle [OF x, folded a_def]
    have "arccos (cos (pi / 30)) = pi / 30" by (rule arccos_cos) simp_all
    then have low: "pi / 30 < arccos a" using arccos_less_arccos [OF a(1,2)] by simp
    have high: "arccos a \<le> pi" using arccos_ubound [of a] a(1) less_le_trans [OF a(2) cos_le_one] by simp
    have "0 < arccos a" using low pi_gt_zero by (meson divide_pos_pos less_trans zero_less_numeral)
    then have "1 \<le> 2 * pi / arccos a" "2 * pi / arccos a < 60" using low high by (simp_all add: field_simps)
    then show ?thesis using nl by (auto simp: le_floor_iff floor_less_iff)
  qed (use nl in auto)
qed

subsection \<open>What a transmitter encodes\<close>

text \<open>The position reports of DO-260: the globe is cut into \<open>zones\<close> bands, and the frame carries where in its
  band the position lies, in 17 bits. Both frames of a pair cut the latitude, into 60 and 59 bands; the
  longitude is cut into as many as the recovered latitude has, and one fewer for the odd frame.\<close>

definition cpr_steps :: "int \<Rightarrow> real \<Rightarrow> int" where
  "cpr_steps zones x = \<lfloor>131072 * (x * real_of_int zones / 360) + 1 / 2\<rfloor>"

definition cpr_recovered :: "int \<Rightarrow> real \<Rightarrow> real" where
  "cpr_recovered zones x = 360 / real_of_int zones * (real_of_int (cpr_steps zones x) / 131072)"

definition cpr_code :: "int \<Rightarrow> real \<Rightarrow> u32" where
  "cpr_code zones x = of_int (cpr_steps zones x mod 131072)"

definition lat_zones :: "bool \<Rightarrow> int" where "lat_zones par = (if par then 59 else 60)"

definition lon_zones :: "bool \<Rightarrow> real \<Rightarrow> int" where
  "lon_zones par lat = max 1 (cpr_nl exact_doubles (cpr_recovered (lat_zones par) lat) - (if par then 1 else 0))"

lemma cpr_code_value: "real (unat (cpr_code zones x)) = real_of_int (cpr_steps zones x mod 131072)"
proof -
  have "0 \<le> cpr_steps zones x mod 131072 \<and> cpr_steps zones x mod 131072 < 2 ^ 32"
    by (auto intro: less_trans [of _ 131072])
  then have "int (unat (cpr_code zones x)) = cpr_steps zones x mod 131072"
    by (simp add: cpr_code_def unat_eq_nat_uint uint_word_of_int)
  then show ?thesis by (metis of_int_of_nat_eq)
qed

lemma cpr_steps_near: "\<bar>real_of_int (cpr_steps zones x) - 131072 * (x * real_of_int zones / 360)\<bar> \<le> 1 / 2"
  unfolding cpr_steps_def by linarith

lemma cpr_recovered_near:
  assumes "0 < zones" shows "\<bar>cpr_recovered zones x - x\<bar> \<le> 180 / (real_of_int zones * 131072)"
proof -
  have "cpr_recovered zones x - x =
      (real_of_int (cpr_steps zones x) - 131072 * (x * real_of_int zones / 360)) * (360 / (real_of_int zones * 131072))"
    using assms by (simp add: cpr_recovered_def field_simps)
  also have "\<bar>\<dots>\<bar> \<le> 1 / 2 * (360 / (real_of_int zones * 131072))"
    unfolding abs_mult using assms cpr_steps_near [of zones x] by (intro mult_mono) simp_all
  finally show ?thesis by simp
qed

lemma cpr_steps_range:
  assumes "0 < zones" "- x0 \<le> x" "x \<le> x0" "131072 * (x0 * real_of_int zones / 360) = real_of_int n"
  shows "- n \<le> cpr_steps zones x \<and> cpr_steps zones x \<le> n"
proof -
  have "x * real_of_int zones \<le> x0 * real_of_int zones" "- x0 * real_of_int zones \<le> x * real_of_int zones"
    by (rule mult_right_mono; use assms in simp)+
  then have "131072 * (x * real_of_int zones / 360) \<le> real_of_int n" "- real_of_int n \<le> 131072 * (x * real_of_int zones / 360)"
    using assms(4) by auto
  then show ?thesis unfolding cpr_steps_def by linarith
qed

lemma cpr_split: "real_of_int k = 131072 * real_of_int (k div 131072) + real_of_int (k mod 131072)"
  by (metis mult_div_mod_eq of_int_add of_int_mult of_int_numeral)

definition cpr_part :: "int \<Rightarrow> real \<Rightarrow> real" where
  "cpr_part zones x = real_of_int (cpr_steps zones x mod 131072) / 131072"

text \<open>Two cuts of one place, into \<open>a\<close> and \<open>b\<close> bands, tell each other's band: the difference the decoder
  rounds is a whole number but for half a step on either side.\<close>

lemma cpr_zone_index:
  assumes "0 < a" "0 < b" "a + b < 131072"
  shows "\<lfloor>real_of_int b * cpr_part a x - real_of_int a * cpr_part b x + 1 / 2\<rfloor> =
    a * (cpr_steps b x div 131072) - b * (cpr_steps a x div 131072)"
proof -
  let ?A = "cpr_steps a x" and ?B = "cpr_steps b x"
  have split: "real_of_int (k mod 131072) / 131072 = real_of_int k / 131072 - real_of_int (k div 131072)" for k
    using cpr_split [of k] by (simp add: field_simps)
  have "\<bar>real_of_int b * real_of_int ?A - real_of_int a * real_of_int ?B\<bar> \<le> (real_of_int a + real_of_int b) / 2"
  proof -
    let ?ea = "real_of_int ?A - 131072 * (x * real_of_int a / 360)"
    let ?eb = "real_of_int ?B - 131072 * (x * real_of_int b / 360)"
    have "real_of_int b * real_of_int ?A - real_of_int a * real_of_int ?B = real_of_int b * ?ea - real_of_int a * ?eb"
      by (simp add: algebra_simps)
    also have "\<bar>\<dots>\<bar> \<le> real_of_int b * \<bar>?ea\<bar> + real_of_int a * \<bar>?eb\<bar>"
      using assms(1,2) by (simp add: abs_mult order_trans [OF abs_triangle_ineq4])
    also have "\<dots> \<le> real_of_int b * (1 / 2) + real_of_int a * (1 / 2)"
      using assms(1,2) cpr_steps_near by (intro add_mono mult_left_mono) simp_all
    finally show ?thesis by (simp add: algebra_simps)
  qed
  moreover have "real_of_int (a + b) < 131072" using assms(3) by (simp only: of_int_less_numeral_iff)
  then have "(real_of_int a + real_of_int b) / 2 < 65536" by simp
  ultimately have "\<bar>real_of_int b * real_of_int ?A - real_of_int a * real_of_int ?B\<bar> < 65536" by linarith
  then have "\<bar>(real_of_int b * real_of_int ?A - real_of_int a * real_of_int ?B) / 131072\<bar> < 1 / 2"
    unfolding abs_divide by simp
  moreover have "real_of_int b * cpr_part a x - real_of_int a * cpr_part b x =
      (real_of_int b * real_of_int ?A - real_of_int a * real_of_int ?B) / 131072 +
      real_of_int (a * (?B div 131072) - b * (?A div 131072))"
    by (simp add: cpr_part_def split algebra_simps diff_divide_distrib)
  ultimately show ?thesis by (simp only: floor_eq_iff) linarith
qed

lemma mod_zone: "(a * j - (a - 1) * i) mod a = i mod a" "((i + 1) * j - i * k) mod i = j mod i" for a i j k :: int
proof -
  have "a * j - (a - 1) * i = i + a * (j - i)" "(i + 1) * j - i * k = j + i * (j - k)" by (simp_all add: algebra_simps)
  then show "(a * j - (a - 1) * i) mod a = i mod a" "((i + 1) * j - i * k) mod i = j mod i" by simp_all
qed

lemma cpr_part_recovered:
  "0 < zones \<Longrightarrow> 360 / real_of_int zones * (real_of_int (cpr_steps zones x div 131072) + cpr_part zones x) =
    cpr_recovered zones x"
proof -
  have "real_of_int (k div 131072) + real_of_int (k mod 131072) / 131072 = real_of_int k / 131072" for k
    using cpr_split [of k] by (simp add: field_simps)
  then show ?thesis by (simp only: cpr_part_def cpr_recovered_def)
qed

text \<open>The latitude a frame gives back, before and after it is brought into range.\<close>

lemma cpr_latitude:
  assumes "- 90 \<le> lat" "lat \<le> 90" "zones = 59 \<or> zones = 60"
  defines "l \<equiv> 360 / real_of_int zones *
      (real_of_int (cpr_steps zones lat div 131072 mod zones) + cpr_part zones lat)"
  shows "(if l \<ge> 270 then l - 360 else l) = cpr_recovered zones lat"
proof -
  let ?s = "cpr_steps zones lat"
  define n where "n = 131072 * zones div 4"
  have z: "0 < zones" using assms by auto
  have n: "131072 * (90 * real_of_int zones / 360) = real_of_int n" using assms(3) by (auto simp: n_def)
  have range: "- n \<le> ?s" "?s \<le> n" using cpr_steps_range [OF z assms(1,2) n] by simp_all
  define i where "i = ?s div 131072"
  have i: "- zones \<le> i" "i < zones"
    using range assms(3) by (auto simp: n_def i_def)
  have m: "i mod zones = (if i < 0 then i + zones else i)"
    using i mod_pos_pos_trivial [of "i + zones" zones] mod_pos_pos_trivial [of i zones] by (cases "i < 0") simp_all
  have rec: "360 / real_of_int zones * (real_of_int i + cpr_part zones lat) = cpr_recovered zones lat"
    using cpr_part_recovered [OF z] by (simp add: i_def)
  have bound: "- 90 \<le> cpr_recovered zones lat" "cpr_recovered zones lat \<le> 90"
    using range assms(3) by (auto simp: cpr_recovered_def n_def)
  show ?thesis
  proof (cases "i < 0")
    case True
    then have "l = 360 / real_of_int zones * (real_of_int i + cpr_part zones lat) + 360"
      using m z by (simp add: l_def i_def [symmetric] field_simps)
    then have "l = cpr_recovered zones lat + 360" unfolding rec .
    then show ?thesis using bound by simp
  next
    case False
    then have "l = cpr_recovered zones lat" using m rec by (simp add: l_def i_def [symmetric])
    then show ?thesis using bound by simp
  qed
qed

lemma exact_part: "cpr_fraction exact_doubles (cpr_code zones x) = cpr_part zones x"
  by (simp only: exact_fraction cpr_code_value cpr_part_def)

text \<open>The longitude, once the two frames agree on the number of zones.\<close>

lemma cpr_longitude_exact:
  assumes "1 \<le> nl" "nl \<le> 59" "- 180 \<le> lon" "lon < 180"
    and ne_def: "ne = max 1 nl" and no_def: "no = max 1 (nl - 1)" and n_def: "n = (if par then no else ne)"
    and lo_def: "lo = cpr_longitude exact_doubles par nl (cpr_part ne lon) (cpr_part no lon)"
  shows "- 180 \<le> lo" "lo < 180" "\<exists>k :: int. lo = cpr_recovered n lon + 360 * real_of_int k"
proof -
  let ?se = "cpr_steps ne lon" and ?so = "cpr_steps no lon" and ?s = "cpr_steps n lon"
  have n: "1 \<le> n" "1 \<le> ne" "1 \<le> no" "ne = nl" using assms(1) by (auto simp: n_def ne_def no_def)
  define m where "m = \<lfloor>cpr_part ne lon * real_of_int (nl - 1) - cpr_part no lon * real_of_int nl + 1 / 2\<rfloor>"
  have m: "m mod n = (?s div 131072) mod n"
  proof (cases "nl = 1")
    case True
    then show ?thesis by (simp add: n_def ne_def no_def)
  next
    case False
    then have no: "no = nl - 1" using assms(1) by (simp add: no_def)
    then have "m = nl * (?so div 131072) - (nl - 1) * (?se div 131072)"
      using cpr_zone_index [of nl "nl - 1" lon] assms(1,2) False n(4)
      by (simp add: m_def mult.commute)
    then show ?thesis
      using mod_zone(1) [of nl "?so div 131072" "?se div 131072"]
        mod_zone(2) [of "nl - 1" "?so div 131072" "?se div 131072"] no n(4)
      by (cases par) (simp_all add: n_def)
  qed
  define l where "l = 360 / real_of_int n * (real_of_int (m mod n) + cpr_part n lon)"
  have lo: "lo = (if l \<ge> 180 then l - 360 else l)"
  proof -
    have "(if nl - 1 > 1 then nl - 1 else 1) = no" "(if nl > 1 then nl else 1) = ne"
      using assms(1) by (simp_all add: no_def ne_def)
    then show ?thesis
      using n exact_fmod [of no m] exact_fmod [of ne m]
      unfolding lo_def cpr_longitude_def Let_def exact_ops exact_pi exact_lits m_def [symmetric]
      by (cases par) (simp_all add: l_def n_def)
  qed
  have part: "0 \<le> cpr_part n lon" "cpr_part n lon < 1"
    by (simp_all add: cpr_part_def)
  have "0 \<le> m mod n" "m mod n \<le> n - 1" using n(1) pos_mod_bound [of n m] by simp_all
  then have "0 \<le> real_of_int (m mod n)" "real_of_int (m mod n) \<le> real_of_int n - 1" by linarith+
  then have s: "0 \<le> real_of_int (m mod n) + cpr_part n lon" "real_of_int (m mod n) + cpr_part n lon < real_of_int n"
    using part by linarith+
  have "0 \<le> l" using s(1) n(1) by (simp add: l_def)
  moreover have "l < 360"
    using s(2) n(1) by (simp add: l_def pos_divide_less_eq)
  ultimately show "- 180 \<le> lo" "lo < 180" by (auto simp: lo)
  define q where "q = ?s div 131072 div n"
  have "real_of_int (m mod n) = real_of_int (?s div 131072) - real_of_int n * real_of_int q"
    using minus_mult_div_eq_mod [of "?s div 131072" n] by (simp add: m q_def flip: of_int_mult of_int_diff)
  then have "l = 360 / real_of_int n * (real_of_int (?s div 131072) + cpr_part n lon) - 360 * real_of_int q"
    using n(1) by (simp add: l_def field_simps)
  then have "l = cpr_recovered n lon - 360 * real_of_int q"
    using cpr_part_recovered [of n lon] n(1) by simp
  then show "\<exists>k :: int. lo = cpr_recovered n lon + 360 * real_of_int k"
    by (auto simp: lo intro: exI [of _ "- q"] exI [of _ "- q - 1"])
qed

lemma lon_zones_one: "lon_zones par lat =
   (if par then max 1 (cpr_nl exact_doubles (cpr_recovered 59 lat) - 1)
    else max 1 (cpr_nl exact_doubles (cpr_recovered 60 lat)))"
  by (simp add: lon_zones_def lat_zones_def)

text \<open>The pair of frames sent from a place, with the longitude cut as each frame's latitude has it.\<close>

definition cpr_decode_pair :: "real \<Rightarrow> real \<Rightarrow> bool \<Rightarrow> (real \<times> real) option" where
  "cpr_decode_pair lat lon par =
     adsb_cpr_global exact_doubles (cpr_code 60 lat) (cpr_code (lon_zones False lat) lon)
       (cpr_code 59 lat) (cpr_code (lon_zones True lat) lon) par"

lemma cpr_pair_decoded:
  assumes "- 90 \<le> lat" "lat \<le> 90"
  defines "nl_e \<equiv> cpr_nl exact_doubles (cpr_recovered 60 lat)"
    and "nl_o \<equiv> cpr_nl exact_doubles (cpr_recovered 59 lat)"
  shows "cpr_decode_pair lat lon par =
    (if nl_e \<noteq> nl_o then None
     else Some (cpr_recovered (lat_zones par) lat,
       cpr_longitude exact_doubles par nl_e (cpr_part (max 1 nl_e) lon) (cpr_part (max 1 (nl_e - 1)) lon)))"
proof -
  define j where "j = \<lfloor>59 * cpr_part 60 lat - 60 * cpr_part 59 lat + 1 / 2\<rfloor>"
  have j: "j = 60 * (cpr_steps 59 lat div 131072) - 59 * (cpr_steps 60 lat div 131072)"
    using cpr_zone_index [of 60 59 lat] by (simp add: j_def)
  have je: "j mod 60 = (cpr_steps 60 lat div 131072) mod 60"
    using mod_zone(1) [of 60 "cpr_steps 59 lat div 131072" "cpr_steps 60 lat div 131072"] by (simp add: j)
  have jo: "j mod 59 = (cpr_steps 59 lat div 131072) mod 59"
    using mod_zone(2) [of 59 "cpr_steps 59 lat div 131072" "cpr_steps 60 lat div 131072"] by (simp add: j)
  have e: "(if 360 / 60 * (real_of_int (j mod 60) + cpr_part 60 lat) \<ge> 270
      then 360 / 60 * (real_of_int (j mod 60) + cpr_part 60 lat) - 360
      else 360 / 60 * (real_of_int (j mod 60) + cpr_part 60 lat)) = cpr_recovered 60 lat"
    using cpr_latitude [OF assms(1,2), of 60] unfolding je of_int_numeral by blast
  have o: "(if 360 / 59 * (real_of_int (j mod 59) + cpr_part 59 lat) \<ge> 270
      then 360 / 59 * (real_of_int (j mod 59) + cpr_part 59 lat) - 360
      else 360 / 59 * (real_of_int (j mod 59) + cpr_part 59 lat)) = cpr_recovered 59 lat"
    using cpr_latitude [OF assms(1,2), of 59] unfolding jo of_int_numeral by blast
  have f: "positive_fmod exact_doubles (real_of_int j) 60 = real_of_int (j mod 60)"
    "positive_fmod exact_doubles (real_of_int j) 59 = real_of_int (j mod 59)"
    using exact_fmod [of 60 j] exact_fmod [of 59 j] by simp_all
  show ?thesis
    unfolding cpr_decode_pair_def adsb_cpr_global_def Let_def exact_ops exact_pi exact_lits exact_part j_def [symmetric] f e o
      lon_zones_one nl_e_def nl_o_def lat_zones_def
    by (cases par) simp_all
qed

text \<open>C8: In exact arithmetic the global decode inverts the encoding of a pair of position frames, anywhere on
  the globe, the poles and the date line included. It refuses exactly when the two frames' latitudes fall
  in bands with different numbers of longitude zones. Otherwise the latitude comes back to within half a
  step of its frame's 17 bits, and the longitude to within half a step up to whole turns, in
  \<open>[-180, 180)\<close>.\<close>

theorem adsb_cpr_round_trip:
  assumes "- 90 \<le> lat" "lat \<le> 90" "- 180 \<le> lon" "lon < 180"
  shows "(cpr_decode_pair lat lon par = None \<longleftrightarrow>
      cpr_nl exact_doubles (cpr_recovered 60 lat) \<noteq> cpr_nl exact_doubles (cpr_recovered 59 lat)) \<and>
    (\<forall>la lo. cpr_decode_pair lat lon par = Some (la, lo) \<longrightarrow>
      \<bar>la - lat\<bar> \<le> 180 / (real_of_int (lat_zones par) * 131072) \<and> - 180 \<le> lo \<and> lo < 180 \<and>
      (\<exists>turns :: int. \<bar>lo - lon - 360 * real_of_int turns\<bar> \<le> 180 / (real_of_int (lon_zones par lat) * 131072)))"
proof -
  define nl where "nl = cpr_nl exact_doubles (cpr_recovered 60 lat)"
  define n where "n = (if par then max 1 (nl - 1) else max 1 nl)"
  define lo where "lo = cpr_longitude exact_doubles par nl (cpr_part (max 1 nl) lon) (cpr_part (max 1 (nl - 1)) lon)"
  note pair = cpr_pair_decoded [OF assms(1,2), of lon par, folded nl_def, folded lo_def]
  have r: "1 \<le> nl" "nl \<le> 59" using zones_range by (simp_all add: nl_def)
  note long = cpr_longitude_exact [OF r assms(3,4) refl refl n_def lo_def]
  obtain k :: int where k: "lo = cpr_recovered n lon + 360 * real_of_int k" using long(3) by blast
  have "0 < lat_zones par" "0 < n" by (auto simp: lat_zones_def n_def)
  note near = cpr_recovered_near [OF this(1), of lat] cpr_recovered_near [OF this(2), of lon]
  have zones: "lon_zones par lat = n" if "nl = cpr_nl exact_doubles (cpr_recovered 59 lat)"
    using that by (simp add: lon_zones_one n_def nl_def)
  have near_lon: "\<bar>lo - lon - 360 * real_of_int k\<bar> \<le> 180 / (real_of_int n * 131072)" using near(2) by (simp add: k)
  show ?thesis
  proof (cases "nl = cpr_nl exact_doubles (cpr_recovered 59 lat)")
    case True
    then have "cpr_decode_pair lat lon par = Some (cpr_recovered (lat_zones par) lat, lo)" using pair by simp
    then show ?thesis using near(1) near_lon long(1,2) True
      unfolding zones [OF True] nl_def [symmetric] by auto
  next
    case False
    then show ?thesis using pair by (simp add: nl_def)
  qed
qed

lemma adsb_cpr_round_trip_witness:
  "\<exists>la lo. cpr_decode_pair 0 30 True = Some (la, lo) \<and> \<bar>la\<bar> \<le> 180 / (59 * 131072) \<and> - 180 \<le> lo \<and> lo < 180"
proof -
  have "cpr_recovered z 0 = 0" for z by (simp add: cpr_recovered_def cpr_steps_def)
  then have "cpr_decode_pair 0 30 True \<noteq> None"
    using adsb_cpr_round_trip [of 0 30 True] by simp
  then obtain la lo where "cpr_decode_pair 0 30 True = Some (la, lo)" by (cases "cpr_decode_pair 0 30 True") auto
  with adsb_cpr_round_trip [of 0 30 True] show ?thesis by (auto simp: lat_zones_def)
qed

lemma search_blank:
  "cache_search D icao i old time (replicate n (blank_entry D) @ es) =
     (if n = 0 then cache_search D icao i old time es
      else cache_search D icao (i + n) (i + n - 1) (d_neg D (d_infinity D)) es)"
proof (induction n arbitrary: i old time)
  case (Suc n)
  then show ?case by (cases n) (simp_all add: blank_entry_def)
qed simp

lemma adsb_position_from_pair_witness:
  "\<exists>cache msg'. resolve_position exact_doubles (resolve_run exact_doubles (adsb_decoder_init exact_doubles)
       [(0, (blank_message exact_doubles)\<lparr>m_icao := 5\<rparr>)]) 3 ((blank_message exact_doubles)\<lparr>m_icao := 5, cpr_odd := True\<rparr>)
       = (cache, msg') \<and> has_position msg' \<and>
     adsb_cpr_global exact_doubles 0 0 0 0 True = Some (latitude_deg msg', longitude_deg msg')"
proof -
  let ?D = exact_doubles
  let ?even = "(blank_message ?D)\<lparr>m_icao := 5\<rparr>" and ?odd = "(blank_message ?D)\<lparr>m_icao := 5, cpr_odd := True\<rparr>"
  let ?e = "(blank_entry ?D)\<lparr>e_icao := 5, has_even := True, even_time := 0\<rparr>"
  have r0: "cpr_recovered z 0 = 0" "cpr_code z 0 = 0" for z by (simp_all add: cpr_recovered_def cpr_steps_def cpr_code_def)
  obtain la lo where pos: "adsb_cpr_global ?D 0 0 0 0 True = Some (la, lo)"
    using cpr_pair_decoded [of 0 0 True] by (auto simp: cpr_decode_pair_def r0)
  have init: "adsb_decoder_init ?D = replicate 63 (blank_entry ?D) @ [blank_entry ?D]"
    using replicate_add [of 63 1 "blank_entry ?D"] by (simp add: adsb_decoder_init_def ADSB_CPR_CACHE_def)
  have at63: "(replicate 63 z @ [x]) ! 63 = x" "(replicate 63 z @ [x])[63 := y] = replicate 63 z @ [y]"
    for x y z :: "real adsb_cpr_entry"
    by (simp_all add: nth_append list_update_append)
  have "fst (resolve_position ?D (adsb_decoder_init ?D) 0 ?even) = replicate 63 (blank_entry ?D) @ [?e]"
    unfolding init resolve_position_def cache_entry_def search_blank
    by (simp add: Let_def at63 record_half_def blank_entry_def blank_message_def)
  then have run: "resolve_run ?D (adsb_decoder_init ?D) [(0, ?even)] = replicate 63 (blank_entry ?D) @ [?e]" by simp
  obtain cache msg' where r: "resolve_position ?D (replicate 63 (blank_entry ?D) @ [?e]) 3 ?odd = (cache, msg')" by fastforce
  moreover have "has_position msg'"
    using r pos unfolding resolve_position_def cache_entry_def search_blank
    by (auto simp: Let_def at63 record_half_def blank_entry_def blank_message_def exact_lit)
  moreover have "\<not> has_position ?odd" by (simp add: blank_message_def)
  ultimately show ?thesis
    using adsb_position_from_pair [OF _ \<open>\<not> has_position ?odd\<close>, of ?D "[(0, ?even)]" 3 cache msg'] run
    by (auto simp: last_heard_def Let_def blank_message_def)
qed

end
