(* ===== verification/Device_Profile.thy ===== *)
theory Device_Profile
  imports Floating
begin

text \<open>
  What a receiver can do, \<open>src/src/core/device_profile.h\<close>: the sample containers, the gain settings on
  offer, the block arithmetic, the check of a profile and the three ways one is built. The numbers
  held as \<open>float\<close> and \<open>double\<close> are of one type with \<open>double_ops\<close>; a C string is the characters before
  its NUL, and a pointer that may be null is an option.
\<close>

unbundle bit_operations_syntax

datatype sample_format = SAMPLE_FORMAT_U8 | SAMPLE_FORMAT_S16 | SAMPLE_FORMAT_CF32
datatype gain_model = GAIN_MODEL_NONE | GAIN_MODEL_LIST | GAIN_MODEL_RANGE
datatype gain_unit = GAIN_UNIT_TENTHS_DB | GAIN_UNIT_DB | GAIN_UNIT_INDEX
datatype device_tuner = DEVICE_TUNER_UNKNOWN | DEVICE_TUNER_E4000 | DEVICE_TUNER_FC0012
  | DEVICE_TUNER_FC0013 | DEVICE_TUNER_FC2580 | DEVICE_TUNER_R820T | DEVICE_TUNER_R828D

definition DEVICE_NAME_MAX :: nat where "DEVICE_NAME_MAX = 48"
definition DEVICE_GAIN_LIST_MAX :: nat where "DEVICE_GAIN_LIST_MAX = 64"
definition DEVICE_SERIAL_MAX :: nat where "DEVICE_SERIAL_MAX = 32"

text \<open>\<open>gain_list\<close> is the array's entries in use; \<open>gain_count\<close> says how many those are.\<close>

record 'd device_profile =
  device_name :: string
  device_serial :: string
  sample_container :: sample_format
  full_scale :: 'd
  bytes_per_pair :: nat
  tuner :: device_tuner
  tune_lower_hz :: 'd
  tune_upper_hz :: 'd
  rate_min_hz :: u32
  rate_max_hz :: u32
  can_retune :: bool
  settle_seconds :: 'd
  gain_kind :: gain_model
  gain_scale :: gain_unit
  gain_list :: "int list"
  gain_count :: int
  gain_min :: 'd
  gain_max :: 'd
  gain_step :: 'd
  has_ppm_correction :: bool
  ppm_drifts :: bool
  reference_clock_hz :: 'd

definition no_profile :: "'d double_ops \<Rightarrow> 'd device_profile" where
  "no_profile D = \<lparr>device_name = [], device_serial = [], sample_container = SAMPLE_FORMAT_U8,
     full_scale = d_lit D 0 0, bytes_per_pair = 0, tuner = DEVICE_TUNER_UNKNOWN,
     tune_lower_hz = d_lit D 0 0, tune_upper_hz = d_lit D 0 0, rate_min_hz = 0, rate_max_hz = 0,
     can_retune = False, settle_seconds = d_lit D 0 0, gain_kind = GAIN_MODEL_NONE,
     gain_scale = GAIN_UNIT_TENTHS_DB, gain_list = [], gain_count = 0, gain_min = d_lit D 0 0,
     gain_max = d_lit D 0 0, gain_step = d_lit D 0 0, has_ppm_correction = False, ppm_drifts = False,
     reference_clock_hz = d_lit D 0 0\<rparr>"

subsection \<open>Gain settings\<close>

definition device_gain_option_count :: "'d double_ops \<Rightarrow> 'd device_profile option \<Rightarrow> int" where
  "device_gain_option_count D profile =
     (case profile of None \<Rightarrow> 0
      | Some p \<Rightarrow>
          if gain_kind p = GAIN_MODEL_LIST then gain_count p
          else if gain_kind p = GAIN_MODEL_RANGE \<and> d_gt D (gain_step p) (d_lit D 0 0) then
            d_to_int D (d_div D (d_sub D (gain_max p) (gain_min p)) (gain_step p)) + 1
          else 0)"

definition device_gain_option_value :: "'d double_ops \<Rightarrow> 'd device_profile option \<Rightarrow> int \<Rightarrow> int" where
  "device_gain_option_value D profile index =
     (let count = device_gain_option_count D profile
      in case profile of None \<Rightarrow> 0
         | Some p \<Rightarrow>
             if count \<le> 0 then 0
             else let index = (if index < 0 \<or> index \<ge> count then 0 else index)
                  in if gain_kind p = GAIN_MODEL_LIST then gain_list p ! nat index
                     else d_to_int D (d_add D (gain_min p) (d_mul D (d_of_int D index) (gain_step p))))"

text \<open>\<open>%d\<close>, and \<open>%.1f\<close> of a tenth of an integer, whose one decimal is the integer's last digit.\<close>

fun decimal_digits :: "nat \<Rightarrow> string" where
  "decimal_digits n = (if n < 10 then [] else decimal_digits (n div 10)) @ [char_of (48 + n mod 10)]"

definition format_int :: "int \<Rightarrow> string" where
  "format_int v = (if v < 0 then ''-'' else []) @ decimal_digits (nat \<bar>v\<bar>)"

definition format_tenths :: "int \<Rightarrow> string" where
  "format_tenths v = (if v < 0 then ''-'' else []) @ decimal_digits (nat (\<bar>v\<bar> div 10)) @ ''.'' @
     [char_of (48 + nat (\<bar>v\<bar> mod 10))]"

text \<open>\<open>snprintf\<close> keeps what fits before the NUL; \<open>None\<close> is the buffer left alone.\<close>

definition device_gain_format :: "'d device_profile option \<Rightarrow> int \<Rightarrow> nat \<Rightarrow> string option" where
  "device_gain_format profile value_of out_size =
     (if out_size = 0 then None
      else Some (take (out_size - 1)
        (case profile of None \<Rightarrow> format_int value_of
         | Some p \<Rightarrow>
             (case gain_scale p of
                GAIN_UNIT_TENTHS_DB \<Rightarrow> format_tenths value_of @ '' dB''
              | GAIN_UNIT_DB \<Rightarrow> format_int value_of @ '' dB''
              | GAIN_UNIT_INDEX \<Rightarrow> ''index '' @ format_int value_of))))"

subsection \<open>Containers and blocks\<close>

fun device_default_full_scale :: "'d double_ops \<Rightarrow> sample_format \<Rightarrow> 'd" where
  "device_default_full_scale D SAMPLE_FORMAT_U8 = d_lit D 1275 1"
| "device_default_full_scale D SAMPLE_FORMAT_CF32 = d_lit D 10 1"
| "device_default_full_scale D SAMPLE_FORMAT_S16 = d_lit D 0 1"

fun device_format_zero_offset :: "'d double_ops \<Rightarrow> sample_format \<Rightarrow> 'd" where
  "device_format_zero_offset D SAMPLE_FORMAT_U8 = d_lit D 1275 1"
| "device_format_zero_offset D SAMPLE_FORMAT_S16 = d_lit D 0 1"
| "device_format_zero_offset D SAMPLE_FORMAT_CF32 = d_lit D 0 1"

fun device_format_bytes_per_pair :: "sample_format \<Rightarrow> nat" where
  "device_format_bytes_per_pair SAMPLE_FORMAT_U8 = 2"
| "device_format_bytes_per_pair SAMPLE_FORMAT_S16 = 4"
| "device_format_bytes_per_pair SAMPLE_FORMAT_CF32 = 8"

definition device_magnitude_max :: "'d double_ops \<Rightarrow> 'd device_profile option \<Rightarrow> 'd" where
  "device_magnitude_max D profile =
     (case profile of None \<Rightarrow> d_lit D 0 1 | Some p \<Rightarrow> d_mul D (full_scale p) (d_lit D 141421356237 11))"

definition device_pairs_per_block :: "'d device_profile option \<Rightarrow> nat \<Rightarrow> nat" where
  "device_pairs_per_block profile block_bytes =
     (case profile of None \<Rightarrow> 0
      | Some p \<Rightarrow> if bytes_per_pair p = 0 then 0 else block_bytes div bytes_per_pair p)"

definition device_block_seconds :: "'d double_ops \<Rightarrow> 'd device_profile option \<Rightarrow> nat \<Rightarrow> 'd \<Rightarrow> 'd" where
  "device_block_seconds D profile block_bytes rate_hz =
     (if profile = None \<or> d_ge D (d_lit D 0 1) rate_hz then d_lit D 0 1
      else d_div D (d_of_int D (int (device_pairs_per_block profile block_bytes))) rate_hz)"

definition device_block_bytes :: "'d device_profile option \<Rightarrow> nat \<Rightarrow> nat" where
  "device_block_bytes profile pairs = (case profile of None \<Rightarrow> 0 | Some p \<Rightarrow> pairs * bytes_per_pair p)"

definition device_profile_valid :: "'d double_ops \<Rightarrow> 'd device_profile option \<Rightarrow> bool" where
  "device_profile_valid D profile =
     (case profile of None \<Rightarrow> False
      | Some p \<Rightarrow>
          if bytes_per_pair p \<noteq> device_format_bytes_per_pair (sample_container p) then False
          else if \<not> d_gt D (full_scale p) (d_lit D 0 1) then False
          else if d_gt D (tune_lower_hz p) (tune_upper_hz p) then False
          else if rate_min_hz p > rate_max_hz p then False
          else if d_gt D (d_lit D 0 1) (settle_seconds p) then False
          else if gain_kind p = GAIN_MODEL_LIST \<and>
            (gain_count p \<le> 0 \<or> gain_count p > int DEVICE_GAIN_LIST_MAX) then False
          else if gain_kind p = GAIN_MODEL_RANGE \<and> \<not> d_gt D (gain_max p) (gain_min p) then False
          else True)"

subsection \<open>Building a profile\<close>

definition device_profile_set_name :: "'d device_profile \<Rightarrow> string option \<Rightarrow> 'd device_profile" where
  "device_profile_set_name p name =
     p\<lparr>device_name := (case name of None \<Rightarrow> [] | Some s \<Rightarrow> take (DEVICE_NAME_MAX - 1) s)\<rparr>"

text \<open>The gains are as many as the caller's array holds; \<open>None\<close> is the refusal, with nothing changed.\<close>

definition device_profile_set_gain_list :: "'d device_profile \<Rightarrow> int list option \<Rightarrow> int \<Rightarrow> 'd device_profile option" where
  "device_profile_set_gain_list p gains count =
     (case gains of None \<Rightarrow> None
      | Some gs \<Rightarrow>
          if count \<le> 0 \<or> count > int DEVICE_GAIN_LIST_MAX then None
          else Some (p\<lparr>gain_list := take (nat count) gs, gain_count := count, gain_kind := GAIN_MODEL_LIST,
                       gain_scale := GAIN_UNIT_TENTHS_DB\<rparr>))"

fun device_tuner_reach :: "'d double_ops \<Rightarrow> device_tuner \<Rightarrow> 'd \<times> 'd" where
  "device_tuner_reach D DEVICE_TUNER_R820T = (d_lit D 24000000 0, d_lit D 1766000000 0)"
| "device_tuner_reach D DEVICE_TUNER_R828D = (d_lit D 24000000 0, d_lit D 1766000000 0)"
| "device_tuner_reach D DEVICE_TUNER_E4000 = (d_lit D 52000000 0, d_lit D 2212000000 0)"
| "device_tuner_reach D DEVICE_TUNER_FC0012 = (d_lit D 22000000 0, d_lit D 948000000 0)"
| "device_tuner_reach D DEVICE_TUNER_FC0013 = (d_lit D 22000000 0, d_lit D 1100000000 0)"
| "device_tuner_reach D DEVICE_TUNER_FC2580 = (d_lit D 146000000 0, d_lit D 924000000 0)"
| "device_tuner_reach D DEVICE_TUNER_UNKNOWN = (d_lit D 0 0, d_lit D 0 0)"

definition device_profile_rtlsdr ::
    "'d double_ops \<Rightarrow> string option \<Rightarrow> device_tuner \<Rightarrow> int list option \<Rightarrow> int \<Rightarrow> 'd device_profile" where
  "device_profile_rtlsdr D name tuner_model gains count =
     (let p = device_profile_set_name (no_profile D) (Some (case name of Some s \<Rightarrow> s | None \<Rightarrow> ''RTL-SDR''));
          p = p\<lparr>sample_container := SAMPLE_FORMAT_U8,
                full_scale := device_default_full_scale D SAMPLE_FORMAT_U8,
                bytes_per_pair := device_format_bytes_per_pair SAMPLE_FORMAT_U8, tuner := tuner_model,
                tune_lower_hz := fst (device_tuner_reach D tuner_model),
                tune_upper_hz := snd (device_tuner_reach D tuner_model), rate_min_hz := 225001,
                rate_max_hz := 3200000, can_retune := True, settle_seconds := d_lit D 10 2\<rparr>;
          p = (if gains \<noteq> None \<and> count > 0
               then (case device_profile_set_gain_list p gains count of None \<Rightarrow> p | Some p' \<Rightarrow> p') else p)
      in p\<lparr>has_ppm_correction := True, ppm_drifts := True, reference_clock_hz := d_lit D 28800000 0\<rparr>)"

definition device_profile_capture ::
    "'d double_ops \<Rightarrow> string option \<Rightarrow> sample_format \<Rightarrow> 'd \<Rightarrow> 'd \<Rightarrow> u32 \<Rightarrow> 'd device_profile" where
  "device_profile_capture D name fmt scale centre_hz rate_hz =
     (let p = device_profile_set_name (no_profile D) (Some (case name of Some s \<Rightarrow> s | None \<Rightarrow> ''capture''))
      in p\<lparr>sample_container := fmt, full_scale := scale, bytes_per_pair := device_format_bytes_per_pair fmt,
           tune_lower_hz := centre_hz, tune_upper_hz := centre_hz, rate_min_hz := rate_hz,
           rate_max_hz := rate_hz, can_retune := False, settle_seconds := d_lit D 0 1,
           gain_kind := GAIN_MODEL_NONE, has_ppm_correction := False, ppm_drifts := False,
           reference_clock_hz := d_lit D 0 1\<rparr>)"

definition device_profile_b210 :: "'d double_ops \<Rightarrow> string option \<Rightarrow> string option \<Rightarrow> 'd device_profile" where
  "device_profile_b210 D name serial =
     (let p = device_profile_set_name (no_profile D) (Some (case name of Some s \<Rightarrow> s | None \<Rightarrow> ''USRP B210''));
          p = (case serial of None \<Rightarrow> p | Some s \<Rightarrow> p\<lparr>device_serial := take (DEVICE_SERIAL_MAX - 1) s\<rparr>)
      in p\<lparr>sample_container := SAMPLE_FORMAT_S16, full_scale := d_lit D 327675 1,
           bytes_per_pair := device_format_bytes_per_pair SAMPLE_FORMAT_S16, tuner := DEVICE_TUNER_UNKNOWN,
           tune_lower_hz := d_lit D 50000000 0, tune_upper_hz := d_lit D 6000000000 0,
           rate_min_hz := 200000, rate_max_hz := 61440000, can_retune := True,
           settle_seconds := d_lit D 10 2, gain_kind := GAIN_MODEL_RANGE, gain_scale := GAIN_UNIT_INDEX,
           gain_min := d_lit D 0 0, gain_max := d_lit D 760 1, gain_step := d_lit D 10 1,
           has_ppm_correction := True, ppm_drifts := True, reference_clock_hz := d_lit D 40000000 0\<rparr>)"

subsection \<open>Built profiles are valid\<close>

text \<open>Short decimal literals compare as the numbers they denote; doubles do.\<close>

definition literals_ordered :: "'d double_ops \<Rightarrow> bool" where
  "literals_ordered D \<longleftrightarrow> (\<forall>m n k j. 0 \<le> m \<and> m < 10 ^ 12 \<and> 0 \<le> n \<and> n < 10 ^ 12 \<and> k \<le> 12 \<and> j \<le> 12 \<longrightarrow>
     d_gt D (d_lit D m k) (d_lit D n j) = (n * 10 ^ k < m * 10 ^ j))"

lemma exact_literals_ordered: "literals_ordered exact_doubles"
proof -
  have "(real_of_int n / 10 ^ j < real_of_int m / 10 ^ k) = (n * 10 ^ k < m * 10 ^ j)" for m n :: int and j k :: nat
  proof -
    have "(real_of_int n / 10 ^ j < real_of_int m / 10 ^ k) = (real_of_int n * 10 ^ k < real_of_int m * 10 ^ j)"
      by (simp add: divide_less_eq pos_less_divide_eq mult.commute)
    also have "\<dots> = (real_of_int (n * 10 ^ k) < real_of_int (m * 10 ^ j))" by simp
    finally show ?thesis by (simp only: of_int_less_iff)
  qed
  then show ?thesis by (simp add: literals_ordered_def exact_lit)
qed

lemma literal_gt:
  "literals_ordered D \<Longrightarrow> 0 \<le> m \<Longrightarrow> m < 1000000000000 \<Longrightarrow> 0 \<le> n \<Longrightarrow> n < 1000000000000 \<Longrightarrow> k \<le> 12 \<Longrightarrow> j \<le> 12 \<Longrightarrow>
   d_gt D (d_lit D m k) (d_lit D n j) = (n * 10 ^ k < m * 10 ^ j)"
  by (simp add: literals_ordered_def)

text \<open>The gains on offer, in order.\<close>

lemma rtlsdr_gains:
  assumes "0 < count" "count \<le> 64" "int (length gains) = count"
    and p_def: "p = Some (device_profile_rtlsdr D name tn (Some gains) count)"
  shows "device_gain_option_count D p = count"
    and "map (\<lambda>i. device_gain_option_value D p (int i)) [0..<length gains] = gains"
proof -
  show c: "device_gain_option_count D p = count"
    using assms by (simp add: p_def device_profile_rtlsdr_def device_profile_set_gain_list_def Let_def
        device_gain_option_count_def DEVICE_GAIN_LIST_MAX_def)
  show "map (\<lambda>i. device_gain_option_value D p (int i)) [0..<length gains] = gains"
    using assms c by (intro nth_equalityI) (auto simp: p_def device_profile_rtlsdr_def device_profile_set_gain_list_def Let_def
        device_gain_option_value_def DEVICE_GAIN_LIST_MAX_def)
qed

text \<open>C37: Every profile the code builds passes its own check, given only that short literals compare as the
  numbers they are: an RTL-SDR with any tuner and any list of gains, taken or refused; a B210; a capture
  in any container whose full scale is positive, wherever it was recorded.\<close>

theorem device_profiles_valid:
  assumes "literals_ordered D"
    and "d_gt D scale (d_lit D 0 1)" "\<not> d_gt D centre_hz centre_hz"
  shows "device_profile_valid D (Some (device_profile_rtlsdr D name tn gains count)) \<and>
    device_profile_valid D (Some (device_profile_b210 D name serial)) \<and>
    device_profile_valid D (Some (device_profile_capture D name fmt scale centre_hz rate_hz))"
proof (intro conjI)
  note gt = literal_gt [OF assms(1)]
  show "device_profile_valid D (Some (device_profile_rtlsdr D name tn gains count))"
    by (cases tn)
      (simp_all add: device_profile_valid_def device_profile_rtlsdr_def device_profile_set_name_def no_profile_def
        device_profile_set_gain_list_def Let_def gt DEVICE_GAIN_LIST_MAX_def split: option.split)
  show "device_profile_valid D (Some (device_profile_b210 D name serial))"
    by (simp add: device_profile_valid_def device_profile_b210_def device_profile_set_name_def no_profile_def Let_def gt
        split: option.split)
  show "device_profile_valid D (Some (device_profile_capture D name fmt scale centre_hz rate_hz))"
    using assms(2,3)
    by (simp add: device_profile_valid_def device_profile_capture_def device_profile_set_name_def no_profile_def Let_def gt)
qed

lemma device_profiles_valid_witness:
  "device_profile_valid exact_doubles (Some (device_profile_rtlsdr exact_doubles None DEVICE_TUNER_R820T (Some [0, 9, 14]) 3)) \<and>
   device_profile_valid exact_doubles (Some (device_profile_capture exact_doubles None SAMPLE_FORMAT_S16 2048 100000000 2000000))"
  using device_profiles_valid [OF exact_literals_ordered, of 2048 100000000 None DEVICE_TUNER_R820T "Some [0, 9, 14]" 3
      None SAMPLE_FORMAT_S16 2000000]
  by (simp add: exact_lit)

end
