(* ===== verification/Iq_Ring.thy ===== *)
theory Iq_Ring
  imports Device_Profile
begin

text \<open>
  The rolling buffer of raw samples, \<open>src/src/core/iq_ring.c\<close>: its configuration, the push with its wrap,
  and the two ways a span is taken out. The history it stands for is the newest \<open>capacity_bytes\<close> of what
  was pushed since it was configured; the buffer and its head implement that. The mutex makes each
  operation one step; saving a snapshot to files is not modelled.
\<close>

unbundle bit_operations_syntax

text \<open>The metadata of the samples, as the ring and a snapshot both carry it.\<close>

record 'd sample_meta =
  m_sample_rate :: u32
  m_format :: sample_format
  m_full_scale :: 'd
  m_bytes_per_pair :: nat
  m_frequency_hz :: u32
  m_gain_tenths :: int
  m_gain_unit :: gain_unit
  m_manual_gain :: bool
  m_ppm :: int
  m_source :: string
  m_tuner :: string

record 'd iq_ring =
  mutex_ready :: bool
  ring_buffer :: "u8 list option"
  capacity_bytes :: nat
  ring_head :: nat
  filled_bytes :: nat
  duration_seconds :: 'd
  ring_meta :: "'d sample_meta"
  latest_now :: 'd

record 'd iq_snapshot =
  snap_data :: "u8 list"
  pair_count :: nat
  snap_duration :: 'd
  snap_age :: 'd
  snap_meta :: "'d sample_meta"

definition iq_ring_init :: "'d double_ops \<Rightarrow> 'd \<Rightarrow> 'd iq_ring" where
  "iq_ring_init D seconds = \<lparr>mutex_ready = True, ring_buffer = None, capacity_bytes = 0, ring_head = 0,
     filled_bytes = 0,
     duration_seconds = (if d_gt D seconds (d_lit D 0 1) then seconds else d_lit D 300 1),
     ring_meta = \<lparr>m_sample_rate = 0, m_format = SAMPLE_FORMAT_U8, m_full_scale = d_lit D 1275 1,
       m_bytes_per_pair = 2, m_frequency_hz = 0, m_gain_tenths = 0, m_gain_unit = GAIN_UNIT_TENTHS_DB,
       m_manual_gain = False, m_ppm = 0, m_source = [], m_tuner = []\<rparr>,
     latest_now = d_lit D 0 0\<rparr>"

definition iq_ring_free :: "'d iq_ring \<Rightarrow> 'd iq_ring" where
  "iq_ring_free ring =
     (if mutex_ready ring
      then ring\<lparr>ring_buffer := None, capacity_bytes := 0, ring_head := 0, filled_bytes := 0, mutex_ready := False\<rparr>
      else ring)"

text \<open>\<open>n &= ~(size_t)(pair - 1)\<close>.\<close>

definition align_pairs :: "nat \<Rightarrow> nat \<Rightarrow> nat" where
  "align_pairs pair n = unat ((of_nat n :: u64) AND NOT (of_nat (pair - 1)))"

text \<open>\<open>realloc\<close> is an argument: the old block and the size wanted give the new block, or nothing, and then the old block
  stays. A size of zero, which takes a history shorter than one pair, is outside the model: C lets \<open>realloc\<close> release the
  old block then and return nothing, and the ring would keep a pointer to it.\<close>

definition iq_ring_configure ::
    "'d double_ops \<Rightarrow> (u8 list option \<Rightarrow> nat \<Rightarrow> u8 list option) \<Rightarrow> 'd iq_ring \<Rightarrow> u32 \<Rightarrow> sample_format \<Rightarrow> 'd \<Rightarrow> u32 \<Rightarrow>
       int \<Rightarrow> gain_unit \<Rightarrow> bool \<Rightarrow> int \<Rightarrow> string option \<Rightarrow> string option \<Rightarrow> bool \<times> 'd iq_ring" where
  "iq_ring_configure D realloc ring sample_rate fmt scale frequency_hz gain_tenths unit manual_gain ppm source tuner_name =
     (if \<not> mutex_ready ring \<or> sample_rate = 0 then (False, ring)
      else
        let pair = device_format_bytes_per_pair fmt; pair = (if pair = 0 then 2 else pair);
            ring = ring\<lparr>ring_meta := \<lparr>m_sample_rate = sample_rate, m_format = fmt,
                     m_full_scale = (if d_gt D scale (d_lit D 0 1) then scale else d_lit D 1275 1),
                     m_bytes_per_pair = pair, m_frequency_hz = frequency_hz, m_gain_tenths = gain_tenths,
                     m_gain_unit = unit, m_manual_gain = manual_gain, m_ppm = ppm,
                     m_source = take 127 (case source of None \<Rightarrow> ''RTL-SDR'' | Some s \<Rightarrow> s),
                     m_tuner = take 31 (case tuner_name of None \<Rightarrow> ''R820T'' | Some s \<Rightarrow> s)\<rparr>,
                   ring_head := 0, filled_bytes := 0\<rparr>;
            needed = nat (d_to_int D (d_mul D (d_mul D (duration_seconds ring) (d_of_int D (int (unat sample_rate))))
                       (d_of_int D (int pair))));
            needed = align_pairs pair needed
        in if needed \<noteq> capacity_bytes ring then
             case realloc (ring_buffer ring) needed of
               None \<Rightarrow> (False, ring)
             | Some block \<Rightarrow> (True, ring\<lparr>ring_buffer := Some block, capacity_bytes := needed\<rparr>)
           else (True, ring))"

definition memcpy_at :: "u8 list \<Rightarrow> nat \<Rightarrow> u8 list \<Rightarrow> u8 list" where
  "memcpy_at buf pos data = take pos buf @ data @ drop (pos + length data) buf"

definition iq_ring_push :: "'d iq_ring \<Rightarrow> u8 list \<Rightarrow> 'd \<Rightarrow> 'd iq_ring" where
  "iq_ring_push ring data now =
     (case ring_buffer ring of None \<Rightarrow> ring
      | Some buf \<Rightarrow>
        let len = length data; capacity = capacity_bytes ring; head = ring_head ring
        in if \<not> mutex_ready ring \<or> capacity = 0 \<or> len = 0 then ring
           else if len \<ge> capacity then
             ring\<lparr>ring_buffer := Some (memcpy_at buf 0 (drop (len - capacity) data)), ring_head := 0,
                  filled_bytes := capacity, latest_now := now\<rparr>
           else
             let first = capacity - head;
                 (buf, head) = (if len \<le> first then (memcpy_at buf head data, (head + len) mod capacity)
                   else (memcpy_at (memcpy_at buf head (take first data)) 0 (drop first data), len - first));
                 filled = filled_bytes ring + len
             in ring\<lparr>ring_buffer := Some buf, ring_head := head,
                     filled_bytes := (if filled > capacity then capacity else filled), latest_now := now\<rparr>)"

definition iq_ring_available_seconds :: "'d double_ops \<Rightarrow> 'd iq_ring \<Rightarrow> 'd" where
  "iq_ring_available_seconds D ring =
     (let m = ring_meta ring
      in if mutex_ready ring \<and> m_sample_rate m > 0 \<and> m_bytes_per_pair m > 0 then
           d_div D (d_of_int D (int (filled_bytes ring)))
             (d_mul D (d_of_int D (int (unat (m_sample_rate m)))) (d_of_int D (int (m_bytes_per_pair m))))
         else d_lit D 0 1)"

text \<open>Where a span lies: how many bytes behind the head it starts, and how many bytes it is.\<close>

definition span_bytes :: "'d double_ops \<Rightarrow> 'd iq_ring \<Rightarrow> 'd \<Rightarrow> 'd \<Rightarrow> nat \<times> nat" where
  "span_bytes D ring age_seconds seconds =
     (let m = ring_meta ring; pair = m_bytes_per_pair m;
          half = d_div D seconds (d_lit D 20 1);
          age_end = d_sub D age_seconds half; age_start = d_add D age_seconds half;
          age_start = (if d_gt D (d_lit D 0 1) age_end then seconds else age_start);
          bytes_per_sec = unat (m_sample_rate m) * pair;
          count = (\<lambda>s. align_pairs pair (nat (d_to_int D (d_round D (d_mul D s (d_of_int D (int bytes_per_sec)))))));
          offset_back = count age_start;
          offset_back = (if offset_back > filled_bytes ring then filled_bytes ring else offset_back);
          req_bytes = count seconds;
          req_bytes = (if req_bytes > offset_back then offset_back else req_bytes)
      in (offset_back, req_bytes))"

definition ring_empty :: "'d iq_ring \<Rightarrow> bool" where
  "ring_empty ring \<longleftrightarrow> filled_bytes ring = 0 \<or> m_sample_rate (ring_meta ring) = 0 \<or>
     m_bytes_per_pair (ring_meta ring) = 0 \<or> ring_buffer ring = None"

definition copy_out :: "'d iq_ring \<Rightarrow> nat \<Rightarrow> nat \<Rightarrow> u8 list" where
  "copy_out ring offset_back req_bytes =
     (let buf = (case ring_buffer ring of None \<Rightarrow> [] | Some b \<Rightarrow> b); capacity = capacity_bytes ring;
          start_pos = (ring_head ring + capacity - offset_back) mod capacity;
          first = capacity - start_pos
      in if req_bytes \<le> first then take req_bytes (drop start_pos buf)
         else take first (drop start_pos buf) @ take (req_bytes - first) buf)"

definition iq_ring_extract_slice ::
    "'d double_ops \<Rightarrow> 'd iq_ring \<Rightarrow> 'd \<Rightarrow> 'd \<Rightarrow> nat \<Rightarrow> (u8 list \<times> u32 \<times> u32 \<times> sample_format \<times> 'd) option" where
  "iq_ring_extract_slice D ring age_seconds seconds max_bytes =
     (if \<not> mutex_ready ring \<or> max_bytes = 0 \<or> d_ge D (d_lit D 0 1) seconds then None
      else if ring_empty ring then None
      else
        let (offset_back, req_bytes) = span_bytes D ring age_seconds seconds; m = ring_meta ring;
            req_bytes = (if req_bytes > max_bytes then align_pairs (m_bytes_per_pair m) max_bytes else req_bytes)
        in if req_bytes = 0 then None
           else Some (copy_out ring offset_back req_bytes, m_sample_rate m, m_frequency_hz m, m_format m,
                      m_full_scale m))"

text \<open>\<open>allocated\<close>: both allocations of the snapshot succeed.\<close>

definition iq_ring_extract_snapshot ::
    "'d double_ops \<Rightarrow> bool \<Rightarrow> 'd iq_ring \<Rightarrow> 'd \<Rightarrow> 'd \<Rightarrow> 'd iq_snapshot option" where
  "iq_ring_extract_snapshot D allocated ring age_seconds seconds =
     (if \<not> mutex_ready ring \<or> d_ge D (d_lit D 0 1) seconds then None
      else if ring_empty ring then None
      else
        let (offset_back, req_bytes) = span_bytes D ring age_seconds seconds; m = ring_meta ring;
            pairs = req_bytes div m_bytes_per_pair m
        in if req_bytes = 0 \<or> \<not> allocated then None
           else Some \<lparr>snap_data = copy_out ring offset_back req_bytes, pair_count = pairs,
                  snap_duration = d_div D (d_of_int D (int pairs)) (d_of_int D (int (unat (m_sample_rate m)))),
                  snap_age = age_seconds,
                  snap_meta = m\<lparr>m_source := take 127 (m_source m), m_tuner := take 31 (m_tuner m)\<rparr>\<rparr>)"

subsection \<open>The history the buffer stands for\<close>

definition last_bytes :: "nat \<Rightarrow> 'a list \<Rightarrow> 'a list" where
  "last_bytes n xs = drop (length xs - n) xs"

definition history :: "'d iq_ring \<Rightarrow> u8 list" where
  "history ring = (case ring_buffer ring of None \<Rightarrow> []
     | Some buf \<Rightarrow> map (\<lambda>k. buf ! ((ring_head ring + capacity_bytes ring - filled_bytes ring + k) mod capacity_bytes ring))
         [0..<filled_bytes ring])"

definition ring_ok :: "'d iq_ring \<Rightarrow> bool" where
  "ring_ok ring \<longleftrightarrow> filled_bytes ring \<le> capacity_bytes ring \<and> ring_head ring \<le> capacity_bytes ring \<and>
     (capacity_bytes ring > 0 \<longrightarrow> ring_head ring < capacity_bytes ring) \<and>
     (case ring_buffer ring of None \<Rightarrow> capacity_bytes ring = 0 | Some buf \<Rightarrow> length buf = capacity_bytes ring)"

lemma length_history: "ring_ok ring \<Longrightarrow> length (history ring) = filled_bytes ring"
  by (auto simp: history_def ring_ok_def split: option.splits)

lemma length_memcpy_at: "pos + length data \<le> length buf \<Longrightarrow> length (memcpy_at buf pos data) = length buf"
  by (simp add: memcpy_at_def)

lemma nth_memcpy_at:
  "pos + length data \<le> length buf \<Longrightarrow> i < length buf \<Longrightarrow>
   memcpy_at buf pos data ! i = (if pos \<le> i \<and> i < pos + length data then data ! (i - pos) else buf ! i)"
  by (auto simp: memcpy_at_def nth_append)

text \<open>Writing across the end of the buffer: each octet goes to the next place round the ring.\<close>

definition write_round :: "u8 list \<Rightarrow> nat \<Rightarrow> u8 list \<Rightarrow> u8 list" where
  "write_round buf head data =
     (if length data \<le> length buf - head then memcpy_at buf head data
      else memcpy_at (memcpy_at buf head (take (length buf - head) data)) 0 (drop (length buf - head) data))"

lemma length_write_round:
  "head < length buf \<Longrightarrow> length data < length buf \<Longrightarrow> length (write_round buf head data) = length buf"
  by (simp add: write_round_def length_memcpy_at)

lemma nth_write_round:
  assumes "head < length buf" "length data < length buf"
  shows "q < length data \<Longrightarrow> write_round buf head data ! ((head + q) mod length buf) = data ! q"
    and "length data \<le> q \<Longrightarrow> q < length buf \<Longrightarrow>
      write_round buf head data ! ((head + q) mod length buf) = buf ! ((head + q) mod length buf)"
proof -
  have wrap: "(head + q) mod length buf = (if head + q < length buf then head + q else head + q - length buf)"
    if "q < length buf" for q
    using that assms(1) by (auto simp: mod_if)
  show "write_round buf head data ! ((head + q) mod length buf) = data ! q" if "q < length data"
    using that assms wrap [of q] by (auto simp: write_round_def nth_memcpy_at length_memcpy_at)
  show "write_round buf head data ! ((head + q) mod length buf) = buf ! ((head + q) mod length buf)"
    if "length data \<le> q" "q < length buf"
    using that assms wrap [of q] by (auto simp: write_round_def nth_memcpy_at length_memcpy_at)
qed

lemma push_eq:
  assumes "ring_ok ring" "mutex_ready ring" "ring_buffer ring = Some buf" "0 < capacity_bytes ring" "data \<noteq> []"
  shows "iq_ring_push ring data now =
    (if length data \<ge> capacity_bytes ring then
       ring\<lparr>ring_buffer := Some (last_bytes (capacity_bytes ring) data), ring_head := 0,
            filled_bytes := capacity_bytes ring, latest_now := now\<rparr>
     else ring\<lparr>ring_buffer := Some (write_round buf (ring_head ring) data),
            ring_head := (ring_head ring + length data) mod capacity_bytes ring,
            filled_bytes := min (capacity_bytes ring) (filled_bytes ring + length data), latest_now := now\<rparr>)"
proof -
  have len: "length buf = capacity_bytes ring" "ring_head ring < capacity_bytes ring"
    using assms by (simp_all add: ring_ok_def)
  have tail: "memcpy_at buf 0 (drop (length data - capacity_bytes ring) data) = last_bytes (capacity_bytes ring) data"
    if "length data \<ge> capacity_bytes ring"
    using that len by (simp add: memcpy_at_def last_bytes_def)
  have head: "length data - (capacity_bytes ring - ring_head ring) = (ring_head ring + length data) mod capacity_bytes ring"
    if "length data < capacity_bytes ring" "\<not> length data \<le> capacity_bytes ring - ring_head ring"
    using that len by (auto simp: mod_if)
  show ?thesis
    using assms len tail head by (auto simp: iq_ring_push_def Let_def write_round_def)
qed

lemma push_ok:
  assumes "ring_ok ring" shows "ring_ok (iq_ring_push ring data now)"
proof (cases "mutex_ready ring \<and> ring_buffer ring \<noteq> None \<and> 0 < capacity_bytes ring \<and> data \<noteq> []")
  case True
  then obtain buf where "ring_buffer ring = Some buf" by auto
  with push_eq [OF assms, of buf data now] True assms show ?thesis
    by (auto simp: ring_ok_def last_bytes_def length_write_round)
next
  case False
  then have "iq_ring_push ring data now = ring"
    by (auto simp: iq_ring_push_def Let_def split: option.split)
  with assms show ?thesis by simp
qed

lemma push_history:
  assumes ok: "ring_ok ring" and ready: "mutex_ready ring"
  shows "history (iq_ring_push ring data now) = last_bytes (capacity_bytes ring) (history ring @ data)"
proof (cases "ring_buffer ring \<noteq> None \<and> 0 < capacity_bytes ring \<and> data \<noteq> []")
  case False
  then have "iq_ring_push ring data now = ring"
    by (auto simp: iq_ring_push_def Let_def split: option.split)
  moreover have "history ring = last_bytes (capacity_bytes ring) (history ring @ data)"
  proof (cases "data = []")
    case True
    then show ?thesis using length_history [OF ok] ok by (simp add: last_bytes_def ring_ok_def)
  next
    case False
    then have "capacity_bytes ring = 0"
      using \<open>\<not> (ring_buffer ring \<noteq> None \<and> 0 < capacity_bytes ring \<and> data \<noteq> [])\<close> ok
      by (auto simp: ring_ok_def split: option.splits)
    then show ?thesis using length_history [OF ok] ok by (simp add: last_bytes_def ring_ok_def)
  qed
  ultimately show ?thesis by simp
next
  case True
  then obtain buf where buf: "ring_buffer ring = Some buf" by auto
  let ?cap = "capacity_bytes ring" and ?h = "ring_head ring" and ?f = "filled_bytes ring" and ?n = "length data"
  have len: "length buf = ?cap" "?h < ?cap" "?f \<le> ?cap" using ok True by (simp_all add: ring_ok_def buf)
  note eq = push_eq [OF ok ready buf, of data now]
  show ?thesis
  proof (cases "?n \<ge> ?cap")
    case full: True
    then show ?thesis using eq True length_history [OF ok] len
      by (intro nth_equalityI) (auto simp: history_def last_bytes_def)
  next
    case False
    define f' where "f' = min ?cap (?f + ?n)"
    define d where "d = ?f + ?n - f'"
    have hist: "history (iq_ring_push ring data now) =
        map (\<lambda>k. write_round buf ?h data ! (((?h + ?n) mod ?cap + ?cap - f' + k) mod ?cap)) [0..<f']"
      using eq True False by (simp add: history_def f'_def)
    have old: "history ring = map (\<lambda>k. buf ! ((?h + ?cap - ?f + k) mod ?cap)) [0..<?f]" by (simp add: history_def buf)
    show ?thesis
    proof (rule nth_equalityI)
      show "length (history (iq_ring_push ring data now)) = length (last_bytes ?cap (history ring @ data))"
        using length_history [OF ok] by (simp add: hist f'_def last_bytes_def)
      fix k assume "k < length (history (iq_ring_push ring data now))"
      then have k: "k < f'" by (simp add: hist)
      have fle: "f' \<le> ?cap" "d + f' = ?f + ?n" "d + ?cap \<ge> ?f + ?n" by (auto simp: f'_def d_def)
      have pos: "((?h + ?n) mod ?cap + ?cap - f' + k) mod ?cap = (?h + (?cap - ?f + d + k)) mod ?cap"
      proof -
        have "((?h + ?n) mod ?cap + ?cap - f' + k) mod ?cap = ((?h + ?n) mod ?cap + (?cap - f' + k)) mod ?cap"
          using fle by (simp add: add.assoc)
        also have "\<dots> = (?h + ?n + (?cap - f' + k)) mod ?cap" by (rule mod_add_left_eq)
        also have "?h + ?n + (?cap - f' + k) = ?h + (?cap - ?f + d + k)" using fle len by linarith
        finally show ?thesis .
      qed
      have "last_bytes ?cap (history ring @ data) ! k = (history ring @ data) ! (d + k)"
        using length_history [OF ok] k fle by (simp add: last_bytes_def d_def f'_def min_def del: drop_append split: if_splits)
      also have "\<dots> = write_round buf ?h data ! ((?h + (?cap - ?f + d + k)) mod ?cap)"
      proof (cases "d + k < ?f")
        case True
        then have "(history ring @ data) ! (d + k) = buf ! ((?h + (?cap - ?f + d + k)) mod ?cap)"
          using len by (simp add: old nth_append add.assoc)
        moreover have "?n \<le> ?cap - ?f + d + k" "?cap - ?f + d + k < ?cap" using True fle len by linarith+
        ultimately show ?thesis using nth_write_round(2) [of ?h buf data "?cap - ?f + d + k"] len False by simp
      next
        case data: False
        define q where "q = d + k - ?f"
        have q: "q < ?n" "?cap - ?f + d + k = ?cap + q" using data k fle len by (auto simp: q_def)
        have "(?h + (?cap + q)) mod ?cap = (?h + q) mod ?cap" by (simp add: add.left_commute)
        then have "write_round buf ?h data ! ((?h + (?cap - ?f + d + k)) mod ?cap) = data ! q"
          using nth_write_round(1) [of ?h buf data q] len False q by simp
        then show ?thesis using data by (simp add: nth_append old q_def)
      qed
      finally show "history (iq_ring_push ring data now) ! k = last_bytes ?cap (history ring @ data) ! k"
        using k pos by (simp add: hist)
    qed
  qed
qed

lemma copy_out_history:
  assumes "ring_ok ring" "ring_buffer ring = Some buf" "offset \<le> filled_bytes ring" "req \<le> offset" "0 < offset"
  shows "copy_out ring offset req = take req (drop (filled_bytes ring - offset) (history ring))"
proof -
  let ?cap = "capacity_bytes ring" and ?h = "ring_head ring" and ?f = "filled_bytes ring"
  have len: "length buf = ?cap" "?h < ?cap" "?f \<le> ?cap" using assms by (auto simp: ring_ok_def)
  define s where "s = (?h + ?cap - offset) mod ?cap"
  have s: "s < ?cap" using len by (simp add: s_def)
  have "copy_out ring offset req = map (\<lambda>k. buf ! ((s + k) mod ?cap)) [0..<req]"
  proof (rule nth_equalityI)
    show "length (copy_out ring offset req) = length (map (\<lambda>k. buf ! ((s + k) mod ?cap)) [0..<req])"
      using assms len s by (auto simp: copy_out_def Let_def s_def [symmetric])
    fix k assume "k < length (copy_out ring offset req)"
    then have k: "k < req" using assms len s by (auto simp: copy_out_def Let_def s_def [symmetric] split: if_splits)
    have "(s + k) mod ?cap = (if s + k < ?cap then s + k else s + k - ?cap)"
      using s k assms len by (auto simp: mod_if)
    then show "copy_out ring offset req ! k = map (\<lambda>k. buf ! ((s + k) mod ?cap)) [0..<req] ! k"
      using k assms len s by (auto simp: copy_out_def Let_def s_def [symmetric] nth_append add.commute [of k s])
  qed
  also have "\<dots> = take req (drop (?f - offset) (history ring))"
  proof (rule nth_equalityI)
    show "length (map (\<lambda>k. buf ! ((s + k) mod ?cap)) [0..<req]) = length (take req (drop (?f - offset) (history ring)))"
      using length_history [OF assms(1)] assms by simp
    fix k assume "k < length (map (\<lambda>k. buf ! ((s + k) mod ?cap)) [0..<req])"
    then have k: "k < req" by simp
    have "(s + k) mod ?cap = (?h + ?cap - offset + k) mod ?cap" unfolding s_def by (rule mod_add_left_eq)
    also have "?h + ?cap - offset + k = ?h + ?cap - ?f + (?f - offset + k)" using assms len by simp
    finally show "map (\<lambda>k. buf ! ((s + k) mod ?cap)) [0..<req] ! k = take req (drop (?f - offset) (history ring)) ! k"
      using k assms length_history [OF assms(1)] by (simp add: history_def)
  qed
  finally show ?thesis .
qed

lemma span_bounds:
  "span_bytes D ring age seconds = (offset, req) \<Longrightarrow> offset \<le> filled_bytes ring \<and> req \<le> offset"
  by (auto simp: span_bytes_def Let_def split: if_splits)

subsection \<open>Runs of the ring\<close>

datatype 'd ring_op =
    Configure u32 sample_format 'd u32 int gain_unit bool int "string option" "string option"
  | Push "u8 list" 'd

fun ring_step :: "'d double_ops \<Rightarrow> (u8 list option \<Rightarrow> nat \<Rightarrow> u8 list option) \<Rightarrow> 'd iq_ring \<Rightarrow> 'd ring_op \<Rightarrow> 'd iq_ring" where
  "ring_step D realloc ring (Configure rate fmt scale freq gain unit manual ppm source tn) =
     snd (iq_ring_configure D realloc ring rate fmt scale freq gain unit manual ppm source tn)"
| "ring_step D realloc ring (Push data now) = iq_ring_push ring data now"

text \<open>What was pushed since the last configuration that took effect on the history.\<close>

fun pushed_since :: "u8 list \<Rightarrow> 'd ring_op \<Rightarrow> u8 list" where
  "pushed_since stream (Configure rate fmt scale freq gain unit manual ppm source tn) =
     (if rate = 0 then stream else [])"
| "pushed_since stream (Push data now) = stream @ data"

definition realloc_law :: "(u8 list option \<Rightarrow> nat \<Rightarrow> u8 list option) \<Rightarrow> bool" where
  "realloc_law realloc \<longleftrightarrow> (\<forall>old n block. realloc old n = Some block \<longrightarrow> length block = n)"

lemma configure_shape:
  assumes "mutex_ready ring" "rate \<noteq> 0"
    and "r = snd (iq_ring_configure D realloc ring rate fmt scale freq gain unit manual ppm source tn)"
  shows "filled_bytes r = 0 \<and> ring_head r = 0 \<and> mutex_ready r \<and>
    (ring_buffer r = ring_buffer ring \<and> capacity_bytes r = capacity_bytes ring \<or>
     (\<exists>old n block. realloc old n = Some block \<and> ring_buffer r = Some block \<and> capacity_bytes r = n))"
  using assms(1,2) unfolding assms(3) iq_ring_configure_def Let_def by (simp split: option.split) blast

lemma configure_ok:
  assumes "ring_ok ring" "mutex_ready ring" "realloc_law realloc"
    and r: "r = snd (iq_ring_configure D realloc ring rate fmt scale freq gain unit manual ppm source tn)"
  shows "ring_ok r" "mutex_ready r" "history r = (if rate = 0 then history ring else [])"
proof -
  have "ring_ok r \<and> mutex_ready r \<and> history r = (if rate = 0 then history ring else [])"
  proof (cases "rate = 0")
    case True
    then have "r = ring" unfolding r by (simp add: iq_ring_configure_def)
    then show ?thesis using assms True by simp
  next
    case False
    note shape = configure_shape [OF assms(2) False r]
    then have "history r = []" by (simp add: history_def split: option.split)
    moreover have "ring_ok r"
      using shape assms(1,3) unfolding ring_ok_def realloc_law_def by (elim conjE disjE exE) (auto split: option.splits)
    ultimately show ?thesis using shape False by simp
  qed
  then show "ring_ok r" "mutex_ready r" "history r = (if rate = 0 then history ring else [])" by simp_all
qed

lemma last_bytes_step: "last_bytes n (last_bytes n xs @ ys) = last_bytes n (xs @ ys)"
  by (cases "length xs \<le> n") (auto simp: last_bytes_def add.commute)

lemma ring_run:
  assumes "realloc_law realloc" "ring_ok ring" "mutex_ready ring"
    and "history ring = last_bytes (capacity_bytes ring) stream"
    and r_def: "\<And>ops. r ops = foldl (ring_step D realloc) ring ops"
  shows "ring_ok (r ops) \<and> mutex_ready (r ops) \<and>
    history (r ops) = last_bytes (capacity_bytes (r ops)) (foldl pushed_since stream ops)"
proof (induction ops rule: rev_induct)
  case Nil
  show ?case using assms by simp
next
  case (snoc op ops)
  have step: "r (ops @ [op]) = ring_step D realloc (r ops) op" by (simp add: r_def)
  show ?case
  proof (cases op)
    case (Configure rate fmt scale freq gain unit manual ppm source tn)
    note c = configure_ok [OF _ _ assms(1) refl, of "r ops" D rate fmt scale freq gain unit manual ppm source tn]
    show ?thesis
    proof (cases "rate = 0")
      case True
      then have "r (ops @ [op]) = r ops" unfolding step unfolding Configure by (simp add: iq_ring_configure_def)
      then show ?thesis using snoc True by (simp add: Configure)
    next
      case False
      then show ?thesis using snoc c unfolding step unfolding Configure by (simp add: last_bytes_def)
    qed
  next
    case (Push data now)
    have "capacity_bytes (iq_ring_push (r ops) data now) = capacity_bytes (r ops)"
      "mutex_ready (iq_ring_push (r ops) data now) = mutex_ready (r ops)"
      by (simp_all add: iq_ring_push_def Let_def split: option.split prod.split)
    then show ?thesis using snoc push_ok [of "r ops" data now] push_history [of "r ops" data now]
      unfolding step unfolding Push by (simp add: last_bytes_step)
  qed
qed

lemma ring_init_ok: "ring_ok (iq_ring_init D seconds)" "mutex_ready (iq_ring_init D seconds)"
  "history (iq_ring_init D seconds) = []"
  by (simp_all add: iq_ring_init_def ring_ok_def history_def)

text \<open>C9: The ring implements a window: after any run of configurations and pushes, from the start, however the
  pushes straddle the end of the buffer and whether or not \<open>realloc\<close> succeeds, its contents read from the
  oldest octet are exactly the newest octets pushed since the last configuration, as many as it has room
  for; nothing from before a configuration is left.\<close>

theorem iq_ring_is_window:
  assumes "realloc_law realloc" "ring = foldl (ring_step D realloc) (iq_ring_init D seconds) ops"
  shows "history ring = last_bytes (capacity_bytes ring) (foldl pushed_since [] ops)"
  using ring_run [OF assms(1) ring_init_ok(1,2), where stream = "[]", OF _ refl, where ops = ops and D = D] assms(2)
  by (simp add: ring_init_ok last_bytes_def)

definition calloc_block :: "u8 list option \<Rightarrow> nat \<Rightarrow> u8 list option" where
  "calloc_block old n = Some (replicate n 0)"

lemma calloc_block_law: "realloc_law calloc_block"
  by (simp add: realloc_law_def calloc_block_def)

lemma align_pairs_dvd: "pair = 2 ^ k \<Longrightarrow> k < 64 \<Longrightarrow> pair dvd align_pairs pair n"
proof -
  assume k: "pair = 2 ^ k" "k < 64"
  have "(of_nat (pair - 1) :: u64) = mask k" by (simp add: k mask_eq_exp_minus_1 of_nat_diff)
  then have "take_bit k ((of_nat n :: u64) AND NOT (of_nat (pair - 1))) = 0"
    by (simp only:) (rule bit_word_eqI, auto simp: bit_simps)
  then have "take_bit k (align_pairs pair n) = 0"
    by (simp add: align_pairs_def flip: unsigned_take_bit_eq)
  then show ?thesis by (simp add: take_bit_eq_0_iff k)
qed

lemma pair_power: "\<exists>k < 64. device_format_bytes_per_pair fmt = 2 ^ k"
  by (cases fmt) (auto intro: exI [of _ "1 :: nat"] exI [of _ "2 :: nat"] exI [of _ "3 :: nat"])

lemma iq_ring_is_window_witness:
  "history (foldl (ring_step exact_doubles calloc_block) (iq_ring_init exact_doubles 1)
       [Configure 2 SAMPLE_FORMAT_U8 0 100 0 GAIN_UNIT_DB False 0 None None, Push [1, 2, 3] 0, Push [4, 5] 0]) = [2, 3, 4, 5]"
proof -
  let ?ops = "[Configure 2 SAMPLE_FORMAT_U8 (0 :: real) 100 0 GAIN_UNIT_DB False 0 None None, Push [1, 2, 3] 0, Push [4, 5] 0]"
  let ?ring = "foldl (ring_step exact_doubles calloc_block) (iq_ring_init exact_doubles 1) ?ops"
  have align: "align_pairs 2 4 = 4" by (simp add: align_pairs_def)
  have needed: "d_to_int exact_doubles 4 = 4" by (simp add: exact_doubles_def)
  have push: "capacity_bytes (iq_ring_push ring data now) = capacity_bytes ring" for ring :: "real iq_ring" and data now
    by (simp add: iq_ring_push_def Let_def split: option.split prod.split)
  have "capacity_bytes ?ring = 4"
    using align needed
    by (simp add: push iq_ring_configure_def Let_def iq_ring_init_def exact_lit calloc_block_def)
  then show ?thesis using iq_ring_is_window [OF calloc_block_law refl, of exact_doubles 1 ?ops] by (simp add: last_bytes_def)
qed

subsection \<open>What is taken out\<close>

lemma ring_not_empty:
  assumes "ring_ok ring" "\<not> ring_empty ring"
  obtains buf where "ring_buffer ring = Some buf"
  using assms by (auto simp: ring_empty_def)

lemma span_aligned:
  assumes "span_bytes D ring age seconds = (offset, req)" "m_bytes_per_pair (ring_meta ring) = 2 ^ k" "k < 64"
    and "2 ^ k dvd filled_bytes ring"
  shows "2 ^ k dvd offset" "2 ^ k dvd req"
  using assms align_pairs_dvd [OF refl assms(3)]
  by (auto simp: span_bytes_def Let_def split: if_splits)

lemma snapshot_span:
  assumes "ring_ok ring" "iq_ring_extract_snapshot D ok ring age seconds = Some snap"
  obtains offset req where "span_bytes D ring age seconds = (offset, req)" "0 < req" "req \<le> offset"
    "offset \<le> filled_bytes ring" "snap_data snap = take req (drop (filled_bytes ring - offset) (history ring))"
proof -
  obtain offset req where s: "span_bytes D ring age seconds = (offset, req)" by fastforce
  have live: "\<not> ring_empty ring" "0 < req" "snap_data snap = copy_out ring offset req"
    using assms(2) s by (auto simp: iq_ring_extract_snapshot_def Let_def split: if_splits)
  obtain buf where "ring_buffer ring = Some buf" using ring_not_empty [OF assms(1) live(1)] .
  with that [OF s] span_bounds [OF s] live copy_out_history [OF assms(1), of buf offset req] show ?thesis by simp
qed

text \<open>The metadata the last configuration set.\<close>

fun meta_since :: "'d double_ops \<Rightarrow> 'd sample_meta \<Rightarrow> 'd ring_op \<Rightarrow> 'd sample_meta" where
  "meta_since D m (Configure rate fmt scale freq gain unit manual ppm source tn) =
     (if rate = 0 then m
      else \<lparr>m_sample_rate = rate, m_format = fmt,
        m_full_scale = (if d_gt D scale (d_lit D 0 1) then scale else d_lit D 1275 1),
        m_bytes_per_pair = device_format_bytes_per_pair fmt, m_frequency_hz = freq, m_gain_tenths = gain,
        m_gain_unit = unit, m_manual_gain = manual, m_ppm = ppm,
        m_source = take 127 (case source of None \<Rightarrow> ''RTL-SDR'' | Some s \<Rightarrow> s),
        m_tuner = take 31 (case tn of None \<Rightarrow> ''R820T'' | Some s \<Rightarrow> s)\<rparr>)"
| "meta_since D m (Push data now) = m"

lemma step_meta:
  assumes "mutex_ready ring"
  shows "ring_meta (ring_step D realloc ring op) = meta_since D (ring_meta ring) op"
proof (cases op)
  case (Configure rate fmt scale freq gain unit manual ppm source tn)
  have "device_format_bytes_per_pair fmt \<noteq> 0" by (cases fmt) simp_all
  then show ?thesis using assms unfolding Configure
    by (simp add: iq_ring_configure_def Let_def split: option.split)
next
  case (Push data now)
  then show ?thesis by (simp add: iq_ring_push_def Let_def split: option.split prod.split)
qed

lemma run_meta:
  assumes "realloc_law realloc"
  shows "ring_meta (foldl (ring_step D realloc) (iq_ring_init D seconds) ops) =
    foldl (meta_since D) (ring_meta (iq_ring_init D seconds)) ops"
proof (induction ops rule: rev_induct)
  case (snoc op ops)
  have "mutex_ready (foldl (ring_step D realloc) (iq_ring_init D seconds) ops)"
    using ring_run [OF assms ring_init_ok(1,2), where stream = "[]", OF _ refl, where ops = ops and D = D]
    by (simp add: ring_init_ok last_bytes_def)
  then show ?case using snoc by (simp add: step_meta)
qed simp

lemma meta_shape:
  "(\<exists>k < 64. m_bytes_per_pair (foldl (meta_since D) (ring_meta (iq_ring_init D seconds)) ops) = 2 ^ k) \<and>
   take 127 (m_source (foldl (meta_since D) (ring_meta (iq_ring_init D seconds)) ops)) =
     m_source (foldl (meta_since D) (ring_meta (iq_ring_init D seconds)) ops) \<and>
   take 31 (m_tuner (foldl (meta_since D) (ring_meta (iq_ring_init D seconds)) ops)) =
     m_tuner (foldl (meta_since D) (ring_meta (iq_ring_init D seconds)) ops)"
proof (induction ops rule: rev_induct)
  case Nil
  show ?case by (auto simp: iq_ring_init_def intro: exI [of _ "1 :: nat"])
next
  case (snoc op ops)
  then show ?case using pair_power by (cases op) auto
qed

text \<open>C10: A snapshot is coherent: its octets are one unbroken piece of what was pushed since the last configuration, no older
  than the ring reaches, and its metadata is what that configuration set. When the ring holds a whole number of pairs, as
  it does after every configuration that did not fail, and only whole pairs were pushed, it starts and ends between pairs;
  a configuration whose allocation was refused keeps the old capacity, which need not be a multiple of the new pair.\<close>

theorem iq_snapshot_coherent:
  assumes "realloc_law realloc" "ring = foldl (ring_step D realloc) (iq_ring_init D seconds) ops"
    and "stream = foldl pushed_since [] ops"
    and "iq_ring_extract_snapshot D ok ring age secs = Some snap"
  shows "\<exists>earlier later. stream = earlier @ snap_data snap @ later \<and> snap_data snap \<noteq> [] \<and>
      length (snap_data snap @ later) \<le> capacity_bytes ring \<and>
      snap_meta snap = foldl (meta_since D) (ring_meta (iq_ring_init D seconds)) ops \<and>
      (m_bytes_per_pair (snap_meta snap) dvd capacity_bytes ring \<and>
         m_bytes_per_pair (snap_meta snap) dvd length stream \<longrightarrow>
       m_bytes_per_pair (snap_meta snap) dvd length earlier \<and>
       m_bytes_per_pair (snap_meta snap) dvd length (snap_data snap))"
proof -
  have "ring_ok ring \<and> mutex_ready ring \<and> history ring = last_bytes (capacity_bytes ring) stream"
    using ring_run [OF assms(1) ring_init_ok(1,2), where stream = "[]", OF _ refl, where ops = ops and D = D] assms(2,3)
    by (simp add: ring_init_ok last_bytes_def)
  then have ok: "ring_ok ring" and hist: "history ring = last_bytes (capacity_bytes ring) stream" by simp_all
  obtain offset req where span: "span_bytes D ring age secs = (offset, req)" "0 < req" "req \<le> offset"
    "offset \<le> filled_bytes ring" "snap_data snap = take req (drop (filled_bytes ring - offset) (history ring))"
    using snapshot_span [OF ok assms(4)] .
  let ?N = "length stream" and ?cap = "capacity_bytes ring" and ?F = "filled_bytes ring"
  have F: "?F = min ?cap ?N" using length_history [OF ok] unfolding hist last_bytes_def by auto
  have data: "snap_data snap = take req (drop (?N - offset) stream)"
    using span(4) F by (simp add: span(5) hist last_bytes_def min_def split: if_splits)
  have meta: "ring_meta ring = foldl (meta_since D) (ring_meta (iq_ring_init D seconds)) ops"
    using run_meta [OF assms(1)] assms(2) by simp
  have snap_meta: "snap_meta snap = ring_meta ring"
    using assms(4) meta_shape [of D seconds ops] unfolding meta [symmetric]
    by (auto simp: iq_ring_extract_snapshot_def Let_def split: if_splits prod.splits)
  obtain k where k: "k < 64" "m_bytes_per_pair (ring_meta ring) = 2 ^ k" using meta_shape [of D seconds ops] meta by auto
  let ?earlier = "take (?N - offset) stream" and ?later = "drop (?N - offset + req) stream"
  have whole: "stream = ?earlier @ snap_data snap @ ?later"
    unfolding data by (simp add: add.commute flip: drop_drop)
  have len: "length (snap_data snap) = req" "length ?later = offset - req" "length ?earlier = ?N - offset" "offset \<le> ?cap"
    using span(2-4) F by (auto simp: data)
  moreover from len have "snap_data snap \<noteq> []" "length (snap_data snap @ ?later) \<le> ?cap"
    using span(2,3) by auto
  moreover have al: "2 ^ k dvd length ?earlier \<and> 2 ^ k dvd length (snap_data snap)" if "2 ^ k dvd ?cap" "2 ^ k dvd ?N"
  proof -
    have "2 ^ k dvd ?F" using that by (simp add: F min_def)
    note al = span_aligned [OF span(1) k(2,1) this]
    show ?thesis unfolding len using al that(2) by (simp add: dvd_diff_nat)
  qed
  ultimately show ?thesis unfolding snap_meta meta [symmetric] k(2)
    by (intro exI [of _ ?earlier] exI [of _ ?later]) (use whole al in blast)
qed

definition small_ops :: "real ring_op list" where
  "small_ops = [Configure 2 SAMPLE_FORMAT_U8 1 100 0 GAIN_UNIT_DB False 0 None None, Push [1, 2, 3, 4] 0]"

definition small_ring :: "real iq_ring" where
  "small_ring = foldl (ring_step exact_doubles calloc_block) (iq_ring_init exact_doubles 1) small_ops"

lemma small_ring_ok: "ring_ok small_ring"
  using ring_run [OF calloc_block_law ring_init_ok(1,2), where stream = "[]", OF _ refl, where ops = small_ops and D = exact_doubles]
  by (simp add: ring_init_ok last_bytes_def small_ring_def)

lemma small_snapshot:
  "\<exists>snap. iq_ring_extract_snapshot exact_doubles True small_ring 0 (1 / 2) = Some snap \<and> length (snap_data snap) \<le> 8"
proof -
  have align: "align_pairs 2 4 = 4" "align_pairs 2 2 = 2" by (simp_all add: align_pairs_def)
  have ints: "d_to_int exact_doubles 4 = 4" "d_to_int exact_doubles 2 = 2" "d_round exact_doubles 2 = 2"
    by (simp_all add: exact_doubles_def)
  have full: "filled_bytes small_ring = 4" and "mutex_ready small_ring" "m_sample_rate (ring_meta small_ring) = 2"
    "m_bytes_per_pair (ring_meta small_ring) = 2" "ring_buffer small_ring \<noteq> None"
    using align ints
    by (simp_all add: small_ring_def small_ops_def iq_ring_configure_def iq_ring_push_def Let_def iq_ring_init_def exact_lit
        calloc_block_def)
  moreover from this have "span_bytes exact_doubles small_ring 0 (1 / 2) = (2, 2)"
    using align ints by (simp add: span_bytes_def Let_def exact_lit)
  ultimately obtain snap where snap: "iq_ring_extract_snapshot exact_doubles True small_ring 0 (1 / 2) = Some snap"
    using full by (simp add: iq_ring_extract_snapshot_def ring_empty_def exact_lit Let_def)
  moreover have "length (snap_data snap) \<le> 8"
    using snapshot_span [OF small_ring_ok snap] full length_history [OF small_ring_ok] by fastforce
  ultimately show ?thesis by blast
qed

lemma iq_snapshot_coherent_witness:
  "\<exists>snap earlier later. iq_ring_extract_snapshot exact_doubles True small_ring 0 (1 / 2) = Some snap \<and>
     [1, 2, 3, 4] = earlier @ snap_data snap @ later \<and> snap_data snap \<noteq> [] \<and> m_frequency_hz (snap_meta snap) = 100"
proof -
  obtain snap where "iq_ring_extract_snapshot exact_doubles True small_ring 0 (1 / 2) = Some snap" using small_snapshot by blast
  with iq_snapshot_coherent [OF calloc_block_law small_ring_def refl this] show ?thesis
    by (auto simp: small_ops_def)
qed

text \<open>The two ways out agree: whatever the ring has been through, a caller's buffer with room for the span
  receives the octets of the snapshot with its rate, frequency and container, and both refuse together.\<close>

theorem iq_slice_is_snapshot:
  assumes "\<And>snap. iq_ring_extract_snapshot D True ring age secs = Some snap \<Longrightarrow> length (snap_data snap) \<le> room"
    and "0 < room" "ring_ok ring"
  shows "iq_ring_extract_slice D ring age secs room =
    map_option (\<lambda>snap. (snap_data snap, m_sample_rate (snap_meta snap), m_frequency_hz (snap_meta snap),
      m_format (snap_meta snap), m_full_scale (snap_meta snap))) (iq_ring_extract_snapshot D True ring age secs)"
proof (cases "iq_ring_extract_snapshot D True ring age secs")
  case None
  then show ?thesis using assms(2)
    by (auto simp: iq_ring_extract_slice_def iq_ring_extract_snapshot_def Let_def align_pairs_def
        split: if_splits prod.splits)
next
  case (Some snap)
  obtain offset req where span: "span_bytes D ring age secs = (offset, req)" "0 < req" "req \<le> offset"
    "offset \<le> filled_bytes ring" "snap_data snap = take req (drop (filled_bytes ring - offset) (history ring))"
    using snapshot_span [OF assms(3) Some] .
  have "req \<le> room" using assms(1) [OF Some] span length_history [OF assms(3)] by simp
  then show ?thesis using Some span(1,2) assms(2)
    by (auto simp: iq_ring_extract_slice_def iq_ring_extract_snapshot_def Let_def split: if_splits)
qed

lemma iq_slice_is_snapshot_witness:
  "iq_ring_extract_slice exact_doubles small_ring 0 (1 / 2) 8 \<noteq> None"
proof -
  obtain snap where snap: "iq_ring_extract_snapshot exact_doubles True small_ring 0 (1 / 2) = Some snap"
    and "length (snap_data snap) \<le> 8" using small_snapshot by blast
  then show ?thesis
    using iq_slice_is_snapshot [of exact_doubles small_ring 0 "1 / 2" 8, OF _ _ small_ring_ok] snap by simp
qed

text \<open>A configuration whose allocation is refused keeps the old capacity: six octets, under a format of four to a pair, begin
  in the middle of one once the ring has wrapped.\<close>

definition six_octets :: "u8 list option \<Rightarrow> nat \<Rightarrow> u8 list option" where
  "six_octets old n = (if n = 6 then Some (replicate 6 0) else None)"

lemma refused_allocation_splits_pairs:
  "let r = foldl (ring_step exact_doubles six_octets) (iq_ring_init exact_doubles 3)
       [Configure 1 SAMPLE_FORMAT_U8 1 100 0 GAIN_UNIT_DB False 0 None None,
        Configure 1 SAMPLE_FORMAT_S16 1 100 0 GAIN_UNIT_DB False 0 None None, Push [1, 2, 3, 4, 5, 6, 7, 8] 0]
   in m_bytes_per_pair (ring_meta r) = 4 \<and> capacity_bytes r = 6 \<and> history r = [3, 4, 5, 6, 7, 8]"
proof -
  have align: "align_pairs 2 6 = 6" "align_pairs 4 12 = 12" by (simp_all add: align_pairs_def)
  have ints: "d_to_int exact_doubles 6 = 6" "d_to_int exact_doubles 12 = 12" by (simp_all add: exact_doubles_def)
  show ?thesis
    using align ints
    by (simp add: iq_ring_configure_def iq_ring_push_def Let_def iq_ring_init_def exact_lit six_octets_def memcpy_at_def history_def upt_conv_Cons)
qed

end
