(* ===== verification/Input_Routing.thy ===== *)
theory Input_Routing
  imports Prelude
begin

text \<open>
  Who receives a key press: \<open>src/src/runtime/input_route.h\<close>, and how the state it decides on is put
  together from what the views report, \<open>view_input.h\<close>. Every flag the code holds as an \<open>int\<close> and only
  tests is a truth value; the tab, view and decode are the numbers the code compares.
\<close>

unbundle bit_operations_syntax

definition TAB_SURVEY :: int where "TAB_SURVEY = 0"
definition TAB_SCOPE :: int where "TAB_SCOPE = 1"
definition TAB_DECODE :: int where "TAB_DECODE = 2"
definition DECODE_KIND_ADSB :: int where "DECODE_KIND_ADSB = 1"
definition VIEW_KIND_SPECTRUM :: int where "VIEW_KIND_SPECTRUM = 1"

record input_state =
  help_open :: bool
  settings_open :: bool
  calibration_open :: bool
  scan_open :: bool
  startup_open :: bool
  cur_tab :: int
  cur_view :: int
  menu_open :: bool
  cur_decode :: int
  text_focus :: bool
  scope_zoomed :: bool
  report_open :: bool

datatype input_scale = INPUT_SCALE_NONE | INPUT_SCALE_ACTIVE_CHART | INPUT_SCALE_WATERFALL

datatype input_target = INPUT_TARGET_HELP | INPUT_TARGET_SURVEY | INPUT_TARGET_SETTINGS | INPUT_TARGET_SCAN
  | INPUT_TARGET_CALIBRATION | INPUT_TARGET_DECODE | INPUT_TARGET_SCOPE | INPUT_TARGET_STARTUP

datatype escape_action = INPUT_ESCAPE_NOTHING | INPUT_ESCAPE_CLOSE_MENU | INPUT_ESCAPE_LEAVE_FIELD
  | INPUT_ESCAPE_UNZOOM | INPUT_ESCAPE_TO_SCOPE | INPUT_ESCAPE_QUIT

definition input_route :: "input_state \<Rightarrow> input_target" where
  "input_route s =
     (if help_open s then INPUT_TARGET_HELP
      else if startup_open s then INPUT_TARGET_STARTUP
      else if settings_open s then INPUT_TARGET_SETTINGS
      else if calibration_open s then (if scan_open s then INPUT_TARGET_SCAN else INPUT_TARGET_CALIBRATION)
      else if cur_tab s = TAB_SURVEY then INPUT_TARGET_SURVEY
      else if cur_tab s = TAB_DECODE then INPUT_TARGET_DECODE
      else INPUT_TARGET_SCOPE)"

definition input_takes_typing :: "input_state \<Rightarrow> bool" where
  "input_takes_typing s = (settings_open s \<or> startup_open s \<or> text_focus s)"

definition input_shortcuts_live :: "input_state \<Rightarrow> bool" where
  "input_shortcuts_live s = (\<not> input_takes_typing s \<and> \<not> report_open s)"

definition input_help_opens :: "input_state \<Rightarrow> bool" where
  "input_help_opens s = (\<not> help_open s \<and> input_shortcuts_live s)"

definition input_scale_keys :: "input_state option \<Rightarrow> input_scale" where
  "input_scale_keys st =
     (case st of None \<Rightarrow> INPUT_SCALE_NONE
      | Some s \<Rightarrow>
          if help_open s \<or> settings_open s \<or> text_focus s \<or> report_open s then INPUT_SCALE_NONE
          else if scan_open s then INPUT_SCALE_NONE
          else if calibration_open s then INPUT_SCALE_WATERFALL
          else if cur_tab s = TAB_DECODE then
            (if cur_decode s = DECODE_KIND_ADSB then INPUT_SCALE_NONE else INPUT_SCALE_WATERFALL)
          else if cur_tab s = TAB_SURVEY then INPUT_SCALE_NONE
          else INPUT_SCALE_ACTIVE_CHART)"

definition input_scope_owns_spectrum :: "input_state option \<Rightarrow> bool" where
  "input_scope_owns_spectrum st =
     (case st of None \<Rightarrow> False
      | Some s \<Rightarrow>
          if cur_tab s \<noteq> TAB_SCOPE then False
          else if calibration_open s \<or> scan_open s then False
          else cur_view s = VIEW_KIND_SPECTRUM)"

definition input_escape :: "input_state option \<Rightarrow> escape_action" where
  "input_escape st =
     (case st of None \<Rightarrow> INPUT_ESCAPE_NOTHING
      | Some s \<Rightarrow>
          if help_open s \<or> settings_open s \<or> calibration_open s \<or> report_open s then INPUT_ESCAPE_NOTHING
          else if menu_open s then INPUT_ESCAPE_CLOSE_MENU
          else if text_focus s then INPUT_ESCAPE_LEAVE_FIELD
          else if scope_zoomed s then INPUT_ESCAPE_UNZOOM
          else if cur_tab s = TAB_DECODE then INPUT_ESCAPE_TO_SCOPE
          else INPUT_ESCAPE_QUIT)"

definition input_view_keys_live :: "input_state \<Rightarrow> bool" where
  "input_view_keys_live s = (input_route s = INPUT_TARGET_SCOPE \<and> \<not> text_focus s)"

definition input_decode_keys_live :: "input_state \<Rightarrow> bool" where
  "input_decode_keys_live s = (input_route s = INPUT_TARGET_DECODE \<and> \<not> text_focus s)"

subsection \<open>From the views to the state\<close>

definition VIEW_INPUT_SCOPE_FIELD_NONE :: int where "VIEW_INPUT_SCOPE_FIELD_NONE = 0"

datatype typing_surface = TYPING_SURVEY_RANGE | TYPING_SCOPE_HEADER | TYPING_FM_FREQUENCY | TYPING_SRD_RECORD
  | TYPING_SRD_FREQUENCY | TYPING_SETTINGS_PANEL | TYPING_STARTUP_FORM | TYPING_SURFACE_COUNT

fun surface_number :: "typing_surface \<Rightarrow> nat" where
  "surface_number TYPING_SURVEY_RANGE = 0"
| "surface_number TYPING_SCOPE_HEADER = 1"
| "surface_number TYPING_FM_FREQUENCY = 2"
| "surface_number TYPING_SRD_RECORD = 3"
| "surface_number TYPING_SRD_FREQUENCY = 4"
| "surface_number TYPING_SETTINGS_PANEL = 5"
| "surface_number TYPING_STARTUP_FORM = 6"
| "surface_number TYPING_SURFACE_COUNT = 7"

definition TYPING_SURFACE_BIT :: "typing_surface \<Rightarrow> u32" where
  "TYPING_SURFACE_BIT s = push_bit (surface_number s) 1"

definition TYPING_IN_VIEW_MASK :: u32 where
  "TYPING_IN_VIEW_MASK = TYPING_SURFACE_BIT TYPING_SURVEY_RANGE OR TYPING_SURFACE_BIT TYPING_SCOPE_HEADER OR
     TYPING_SURFACE_BIT TYPING_FM_FREQUENCY OR TYPING_SURFACE_BIT TYPING_SRD_RECORD OR
     TYPING_SURFACE_BIT TYPING_SRD_FREQUENCY"

record view_input =
  v_help_open :: bool
  v_startup_open :: bool
  v_settings_open :: bool
  v_calibration_open :: bool
  v_scan_open :: bool
  v_tab :: int
  v_view :: int
  v_decode :: int
  survey_focused_field :: int
  scope_focused_field :: int
  fm_typing :: bool
  srd_typing :: bool
  srd_freq_typing :: bool
  survey_site_menu_open :: bool
  survey_antenna_menu_open :: bool
  survey_band_menu_open :: bool
  startup_site_menu_open :: bool
  startup_antenna_menu_open :: bool
  waterfall_menu_open :: bool
  waterfall_report_open :: bool
  v_scope_zoomed :: bool

definition survey_input_typing :: "int \<Rightarrow> int \<Rightarrow> bool" where
  "survey_input_typing tab focused_field = (tab = TAB_SURVEY \<and> focused_field \<ge> 0)"

definition scope_input_typing :: "int \<Rightarrow> bool" where
  "scope_input_typing focused_field = (focused_field \<noteq> VIEW_INPUT_SCOPE_FIELD_NONE)"

definition fm_input_typing :: "bool \<Rightarrow> bool" where
  "fm_input_typing typing = typing"

definition srd_input_typing :: "bool \<Rightarrow> bool \<Rightarrow> bool" where
  "srd_input_typing typing freq_typing = (typing \<or> freq_typing)"

definition set_bit_if :: "bool \<Rightarrow> typing_surface \<Rightarrow> u32 \<Rightarrow> u32" where
  "set_bit_if c s m = (if c then m OR TYPING_SURFACE_BIT s else m)"

definition view_input_typing_surfaces :: "view_input option \<Rightarrow> u32" where
  "view_input_typing_surfaces view =
     (case view of None \<Rightarrow> 0
      | Some v \<Rightarrow>
          set_bit_if (v_startup_open v) TYPING_STARTUP_FORM
          (set_bit_if (v_settings_open v) TYPING_SETTINGS_PANEL
          (set_bit_if (srd_freq_typing v) TYPING_SRD_FREQUENCY
          (set_bit_if (srd_typing v) TYPING_SRD_RECORD
          (set_bit_if (fm_input_typing (fm_typing v)) TYPING_FM_FREQUENCY
          (set_bit_if (scope_input_typing (scope_focused_field v)) TYPING_SCOPE_HEADER
          (set_bit_if (survey_input_typing (v_tab v) (survey_focused_field v)) TYPING_SURVEY_RANGE 0)))))))"

fun view_input_set_typing :: "view_input \<Rightarrow> typing_surface \<Rightarrow> view_input" where
  "view_input_set_typing v TYPING_SURVEY_RANGE = v\<lparr>v_tab := TAB_SURVEY, survey_focused_field := 0\<rparr>"
| "view_input_set_typing v TYPING_SCOPE_HEADER = v\<lparr>scope_focused_field := VIEW_INPUT_SCOPE_FIELD_NONE + 1\<rparr>"
| "view_input_set_typing v TYPING_FM_FREQUENCY = v\<lparr>fm_typing := True\<rparr>"
| "view_input_set_typing v TYPING_SRD_RECORD = v\<lparr>srd_typing := True\<rparr>"
| "view_input_set_typing v TYPING_SRD_FREQUENCY = v\<lparr>srd_freq_typing := True\<rparr>"
| "view_input_set_typing v TYPING_SETTINGS_PANEL = v\<lparr>v_settings_open := True\<rparr>"
| "view_input_set_typing v TYPING_STARTUP_FORM = v\<lparr>v_startup_open := True\<rparr>"
| "view_input_set_typing v TYPING_SURFACE_COUNT = v"

fun typing_surface_name :: "typing_surface \<Rightarrow> string" where
  "typing_surface_name TYPING_SURVEY_RANGE = ''survey range field''"
| "typing_surface_name TYPING_SCOPE_HEADER = ''Scope header field''"
| "typing_surface_name TYPING_FM_FREQUENCY = ''FM frequency field''"
| "typing_surface_name TYPING_SRD_RECORD = ''SRD record-duration field''"
| "typing_surface_name TYPING_SRD_FREQUENCY = ''SRD frequency field''"
| "typing_surface_name TYPING_SETTINGS_PANEL = ''settings panel''"
| "typing_surface_name TYPING_STARTUP_FORM = ''startup form''"
| "typing_surface_name TYPING_SURFACE_COUNT = ''unknown surface''"

definition view_input_menu_open :: "view_input option \<Rightarrow> bool" where
  "view_input_menu_open view =
     (case view of None \<Rightarrow> False
      | Some v \<Rightarrow> survey_site_menu_open v \<or> survey_antenna_menu_open v \<or> survey_band_menu_open v \<or>
          startup_site_menu_open v \<or> startup_antenna_menu_open v \<or> waterfall_menu_open v)"

definition view_input_state :: "view_input option \<Rightarrow> input_state" where
  "view_input_state view =
     (case view of
        None \<Rightarrow> \<lparr>help_open = False, settings_open = False, calibration_open = False, scan_open = False,
          startup_open = False, cur_tab = 0, cur_view = 0, menu_open = False, cur_decode = 0,
          text_focus = False, scope_zoomed = False, report_open = False\<rparr>
      | Some v \<Rightarrow> \<lparr>help_open = v_help_open v, settings_open = v_settings_open v,
          calibration_open = v_calibration_open v, scan_open = v_scan_open v,
          startup_open = v_startup_open v, cur_tab = v_tab v, cur_view = v_view v,
          menu_open = view_input_menu_open view, cur_decode = v_decode v,
          text_focus = (view_input_typing_surfaces view AND TYPING_IN_VIEW_MASK \<noteq> 0),
          scope_zoomed = v_scope_zoomed v, report_open = waterfall_report_open v\<rparr>)"

subsection \<open>Every surface is reported\<close>

lemma bit_surface: "bit (TYPING_SURFACE_BIT s) i \<longleftrightarrow> i = surface_number s"
proof -
  have "surface_number s < 32" by (cases s) simp_all
  then show ?thesis by (auto simp: TYPING_SURFACE_BIT_def bit_exp_iff)
qed

lemma bit_set_if: "bit (set_bit_if c s m) i \<longleftrightarrow> bit m i \<or> c \<and> i = surface_number s"
  by (simp add: set_bit_if_def bit_or_iff bit_surface)

lemma bit_in_view: "bit TYPING_IN_VIEW_MASK i \<longleftrightarrow> i < 5"
  by (auto simp: TYPING_IN_VIEW_MASK_def bit_or_iff bit_surface)

lemma nonzero_bits: "(w \<noteq> 0) = (\<exists>i. bit w i)" for w :: u32
  by (metis bit_eqI bit_0_eq bot_apply bot_bool_def)

fun surface_live :: "view_input \<Rightarrow> typing_surface \<Rightarrow> bool" where
  "surface_live v TYPING_SURVEY_RANGE = survey_input_typing (v_tab v) (survey_focused_field v)"
| "surface_live v TYPING_SCOPE_HEADER = scope_input_typing (scope_focused_field v)"
| "surface_live v TYPING_FM_FREQUENCY = fm_typing v"
| "surface_live v TYPING_SRD_RECORD = srd_typing v"
| "surface_live v TYPING_SRD_FREQUENCY = srd_freq_typing v"
| "surface_live v TYPING_SETTINGS_PANEL = v_settings_open v"
| "surface_live v TYPING_STARTUP_FORM = v_startup_open v"
| "surface_live v TYPING_SURFACE_COUNT = False"

lemma bit_surfaces:
  "bit (view_input_typing_surfaces (Some v)) i \<longleftrightarrow> (\<exists>s. surface_live v s \<and> i = surface_number s)"
  (is "?l = ?r")
proof -
  have "?l \<longleftrightarrow> (\<exists>s \<in> {TYPING_SURVEY_RANGE, TYPING_SCOPE_HEADER, TYPING_FM_FREQUENCY, TYPING_SRD_RECORD,
      TYPING_SRD_FREQUENCY, TYPING_SETTINGS_PANEL, TYPING_STARTUP_FORM}. surface_live v s \<and> i = surface_number s)"
    by (auto simp: view_input_typing_surfaces_def bit_set_if fm_input_typing_def)
  also have "\<dots> \<longleftrightarrow> ?r"
    by (metis (full_types) insert_iff surface_live.simps(8) typing_surface.exhaust)
  finally show ?thesis .
qed

lemma text_focus_surfaces:
  "text_focus (view_input_state (Some v)) \<longleftrightarrow> (\<exists>s. surface_live v s \<and> surface_number s < 5)"
  by (auto simp: view_input_state_def nonzero_bits bit_and_iff bit_in_view bit_surfaces)

lemma takes_typing_surfaces:
  "input_takes_typing (view_input_state (Some v)) \<longleftrightarrow> (\<exists>s. surface_live v s)"
proof -
  have "input_takes_typing (view_input_state (Some v)) \<longleftrightarrow>
      surface_live v TYPING_SETTINGS_PANEL \<or> surface_live v TYPING_STARTUP_FORM \<or>
      (\<exists>s. surface_live v s \<and> surface_number s < 5)"
    using text_focus_surfaces [of v] by (simp add: input_takes_typing_def view_input_state_def)
  moreover have "surface_number s < 5 \<or> s = TYPING_SETTINGS_PANEL \<or> s = TYPING_STARTUP_FORM \<or> s = TYPING_SURFACE_COUNT" for s
    by (cases s) simp_all
  ultimately show ?thesis by (metis surface_live.simps(8))
qed

lemma set_typing_live:
  "surface_live (view_input_set_typing v s) s' \<longleftrightarrow> surface_live v s' \<or> s' = s \<and> s \<noteq> TYPING_SURFACE_COUNT"
  by (cases s; cases s') (auto simp: survey_input_typing_def scope_input_typing_def)

text \<open>C36: No field can go quiet. The routing state takes typing exactly when some surface reports it, and once
  any surface of the enumeration reports it, that one is added to those reported, quit and help do
  not answer to their letters, and no numbered key changes the view or the decode.\<close>

theorem input_typing_never_silent:
  assumes "s \<noteq> TYPING_SURFACE_COUNT"
  shows "(input_takes_typing (view_input_state (Some v)) \<longleftrightarrow> view_input_typing_surfaces (Some v) \<noteq> 0) \<and>
    (let v' = view_input_set_typing v s; st = view_input_state (Some v')
     in view_input_typing_surfaces (Some v') = view_input_typing_surfaces (Some v) OR TYPING_SURFACE_BIT s \<and>
        \<not> input_shortcuts_live st \<and> \<not> input_help_opens st \<and> \<not> input_view_keys_live st \<and>
        \<not> input_decode_keys_live st)"
proof -
  let ?v = "view_input_set_typing v s"
  let ?st = "view_input_state (Some ?v)"
  have live: "surface_live ?v s" using assms by (simp add: set_typing_live)
  have "view_input_typing_surfaces (Some ?v) = view_input_typing_surfaces (Some v) OR TYPING_SURFACE_BIT s"
    by (rule bit_word_eqI) (use assms in \<open>auto simp: bit_surfaces bit_or_iff bit_surface set_typing_live\<close>)
  moreover have "\<not> input_shortcuts_live ?st" using live by (auto simp: input_shortcuts_live_def takes_typing_surfaces)
  moreover have "\<not> input_view_keys_live ?st \<and> \<not> input_decode_keys_live ?st"
  proof (cases "surface_number s < 5")
    case True
    then have "text_focus ?st" using live text_focus_surfaces by blast
    then show ?thesis by (simp add: input_view_keys_live_def input_decode_keys_live_def)
  next
    case False
    then have "s = TYPING_SETTINGS_PANEL \<or> s = TYPING_STARTUP_FORM" using assms by (cases s) simp_all
    then have "settings_open ?st \<or> startup_open ?st" using live by (auto simp: view_input_state_def)
    then show ?thesis by (auto simp: input_view_keys_live_def input_decode_keys_live_def input_route_def)
  qed
  ultimately show ?thesis
    by (auto simp: input_help_opens_def takes_typing_surfaces nonzero_bits bit_surfaces)
qed

lemma input_typing_never_silent_witness:
  "\<not> input_shortcuts_live (view_input_state (Some (view_input_set_typing
     \<lparr>v_help_open = False, v_startup_open = False, v_settings_open = False, v_calibration_open = False,
      v_scan_open = False, v_tab = 2, v_view = 0, v_decode = 5, survey_focused_field = - 1, scope_focused_field = 0,
      fm_typing = False, srd_typing = False, srd_freq_typing = False, survey_site_menu_open = False,
      survey_antenna_menu_open = False, survey_band_menu_open = False, startup_site_menu_open = False,
      startup_antenna_menu_open = False, waterfall_menu_open = False, waterfall_report_open = False,
      v_scope_zoomed = False\<rparr> TYPING_SRD_FREQUENCY)))"
  by (rule input_typing_never_silent [THEN conjunct2, unfolded Let_def, THEN conjunct2, THEN conjunct1]) simp

text \<open>Where no startup form is up, Escape and the routing agree: it is left to a handler exactly when the
  keys go to an overlay or a report is up. Behind the startup form they part: the form has the keys, and
  \<open>input_escape\<close> still answers for the screen underneath, to the point of quitting.\<close>

theorem input_escape_overlooks_startup:
  "(input_escape (Some s) = INPUT_ESCAPE_NOTHING \<longleftrightarrow>
      input_route (s\<lparr>startup_open := False\<rparr>) \<in>
        {INPUT_TARGET_HELP, INPUT_TARGET_SETTINGS, INPUT_TARGET_SCAN, INPUT_TARGET_CALIBRATION} \<or> report_open s) \<and>
   input_escape (Some (s\<lparr>startup_open := True\<rparr>)) = input_escape (Some (s\<lparr>startup_open := False\<rparr>)) \<and>
   (input_route (s\<lparr>startup_open := True\<rparr>) = INPUT_TARGET_STARTUP \<longleftrightarrow> \<not> help_open s)"
  by (auto simp: input_escape_def input_route_def)

end
