(* ===== verification/Srd.thy ===== *)
theory Srd
  imports Floating Check_Register
begin

text \<open>
  The short-range-device decoder, \<open>src/src/tech/srd_frame.c\<close> and the run, chip and Manchester parts of
  \<open>srd_dsp.c\<close>: from an envelope to runs, from runs to chips, from chips to bits and bytes, the delimited
  frames of the remote control and the generic frames of anything else. A chip or bit is a truth value,
  \<open>double\<close> any type with \<open>double_ops\<close>.
\<close>

unbundle bit_operations_syntax

subsection \<open>The band\<close>

definition SRD_BAND_LOWER_HZ :: u32 where "SRD_BAND_LOWER_HZ = 430000000"
definition SRD_BAND_UPPER_HZ :: u32 where "SRD_BAND_UPPER_HZ = 440000000"
definition SRD_MIN_SAMPLE_RATE :: u32 where "SRD_MIN_SAMPLE_RATE = 1000000"

definition srd_tune_step :: "'d double_ops \<Rightarrow> u32 \<Rightarrow> u32 \<Rightarrow> int \<Rightarrow> u32" where
  "srd_tune_step D frequency_hz sample_rate direction =
     (let of_u = (\<lambda>w. d_of_int D (uint w));
          lower = of_u SRD_BAND_LOWER_HZ; upper = of_u SRD_BAND_UPPER_HZ;
          step = d_mul D (of_u sample_rate) (d_lit D 5 1);
          target = d_add D (of_u frequency_hz) (d_mul D (d_of_int D direction) step)
      in if d_ge D (d_lit D 0 1) step \<or> direction = 0 then frequency_hz
         else
           let target = (if d_gt D lower target then lower else target);
               target = (if d_gt D target upper then upper else target)
           in word_of_int (d_to_int D (d_add D target (d_lit D 5 1))))"

definition srd_receiver_ready :: "u32 \<Rightarrow> u32 \<Rightarrow> bool" where
  "srd_receiver_ready frequency_hz sample_rate =
     (frequency_hz \<ge> SRD_BAND_LOWER_HZ \<and> frequency_hz \<le> SRD_BAND_UPPER_HZ \<and> sample_rate \<ge> SRD_MIN_SAMPLE_RATE)"

subsection \<open>Runs and chips\<close>

record 'd srd_run =
  run_state :: bool
  length_samples :: nat
  duration_seconds :: 'd

datatype srd_modulation = SRD_MOD_OOK | SRD_MOD_FSK2
datatype srd_manchester_polarity = SRD_MANCHESTER_THOMAS | SRD_MANCHESTER_IEEE

definition srd_modulation_name :: "srd_modulation \<Rightarrow> string" where
  "srd_modulation_name m = (if m = SRD_MOD_FSK2 then ''2FSK'' else ''OOK'')"

definition make_run :: "'d double_ops \<Rightarrow> 'd \<Rightarrow> bool \<Rightarrow> nat \<Rightarrow> 'd srd_run" where
  "make_run D work_rate state n =
     \<lparr>run_state = state, length_samples = n, duration_seconds = d_div D (d_of_int D (int n)) work_rate\<rparr>"

text \<open>The loop over the envelope, with the run in progress.\<close>

fun run_loop :: "'d double_ops \<Rightarrow> 'd \<Rightarrow> nat \<Rightarrow> bool list \<Rightarrow> bool \<Rightarrow> nat \<Rightarrow> 'd srd_run list \<Rightarrow> 'd srd_run list" where
  "run_loop D work_rate max_runs [] state run_len runs =
     (if length runs < max_runs then runs @ [make_run D work_rate state run_len] else runs)"
| "run_loop D work_rate max_runs (now # levels) state run_len runs =
     (if now = state then run_loop D work_rate max_runs levels state (run_len + 1) runs
      else run_loop D work_rate max_runs levels now 1
        (if length runs < max_runs then runs @ [make_run D work_rate state run_len] else runs))"

definition srd_extract_runs :: "'d double_ops \<Rightarrow> ('f \<Rightarrow> 'd) \<Rightarrow> 'f list \<Rightarrow> 'd \<Rightarrow> 'd \<Rightarrow> nat \<Rightarrow> 'd srd_run list" where
  "srd_extract_runs D widen envelope work_rate threshold max_runs =
     (if envelope = [] \<or> max_runs = 0 \<or> \<not> d_gt D work_rate (d_lit D 0 1) then []
      else let levels = map (\<lambda>x. d_ge D (widen x) threshold) envelope
           in run_loop D work_rate max_runs (tl levels) (hd levels) 1 [])"

subsection \<open>The chip period\<close>

definition srd_envelope_threshold :: "'d double_ops \<Rightarrow> ('f \<Rightarrow> 'd) \<Rightarrow> 'f list \<Rightarrow> 'd" where
  "srd_envelope_threshold D widen envelope =
     (if envelope = [] then d_lit D 0 1
      else d_mul D (d_lit D 5 1)
        (foldl (\<lambda>max_amp x. if d_gt D (widen x) max_amp then widen x else max_amp) (d_lit D 0 1) envelope))"

definition NUM_BUCKETS :: nat where "NUM_BUCKETS = 1000"
definition CHIP_CANDIDATES_MAX :: nat where "CHIP_CANDIDATES_MAX = 16"
definition SRD_CHIP_ROUND_TOLERANCE :: "'d double_ops \<Rightarrow> 'd" where "SRD_CHIP_ROUND_TOLERANCE D = d_lit D 25 2"
definition SRD_CHIP_COVERAGE_MIN :: "'d double_ops \<Rightarrow> 'd" where "SRD_CHIP_COVERAGE_MIN D = d_lit D 50 2"
definition SRD_CHIP_MIN_SAMPLES :: "'d double_ops \<Rightarrow> 'd" where "SRD_CHIP_MIN_SAMPLES D = d_lit D 40 1"

definition chip_explains :: "'d double_ops \<Rightarrow> 'd \<Rightarrow> 'd \<Rightarrow> bool" where
  "chip_explains D chip_period d =
     (let chips = d_div D d chip_period; whole = d_to_int D (d_add D chips (d_lit D 5 1))
      in (whole = 1 \<or> whole = 2) \<and>
         d_ge D (SRD_CHIP_ROUND_TOLERANCE D) (d_abs D (d_sub D chips (d_of_int D whole))))"

definition srd_chip_coverage :: "'d double_ops \<Rightarrow> 'd srd_run list \<Rightarrow> 'd \<Rightarrow> 'd" where
  "srd_chip_coverage D runs chip_period =
     (if runs = [] \<or> \<not> d_gt D chip_period (d_lit D 0 1) then d_lit D 0 1
      else
        let (total, explained) = foldl (\<lambda>(total, explained) r.
              (d_add D total (duration_seconds r),
               if chip_explains D chip_period (duration_seconds r) then d_add D explained (duration_seconds r) else explained))
              (d_lit D 0 1, d_lit D 0 1) runs
        in if d_gt D total (d_lit D 0 1) then d_div D explained total else d_lit D 0 1)"

definition bucket_us :: "'d double_ops \<Rightarrow> 'd" where "bucket_us D = d_lit D 100 1"

definition run_bucket :: "'d double_ops \<Rightarrow> 'd srd_run \<Rightarrow> nat option" where
  "run_bucket D r =
     (let dur_us = d_mul D (duration_seconds r) (d_lit D 1000000 0)
      in if d_ge D dur_us (d_lit D 0 1) \<and> d_gt D (d_mul D (d_of_int D (int NUM_BUCKETS)) (bucket_us D)) dur_us then
           let b = d_to_int D (d_div D dur_us (bucket_us D))
           in if b \<ge> 0 \<and> b < int NUM_BUCKETS then Some (nat b) else None
         else None)"

definition run_histogram :: "'d double_ops \<Rightarrow> 'd srd_run list \<Rightarrow> nat list" where
  "run_histogram D runs = foldl (\<lambda>hist r. case run_bucket D r of None \<Rightarrow> hist | Some b \<Rightarrow> hist[b := hist ! b + 1])
     (replicate NUM_BUCKETS 0) runs"

definition is_mode :: "nat list \<Rightarrow> nat \<Rightarrow> nat \<Rightarrow> bool" where
  "is_mode hist min_thresh b =
     (\<not> hist ! b < min_thresh \<and> \<not> (b > 0 \<and> hist ! b < hist ! (b - 1)) \<and>
      \<not> (b + 1 < NUM_BUCKETS \<and> hist ! b < hist ! (b + 1)))"

definition keep_candidate :: "nat list \<Rightarrow> nat \<Rightarrow> nat list \<Rightarrow> nat \<Rightarrow> nat list" where
  "keep_candidate hist min_thresh candidate b =
     (if \<not> is_mode hist min_thresh b then candidate
      else if length candidate < CHIP_CANDIDATES_MAX then candidate @ [b]
      else
        let smallest = foldl (\<lambda>smallest slot. if hist ! (candidate ! slot) < hist ! (candidate ! smallest) then slot else smallest)
              0 [1..<length candidate]
        in if hist ! (candidate ! smallest) \<ge> hist ! b then candidate else candidate[smallest := b])"

definition sample_seconds :: "'d double_ops \<Rightarrow> 'd srd_run list \<Rightarrow> 'd" where
  "sample_seconds D runs =
     (let longest = foldl (\<lambda>longest i. if length_samples (runs ! i) > length_samples (runs ! longest) then i else longest)
            0 [0..<length runs]
      in if length_samples (runs ! longest) > 0
         then d_div D (duration_seconds (runs ! longest)) (d_of_int D (int (length_samples (runs ! longest))))
         else d_lit D 0 1)"

definition candidate_period :: "'d double_ops \<Rightarrow> 'd srd_run list \<Rightarrow> nat \<Rightarrow> 'd" where
  "candidate_period D runs b =
     (let center_s = d_mul D (d_mul D (d_add D (d_of_int D (int b)) (d_lit D 5 1)) (bucket_us D)) (d_lit D 1 6);
          near = filter (\<lambda>r. d_ge D (d_mul D (d_lit D 25 2) center_s) (d_abs D (d_sub D (duration_seconds r) center_s))) runs
      in if near \<noteq> []
         then d_div D (foldl (\<lambda>s r. d_add D s (duration_seconds r)) (d_lit D 0 1) near) (d_of_int D (int (length near)))
         else center_s)"

text \<open>One candidate scored: the best period so far and its coverage.\<close>

definition score_candidate :: "'d double_ops \<Rightarrow> 'd srd_run list \<Rightarrow> 'd \<Rightarrow> 'd \<times> 'd \<Rightarrow> nat \<Rightarrow> 'd \<times> 'd" where
  "score_candidate D runs sample_s best b =
     (let p = candidate_period D runs b in
      if d_gt D sample_s (d_lit D 0 1) \<and> d_gt D (d_mul D (SRD_CHIP_MIN_SAMPLES D) sample_s) p then best
      else let coverage = srd_chip_coverage D runs p
        in if d_gt D coverage (snd best) then (p, coverage) else best)"

definition srd_chip_period :: "'d double_ops \<Rightarrow> 'd srd_run list \<Rightarrow> 'd" where
  "srd_chip_period D runs =
     (if length runs < 4 then d_lit D 0 1
      else
        let hist = run_histogram D runs;
            max_bin_count = foldl max 0 hist
        in if max_bin_count < 3 then d_lit D 0 1
           else
             let min_thresh = max 3 (max_bin_count div 8);
                 candidate = foldl (keep_candidate hist min_thresh) [] [0..<NUM_BUCKETS]
             in if candidate = [] then d_lit D 0 1
                else
                  let best = foldl (score_candidate D runs (sample_seconds D runs)) (d_lit D 0 1, d_lit D 0 1) candidate
                  in if d_gt D (SRD_CHIP_COVERAGE_MIN D) (snd best) then d_lit D 0 1 else fst best)"

subsection \<open>From runs to chips\<close>

definition run_chips :: "'d double_ops \<Rightarrow> 'd \<Rightarrow> 'd srd_run \<Rightarrow> nat" where
  "run_chips D chip_period r =
     (let n = d_to_int D (d_round D (d_div D (duration_seconds r) chip_period)) in if n < 1 then 1 else nat n)"

fun chip_loop :: "'d double_ops \<Rightarrow> 'd \<Rightarrow> nat \<Rightarrow> 'd srd_run list \<Rightarrow> bool list \<Rightarrow> bool list" where
  "chip_loop D chip_period max_chips [] chips = chips"
| "chip_loop D chip_period max_chips (r # runs) chips =
     (if length chips < max_chips
      then chip_loop D chip_period max_chips runs
        (chips @ replicate (min (run_chips D chip_period r) (max_chips - length chips)) (run_state r))
      else chips)"

definition srd_runs_to_chips :: "'d double_ops \<Rightarrow> 'd srd_run list \<Rightarrow> 'd \<Rightarrow> nat \<Rightarrow> bool list" where
  "srd_runs_to_chips D runs chip_period max_chips =
     (if runs = [] \<or> \<not> d_gt D chip_period (d_lit D 0 1) \<or> max_chips = 0 then []
      else chip_loop D chip_period max_chips runs [])"

subsection \<open>Manchester bits and bytes\<close>

record srd_manchester_decoded =
  error_count :: nat
  phase :: nat
  dec_bits :: "bool list"

definition SRD_MAX_BITS :: nat where "SRD_MAX_BITS = 8192"

definition chip_bit :: "srd_manchester_polarity \<Rightarrow> bool \<Rightarrow> bool \<Rightarrow> bool" where
  "chip_bit pol c0 c1 =
     (if c0 \<and> \<not> c1 then (if pol = SRD_MANCHESTER_THOMAS then False else True)
      else (if pol = SRD_MANCHESTER_THOMAS then True else False))"

definition chip_pairs :: "bool list \<Rightarrow> nat \<Rightarrow> (bool \<times> bool) list" where
  "chip_pairs chips p = map (\<lambda>k. (chips ! (p + 2 * k), chips ! (p + 2 * k + 1))) [0..<(length chips - p) div 2]"

definition violations :: "(bool \<times> bool) list \<Rightarrow> nat" where
  "violations ps = length (filter (\<lambda>(c0, c1). c0 = c1) ps)"

definition srd_manchester_decode ::
    "bool list \<Rightarrow> srd_manchester_polarity \<Rightarrow> srd_manchester_decoded option" where
  "srd_manchester_decode chips pol =
     (if length chips < 2 then None
      else
        let best = (if violations (chip_pairs chips 0) \<le> violations (chip_pairs chips 1) then 0 else 1);
            ps = take SRD_MAX_BITS (chip_pairs chips best)
        in Some \<lparr>error_count = violations ps, phase = best,
             dec_bits = map (\<lambda>(c0, c1). if c0 = c1 then False else chip_bit pol c0 c1) ps\<rparr>)"

definition srd_manchester_decode_both ::
    "bool list \<Rightarrow> srd_manchester_decoded option \<times> srd_manchester_decoded option \<times> bool" where
  "srd_manchester_decode_both chips =
     (let t = srd_manchester_decode chips SRD_MANCHESTER_THOMAS; i = srd_manchester_decode chips SRD_MANCHESTER_IEEE
      in (t, i, t \<noteq> None \<and> i \<noteq> None))"

definition pack_octet :: "bool list \<Rightarrow> u8" where
  "pack_octet bits = foldl (\<lambda>byte b. push_bit 1 byte OR of_bool b) 0 bits"

definition srd_pack_bits :: "bool list \<Rightarrow> nat \<Rightarrow> u8 list" where
  "srd_pack_bits bits max_bytes =
     map (\<lambda>b. pack_octet (map (\<lambda>k. bits ! (b * 8 + k)) [0..<8])) [0..<min (length bits div 8) max_bytes]"

subsection \<open>Frames\<close>

datatype srd_frame_kind = SRD_FRAME_UNKNOWN | SRD_FRAME_FULL | SRD_FRAME_REPEAT | SRD_FRAME_FSK_DETECTED
  | SRD_FRAME_GENERIC | SRD_FRAME_UNDECODED

fun srd_frame_kind_name :: "srd_frame_kind \<Rightarrow> string" where
  "srd_frame_kind_name SRD_FRAME_FULL = ''FULL''"
| "srd_frame_kind_name SRD_FRAME_REPEAT = ''REPEAT''"
| "srd_frame_kind_name SRD_FRAME_GENERIC = ''GENERIC''"
| "srd_frame_kind_name SRD_FRAME_FSK_DETECTED = ''WAKEUP''"
| "srd_frame_kind_name SRD_FRAME_UNDECODED = ''UNDECODED''"
| "srd_frame_kind_name SRD_FRAME_UNKNOWN = ''unknown''"

text \<open>\<open>octets\<close> are the \<open>byte_count\<close> bytes in use; \<open>modulation\<close> stays the zero \<open>memset\<close> left.\<close>

record 'd srd_frame =
  frame_kind :: srd_frame_kind
  modulation :: srd_modulation
  octets :: "u8 list"
  bit_count :: nat
  frame_errors :: nat
  run_index :: nat
  time_seconds :: 'd

datatype srd_device_type = SRD_DEVICE_UNKNOWN | SRD_DEVICE_REMOTE_CONTROL | SRD_DEVICE_REMOTE_FSK

definition SRD_REMOTE_FSK_PREFIX_A :: u32 where "SRD_REMOTE_FSK_PREFIX_A = 0x27E57B"
definition SRD_REMOTE_FSK_PREFIX_B :: u32 where "SRD_REMOTE_FSK_PREFIX_B = 0xD81A84"

fun srd_device_type_name :: "srd_device_type \<Rightarrow> string" where
  "srd_device_type_name SRD_DEVICE_REMOTE_CONTROL = ''SRD remote control''"
| "srd_device_type_name SRD_DEVICE_REMOTE_FSK = ''SRD remote control (2-FSK)''"
| "srd_device_type_name SRD_DEVICE_UNKNOWN = ''unknown''"

definition srd_device_type_of :: "srd_frame_kind \<Rightarrow> u8 list option \<Rightarrow> srd_device_type" where
  "srd_device_type_of k data =
     (if k = SRD_FRAME_FULL \<or> k = SRD_FRAME_REPEAT then SRD_DEVICE_REMOTE_CONTROL
      else case data of None \<Rightarrow> SRD_DEVICE_UNKNOWN
      | Some bytes \<Rightarrow>
          if k \<noteq> SRD_FRAME_GENERIC \<or> length bytes < 14 then SRD_DEVICE_UNKNOWN
          else let prefix = push_bit 16 (ucast (bytes ! 0)) OR push_bit 8 (ucast (bytes ! 1)) OR ucast (bytes ! 2)
               in if prefix = SRD_REMOTE_FSK_PREFIX_A \<or> prefix = SRD_REMOTE_FSK_PREFIX_B
                  then SRD_DEVICE_REMOTE_FSK else SRD_DEVICE_UNKNOWN)"

definition SRD_DELIMITER_RUNS :: nat where "SRD_DELIMITER_RUNS = 6"
definition SRD_FULL_FRAME_BYTES :: nat where "SRD_FULL_FRAME_BYTES = 10"
definition SRD_REPEAT_FRAME_BYTES :: nat where "SRD_REPEAT_FRAME_BYTES = 3"

fun header_full :: "srd_manchester_polarity \<Rightarrow> u8" where
  "header_full SRD_MANCHESTER_THOMAS = 0x3F" | "header_full SRD_MANCHESTER_IEEE = 0xC0"
fun header_repeat :: "srd_manchester_polarity \<Rightarrow> u8" where
  "header_repeat SRD_MANCHESTER_THOMAS = 0x1F" | "header_repeat SRD_MANCHESTER_IEEE = 0xE0"
fun trailer :: "srd_manchester_polarity \<Rightarrow> u8" where
  "trailer SRD_MANCHESTER_THOMAS = 0xD4" | "trailer SRD_MANCHESTER_IEEE = 0x2B"

definition in_delimiter :: "'d double_ops \<Rightarrow> 'd srd_run \<Rightarrow> bool" where
  "in_delimiter D r =
     (let us = d_mul D (duration_seconds r) (d_lit D 1000000 0)
      in \<not> (d_gt D (d_lit D 6500 1) us \<or> d_gt D us (d_lit D 8500 1)))"

text \<open>What follows a delimiter: the frame, when header and trailer say it is one.\<close>

definition delimited_frame ::
    "'d double_ops \<Rightarrow> 'd \<Rightarrow> srd_manchester_polarity \<Rightarrow> 'd srd_run list \<Rightarrow> nat \<Rightarrow> 'd \<Rightarrow> 'd srd_frame option" where
  "delimited_frame D chip_period pol data i current_time =
     (let chips = srd_runs_to_chips D data chip_period 160
      in if length chips < 48 then None
         else case srd_manchester_decode chips pol of
                None \<Rightarrow> None
              | Some dec \<Rightarrow>
                  if length (dec_bits dec) < 24 then None
                  else
                    let raw = srd_pack_bits (dec_bits dec) 16;
                        f = (\<lambda>k n. \<lparr>frame_kind = k, modulation = SRD_MOD_OOK, octets = take n raw, bit_count = 8 * n,
                               frame_errors = error_count dec, run_index = i, time_seconds = current_time\<rparr>)
                    in if length raw \<ge> SRD_FULL_FRAME_BYTES \<and> raw ! 0 = header_full pol \<and>
                          raw ! (SRD_FULL_FRAME_BYTES - 1) = trailer pol
                       then Some (f SRD_FRAME_FULL SRD_FULL_FRAME_BYTES)
                       else if length raw \<ge> SRD_REPEAT_FRAME_BYTES \<and> raw ! 0 = header_repeat pol \<and>
                          raw ! (SRD_REPEAT_FRAME_BYTES - 1) = trailer pol
                       then Some (f SRD_FRAME_REPEAT SRD_REPEAT_FRAME_BYTES)
                       else None)"

definition add_durations :: "'d double_ops \<Rightarrow> 'd \<Rightarrow> 'd srd_run list \<Rightarrow> 'd" where
  "add_durations D t runs = foldl (\<lambda>t r. d_add D t (duration_seconds r)) t runs"

text \<open>The scan for delimiters, over the runs left, with their index and time.\<close>

function delimited_scan :: "'d double_ops \<Rightarrow> 'd \<Rightarrow> srd_manchester_polarity \<Rightarrow> nat \<Rightarrow> 'd srd_run list \<Rightarrow> nat \<Rightarrow> 'd \<Rightarrow>
    'd srd_frame list \<Rightarrow> 'd srd_frame list" where
  "delimited_scan D chip_period pol max_frames runs i current_time frames =
     (if length runs < SRD_DELIMITER_RUNS \<or> length frames \<ge> max_frames then frames
      else if list_all (in_delimiter D) (take SRD_DELIMITER_RUNS runs) then
        delimited_scan D chip_period pol max_frames (drop SRD_DELIMITER_RUNS runs) (i + SRD_DELIMITER_RUNS)
          (add_durations D current_time (take SRD_DELIMITER_RUNS runs))
          (case delimited_frame D chip_period pol (drop SRD_DELIMITER_RUNS runs) i current_time of
             None \<Rightarrow> frames | Some f \<Rightarrow> frames @ [f])
      else delimited_scan D chip_period pol max_frames (tl runs) (i + 1)
          (d_add D current_time (duration_seconds (hd runs))) frames)"
  by pat_completeness auto
termination
  by (relation "measure (\<lambda>(D, chip_period, pol, max_frames, runs, i, current_time, frames). length runs)")
    (auto simp: SRD_DELIMITER_RUNS_def)

declare delimited_scan.simps [simp del]

text \<open>A stretch of legal chip pairs begins where two chips differ. The chips are those left, from index \<open>c\<close>.\<close>

fun skip_equal :: "bool list \<Rightarrow> nat \<Rightarrow> bool list \<times> nat" where
  "skip_equal (a # b # cs) c = (if a = b then skip_equal (b # cs) (c + 1) else (a # b # cs, c))"
| "skip_equal cs c = ([], c)"

fun legal_bits :: "srd_manchester_polarity \<Rightarrow> nat \<Rightarrow> bool list \<Rightarrow> bool list" where
  "legal_bits pol room (a # b # cs) =
     (if room = 0 \<or> a = b then [] else chip_bit pol a b # legal_bits pol (room - 1) cs)"
| "legal_bits pol room cs = []"

definition data_after_preamble :: "bool list \<Rightarrow> bool list" where
  "data_after_preamble bits =
     (let preamble = length (takeWhile (\<lambda>b. b = hd bits) bits)
      in drop (if preamble \<ge> 8 then preamble else 0) bits)"

definition generic_frame :: "bool list \<Rightarrow> nat \<Rightarrow> 'd \<Rightarrow> 'd srd_frame option" where
  "generic_frame bits start_chip at_time =
     (if length bits < 24 then None
      else
        let data = data_after_preamble bits
        in if length data < 24 then None
           else
             let n_bytes = min (length data div 8) 32;
                 packed = srd_pack_bits (take (n_bytes * 8) data) n_bytes
             in if length (filter (\<lambda>b. b = 0 \<or> b = 0xFF) packed) \<ge> n_bytes - 1 then None
                else Some \<lparr>frame_kind = SRD_FRAME_GENERIC, modulation = SRD_MOD_OOK, octets = packed,
                       bit_count = n_bytes * 8, frame_errors = 0, run_index = start_chip,
                       time_seconds = at_time\<rparr>)"

lemma skip_equal_shorter: "length (fst (skip_equal cs c)) \<le> length cs"
  by (induction cs c rule: skip_equal.induct) auto

lemma skip_equal_head: "skip_equal cs c = (cs', s) \<Longrightarrow> cs' \<noteq> [] \<Longrightarrow> \<exists>a b rest. cs' = a # b # rest \<and> a \<noteq> b"
  by (induction cs c rule: skip_equal.induct) (auto split: if_splits)

function srd_generic_scan :: "srd_manchester_polarity \<Rightarrow> (nat \<Rightarrow> 'd) \<Rightarrow> nat \<Rightarrow> bool list \<Rightarrow> nat \<Rightarrow>
    'd srd_frame list \<Rightarrow> 'd srd_frame list" where
  "srd_generic_scan pol chip_time max_frames cs c frames =
     (if length frames \<ge> max_frames then frames
      else let (cs', start_chip) = skip_equal cs c
        in if cs' = [] then frames
           else
             let bits = legal_bits pol 1024 cs'
             in srd_generic_scan pol chip_time max_frames (drop (2 * length bits) cs') (start_chip + 2 * length bits)
                  (case generic_frame bits start_chip (chip_time start_chip) of
                     None \<Rightarrow> frames | Some f \<Rightarrow> frames @ [f]))"
  by pat_completeness auto
termination
proof (relation "measure (\<lambda>(pol, chip_time, max_frames, cs, c, frames). length cs)", simp, goal_cases)
  case (1 pol chip_time max_frames cs c frames x cs' start bits)
  then obtain a b rest where "cs' = a # b # rest" "a \<noteq> b"
    using skip_equal_head [of cs c cs' start] by auto
  moreover have "length cs' \<le> length cs" using skip_equal_shorter [of cs c] 1 by (metis fst_conv)
  ultimately show ?case using 1 by auto
qed

declare srd_generic_scan.simps [simp del]

definition decoded_bits :: "'d srd_frame list \<Rightarrow> nat" where
  "decoded_bits frames = sum_list (map bit_count frames)"

text \<open>When each chip starts, for the first \<open>n\<close>.\<close>

fun chip_times :: "'d double_ops \<Rightarrow> 'd \<Rightarrow> 'd srd_run list \<Rightarrow> nat \<Rightarrow> 'd \<Rightarrow> 'd list \<Rightarrow> 'd list" where
  "chip_times D chip_period [] n t starts = starts @ replicate (n - length starts) t"
| "chip_times D chip_period (r # runs) n t starts =
     (if length starts < n then
        chip_times D chip_period runs n (d_add D t (duration_seconds r))
          (starts @ map (\<lambda>k. d_add D t (d_mul D (d_of_int D (int k)) chip_period))
             [0..<min (run_chips D chip_period r) (n - length starts)])
      else starts)"

definition SRD_MAX_FRAMES_PER_PRESS :: nat where "SRD_MAX_FRAMES_PER_PRESS = 32"

definition srd_extract_frames ::
    "'d double_ops \<Rightarrow> 'd srd_run list \<Rightarrow> 'd \<Rightarrow> srd_manchester_polarity \<Rightarrow> nat \<Rightarrow> 'd srd_frame list" where
  "srd_extract_frames D runs chip_period pol max_frames =
     (if length runs < SRD_DELIMITER_RUNS \<or> \<not> d_gt D chip_period (d_lit D 0 1) \<or> max_frames = 0 then []
      else
        let frames = delimited_scan D chip_period pol max_frames runs 0 (d_lit D 0 1) [] in
        if frames = [] \<and> length runs \<ge> 8 then
          let chips = srd_runs_to_chips D runs chip_period 2048 in
          if length chips \<ge> 48 then
            let room = min max_frames SRD_MAX_FRAMES_PER_PRESS;
                starts = chip_times D chip_period runs (length chips) (d_lit D 0 1) [];
                scan = (\<lambda>p. srd_generic_scan pol (\<lambda>c. starts ! c) room (drop p chips) p [])
            in if decoded_bits (scan 1) > decoded_bits (scan 0) then scan 1 else scan 0
          else []
        else frames)"

end
