(* ===== verification/Srd_Frames.thy ===== *)
theory Srd_Frames
  imports Srd
begin
unbundle bit_operations_syntax

text \<open>
  What the frame decoder promises: the chips a transmitter of the remote control sends, written from the line code alone,
  are read back frame by frame, and every frame of the generic kind stands in the chips as a legal Manchester code, no
  more frames than there is room for.
\<close>

subsection \<open>The line code\<close>

definition first_chip :: "srd_manchester_polarity \<Rightarrow> bool \<Rightarrow> bool" where
  "first_chip pol b = (b = (pol = SRD_MANCHESTER_IEEE))"

fun manchester :: "srd_manchester_polarity \<Rightarrow> bool list \<Rightarrow> bool list" where
  "manchester pol [] = []"
| "manchester pol (b # bs) = first_chip pol b # (\<not> first_chip pol b) # manchester pol bs"

lemma length_manchester [simp]: "length (manchester pol bs) = 2 * length bs"
  by (induction bs) simp_all

lemma manchester_append: "manchester pol (xs @ ys) = manchester pol xs @ manchester pol ys"
  by (induction xs) simp_all

lemma manchester_nth:
  "k < length bs \<Longrightarrow> manchester pol bs ! (2 * k) = first_chip pol (bs ! k)"
  "k < length bs \<Longrightarrow> manchester pol bs ! Suc (2 * k) = (\<not> first_chip pol (bs ! k))"
proof (induction bs arbitrary: k)
  case (Cons b bs)
  case 1
  then show ?case using Cons.IH(1) by (cases k) simp_all
next
  case (Cons b bs)
  case 2
  then show ?case using Cons.IH(2) by (cases k) simp_all
qed simp_all

lemma chip_bit_first: "chip_bit pol (first_chip pol b) (\<not> first_chip pol b) = b"
  by (cases pol) (auto simp: chip_bit_def first_chip_def)

lemma chip_bit_legal: "a \<noteq> b \<Longrightarrow> first_chip pol (chip_bit pol a b) = a"
  by (cases pol) (auto simp: chip_bit_def first_chip_def)

lemma chip_pairs_manchester:
  "chip_pairs (manchester pol bs) 0 = map (\<lambda>b. (first_chip pol b, \<not> first_chip pol b)) bs"
  by (rule nth_equalityI) (simp_all add: chip_pairs_def manchester_nth)

lemma manchester_decode:
  assumes "bs \<noteq> []" "length bs \<le> SRD_MAX_BITS"
  shows "srd_manchester_decode (manchester pol bs) pol = Some \<lparr>error_count = 0, phase = 0, dec_bits = bs\<rparr>"
proof -
  have "violations (map (\<lambda>b. (first_chip pol b, \<not> first_chip pol b)) bs) = 0" by (induction bs) (simp_all add: violations_def)
  moreover have "map (\<lambda>(c0, c1). if c0 = c1 then False else chip_bit pol c0 c1)
      (map (\<lambda>b. (first_chip pol b, \<not> first_chip pol b)) bs) = bs"
    by (rule nth_equalityI) (simp_all add: chip_bit_first)
  moreover have "\<not> length (manchester pol bs) < 2" using assms(1) by (cases bs) simp_all
  ultimately show ?thesis using assms(2) by (simp add: srd_manchester_decode_def chip_pairs_manchester Let_def)
qed

lemma pack_octet_word: "pack_octet bits = word_of_bits bits"
  by (simp add: pack_octet_def word_of_bits_def)

definition octet_bits :: "u8 list \<Rightarrow> bool list" where
  "octet_bits bytes = concat (map (word_bits 8) bytes)"

lemma length_octet_bits [simp]: "length (octet_bits bytes) = 8 * length bytes"
  by (induction bytes) (simp_all add: octet_bits_def)

lemma octet_bits_split:
  "length bits = 8 * n \<Longrightarrow> bits = concat (map (\<lambda>b. map (\<lambda>k. bits ! (b * 8 + k)) [0..<8]) [0..<n])"
proof (induction n arbitrary: bits)
  case (Suc n)
  have "take 8 bits = map (\<lambda>k. bits ! k) [0..<8]" using Suc.prems by (intro nth_equalityI) simp_all
  moreover have "drop 8 bits = concat (map (\<lambda>b. map (\<lambda>k. drop 8 bits ! (b * 8 + k)) [0..<8]) [0..<n])"
    by (rule Suc.IH) (use Suc.prems in simp)
  moreover have "drop 8 bits ! (b * 8 + k) = bits ! (Suc b * 8 + k)" for b k
    using Suc.prems by (simp add: add.assoc)
  ultimately have "bits = map (\<lambda>k. bits ! k) [0..<8] @
      concat (map (\<lambda>b. map (\<lambda>k. bits ! (Suc b * 8 + k)) [0..<8]) [0..<n])"
    by (metis (no_types, lifting) append_take_drop_id map_eq_conv)
  moreover have "[0..<Suc n] = 0 # map Suc [0..<n]" by (simp add: upt_conv_Cons map_Suc_upt)
  ultimately show ?case by (simp add: comp_def del: upt_Suc)
qed simp

lemma octet_bits_pack:
  assumes "length bits = 8 * n" "n \<le> m" shows "octet_bits (srd_pack_bits bits m) = bits"
proof -
  have "octet_bits (srd_pack_bits bits m) = concat (map (\<lambda>b. map (\<lambda>k. bits ! (b * 8 + k)) [0..<8]) [0..<n])"
    using assms by (simp add: octet_bits_def srd_pack_bits_def pack_octet_word word_bits_word_of_bits comp_def min_def)
  then show ?thesis using octet_bits_split [OF assms(1)] by simp
qed

lemma octet_bits_inj: "octet_bits xs = octet_bits ys \<Longrightarrow> length xs = length ys \<Longrightarrow> xs = ys"
proof (induction xs arbitrary: ys)
  case (Cons x xs)
  then obtain y ys' where ys: "ys = y # ys'" by (cases ys) auto
  have "word_bits 8 x = word_bits 8 y" "octet_bits xs = octet_bits ys'"
    using Cons.prems(1) by (simp_all add: ys octet_bits_def append_eq_append_conv)
  have u8: "word_of_bits (word_bits 8 w) = w" for w :: u8 by (subst word_of_bits_word_bits) (simp_all add: take_bit_length_eq [where ?'a=8, simplified])
  have "x = y" by (rule trans [OF u8 [of x, symmetric]]) (subst \<open>word_bits 8 x = word_bits 8 y\<close>, rule u8)
  then show ?case using Cons ys \<open>octet_bits xs = octet_bits ys'\<close> by simp
qed simp

lemma pack_octet_bits: "length bytes \<le> m \<Longrightarrow> srd_pack_bits (octet_bits bytes) m = bytes"
  by (rule octet_bits_inj [OF octet_bits_pack [of _ "length bytes"]]) (simp_all add: srd_pack_bits_def)

lemma chip_loop_take:
  "length chips \<le> n \<Longrightarrow> chip_loop D T n runs chips =
     take n (chips @ concat (map (\<lambda>r. replicate (run_chips D T r) (run_state r)) runs))"
proof (induction runs arbitrary: chips)
  case (Cons r runs)
  show ?case
  proof (cases "length chips < n")
    case True
    let ?x = "replicate (min (run_chips D T r) (n - length chips)) (run_state r)"
    have "chip_loop D T n (r # runs) chips =
        take n ((chips @ ?x) @ concat (map (\<lambda>r. replicate (run_chips D T r) (run_state r)) runs))"
      using True Cons.IH [of "chips @ ?x"] by simp
    also have "\<dots> = take n (chips @ concat (map (\<lambda>r. replicate (run_chips D T r) (run_state r)) (r # runs)))"
      using True by (cases "run_chips D T r \<le> n - length chips") (simp_all add: min_def)
    finally show ?thesis .
  next
    case False
    then show ?thesis using Cons.prems by simp
  qed
qed simp


lemma srd_runs_to_chips_eq:
  "d_gt D T (d_lit D 0 1) \<Longrightarrow> srd_runs_to_chips D runs T n =
     take n (concat (map (\<lambda>r. replicate (run_chips D T r) (run_state r)) runs))"
  by (simp add: srd_runs_to_chips_def chip_loop_take)

subsection \<open>Frames of the remote control\<close>

definition run_levels :: "'d double_ops \<Rightarrow> 'd \<Rightarrow> 'd srd_run list \<Rightarrow> bool list" where
  "run_levels D T runs = concat (map (\<lambda>r. replicate (run_chips D T r) (run_state r)) runs)"

lemma full_frame_found:
  assumes "d_gt D T (d_lit D 0 1)" "length bytes = 10" "bytes ! 0 = header_full pol" "bytes ! 9 = trailer pol"
    and "take 160 (run_levels D T runs) = manchester pol (octet_bits bytes)"
  shows "delimited_frame D T pol runs i t =
    Some \<lparr>frame_kind = SRD_FRAME_FULL, modulation = SRD_MOD_OOK, octets = bytes, bit_count = 80, frame_errors = 0,
      run_index = i, time_seconds = t\<rparr>"
proof -
  have chips: "srd_runs_to_chips D runs T 160 = manchester pol (octet_bits bytes)"
    using assms(1,5) by (simp add: srd_runs_to_chips_eq run_levels_def)
  have "octet_bits bytes \<noteq> []" using assms(2) by (metis length_octet_bits list.size(3) mult_is_0 num.simps(1) numeral_eq_iff zero_neq_numeral)
  then have dec: "srd_manchester_decode (manchester pol (octet_bits bytes)) pol =
      Some \<lparr>error_count = 0, phase = 0, dec_bits = octet_bits bytes\<rparr>"
    using assms(2) by (simp add: manchester_decode SRD_MAX_BITS_def)
  show ?thesis
    using assms(2-4) by (simp add: delimited_frame_def chips dec pack_octet_bits SRD_FULL_FRAME_BYTES_def Let_def)
qed

lemma delimited_scan_skip:
  assumes "\<forall>r\<in>set dat. \<not> in_delimiter D r"
  shows "\<exists>t'. delimited_scan D T pol m (dat @ rest) i t frames = delimited_scan D T pol m rest (i + length dat) t' frames"
  using assms
proof (induction dat arbitrary: i t)
  case (Cons r dat)
  show ?case
  proof (cases "length ((r # dat) @ rest) < SRD_DELIMITER_RUNS \<or> length frames \<ge> m")
    case True
    then have "delimited_scan D T pol m ((r # dat) @ rest) i t frames = frames"
      "delimited_scan D T pol m rest (i + length (r # dat)) t frames = frames"
      by (subst delimited_scan.simps; auto)+
    then show ?thesis by metis
  next
    case False
    have "\<not> list_all (in_delimiter D) (take SRD_DELIMITER_RUNS ((r # dat) @ rest))"
      using Cons.prems by (simp add: SRD_DELIMITER_RUNS_def)
    then have "delimited_scan D T pol m ((r # dat) @ rest) i t frames =
        delimited_scan D T pol m (dat @ rest) (i + 1) (d_add D t (duration_seconds r)) frames"
      using False by (subst delimited_scan.simps) simp
    with Cons.IH [of "i + 1" "d_add D t (duration_seconds r)"] Cons.prems show ?thesis by simp
  qed
qed auto

lemma delimited_scan_hit:
  assumes "length del = 6" "\<forall>r\<in>set del. in_delimiter D r" "length frames < m"
    and "delimited_frame D T pol rest i t = Some f"
  shows "\<exists>t'. delimited_scan D T pol m (del @ rest) i t frames = delimited_scan D T pol m rest (i + 6) t' (frames @ [f])"
  using assms by (subst delimited_scan.simps) (auto simp: SRD_DELIMITER_RUNS_def list_all_iff)

text \<open>A transmission: delimiter and data runs, frame after frame. \<open>carries\<close> says its data runs are those bytes.\<close>

definition carries :: "'d double_ops \<Rightarrow> 'd \<Rightarrow> srd_manchester_polarity \<Rightarrow> 'd srd_run list \<Rightarrow> 'd srd_run list \<Rightarrow>
    'd srd_run list \<Rightarrow> u8 list \<Rightarrow> bool" where
  "carries D T pol del dat rest bytes =
     (length del = 6 \<and> list_all (in_delimiter D) del \<and> list_all (\<lambda>r. \<not> in_delimiter D r) dat \<and>
      length bytes = 10 \<and> bytes ! 0 = header_full pol \<and> bytes ! 9 = trailer pol \<and>
      take 160 (run_levels D T (dat @ rest)) = manchester pol (octet_bits bytes))"

fun transmission :: "'d double_ops \<Rightarrow> 'd \<Rightarrow> srd_manchester_polarity \<Rightarrow> 'd srd_run list \<Rightarrow> u8 list list \<Rightarrow> bool" where
  "transmission D T pol runs [] = (runs = [])"
| "transmission D T pol runs (bytes # msgs) =
     (\<exists>del dat rest. runs = del @ dat @ rest \<and> carries D T pol del dat rest bytes \<and> transmission D T pol rest msgs)"

lemma delimited_scan_transmission:
  assumes "d_gt D T (d_lit D 0 1)" "transmission D T pol runs msgs" "length frames + length msgs \<le> m"
  shows "\<exists>new. delimited_scan D T pol m runs i t frames = frames @ new \<and> map octets new = msgs \<and>
    list_all (\<lambda>f. frame_kind f = SRD_FRAME_FULL \<and> frame_errors f = 0) new"
  using assms(2,3)
proof (induction msgs arbitrary: runs i t frames)
  case Nil
  then show ?case by (subst delimited_scan.simps) (simp add: SRD_DELIMITER_RUNS_def)
next
  case (Cons bytes msgs)
  from Cons.prems(1) obtain del dat rest where runs: "runs = del @ dat @ rest"
    and c: "carries D T pol del dat rest bytes" and later: "transmission D T pol rest msgs" by auto
  let ?f = "\<lparr>frame_kind = SRD_FRAME_FULL, modulation = SRD_MOD_OOK, octets = bytes, bit_count = 80, frame_errors = 0,
      run_index = i, time_seconds = t\<rparr>"
  have found: "delimited_frame D T pol (dat @ rest) i t = Some ?f"
    using c by (intro full_frame_found assms(1)) (simp_all add: carries_def)
  obtain t1 where 1: "delimited_scan D T pol m runs i t frames = delimited_scan D T pol m (dat @ rest) (i + 6) t1 (frames @ [?f])"
    unfolding runs using delimited_scan_hit [OF _ _ _ found, of del frames m] c Cons.prems(2)
    by (auto simp: carries_def list_all_iff)
  obtain t2 where 2: "delimited_scan D T pol m (dat @ rest) (i + 6) t1 (frames @ [?f]) =
      delimited_scan D T pol m rest (i + 6 + length dat) t2 (frames @ [?f])"
    using delimited_scan_skip [of dat D T pol m rest "i + 6" t1 "frames @ [?f]"] c by (auto simp: carries_def list_all_iff)
  obtain new where "delimited_scan D T pol m rest (i + 6 + length dat) t2 (frames @ [?f]) = (frames @ [?f]) @ new"
    "map octets new = msgs" "list_all (\<lambda>f. frame_kind f = SRD_FRAME_FULL \<and> frame_errors f = 0) new"
    using Cons.IH [OF later, of "frames @ [?f]" "i + 6 + length dat" t2] Cons.prems(2) by auto
  then show ?case by (intro exI [of _ "?f # new"]) (simp add: 1 2)
qed

lemma transmission_length: "transmission D T pol runs msgs \<Longrightarrow> msgs \<noteq> [] \<Longrightarrow> 6 \<le> length runs"
  by (cases msgs) (auto simp: carries_def)

text \<open>C20: Frames a remote control sends one after the other, each six delimiter runs and then the Manchester chips of
  ten bytes with the full header and the trailer, are read back: as many FULL frames as were sent (up to the room the
  caller has), in their order, byte for byte, without a coding error. It holds for either polarity and for any
  floating-point arithmetic in which the runs' lengths round to their chips.\<close>

theorem srd_full_frames_round_trip:
  assumes "d_gt D chip_period (d_lit D 0 1)" "transmission D chip_period pol runs msgs"
    and "msgs \<noteq> []" "length msgs \<le> max_frames"
  shows "map octets (srd_extract_frames D runs chip_period pol max_frames) = msgs \<and>
    list_all (\<lambda>f. frame_kind f = SRD_FRAME_FULL \<and> frame_errors f = 0)
      (srd_extract_frames D runs chip_period pol max_frames)"
proof -
  obtain new where scan: "delimited_scan D chip_period pol max_frames runs 0 (d_lit D 0 1) [] = new"
    and new: "map octets new = msgs" "list_all (\<lambda>f. frame_kind f = SRD_FRAME_FULL \<and> frame_errors f = 0) new"
    using delimited_scan_transmission [OF assms(1,2), of "[]" max_frames 0 "d_lit D 0 1"] assms(4) by auto
  have "new \<noteq> []" "6 \<le> length runs" "max_frames \<noteq> 0"
    using new(1) assms transmission_length [OF assms(2,3)] by auto
  then show ?thesis using new assms(1) 
    by (simp add: srd_extract_frames_def scan SRD_DELIMITER_RUNS_def Let_def del: One_nat_def)
qed

definition key_press :: "u8 list" where
  "key_press = [0x3F, 0x12, 0x34, 0x56, 0x78, 0x9A, 0xBC, 0xDE, 0xF0, 0xD4]"

definition one_chip :: "bool \<Rightarrow> real srd_run" where
  "one_chip c = \<lparr>run_state = c, length_samples = 500, duration_seconds = 1 / 2000\<rparr>"

definition delimiter_run :: "bool \<Rightarrow> real srd_run" where
  "delimiter_run c = \<lparr>run_state = c, length_samples = 750, duration_seconds = 3 / 4000\<rparr>"

definition key_press_runs :: "real srd_run list" where
  "key_press_runs = map delimiter_run [True, False, True, False, True, False] @
     map one_chip (manchester SRD_MANCHESTER_THOMAS (octet_bits key_press))"

lemma one_chip_levels: "run_levels exact_doubles (1 / 2000) (map one_chip cs) = cs"
  by (induction cs) (simp_all add: run_levels_def run_chips_def one_chip_def exact_doubles_def)

lemma key_press_transmission:
  "transmission exact_doubles (1 / 2000) SRD_MANCHESTER_THOMAS key_press_runs [key_press]"
proof -
  have "list_all (in_delimiter exact_doubles) (map delimiter_run [True, False, True, False, True, False])"
    by (simp add: in_delimiter_def delimiter_run_def exact_lit)
  moreover have "list_all (\<lambda>r. \<not> in_delimiter exact_doubles r) (map one_chip cs)" for cs
    by (induction cs) (simp_all add: in_delimiter_def one_chip_def exact_lit)
  ultimately have "carries exact_doubles (1 / 2000) SRD_MANCHESTER_THOMAS
      (map delimiter_run [True, False, True, False, True, False])
      (map one_chip (manchester SRD_MANCHESTER_THOMAS (octet_bits key_press))) [] key_press"
    by (simp add: carries_def one_chip_levels) (simp add: key_press_def)
  then show ?thesis by (simp only: transmission.simps key_press_runs_def append_Nil2 simp_thms ex_simps) blast
qed

theorem srd_full_frames_round_trip_witness:
  "map octets (srd_extract_frames exact_doubles key_press_runs (1 / 2000) SRD_MANCHESTER_THOMAS 4) = [key_press]"
  using srd_full_frames_round_trip [OF _ key_press_transmission, of 4] by (simp add: exact_lit)

subsection \<open>Generic frames\<close>

lemma legal_bits_chips:
  "take (2 * length (legal_bits pol room cs)) cs = manchester pol (legal_bits pol room cs)"
  by (induction pol room cs rule: legal_bits.induct) (auto simp: chip_bit_legal)

lemma skip_equal_drop: "skip_equal cs c = (cs', s) \<Longrightarrow> cs' \<noteq> [] \<Longrightarrow> c \<le> s \<and> cs' = drop (s - c) cs"
proof (induction cs c rule: skip_equal.induct)
  case (1 a b cs c)
  then show ?case by (cases "a = b") (auto simp: drop_Cons' Suc_diff_le)
qed auto

lemma manchester_take: "take (2 * n) (manchester pol bs) = manchester pol (take n bs)"
  by (induction bs arbitrary: n) (auto simp: take_Cons' less_eq_Suc_le split: nat_diff_split)

lemma manchester_drop: "drop (2 * n) (manchester pol bs) = manchester pol (drop n bs)"
  by (induction bs arbitrary: n) (auto simp: drop_Cons' less_eq_Suc_le split: nat_diff_split)

definition read_from :: "srd_manchester_polarity \<Rightarrow> bool list \<Rightarrow> 'd srd_frame \<Rightarrow> bool" where
  "read_from pol chips f =
     (frame_kind f = SRD_FRAME_GENERIC \<and> frame_errors f = 0 \<and> 3 \<le> length (octets f) \<and> length (octets f) \<le> 32 \<and>
      (\<exists>k\<ge>run_index f. take (16 * length (octets f)) (drop k chips) = manchester pol (octet_bits (octets f))))"

lemma generic_frame_octets:
  assumes "generic_frame bits s t = Some f"
  shows "frame_kind f = SRD_FRAME_GENERIC \<and> frame_errors f = 0 \<and> run_index f = s \<and> 3 \<le> length (octets f) \<and>
    length (octets f) \<le> 32 \<and> (\<exists>p. octet_bits (octets f) = take (8 * length (octets f)) (drop p bits))"
proof -
  define data where "data = data_after_preamble bits"
  define n where "n = min (length data div 8) 32"
  have long: "24 \<le> length data" and f: "f = \<lparr>frame_kind = SRD_FRAME_GENERIC, modulation = SRD_MOD_OOK,
      octets = srd_pack_bits (take (n * 8) data) n, bit_count = n * 8, frame_errors = 0, run_index = s, time_seconds = t\<rparr>"
    using assms by (auto simp: generic_frame_def data_def n_def Let_def split: if_splits)
  have n: "3 \<le> n" "n \<le> 32" "8 * n \<le> length data" using long by (auto simp: n_def)
  have "length (octets f) = n" using n by (simp add: f srd_pack_bits_def)
  moreover have "octet_bits (octets f) = take (n * 8) data" using n by (simp add: f octet_bits_pack)
  moreover have "\<exists>p. data = drop p bits" unfolding data_def data_after_preamble_def Let_def by blast
  ultimately show ?thesis using n by (auto simp: f mult.commute)
qed

lemma generic_frame_read:
  assumes "generic_frame (legal_bits pol room (drop s chips)) s t = Some f"
  shows "read_from pol chips f"
proof -
  let ?bits = "legal_bits pol room (drop s chips)"
  let ?n = "length (octets f)"
  note facts = generic_frame_octets [OF assms]
  then obtain p where p: "octet_bits (octets f) = take (8 * ?n) (drop p ?bits)" by blast
  have len: "8 * ?n \<le> length ?bits - p" using arg_cong [OF p, of length] by simp
  have "manchester pol (octet_bits (octets f)) = take (2 * (8 * ?n)) (drop (2 * p) (manchester pol ?bits))"
    by (simp only: p manchester_drop manchester_take)
  also have "\<dots> = take (2 * (8 * ?n)) (drop (2 * p) (drop s chips))"
    using len by (simp add: legal_bits_chips [symmetric] drop_take min_def)
  finally have "take (16 * ?n) (drop (s + 2 * p) chips) = manchester pol (octet_bits (octets f))"
    by (simp add: add.commute)
  then show ?thesis using facts unfolding read_from_def by (metis le_add1)
qed

lemma generic_scan_read:
  assumes "cs = drop c chips" "list_all (read_from pol chips) frames" "length frames \<le> m"
  shows "list_all (read_from pol chips) (srd_generic_scan pol chip_time m cs c frames) \<and>
    length (srd_generic_scan pol chip_time m cs c frames) \<le> m"
  using assms
proof (induction pol chip_time m cs c frames rule: srd_generic_scan.induct)
  case (1 pol chip_time m cs c frames)
  obtain cs' s where skip: "skip_equal cs c = (cs', s)" by fastforce
  show ?case
  proof (cases "length frames \<ge> m \<or> cs' = []")
    case True
    then show ?thesis using 1(3,4) by (subst (1 2) srd_generic_scan.simps) (auto simp: skip)
  next
    case False
    define bits where "bits = legal_bits pol 1024 cs'"
    define new where "new = (case generic_frame bits s (chip_time s) of None \<Rightarrow> frames | Some f \<Rightarrow> frames @ [f])"
    have cs': "cs' = drop s chips" using skip_equal_drop [OF skip] False 1(2) by simp
    have "list_all (read_from pol chips) new" "length new \<le> m"
      using 1(3,4) False generic_frame_read [of pol 1024 s chips "chip_time s"]
      by (auto simp: new_def bits_def cs' split: option.split)
    moreover have "drop (2 * length bits) cs' = drop (s + 2 * length bits) chips" by (simp add: cs' add.commute)
    moreover have "srd_generic_scan pol chip_time m cs c frames =
        srd_generic_scan pol chip_time m (drop (2 * length bits) cs') (s + 2 * length bits) new"
      using False by (subst srd_generic_scan.simps) (simp add: skip bits_def new_def Let_def)
    ultimately show ?thesis using 1(1) [OF _ skip [symmetric] refl _ bits_def] False by (simp add: new_def)
  qed
qed

lemma delimited_frame_kind: "delimited_frame D T pol runs i t = Some f \<Longrightarrow> frame_kind f \<noteq> SRD_FRAME_GENERIC"
  by (auto simp: delimited_frame_def Let_def split: if_splits option.splits)

lemma delimited_scan_frames:
  assumes "\<forall>f\<in>set frames. frame_kind f \<noteq> SRD_FRAME_GENERIC" "length frames \<le> m"
  shows "(\<forall>f\<in>set (delimited_scan D T pol m runs i t frames). frame_kind f \<noteq> SRD_FRAME_GENERIC) \<and>
    length (delimited_scan D T pol m runs i t frames) \<le> m"
  using assms
proof (induction D T pol m runs i t frames rule: delimited_scan.induct)
  case (1 D T pol m runs i t frames)
  let ?new = "case delimited_frame D T pol (drop SRD_DELIMITER_RUNS runs) i t of None \<Rightarrow> frames | Some f \<Rightarrow> frames @ [f]"
  show ?case
  proof (cases "length runs < SRD_DELIMITER_RUNS \<or> length frames \<ge> m")
    case True
    then show ?thesis using 1(3,4) by (subst (1 2) delimited_scan.simps) auto
  next
    case False
    have new: "\<forall>f\<in>set ?new. frame_kind f \<noteq> SRD_FRAME_GENERIC" "length ?new \<le> m"
      using 1(3,4) False by (auto split: option.split dest: delimited_frame_kind)
    show ?thesis
    proof (cases "list_all (in_delimiter D) (take SRD_DELIMITER_RUNS runs)")
      case True
      then show ?thesis using False 1(1) [OF False True new] by (subst (1 2) delimited_scan.simps) simp
    next
      case nd: False
      then show ?thesis using False 1(2) [OF False nd 1(3,4)] by (subst (1 2) delimited_scan.simps) simp
    qed
  qed
qed

text \<open>C39: No more frames come out than the caller has room for, and what is reported as a GENERIC frame was
  transmitted: its three to thirty-two bytes, Manchester coded again, are a piece of the chips at or after the
  chip its index names, without one coding violation.\<close>

theorem srd_generic_frames_sound:
  "length (srd_extract_frames D runs chip_period pol max_frames) \<le> max_frames \<and>
   list_all (\<lambda>f. frame_kind f \<noteq> SRD_FRAME_GENERIC \<or> read_from pol (srd_runs_to_chips D runs chip_period 2048) f)
     (srd_extract_frames D runs chip_period pol max_frames)"
proof -
  define chips where "chips = srd_runs_to_chips D runs chip_period 2048"
  have scan: "list_all (read_from pol chips) (srd_generic_scan pol ct (min max_frames k) (drop p chips) p [])"
    "length (srd_generic_scan pol ct (min max_frames k) (drop p chips) p []) \<le> max_frames" for ct :: "nat \<Rightarrow> 'a" and k p
    using generic_scan_read [OF refl, of pol chips "[]" "min max_frames k" ct p] by auto
  have weaken: "list_all (read_from pol chips) xs \<Longrightarrow>
      list_all (\<lambda>f. frame_kind f \<noteq> SRD_FRAME_GENERIC \<or> read_from pol chips f) xs" for xs :: "'a srd_frame list"
    by (simp add: list_all_iff)
  have d: "list_all (\<lambda>f. frame_kind f \<noteq> SRD_FRAME_GENERIC \<or> read_from pol chips f)
      (delimited_scan D chip_period pol max_frames runs 0 t [])"
    "length (delimited_scan D chip_period pol max_frames runs 0 t []) \<le> max_frames" for t
    using delimited_scan_frames [of "[]" max_frames D chip_period pol runs 0 t] by (auto simp: list_all_iff)
  let ?ok = "\<lambda>fs. length fs \<le> max_frames \<and>
    list_all (\<lambda>f. frame_kind f \<noteq> SRD_FRAME_GENERIC \<or> read_from pol chips f) fs"
  have 1: "?ok (srd_generic_scan pol ct (min max_frames k) (drop 1 chips) 1 [])"
    "?ok (srd_generic_scan pol ct (min max_frames k) (drop 0 chips) 0 [])" for ct :: "nat \<Rightarrow> 'a" and k
    using scan(1) [THEN weaken] scan(2) by blast+
  have 2: "?ok (delimited_scan D chip_period pol max_frames runs 0 t [])" for t using d by blast
  show ?thesis unfolding srd_extract_frames_def chips_def [symmetric] Let_def
    by (intro if_split [where P = ?ok, THEN iffD2] conjI impI 1 2) simp_all
qed

definition sensor_runs :: "real srd_run list" where
  "sensor_runs = map one_chip (manchester SRD_MANCHESTER_IEEE (octet_bits [0x5A, 0x12, 0x34, 0xC7]))"

lemma sensor_scan:
  "map (\<lambda>f. (frame_kind f, octets f, bit_count f)) (srd_generic_scan SRD_MANCHESTER_IEEE ct 4
     (manchester SRD_MANCHESTER_IEEE (octet_bits [0x5A, 0x12, 0x34, 0xC7])) 0 []) =
     [(SRD_FRAME_GENERIC, [0x5A, 0x12, 0x34, 0xC7], 32)]"
  "\<not> 32 < decoded_bits (srd_generic_scan SRD_MANCHESTER_IEEE ct 4
     (drop 1 (manchester SRD_MANCHESTER_IEEE (octet_bits [0x5A, 0x12, 0x34, 0xC7]))) 1 [])"
  "decoded_bits (srd_generic_scan SRD_MANCHESTER_IEEE ct 4
     (manchester SRD_MANCHESTER_IEEE (octet_bits [0x5A, 0x12, 0x34, 0xC7])) 0 []) = 32"
  by code_simp+

lemma no_delimiter:
  "\<forall>r\<in>set runs. \<not> in_delimiter D r \<Longrightarrow> delimited_scan D T pol m runs i t [] = []"
  using delimited_scan_skip [of runs D T pol m "[]" i t "[]"]
  by (auto simp: delimited_scan.simps [of _ _ _ _ "[]"] SRD_DELIMITER_RUNS_def)

theorem srd_generic_frames_sound_witness:
  "\<exists>f. srd_extract_frames exact_doubles sensor_runs (1 / 2000) SRD_MANCHESTER_IEEE 4 = [f] \<and>
    octets f = [0x5A, 0x12, 0x34, 0xC7] \<and>
    read_from SRD_MANCHESTER_IEEE (srd_runs_to_chips exact_doubles sensor_runs (1 / 2000) 2048) f"
proof -
  have runs: "length sensor_runs = 64" "sensor_runs \<noteq> []" by (simp_all add: sensor_runs_def flip: length_0_conv)
  have chips: "srd_runs_to_chips exact_doubles sensor_runs (1 / 2000) 2048 =
      manchester SRD_MANCHESTER_IEEE (octet_bits [0x5A, 0x12, 0x34, 0xC7])"
    using one_chip_levels [of "manchester SRD_MANCHESTER_IEEE (octet_bits [0x5A, 0x12, 0x34, 0xC7])"]
    unfolding run_levels_def sensor_runs_def by (subst srd_runs_to_chips_eq) (simp_all add: exact_lit)
  have "\<forall>r\<in>set sensor_runs. \<not> in_delimiter exact_doubles r"
    by (auto simp: sensor_runs_def in_delimiter_def one_chip_def exact_lit)
  then have scan: "delimited_scan exact_doubles (1 / 2000) SRD_MANCHESTER_IEEE 4 sensor_runs 0 t [] = []" for t
    by (rule no_delimiter)
  let ?frames = "srd_extract_frames exact_doubles sensor_runs (1 / 2000) SRD_MANCHESTER_IEEE 4"
  have "map (\<lambda>f. (frame_kind f, octets f, bit_count f)) ?frames = [(SRD_FRAME_GENERIC, [0x5A, 0x12, 0x34, 0xC7], 32)]"
    by (simp add: sensor_scan srd_extract_frames_def runs chips scan SRD_DELIMITER_RUNS_def exact_lit Let_def
        SRD_MAX_FRAMES_PER_PRESS_def del: One_nat_def drop_Suc_Cons)
  then obtain f where f: "?frames = [f]" "frame_kind f = SRD_FRAME_GENERIC" "octets f = [0x5A, 0x12, 0x34, 0xC7]"
    by (auto simp: map_eq_Cons_conv)
  then show ?thesis using srd_generic_frames_sound [of exact_doubles sensor_runs "1 / 2000" SRD_MANCHESTER_IEEE 4] by simp
qed

subsection \<open>The chip period and the band\<close>

text \<open>The chip period is either refused, as zero, or a period that explains at least the share
  \<open>SRD_CHIP_COVERAGE_MIN\<close> of the transmission's time as runs of one chip or two: what the histogram's modes
  suggest is never returned for being a mode.\<close>

theorem srd_chip_period_explains:
  "srd_chip_period D runs = d_lit D 0 1 \<or>
   \<not> d_gt D (SRD_CHIP_COVERAGE_MIN D) (srd_chip_coverage D runs (srd_chip_period D runs))"
proof -
  let ?best = "\<lambda>s cs. foldl (score_candidate D runs s) (d_lit D 0 1, d_lit D 0 1) cs"
  have inv: "fst (?best s cs) = d_lit D 0 1 \<or> snd (?best s cs) = srd_chip_coverage D runs (fst (?best s cs))" for s cs
    by (rule foldl_invariant) (auto simp: score_candidate_def Let_def)
  show ?thesis
    unfolding srd_chip_period_def Let_def
    using inv [of "sample_seconds D runs" "foldl (keep_candidate (run_histogram D runs)
      (max 3 (foldl max 0 (run_histogram D runs) div 8))) [] [0..<NUM_BUCKETS]"]
    by (auto simp del: One_nat_def split: if_splits)
qed

text \<open>A step up or down the band leaves a receiver that can hear the devices able to hear them: the frequency
  stays inside the band, whatever the step, in arithmetic without rounding.\<close>

theorem srd_tune_step_stays:
  "srd_receiver_ready frequency_hz sample_rate \<Longrightarrow>
   srd_receiver_ready (srd_tune_step exact_doubles frequency_hz sample_rate direction) sample_rate"
proof -
  assume ready: "srd_receiver_ready frequency_hz sample_rate"
  have upper: "srd_receiver_ready (word_of_int k) sample_rate" if "430000000 \<le> k" "k \<le> 440000000" for k :: int
    using that ready by (simp add: srd_receiver_ready_def word_le_def SRD_BAND_LOWER_HZ_def SRD_BAND_UPPER_HZ_def
        uint_word_of_int take_bit_int_eq_self)
  have "srd_tune_step exact_doubles frequency_hz sample_rate direction = frequency_hz \<or>
      (\<exists>t::real. 430000000 \<le> t \<and> t \<le> 440000000 \<and>
        srd_tune_step exact_doubles frequency_hz sample_rate direction = word_of_int \<lfloor>t + 1 / 2\<rfloor>)"
  proof (cases "srd_tune_step exact_doubles frequency_hz sample_rate direction = frequency_hz")
    case False
    define target where "target = real_of_int (uint frequency_hz) + real_of_int direction * (real_of_int (uint sample_rate) * (5 / 10))"
    define clamped where "clamped = min 440000000 (max 430000000 target)"
    have "srd_tune_step exact_doubles frequency_hz sample_rate direction = word_of_int \<lfloor>clamped + 1 / 2\<rfloor>"
      using False by (auto simp: srd_tune_step_def Let_def exact_lit exact_doubles_def target_def clamped_def
          SRD_BAND_LOWER_HZ_def SRD_BAND_UPPER_HZ_def min_def max_def split: if_splits)
    then show ?thesis by (intro disjI2 exI [of _ clamped]) (simp add: clamped_def)
  qed simp
  then show ?thesis using ready upper by (auto simp: le_floor_iff floor_le_iff)
qed

theorem srd_tune_step_stays_witness:
  "srd_receiver_ready (srd_tune_step exact_doubles 439900000 2000000 1) 2000000"
  using srd_tune_step_stays [of 439900000 2000000 1]
  by (simp add: srd_receiver_ready_def SRD_BAND_LOWER_HZ_def SRD_BAND_UPPER_HZ_def SRD_MIN_SAMPLE_RATE_def)

end
