(* ===== verification/Sweep_Plan.thy ===== *)
theory Sweep_Plan
  imports Floating
begin

text \<open>
  How a band is covered in steps: the survey's sweep of \<open>src/src/core/survey_sweep.h\<close> and the GSM band scan
  of \<open>src/src/runtime/scan_plan.h\<close>, their plans, their steps' phases, what a step keeps and what the scan
  hands back. \<open>double\<close> is any type with \<open>double_ops\<close>, \<open>float\<close> any with \<open>sample_ops\<close>; the theorems on
  coverage are of arithmetic without rounding. \<open>d_to_int\<close> is the cast to \<open>int\<close>, which C defines only for a value an \<open>int\<close>
  can hold: a count of bins is at most 8192 by the width it is divided by, and that a count of steps fits is a premise.
\<close>

subsection \<open>The survey's sweep\<close>

definition SURVEY_BINS :: nat where "SURVEY_BINS = 8192"
definition SURVEY_MIN_BINS :: nat where "SURVEY_MIN_BINS = 16"
definition SURVEY_SETTLE_SECONDS :: "'d double_ops \<Rightarrow> 'd" where "SURVEY_SETTLE_SECONDS D = d_lit D 10 2"
definition SURVEY_DWELL_MIN :: "'d double_ops \<Rightarrow> 'd" where "SURVEY_DWELL_MIN D = d_lit D 2 2"
definition SURVEY_DWELL_MAX :: "'d double_ops \<Rightarrow> 'd" where "SURVEY_DWELL_MAX D = d_lit D 100 1"
definition SURVEY_USABLE_SPAN :: "'d double_ops \<Rightarrow> 'd" where "SURVEY_USABLE_SPAN D = d_lit D 8 1"
definition SURVEY_BLOCK_SECONDS :: "'d double_ops \<Rightarrow> 'd" where "SURVEY_BLOCK_SECONDS D = d_lit D 655 4"
definition SURVEY_SENTINEL_DBFS :: "'f sample_ops \<Rightarrow> 'f" where "SURVEY_SENTINEL_DBFS F = s_lit F (-3000) 1"
definition SURVEY_OFFSET_HZ :: "'d double_ops \<Rightarrow> 'd" where "SURVEY_OFFSET_HZ D = d_lit D 3000000 1"
definition SURVEY_CARRIER_SEARCH_HZ :: "'d double_ops \<Rightarrow> 'd" where "SURVEY_CARRIER_SEARCH_HZ D = d_lit D 400000 1"

definition survey_measure_settled :: "'d double_ops \<Rightarrow> 'd \<Rightarrow> bool" where
  "survey_measure_settled D elapsed = d_ge D elapsed (SURVEY_SETTLE_SECONDS D)"

definition survey_fold_depth :: "'d double_ops \<Rightarrow> 'd \<Rightarrow> 'd \<Rightarrow> int \<Rightarrow> 'd" where
  "survey_fold_depth D bin_hz fft_bin_hz blocks =
     (let per_bin = (if d_gt D fft_bin_hz (d_lit D 0 1) then d_div D bin_hz fft_bin_hz else d_lit D 10 1);
          per_bin = (if d_gt D (d_lit D 10 1) per_bin then d_lit D 10 1 else per_bin);
          blocks = (if blocks < 1 then 1 else blocks)
      in d_mul D per_bin (d_of_int D blocks))"

definition survey_blocks_in :: "'d double_ops \<Rightarrow> 'd \<Rightarrow> int" where
  "survey_blocks_in D dwell_seconds =
     (let blocks = d_to_int D (d_div D dwell_seconds (SURVEY_BLOCK_SECONDS D)) in if blocks < 1 then 1 else blocks)"

definition survey_carrier_search_hz :: "'d double_ops \<Rightarrow> 'd \<Rightarrow> 'd" where
  "survey_carrier_search_hz D width_hz =
     (let half = d_div D width_hz (d_lit D 20 1);
          half = (if d_gt D (SURVEY_CARRIER_SEARCH_HZ D) half then SURVEY_CARRIER_SEARCH_HZ D else half);
          most = d_sub D (d_div D (SURVEY_OFFSET_HZ D) (d_lit D 20 1)) (SURVEY_CARRIER_SEARCH_HZ D)
      in if d_gt D half most then most else half)"

datatype survey_plan_status = SURVEY_PLAN_OK | SURVEY_PLAN_BAD_RANGE | SURVEY_PLAN_BAD_DWELL | SURVEY_PLAN_BAD_RATE

record 'd survey_plan =
  lower_hz :: 'd
  upper_hz :: 'd
  step_span_hz :: 'd
  step_count :: int
  bins :: int
  bin_hz :: 'd
  dwell_seconds :: 'd
  seconds :: 'd

text \<open>\<open>Inl\<close> is any status but \<open>SURVEY_PLAN_OK\<close>, whose plan is \<open>Inr\<close>.\<close>

definition survey_plan_make ::
    "'d double_ops \<Rightarrow> 'd \<Rightarrow> 'd \<Rightarrow> 'd \<Rightarrow> int \<Rightarrow> 'd \<Rightarrow> survey_plan_status + 'd survey_plan" where
  "survey_plan_make D from_hz to_hz sample_rate fft_size dwell =
     (if \<not> d_gt D to_hz from_hz then Inl SURVEY_PLAN_BAD_RANGE
      else if \<not> d_ge D dwell (SURVEY_DWELL_MIN D) \<or> \<not> d_ge D (SURVEY_DWELL_MAX D) dwell then Inl SURVEY_PLAN_BAD_DWELL
      else
        let span_hz = d_sub D to_hz from_hz; step_span = d_mul D sample_rate (SURVEY_USABLE_SPAN D)
        in if d_gt D (d_lit D 10 1) step_span then Inl SURVEY_PLAN_BAD_RATE
           else
             let finest_hz = (if fft_size > 0 then d_div D sample_rate (d_of_int D fft_size) else d_lit D 0 1);
                 width = d_div D span_hz (d_of_int D (int SURVEY_BINS));
                 width = (if d_gt D finest_hz width then finest_hz else width);
                 n = (if d_gt D width (d_lit D 0 1) then d_to_int D (d_div D span_hz width) else int SURVEY_BINS);
                 n = (if n > int SURVEY_BINS then int SURVEY_BINS else n);
                 n = (if n < int SURVEY_MIN_BINS then int SURVEY_MIN_BINS else n);
                 steps = d_to_int D (d_ceil D (d_div D span_hz step_span));
                 steps = (if steps < 1 then 1 else steps)
             in Inr \<lparr>lower_hz = from_hz, upper_hz = to_hz, step_span_hz = step_span, step_count = steps, bins = n,
                  bin_hz = d_div D span_hz (d_of_int D n), dwell_seconds = dwell,
                  seconds = d_mul D (d_of_int D steps) (d_add D (SURVEY_SETTLE_SECONDS D) dwell)\<rparr>)"

definition survey_plan_step_centre :: "'d double_ops \<Rightarrow> 'd survey_plan \<Rightarrow> int \<Rightarrow> 'd" where
  "survey_plan_step_centre D plan step =
     d_add D (lower_hz plan) (d_mul D (d_add D (d_of_int D step) (d_lit D 5 1)) (step_span_hz plan))"

definition survey_plan_bin_at :: "'d double_ops \<Rightarrow> 'd survey_plan \<Rightarrow> 'd \<Rightarrow> int" where
  "survey_plan_bin_at D plan hz =
     (if d_gt D (lower_hz plan) hz \<or> d_ge D hz (upper_hz plan) then - 1
      else
        let bin = d_to_int D (d_mul D (d_div D (d_sub D hz (lower_hz plan)) (d_sub D (upper_hz plan) (lower_hz plan)))
              (d_of_int D (bins plan)))
        in if bin < 0 \<or> bin \<ge> bins plan then - 1 else bin)"

definition survey_plan_bin_centre :: "'d double_ops \<Rightarrow> 'd survey_plan \<Rightarrow> int \<Rightarrow> 'd" where
  "survey_plan_bin_centre D plan bin =
     d_add D (lower_hz plan) (d_mul D (d_add D (d_of_int D bin) (d_lit D 5 1)) (bin_hz plan))"

definition survey_fold_keeps :: "'d double_ops \<Rightarrow> 'd \<Rightarrow> 'd \<Rightarrow> 'd \<Rightarrow> bool" where
  "survey_fold_keeps D hz centre_hz sample_rate =
     d_ge D (d_div D (d_mul D sample_rate (SURVEY_USABLE_SPAN D)) (d_lit D 20 1)) (d_abs D (d_sub D hz centre_hz))"

definition survey_fold_hold :: "'f sample_ops \<Rightarrow> 'f \<Rightarrow> 'f \<Rightarrow> 'f" where
  "survey_fold_hold F existing level =
     (if s_ge F (SURVEY_SENTINEL_DBFS F) existing \<or> s_gt F level existing then level else existing)"

definition survey_elapsed_sane :: "'d double_ops \<Rightarrow> 'd \<Rightarrow> bool" where
  "survey_elapsed_sane D elapsed = d_ge D elapsed (d_lit D 0 1)"

datatype survey_step_phase = SURVEY_STEP_SETTLING | SURVEY_STEP_DWELLING | SURVEY_STEP_NEXT | SURVEY_STEP_FINISHED

definition survey_step_phase_at :: "'d double_ops \<Rightarrow> 'd \<Rightarrow> 'd \<Rightarrow> int \<Rightarrow> int \<Rightarrow> survey_step_phase" where
  "survey_step_phase_at D elapsed dwell step steps =
     (if d_gt D (SURVEY_SETTLE_SECONDS D) elapsed then SURVEY_STEP_SETTLING
      else if d_gt D (d_add D (SURVEY_SETTLE_SECONDS D) dwell) elapsed then SURVEY_STEP_DWELLING
      else if step + 1 \<ge> steps then SURVEY_STEP_FINISHED
      else SURVEY_STEP_NEXT)"

definition survey_step_may_advance :: "survey_step_phase \<Rightarrow> int \<Rightarrow> bool" where
  "survey_step_may_advance phase folded =
     (if phase = SURVEY_STEP_SETTLING \<or> phase = SURVEY_STEP_DWELLING then False else folded > 0)"

subsection \<open>Measuring one candidate\<close>

record ('f, 'd) survey_measurement =
  blocks :: int
  hits :: int
  centre_sum :: 'd
  centre_square_sum :: 'd
  first_prominence :: 'f

definition survey_measure_reset :: "'f sample_ops \<Rightarrow> 'd double_ops \<Rightarrow> ('f, 'd) survey_measurement" where
  "survey_measure_reset F D = \<lparr>blocks = 0, hits = 0, centre_sum = d_lit D 0 1, centre_square_sum = d_lit D 0 1,
     first_prominence = s_lit F 0 1\<rparr>"

definition survey_measure_observe :: "'f sample_ops \<Rightarrow> 'd double_ops \<Rightarrow> ('f, 'd) survey_measurement \<Rightarrow> bool \<Rightarrow> 'f \<Rightarrow>
    'd \<Rightarrow> ('f, 'd) survey_measurement \<times> bool" where
  "survey_measure_observe F D m found prominence_db centre_hz =
     (let m = m\<lparr>blocks := blocks m + 1\<rparr> in
      if \<not> found then (m, False)
      else
        let m = (if s_ge F (s_lit F 0 1) (first_prominence m) then m\<lparr>first_prominence := prominence_db\<rparr> else m)
        in if s_gt F (s_div F (first_prominence m) (s_lit F 20 1)) prominence_db then (m, False)
           else (m\<lparr>hits := hits m + 1, centre_sum := d_add D (centre_sum m) centre_hz,
                  centre_square_sum := d_add D (centre_square_sum m) (d_mul D centre_hz centre_hz)\<rparr>, True))"

definition survey_measure_duty :: "'d double_ops \<Rightarrow> ('f, 'd) survey_measurement \<Rightarrow> 'd" where
  "survey_measure_duty D m =
     (if blocks m \<le> 0 then d_lit D 0 1 else d_div D (d_of_int D (hits m)) (d_of_int D (blocks m)))"

definition survey_measure_duty_label :: "'d double_ops \<Rightarrow> 'd \<Rightarrow> string" where
  "survey_measure_duty_label D duty =
     (if d_gt D duty (d_lit D 9 1) then ''continuous'' else if d_gt D duty (d_lit D 3 1) then ''intermittent''
      else ''bursty'')"

definition survey_measure_spread_hz :: "'d double_ops \<Rightarrow> ('f, 'd) survey_measurement \<Rightarrow> 'd" where
  "survey_measure_spread_hz D m =
     (if hits m < 2 then d_lit D 0 1
      else
        let mean = d_div D (centre_sum m) (d_of_int D (hits m));
            variance = d_sub D (d_div D (centre_square_sum m) (d_of_int D (hits m))) (d_mul D mean mean);
            variance = (if d_gt D (d_lit D 0 1) variance then d_lit D 0 1 else variance)
        in d_sqrt D variance)"

subsection \<open>The GSM band scan\<close>

definition SCAN_BAND_LOWER_HZ :: "'d double_ops \<Rightarrow> 'd" where "SCAN_BAND_LOWER_HZ D = d_lit D 9351000000 1"
definition SCAN_BAND_UPPER_HZ :: "'d double_ops \<Rightarrow> 'd" where "SCAN_BAND_UPPER_HZ D = d_lit D 9599000000 1"
definition SCAN_EDGE_MARGIN_HZ :: "'d double_ops \<Rightarrow> 'd" where "SCAN_EDGE_MARGIN_HZ D = d_lit D 2000000 1"
definition SCAN_STEP_SETTLE_SECONDS :: "'d double_ops \<Rightarrow> 'd" where "SCAN_STEP_SETTLE_SECONDS D = d_lit D 35 2"
definition SCAN_STEP_PROBE_SECONDS :: "'d double_ops \<Rightarrow> 'd" where "SCAN_STEP_PROBE_SECONDS D = d_lit D 45 2"
definition SCAN_SENTINEL_DBFS :: "'f sample_ops \<Rightarrow> 'f" where "SCAN_SENTINEL_DBFS F = s_lit F (-3000) 1"
definition SCAN_BCCH_MIN_CONF :: "'f sample_ops \<Rightarrow> 'f" where "SCAN_BCCH_MIN_CONF F = s_lit F 85 2"
definition SCAN_ARFCN_FIRST :: nat where "SCAN_ARFCN_FIRST = 1"
definition SCAN_ARFCN_LAST :: nat where "SCAN_ARFCN_LAST = 124"

datatype scan_plan_status = SCAN_PLAN_OK | SCAN_PLAN_RATE_TOO_LOW

record 'd scan_plan =
  accept_half_hz :: 'd
  step_hz :: 'd
  first_center_hz :: 'd
  scan_step_count :: nat

text \<open>The loop that counts the tunings; \<open>None\<close> is a loop that does not end.\<close>

partial_function (option) scan_count :: "'d double_ops \<Rightarrow> 'd \<Rightarrow> 'd \<Rightarrow> 'd \<Rightarrow> nat \<Rightarrow> nat option" where
  "scan_count D accept_half step centre n =
     (if d_gt D (SCAN_BAND_UPPER_HZ D) (d_sub D centre accept_half)
      then scan_count D accept_half step (d_add D centre step) (n + 1)
      else Some n)"

definition scan_plan_make :: "'d double_ops \<Rightarrow> 'd \<Rightarrow> (scan_plan_status + 'd scan_plan) option" where
  "scan_plan_make D sample_rate =
     (let accept_half = d_sub D (d_div D sample_rate (d_lit D 20 1)) (SCAN_EDGE_MARGIN_HZ D) in
      if d_gt D (d_lit D 1000000 1) accept_half then Some (Inl SCAN_PLAN_RATE_TOO_LOW)
      else
        let step = d_mul D (d_lit D 20 1) accept_half; first = d_add D (SCAN_BAND_LOWER_HZ D) accept_half
        in case scan_count D accept_half step first 0 of
             None \<Rightarrow> None
           | Some n \<Rightarrow> Some (Inr \<lparr>accept_half_hz = accept_half, step_hz = step, first_center_hz = first,
               scan_step_count = n\<rparr>))"

definition scan_plan_step_centre :: "'d double_ops \<Rightarrow> 'd scan_plan \<Rightarrow> nat \<Rightarrow> 'd" where
  "scan_plan_step_centre D plan step = d_add D (first_center_hz plan) (d_mul D (d_of_int D (int step)) (step_hz plan))"

definition scan_plan_covers :: "'d double_ops \<Rightarrow> 'd scan_plan \<Rightarrow> 'd \<Rightarrow> 'd \<Rightarrow> bool" where
  "scan_plan_covers D plan centre_hz channel_hz =
     (d_ge D channel_hz (d_sub D centre_hz (accept_half_hz plan)) \<and>
      d_ge D (d_add D centre_hz (accept_half_hz plan)) channel_hz)"

datatype scan_step_phase = SCAN_STEP_SETTLING | SCAN_STEP_PROBING | SCAN_STEP_NEXT | SCAN_STEP_FINISHED

definition scan_step_phase_at :: "'d double_ops \<Rightarrow> 'd \<Rightarrow> int \<Rightarrow> int \<Rightarrow> scan_step_phase" where
  "scan_step_phase_at D elapsed step steps =
     (if d_gt D (SCAN_STEP_SETTLE_SECONDS D) elapsed then SCAN_STEP_SETTLING
      else if d_gt D (d_add D (SCAN_STEP_SETTLE_SECONDS D) (SCAN_STEP_PROBE_SECONDS D)) elapsed then SCAN_STEP_PROBING
      else if step + 1 \<ge> steps then SCAN_STEP_FINISHED
      else SCAN_STEP_NEXT)"

definition scan_hold_confidence :: "'f sample_ops \<Rightarrow> 'f \<Rightarrow> 'f \<Rightarrow> 'f" where
  "scan_hold_confidence F held seen = (if s_gt F seen held then seen else held)"

text \<open>The arrays, indexed by channel number, are functions.\<close>

definition scan_loudest :: "'f sample_ops \<Rightarrow> (nat \<Rightarrow> bool) \<Rightarrow> (nat \<Rightarrow> 'f) \<Rightarrow> nat \<times> 'f \<Rightarrow> nat \<Rightarrow> nat \<times> 'f" where
  "scan_loudest F wanted level best arfcn =
     (if wanted arfcn \<and> s_gt F (level arfcn) (snd best) then (arfcn, level arfcn) else best)"

definition scan_select_strongest :: "'f sample_ops \<Rightarrow> (nat \<Rightarrow> 'f) \<Rightarrow> nat" where
  "scan_select_strongest F level =
     fst (foldl (scan_loudest F (\<lambda>_. True) level) (0, SCAN_SENTINEL_DBFS F) [SCAN_ARFCN_FIRST..<SCAN_ARFCN_LAST + 1])"

definition scan_select_bcch :: "'f sample_ops \<Rightarrow> (nat \<Rightarrow> 'f) \<Rightarrow> (nat \<Rightarrow> 'f) \<Rightarrow> nat" where
  "scan_select_bcch F level confidence =
     fst (foldl (scan_loudest F (\<lambda>a. s_ge F (confidence a) (SCAN_BCCH_MIN_CONF F)) level) (0, SCAN_SENTINEL_DBFS F)
       [SCAN_ARFCN_FIRST..<SCAN_ARFCN_LAST + 1])"

definition scan_choose :: "'f sample_ops \<Rightarrow> (nat \<Rightarrow> 'f) \<Rightarrow> (nat \<Rightarrow> 'f) \<Rightarrow> nat" where
  "scan_choose F level confidence =
     (let bcch = scan_select_bcch F level confidence in if bcch > 0 then bcch else scan_select_strongest F level)"

subsection \<open>No gap between the steps\<close>

lemma step_containing:
  fixes x w :: real
  assumes "0 < w" "0 \<le> x" "x < real n * w"
  obtains k where "k < n" "real k * w \<le> x" "x < (real k + 1) * w"
proof -
  define k where "k = nat \<lfloor>x / w\<rfloor>"
  have "0 \<le> x / w" using assms by simp
  then have k: "real k \<le> x / w" "x / w < real k + 1" unfolding k_def by linarith+
  have "x / w < real n" using assms by (simp add: divide_less_eq)
  then have "k < n" using k(1) by linarith
  with k show thesis using that [of k] assms(1) by (simp add: field_simps)
qed

lemma exact_constants:
  "SURVEY_SETTLE_SECONDS exact_doubles = 1 / 10" "SURVEY_USABLE_SPAN exact_doubles = 4 / 5"
  "SCAN_BAND_LOWER_HZ exact_doubles = 935100000" "SCAN_BAND_UPPER_HZ exact_doubles = 959900000"
  "SCAN_EDGE_MARGIN_HZ exact_doubles = 200000"
  by (simp_all add: SURVEY_SETTLE_SECONDS_def SURVEY_USABLE_SPAN_def SCAN_BAND_LOWER_HZ_def SCAN_BAND_UPPER_HZ_def
      SCAN_EDGE_MARGIN_HZ_def exact_lit)

lemma survey_plan_shape:
  assumes "survey_plan_make exact_doubles from_hz to_hz sample_rate fft_size dwell = Inr plan"
  shows "from_hz < to_hz" "lower_hz plan = from_hz" "upper_hz plan = to_hz" "1 \<le> step_span_hz plan"
    "step_span_hz plan = sample_rate * (4 / 5)"
    "step_count plan = (if \<lceil>(to_hz - from_hz) / step_span_hz plan\<rceil> < 1 then 1 else \<lceil>(to_hz - from_hz) / step_span_hz plan\<rceil>)"
    "16 \<le> bins plan \<and> bins plan \<le> 8192" "bin_hz plan = (to_hz - from_hz) / real_of_int (bins plan)"
  using assms
  by (auto simp: survey_plan_make_def Let_def exact_lit exact_constants SURVEY_BINS_def SURVEY_MIN_BINS_def
      split: if_splits)

lemma survey_steps_reach:
  assumes "survey_plan_make exact_doubles from_hz to_hz sample_rate fft_size dwell = Inr plan"
  shows "to_hz - from_hz \<le> real (nat (step_count plan)) * step_span_hz plan" "1 \<le> step_count plan"
proof -
  note p = survey_plan_shape [OF assms]
  show "1 \<le> step_count plan" by (simp add: p(6))
  have "(to_hz - from_hz) / step_span_hz plan \<le> real (nat (step_count plan))" unfolding p(6) by (auto split: if_splits)
  then show "to_hz - from_hz \<le> real (nat (step_count plan)) * step_span_hz plan"
    using p(4) by (simp add: pos_divide_le_eq)
qed

lemma survey_keeps_step:
  fixes k :: nat
  assumes "survey_plan_make exact_doubles from_hz to_hz sample_rate fft_size dwell = Inr plan"
    and "real k * step_span_hz plan \<le> hz - from_hz" "hz - from_hz \<le> (real k + 1) * step_span_hz plan"
  shows "survey_fold_keeps exact_doubles hz (survey_plan_step_centre exact_doubles plan (int k)) sample_rate"
proof -
  define w where "w = step_span_hz plan"
  have w: "sample_rate * (4 / 5) = w" "lower_hz plan = from_hz" using survey_plan_shape(2,5) [OF assms(1)] by (simp_all add: w_def)
  have "\<bar>hz - (from_hz + (real k + 1 / 2) * w)\<bar> \<le> w / 2"
    using assms(2,3) unfolding w_def [symmetric] abs_le_iff by (simp add: algebra_simps)
  then show ?thesis
    by (simp add: survey_fold_keeps_def survey_plan_step_centre_def exact_constants exact_lit w w_def [symmetric] del: times_divide_eq_right)
qed

text \<open>C21: A sweep that is planned leaves no gap, in arithmetic without rounding: whatever the range, the sample rate and the
  dwell, as long as the count of steps is one an \<open>int\<close> can hold, every frequency of the range, both edges included, is
  inside the part that is kept of one of the plan's tunings.\<close>

theorem survey_sweep_no_gap:
  assumes "survey_plan_make exact_doubles from_hz to_hz sample_rate fft_size dwell = Inr plan"
    and "step_count plan < 2 ^ 31" "from_hz \<le> hz" "hz \<le> to_hz"
  shows "\<exists>step. 0 \<le> step \<and> step < step_count plan \<and>
    survey_fold_keeps exact_doubles hz (survey_plan_step_centre exact_doubles plan step) sample_rate"
proof -
  note reach = survey_steps_reach [OF assms(1)] and p = survey_plan_shape [OF assms(1)]
  let ?n = "nat (step_count plan)"
  show ?thesis
  proof (cases "hz - from_hz < real ?n * step_span_hz plan")
    case True
    then obtain k where "k < ?n" "real k * step_span_hz plan \<le> hz - from_hz" "hz - from_hz < (real k + 1) * step_span_hz plan"
      using step_containing [OF _ _ True] p(4) assms(3) by auto
    then show ?thesis using survey_keeps_step [OF assms(1), of k hz] by (intro exI [of _ "int k"]) auto
  next
    case False
    then have e: "hz - from_hz = real ?n * step_span_hz plan" using reach(1) assms(4) by linarith
    obtain m where m: "?n = Suc m" using reach(2) by (cases ?n) auto
    have "real m * step_span_hz plan \<le> hz - from_hz" "hz - from_hz \<le> (real m + 1) * step_span_hz plan"
      unfolding e m using p(4) by (simp_all add: distrib_right)
    from survey_keeps_step [OF assms(1) this] show ?thesis
      using m by (intro exI [of _ "int m"]) auto
  qed
qed

theorem survey_sweep_no_gap_witness:
  "\<exists>plan step. survey_plan_make exact_doubles 24000000 1766000000 2000000 8192 (1 / 10) = Inr plan \<and>
    0 \<le> step \<and> step < step_count plan \<and>
    survey_fold_keeps exact_doubles 1766000000 (survey_plan_step_centre exact_doubles plan step) 2000000"
proof -
  obtain plan where p: "survey_plan_make exact_doubles 24000000 1766000000 2000000 8192 (1 / 10) = Inr plan"
    by (simp add: survey_plan_make_def exact_constants SURVEY_DWELL_MIN_def SURVEY_DWELL_MAX_def exact_lit Let_def)
  moreover from p have "step_count plan < 2 ^ 31"
    by (auto simp: survey_plan_make_def exact_constants SURVEY_DWELL_MIN_def SURVEY_DWELL_MAX_def exact_lit Let_def)
  ultimately show ?thesis using survey_sweep_no_gap [OF p, of 1766000000] by auto
qed

lemma survey_bin_of:
  assumes plan: "survey_plan_make exact_doubles from_hz to_hz sample_rate fft_size dwell = Inr plan"
    and q: "hz = from_hz + q * bin_hz plan" "0 \<le> q" "q < real_of_int (bins plan)"
  shows "survey_plan_bin_at exact_doubles plan hz = \<lfloor>q\<rfloor>"
proof -
  note p = survey_plan_shape [OF plan]
  define B where "B = real_of_int (bins plan)"
  define S where "S = to_hz - from_hz"
  have pos: "0 < B" "0 < S" using p(1,7) by (simp_all add: B_def S_def)
  have hz: "hz = from_hz + q * (S / B)" using q(1) p(8) by (simp add: B_def S_def)
  have "q * (S / B) < B * (S / B)" using q(3) pos by (intro mult_strict_right_mono) (simp_all add: B_def)
  moreover have "0 \<le> q * (S / B)" using q(2) pos by simp
  ultimately have "\<not> from_hz > hz" "\<not> hz \<ge> to_hz" using pos by (simp_all add: hz S_def)
  moreover have "(hz - from_hz) / S * B = q" using pos by (simp add: hz)
  moreover have "\<lfloor>q\<rfloor> < bins plan" "0 \<le> \<lfloor>q\<rfloor>" using q by (simp_all add: floor_less_iff)
  ultimately show ?thesis
    using q(2) by (simp add: survey_plan_bin_at_def p(2,3) S_def B_def Let_def) (simp add: exact_doubles_def)
qed

text \<open>Every frequency of the swept range falls in one of the plan's bins, at most half a bin from the middle the
  survey reports for it, and the middle of a bin falls in that bin again.\<close>

theorem survey_bins_faithful:
  assumes "survey_plan_make exact_doubles from_hz to_hz sample_rate fft_size dwell = Inr plan"
  shows "(\<forall>hz. from_hz \<le> hz \<longrightarrow> hz < to_hz \<longrightarrow>
      0 \<le> survey_plan_bin_at exact_doubles plan hz \<and> survey_plan_bin_at exact_doubles plan hz < bins plan \<and>
      \<bar>hz - survey_plan_bin_centre exact_doubles plan (survey_plan_bin_at exact_doubles plan hz)\<bar> \<le> bin_hz plan / 2) \<and>
    (\<forall>bin. 0 \<le> bin \<longrightarrow> bin < bins plan \<longrightarrow>
      survey_plan_bin_at exact_doubles plan (survey_plan_bin_centre exact_doubles plan bin) = bin)"
proof -
  note p = survey_plan_shape [OF assms]
  have width: "0 < bin_hz plan" "real_of_int (bins plan) * bin_hz plan = to_hz - from_hz" using p(1,7,8) by simp_all
  have centre: "survey_plan_bin_centre exact_doubles plan bin = from_hz + (real_of_int bin + 1 / 2) * bin_hz plan" for bin
    by (simp add: survey_plan_bin_centre_def p(2) exact_lit)
  have falls: "0 \<le> survey_plan_bin_at exact_doubles plan hz \<and> survey_plan_bin_at exact_doubles plan hz < bins plan \<and>
      \<bar>hz - survey_plan_bin_centre exact_doubles plan (survey_plan_bin_at exact_doubles plan hz)\<bar> \<le> bin_hz plan / 2"
    if h: "from_hz \<le> hz" "hz < to_hz" for hz
  proof -
    define q where "q = (hz - from_hz) / bin_hz plan"
    have hz: "hz = from_hz + q * bin_hz plan" using width(1) by (simp add: q_def)
    have q: "0 \<le> q" "q < real_of_int (bins plan)" using h width by (simp_all add: q_def pos_divide_less_eq)
    have "\<bar>(q - real_of_int \<lfloor>q\<rfloor> - 1 / 2) * bin_hz plan\<bar> \<le> 1 / 2 * bin_hz plan"
      unfolding abs_mult using width(1) by (intro mult_mono) (linarith, simp_all)
    moreover have "hz - survey_plan_bin_centre exact_doubles plan \<lfloor>q\<rfloor> = (q - real_of_int \<lfloor>q\<rfloor> - 1 / 2) * bin_hz plan"
      by (simp add: hz centre algebra_simps)
    ultimately show ?thesis using q by (simp add: survey_bin_of [OF assms hz q] floor_less_iff)
  qed
  have "survey_plan_bin_at exact_doubles plan (survey_plan_bin_centre exact_doubles plan bin) = bin"
    if "0 \<le> bin" "bin < bins plan" for bin
    using survey_bin_of [OF assms centre] that by simp
  with falls show ?thesis by blast
qed

theorem survey_bins_faithful_witness:
  "\<exists>plan. survey_plan_make exact_doubles 24000000 1766000000 2000000 8192 (1 / 10) = Inr plan \<and>
    0 \<le> survey_plan_bin_at exact_doubles plan 99500000 \<and> survey_plan_bin_at exact_doubles plan 99500000 < bins plan"
proof -
  obtain plan where p: "survey_plan_make exact_doubles 24000000 1766000000 2000000 8192 (1 / 10) = Inr plan"
    by (simp add: survey_plan_make_def exact_constants SURVEY_DWELL_MIN_def SURVEY_DWELL_MAX_def exact_lit Let_def)
  show ?thesis using survey_bins_faithful [OF p] p by auto
qed

subsection \<open>The band scan\<close>

lemma scan_count_returns:
  fixes w :: real
  assumes "0 < w" "959900000 - (c - a) \<le> real m * w" "m = 0 \<or> (real m - 1) * w < 959900000 - (c - a)"
  shows "scan_count exact_doubles a w c n = Some (n + m)"
  using assms(2,3)
proof (induction m arbitrary: c n)
  case 0
  then show ?case by (subst scan_count.simps) (simp add: exact_constants)
next
  case (Suc m)
  have "0 \<le> (real (Suc m) - 1) * w" using assms(1) by simp
  then have more: "c - a < 959900000" using Suc.prems(2) by auto
  have "scan_count exact_doubles a w (c + w) (n + 1) = Some (n + 1 + m)"
    by (rule Suc.IH) (use Suc.prems in \<open>auto simp: algebra_simps\<close>)
  then show ?case using more by (subst scan_count.simps) (simp add: exact_constants)
qed

lemma scan_plan_shape:
  assumes "600000 \<le> sample_rate"
  shows "\<exists>plan. scan_plan_make exact_doubles sample_rate = Some (Inr plan) \<and> 0 < accept_half_hz plan \<and>
    step_hz plan = 2 * accept_half_hz plan \<and> first_center_hz plan = 935100000 + accept_half_hz plan \<and>
    24800000 \<le> real (scan_step_count plan) * step_hz plan \<and>
    (real (scan_step_count plan) - 1) * step_hz plan < 24800000"
proof -
  define a where "a = sample_rate / 2 - 200000"
  define m where "m = nat \<lceil>24800000 / (2 * a)\<rceil>"
  have a: "100000 \<le> a" using assms by (simp add: a_def)
  have q: "0 < 24800000 / (2 * a)" using a by simp
  then have "24800000 / (2 * a) \<le> real m" "real m - 1 < 24800000 / (2 * a)" unfolding m_def by linarith+
  then have m: "24800000 \<le> real m * (2 * a)" "(real m - 1) * (2 * a) < 24800000"
    using a by (simp_all add: field_simps)
  have "scan_count exact_doubles a (2 * a) (935100000 + a) 0 = Some (0 + m)"
    by (rule scan_count_returns) (use a m in simp_all)
  then have "scan_plan_make exact_doubles sample_rate = Some (Inr \<lparr>accept_half_hz = a, step_hz = 2 * a,
      first_center_hz = 935100000 + a, scan_step_count = m\<rparr>)"
    using a by (simp add: scan_plan_make_def exact_constants exact_lit a_def [symmetric] Let_def)
  then show ?thesis using a m by auto
qed

text \<open>C24: The GSM band scan's plan is always made, in arithmetic without rounding: a sample rate too low for a window of
  100 kHz either side is refused, and at any other the loop that counts the tunings ends, the windows cover every
  frequency from 935.1 MHz up to, not including, 959.9 MHz, and no tuning is past its end.\<close>

theorem scan_covers_downlink:
  "if sample_rate < 600000 then scan_plan_make exact_doubles sample_rate = Some (Inl SCAN_PLAN_RATE_TOO_LOW)
   else \<exists>plan. scan_plan_make exact_doubles sample_rate = Some (Inr plan) \<and>
     (\<forall>hz\<in>{935100000..<959900000}. \<exists>step < scan_step_count plan.
        scan_plan_covers exact_doubles plan (scan_plan_step_centre exact_doubles plan step) hz) \<and>
     (\<forall>step < scan_step_count plan.
        scan_plan_step_centre exact_doubles plan step - accept_half_hz plan < 959900000)"
proof (cases "sample_rate < 600000")
  case True
  then show ?thesis by (simp add: scan_plan_make_def exact_constants exact_lit Let_def)
next
  case False
  then obtain plan where p: "scan_plan_make exact_doubles sample_rate = Some (Inr plan)" "0 < accept_half_hz plan"
    "step_hz plan = 2 * accept_half_hz plan" "first_center_hz plan = 935100000 + accept_half_hz plan"
    and n: "24800000 \<le> real (scan_step_count plan) * step_hz plan" "(real (scan_step_count plan) - 1) * step_hz plan < 24800000"
    using scan_plan_shape [of sample_rate] by (metis not_less)
  have centre: "scan_plan_step_centre exact_doubles plan k = 935100000 + accept_half_hz plan + real k * step_hz plan" for k
    by (simp add: scan_plan_step_centre_def p(4))
  have "\<exists>step < scan_step_count plan. scan_plan_covers exact_doubles plan (scan_plan_step_centre exact_doubles plan step) hz"
    if "hz \<in> {935100000..<959900000}" for hz
  proof -
    have "hz - 935100000 < real (scan_step_count plan) * step_hz plan" "0 \<le> hz - 935100000" "0 < step_hz plan"
      using order.strict_trans2 [OF _ n(1), of "hz - 935100000"] that p(2,3) by auto
    then obtain k where k: "k < scan_step_count plan" "real k * step_hz plan \<le> hz - 935100000" "hz - 935100000 < (real k + 1) * step_hz plan"
      using step_containing [of "step_hz plan" "hz - 935100000" "scan_step_count plan"] by blast
    then show ?thesis
      using p(3) by (intro exI [of _ k]) (auto simp: scan_plan_covers_def centre algebra_simps)
  qed
  moreover have "scan_plan_step_centre exact_doubles plan k - accept_half_hz plan < 959900000" if "k < scan_step_count plan" for k
  proof -
    have "real k * step_hz plan \<le> (real (scan_step_count plan) - 1) * step_hz plan"
      using that p(2,3) by (intro mult_right_mono) auto
    then show ?thesis using n(2) by (simp add: centre)
  qed
  ultimately show ?thesis using p(1) False by auto
qed

theorem scan_covers_downlink_witness:
  "\<exists>plan step. scan_plan_make exact_doubles 2000000 = Some (Inr plan) \<and> step < scan_step_count plan \<and>
    scan_plan_covers exact_doubles plan (scan_plan_step_centre exact_doubles plan step) 947400000"
proof -
  obtain plan where "scan_plan_make exact_doubles 2000000 = Some (Inr plan)"
    and "\<forall>hz\<in>{935100000..<959900000}. \<exists>step < scan_step_count plan.
        scan_plan_covers exact_doubles plan (scan_plan_step_centre exact_doubles plan step) hz"
    using scan_covers_downlink [of 2000000] by auto
  then show ?thesis by fastforce
qed

lemma exact_greater: "s_gt exact_samples = (>)"
  by (simp add: exact_samples_def)

lemma scan_loudest_result:
  assumes "foldl (scan_loudest exact_samples wanted level) (0, s) [Suc 0..<Suc n] = (r, t)"
  shows "s \<le> t \<and> (\<forall>a. 1 \<le> a \<longrightarrow> a \<le> n \<longrightarrow> wanted a \<longrightarrow> level a \<le> t) \<and>
    (if r = 0 then t = s else wanted r \<and> r \<le> n \<and> level r = t \<and> s < t)"
  using assms
proof (induction n arbitrary: r t)
  case (Suc n)
  obtain r' t' where prev: "foldl (scan_loudest exact_samples wanted level) (0, s) [Suc 0..<Suc n] = (r', t')"
    by fastforce
  have ends: "[Suc 0..<Suc (Suc n)] = [Suc 0..<Suc n] @ [Suc n]" by simp
  have step: "(r, t) = (if wanted (Suc n) \<and> level (Suc n) > t' then (Suc n, level (Suc n)) else (r', t'))"
    using Suc.prems unfolding ends by (simp add: prev del: upt_Suc) (auto simp: scan_loudest_def exact_greater split: if_splits)
  show ?case using Suc.IH [OF prev] step by (auto simp: le_Suc_eq split: if_splits)
qed simp

definition heard :: "(nat \<Rightarrow> real) \<Rightarrow> nat \<Rightarrow> bool" where
  "heard level a = (1 \<le> a \<and> a \<le> 124 \<and> level a > - 300)"

definition heard_bcch :: "(nat \<Rightarrow> real) \<Rightarrow> (nat \<Rightarrow> real) \<Rightarrow> nat \<Rightarrow> bool" where
  "heard_bcch level confidence a = (heard level a \<and> confidence a \<ge> 85 / 100)"

text \<open>The channel the scan hands back is a BCCH carrier whenever one was heard, the loudest of them, however much
  louder another channel is; otherwise it is the loudest channel heard, and 0 when none was.\<close>

theorem scan_choice_prefers_bcch:
  "let r = scan_choose exact_samples level confidence
   in if \<exists>a. heard_bcch level confidence a
      then heard_bcch level confidence r \<and> (\<forall>a. \<not> heard_bcch level confidence a \<or> level a \<le> level r)
      else if \<exists>a. heard level a then heard level r \<and> (\<forall>a. \<not> heard level a \<or> level a \<le> level r)
      else r = 0"
proof -
  have cs: "SCAN_SENTINEL_DBFS exact_samples = - 300" "SCAN_BCCH_MIN_CONF exact_samples = 85 / 100"
    "[SCAN_ARFCN_FIRST..<Suc SCAN_ARFCN_LAST] = [Suc 0..<Suc 124]"
    by (simp_all add: SCAN_SENTINEL_DBFS_def SCAN_BCCH_MIN_CONF_def exact_samples_def SCAN_ARFCN_FIRST_def SCAN_ARFCN_LAST_def)
  have ge: "s_ge exact_samples = (\<ge>)" by (simp add: exact_samples_def)
  obtain b t1 where b: "foldl (scan_loudest exact_samples (\<lambda>a. confidence a \<ge> 85 / 100) level) (0, - 300) [Suc 0..<Suc 124] = (b, t1)"
    by fastforce
  obtain l t2 where l: "foldl (scan_loudest exact_samples (\<lambda>_. True) level) (0, - 300) [Suc 0..<Suc 124] = (l, t2)"
    by fastforce
  have r: "scan_choose exact_samples level confidence = (if b > 0 then b else l)"
    using b l by (simp add: scan_choose_def scan_select_bcch_def scan_select_strongest_def cs ge Let_def
        del: upt_Suc)
  have 1: "if b = 0 then \<forall>a. \<not> heard_bcch level confidence a
      else heard_bcch level confidence b \<and> (\<forall>a. \<not> heard_bcch level confidence a \<or> level a \<le> level b)"
    using scan_loudest_result [OF b] unfolding heard_bcch_def heard_def by fastforce
  have 2: "if l = 0 then \<forall>a. \<not> heard level a else heard level l \<and> (\<forall>a. \<not> heard level a \<or> level a \<le> level l)"
    using scan_loudest_result [OF l] unfolding heard_def by fastforce
  have 3: "heard_bcch level confidence a \<Longrightarrow> heard level a" for a by (simp add: heard_bcch_def)
  show ?thesis unfolding r Let_def using 1 2 3 by (cases "b = 0"; cases "l = 0") auto
qed

theorem scan_choice_prefers_bcch_witness:
  "scan_choose exact_samples (\<lambda>a. if a = 5 then - 20 else if a = 9 then - 40 else - 300) (\<lambda>a. if a = 9 then 1 else 0) = 9"
proof -
  let ?level = "\<lambda>a::nat. if a = 5 then - 20 else if a = 9 then - 40 else - 300 :: real"
  let ?confidence = "\<lambda>a::nat. if a = 9 then 1 else 0 :: real"
  have "heard_bcch ?level ?confidence a = (a = 9)" for a by (auto simp: heard_bcch_def heard_def)
  then show ?thesis using scan_choice_prefers_bcch [of ?level ?confidence] by (simp add: Let_def)
qed

end
