(* ===== verification/Calibration_Gate.thy ===== *)
theory Calibration_Gate
  imports Floating "HOL-Library.Multiset"
begin

text \<open>
  When a frequency correction may be trusted, \<open>src/src/runtime/calibration_gate.h\<close>, with the block loop of
  \<open>update_calibration_measurement\<close> around it (\<open>calibration_runtime.c\<close>): the robust centre and spread of the
  recent residuals, the gate, and the tracker that keeps residuals of different sources out of one buffer.
\<close>

definition CALIBRATION_RECENT :: nat where "CALIBRATION_RECENT = 64"
definition CALIBRATION_MIN_SECONDS :: "'d double_ops \<Rightarrow> 'd" where "CALIBRATION_MIN_SECONDS D = d_lit D 80 1"
definition CALIBRATION_MAX_SEM_PPM :: "'d double_ops \<Rightarrow> 'd" where "CALIBRATION_MAX_SEM_PPM D = d_lit D 10 1"
definition CALIBRATION_SOURCE_CENTROID :: int where "CALIBRATION_SOURCE_CENTROID = 0"
definition CALIBRATION_SOURCE_FCCH :: int where "CALIBRATION_SOURCE_FCCH = 1"
definition CALIBRATION_SOURCE_LTE :: int where "CALIBRATION_SOURCE_LTE = 2"
definition CALIBRATION_FCCH_MISS_LIMIT :: int where "CALIBRATION_FCCH_MISS_LIMIT = 12"
definition CALIBRATION_MIN_PSS :: "'f sample_ops \<Rightarrow> 'f" where "CALIBRATION_MIN_PSS F = s_lit F 55 2"
definition CALIBRATION_MIN_MEASUREMENTS :: int where "CALIBRATION_MIN_MEASUREMENTS = 32"
definition CALIBRATION_MIN_RESIDUALS :: nat where "CALIBRATION_MIN_RESIDUALS = 32"
definition CALIBRATION_MIN_PROMINENCE_DB :: "'f sample_ops \<Rightarrow> 'f" where "CALIBRATION_MIN_PROMINENCE_DB F = s_lit F 80 1"

lemmas source_defs = CALIBRATION_SOURCE_CENTROID_def CALIBRATION_SOURCE_FCCH_def CALIBRATION_SOURCE_LTE_def

subsection \<open>Robust statistics\<close>

definition calibration_compare_double :: "'d double_ops \<Rightarrow> 'd \<Rightarrow> 'd \<Rightarrow> int" where
  "calibration_compare_double D a b = of_bool (d_gt D a b) - of_bool (d_gt D b a)"

text \<open>The standard library's \<open>qsort\<close>, as an insertion sort by the comparison it is given.\<close>

fun insert_with :: "('a \<Rightarrow> 'a \<Rightarrow> int) \<Rightarrow> 'a \<Rightarrow> 'a list \<Rightarrow> 'a list" where
  "insert_with cmp x [] = [x]"
| "insert_with cmp x (y # ys) = (if cmp x y \<le> 0 then x # y # ys else y # insert_with cmp x ys)"

definition qsort :: "('a \<Rightarrow> 'a \<Rightarrow> int) \<Rightarrow> 'a list \<Rightarrow> 'a list" where
  "qsort cmp xs = foldr (insert_with cmp) xs []"

definition middle :: "'d double_ops \<Rightarrow> 'd list \<Rightarrow> 'd" where
  "middle D xs =
     (let n = length xs in
      if n mod 2 \<noteq> 0 then xs ! (n div 2)
      else d_mul D (d_lit D 5 1) (d_add D (xs ! (n div 2 - 1)) (xs ! (n div 2))))"

definition robust_center_spread :: "'d double_ops \<Rightarrow> 'd list \<Rightarrow> int \<Rightarrow> 'd \<times> 'd" where
  "robust_center_spread D samples n =
     (if n \<le> 0 then (d_lit D 0 1, d_lit D 0 1)
      else
        let n = (if n > int CALIBRATION_RECENT then CALIBRATION_RECENT else nat n);
            xs = take n samples;
            median = middle D (qsort (calibration_compare_double D) xs);
            deviations = map (\<lambda>x. d_abs D (d_sub D x median)) xs;
            mad = middle D (qsort (calibration_compare_double D) deviations)
        in (median, d_mul D (d_lit D 14826 4) mad))"

definition calibration_standard_error :: "'d double_ops \<Rightarrow> 'd \<Rightarrow> int \<Rightarrow> 'd" where
  "calibration_standard_error D spread n =
     (if n \<le> 0 then d_lit D 0 1 else d_div D spread (d_sqrt D (d_of_int D n)))"

subsection \<open>The gate\<close>

definition calibration_source_name :: "int \<Rightarrow> string" where
  "calibration_source_name s =
     (if s = CALIBRATION_SOURCE_FCCH then ''fcch'' else if s = CALIBRATION_SOURCE_LTE then ''lte''
      else if s = CALIBRATION_SOURCE_CENTROID then ''centroid'' else ''unknown'')"

text \<open>\<open>None\<close> is the \<open>NULL\<close> of a gate with nothing unmet.\<close>

definition calibration_gate_unmet ::
    "'d double_ops \<Rightarrow> 'f sample_ops \<Rightarrow> 'd \<Rightarrow> int \<Rightarrow> nat \<Rightarrow> 'd \<Rightarrow> int \<Rightarrow> 'f \<Rightarrow> string option" where
  "calibration_gate_unmet D F elapsed_seconds measured residual_count standard_error_ppm source quality =
     (if d_gt D (CALIBRATION_MIN_SECONDS D) elapsed_seconds then Some ''too-soon''
      else if measured < CALIBRATION_MIN_MEASUREMENTS then Some ''too-few-measurements''
      else if residual_count < CALIBRATION_MIN_RESIDUALS then Some ''too-few-residuals''
      else if d_gt D standard_error_ppm (CALIBRATION_MAX_SEM_PPM D) then Some ''scatter-too-wide''
      else if source = CALIBRATION_SOURCE_FCCH then None
      else if source = CALIBRATION_SOURCE_LTE then
        (if s_gt F (CALIBRATION_MIN_PSS F) quality then Some ''weak-cell'' else None)
      else if s_gt F (CALIBRATION_MIN_PROMINENCE_DB F) quality then Some ''weak-carrier''
      else None)"

definition calibration_is_stable ::
    "'d double_ops \<Rightarrow> 'f sample_ops \<Rightarrow> 'd \<Rightarrow> int \<Rightarrow> nat \<Rightarrow> 'd \<Rightarrow> int \<Rightarrow> 'f \<Rightarrow> bool" where
  "calibration_is_stable D F elapsed_seconds measured residual_count standard_error_ppm source quality =
     (let quality_ok =
        (if source = CALIBRATION_SOURCE_FCCH then True
         else if source = CALIBRATION_SOURCE_LTE then s_ge F quality (CALIBRATION_MIN_PSS F)
         else s_ge F quality (CALIBRATION_MIN_PROMINENCE_DB F))
      in d_ge D elapsed_seconds (CALIBRATION_MIN_SECONDS D) \<and> measured \<ge> CALIBRATION_MIN_MEASUREMENTS \<and>
         residual_count \<ge> CALIBRATION_MIN_RESIDUALS \<and> d_ge D (CALIBRATION_MAX_SEM_PPM D) standard_error_ppm \<and> quality_ok)"

definition calibration_source_matches :: "int \<Rightarrow> int \<Rightarrow> bool" where
  "calibration_source_matches buffered source = (buffered = source)"

definition calibration_hold_through_miss :: "int \<Rightarrow> bool" where
  "calibration_hold_through_miss consecutive_misses = (consecutive_misses < CALIBRATION_FCCH_MISS_LIMIT)"

subsection \<open>The tracker\<close>

record 'd calibration_tracker =
  source :: int
  fcch_locked :: bool
  fcch_miss :: int
  fcch_hits :: int
  measurements :: int
  recent_ppm :: "'d list"
  recent_count :: nat
  recent_head :: nat
  recent_center :: 'd
  recent_spread :: 'd
  recent_sem :: 'd
  stable :: bool

definition calibration_tracker_reset :: "'d double_ops \<Rightarrow> 'd calibration_tracker \<Rightarrow> 'd calibration_tracker" where
  "calibration_tracker_reset D t = t\<lparr>measurements := 0, recent_count := 0, recent_head := 0,
     recent_center := d_lit D 0 1, recent_spread := d_lit D 0 1, recent_sem := d_lit D 0 1, stable := False\<rparr>"

definition calibration_tracker_init :: "'d double_ops \<Rightarrow> 'd calibration_tracker \<Rightarrow> 'd calibration_tracker" where
  "calibration_tracker_init D t = (calibration_tracker_reset D t)\<lparr>source := CALIBRATION_SOURCE_CENTROID,
     fcch_locked := False, fcch_miss := 0, fcch_hits := 0\<rparr>"

definition calibration_tracker_use :: "'d double_ops \<Rightarrow> int \<Rightarrow> 'd calibration_tracker \<Rightarrow> 'd calibration_tracker" where
  "calibration_tracker_use D s t =
     (if \<not> calibration_source_matches (source t) s then (calibration_tracker_reset D t)\<lparr>source := s\<rparr> else t)"

datatype calibration_action = CALIBRATION_USE_FCCH | CALIBRATION_HOLD_TONE | CALIBRATION_USE_CENTROID | CALIBRATION_NOTHING

definition calibration_track :: "'d double_ops \<Rightarrow> bool \<Rightarrow> bool \<Rightarrow> 'd calibration_tracker \<Rightarrow>
    calibration_action \<times> 'd calibration_tracker" where
  "calibration_track D have_fcch have_centroid t =
     (if have_fcch then
        let t = (if \<not> calibration_source_matches (source t) CALIBRATION_SOURCE_FCCH
                 then (calibration_tracker_reset D (t\<lparr>source := CALIBRATION_SOURCE_FCCH\<rparr>))\<lparr>fcch_hits := 0\<rparr> else t)
        in (CALIBRATION_USE_FCCH, t\<lparr>fcch_miss := 0, fcch_locked := True, fcch_hits := fcch_hits t + 1\<rparr>)
      else if source t = CALIBRATION_SOURCE_FCCH then
        let t = t\<lparr>fcch_miss := fcch_miss t + 1\<rparr> in
        if calibration_hold_through_miss (fcch_miss t) then (CALIBRATION_HOLD_TONE, t)
        else
          let t = (calibration_tracker_reset D (t\<lparr>source := CALIBRATION_SOURCE_CENTROID, fcch_locked := False\<rparr>))
                    \<lparr>fcch_hits := 0\<rparr>
          in (if have_centroid then CALIBRATION_USE_CENTROID else CALIBRATION_NOTHING, t)
      else
        let t = t\<lparr>fcch_locked := False\<rparr> in
        if \<not> have_centroid then (CALIBRATION_NOTHING, calibration_tracker_reset D t)
        else (CALIBRATION_USE_CENTROID, t))"

definition calibration_tracker_observe :: "'d double_ops \<Rightarrow> 'd \<Rightarrow> 'd calibration_tracker \<Rightarrow> 'd calibration_tracker" where
  "calibration_tracker_observe D observed_ppm t =
     (let t = t\<lparr>measurements := measurements t + 1, recent_ppm := (recent_ppm t)[recent_head t := observed_ppm],
               recent_head := (recent_head t + 1) mod CALIBRATION_RECENT,
               recent_count := (if recent_count t < CALIBRATION_RECENT then recent_count t + 1 else recent_count t)\<rparr>;
          (center, spread) = robust_center_spread D (recent_ppm t) (int (recent_count t));
          t = t\<lparr>recent_center := center, recent_spread := spread\<rparr>
      in t\<lparr>recent_sem := calibration_standard_error D (recent_spread t) (int (recent_count t))\<rparr>)"

text \<open>
  A block of a GSM calibration, as \<open>update_calibration_measurement\<close> takes it once the receiver has settled, and one of an
  LTE calibration, as \<open>update_lte_calibration\<close> does: what was detected in it, the residual of each source and the
  quality. The estimates come from the signal processing.
\<close>

record ('f, 'd) calibration_block =
  elapsed :: 'd
  have_fcch :: bool
  have_centroid :: bool
  fcch_ppm :: 'd
  centroid_ppm :: 'd
  have_cell :: bool
  lte_ppm :: 'd
  quality :: 'f

definition record_residual :: "'d double_ops \<Rightarrow> 'f sample_ops \<Rightarrow> ('f, 'd) calibration_block \<Rightarrow> 'd \<Rightarrow> 'd calibration_tracker \<Rightarrow>
    'd calibration_tracker" where
  "record_residual D F b observed_ppm t =
     (let t = calibration_tracker_observe D observed_ppm t
      in t\<lparr>stable := calibration_is_stable D F (elapsed b) (measurements t) (recent_count t) (recent_sem t) (source t) (quality b)\<rparr>)"

definition gsm_calibration_block :: "'d double_ops \<Rightarrow> 'f sample_ops \<Rightarrow> ('f, 'd) calibration_block \<Rightarrow> 'd calibration_tracker \<Rightarrow>
    'd calibration_tracker" where
  "gsm_calibration_block D F b t =
     (case calibration_track D (have_fcch b) (have_centroid b) t of
        (CALIBRATION_USE_FCCH, t) \<Rightarrow> record_residual D F b (fcch_ppm b) t
      | (CALIBRATION_USE_CENTROID, t) \<Rightarrow> record_residual D F b (centroid_ppm b) t
      | (CALIBRATION_HOLD_TONE, t) \<Rightarrow> t
      | (CALIBRATION_NOTHING, t) \<Rightarrow> t)"

definition lte_calibration_block :: "'d double_ops \<Rightarrow> 'f sample_ops \<Rightarrow> ('f, 'd) calibration_block \<Rightarrow> 'd calibration_tracker \<Rightarrow>
    'd calibration_tracker" where
  "lte_calibration_block D F b t =
     (if \<not> have_cell b then t
      else record_residual D F b (lte_ppm b) (calibration_tracker_use D CALIBRATION_SOURCE_LTE t))"

subsection \<open>The gate and its reasons\<close>

text \<open>A calibration is stable exactly when no clause of the gate is named as unmet, so a screen that shows the reason
  never shows one for a lock and never shows none without one. It needs comparisons in which one of \<open>a < b\<close> and
  \<open>a \<ge> b\<close> holds, which is every \<open>double\<close> and \<open>float\<close> but the NaNs.\<close>

theorem calibration_gate_agrees:
  assumes "\<forall>x y. d_gt D x y = (\<not> d_ge D y x)" "\<forall>x y. s_gt F x y = (\<not> s_ge F y x)"
  shows "calibration_is_stable D F seconds n residuals sem s q = (calibration_gate_unmet D F seconds n residuals sem s q = None)"
  by (auto simp: calibration_is_stable_def calibration_gate_unmet_def assms Let_def)

theorem calibration_gate_agrees_witness:
  "calibration_is_stable exact_doubles exact_samples 10 40 40 (1 / 2) CALIBRATION_SOURCE_LTE (1 / 2) =
    (calibration_gate_unmet exact_doubles exact_samples 10 40 40 (1 / 2) CALIBRATION_SOURCE_LTE (1 / 2) = None)"
  by (rule calibration_gate_agrees) (auto simp: exact_samples_def)

subsection \<open>The centre is robust\<close>

lemma qsort_exact: "qsort (calibration_compare_double exact_doubles) xs = sort xs"
proof -
  have "insert_with (calibration_compare_double exact_doubles) x ys = insort x ys" for x ys
    by (induction ys) (auto simp: calibration_compare_double_def)
  then show ?thesis by (induction xs) (simp_all add: qsort_def)
qed

lemma sorted_below:
  fixes ys :: "real list"
  assumes "sorted ys" "k < length ys" "ys ! k < a"
  shows "k < length (filter (\<lambda>y. y < a) ys)"
proof -
  have "y < a" if y: "y \<in> set (take (Suc k) ys)" for y
  proof -
    obtain i where "i \<le> k" "y = ys ! i" using y assms(2) by (auto simp: in_set_conv_nth less_Suc_eq_le)
    moreover then have "ys ! i \<le> ys ! k" using assms(1,2) by (intro sorted_nth_mono) simp_all
    ultimately show ?thesis using assms(3) by simp
  qed
  then have "filter (\<lambda>y. y < a) (take (Suc k) ys) = take (Suc k) ys" by (simp add: filter_id_conv)
  then have "Suc k \<le> length (filter (\<lambda>y. y < a) (take (Suc k) ys @ drop (Suc k) ys))"
    unfolding filter_append length_append using assms(2) by simp
  then show ?thesis by simp
qed

lemma sorted_above:
  fixes ys :: "real list"
  assumes "sorted ys" "k < length ys" "b < ys ! k"
  shows "length ys - k \<le> length (filter (\<lambda>y. b < y) ys)"
proof -
  have "b < y" if y: "y \<in> set (drop k ys)" for y
  proof -
    obtain i where "i < length ys - k" "y = ys ! (k + i)" using y assms(2) by (auto simp: in_set_conv_nth)
    moreover then have "ys ! k \<le> ys ! (k + i)" using assms(1) by (intro sorted_nth_mono) simp_all
    ultimately show ?thesis using assms(3) by simp
  qed
  then have "filter (\<lambda>y. b < y) (drop k ys) = drop k ys" by (simp add: filter_id_conv)
  then have "length ys - k \<le> length (filter (\<lambda>y. b < y) (take k ys @ drop k ys))"
    unfolding filter_append length_append by simp
  then show ?thesis by simp
qed

lemma majority_middle:
  fixes xs :: "real list"
  assumes "2 * length (filter (\<lambda>x. a \<le> x \<and> x \<le> b) xs) > length xs"
  shows "a \<le> middle exact_doubles (sort xs) \<and> middle exact_doubles (sort xs) \<le> b"
proof -
  define ys where "ys = sort xs"
  have len: "length ys = length xs" and srt: "sorted ys" by (simp_all add: ys_def)
  have cnt: "length (filter P ys) = length (filter P xs)" for P
    unfolding ys_def by (metis mset_filter mset_sort size_mset)
  have "length (filter (\<lambda>x. x < a) xs) + length (filter (\<lambda>x. a \<le> x \<and> x \<le> b) xs) \<le> length xs"
    "length (filter (\<lambda>x. b < x) xs) + length (filter (\<lambda>x. a \<le> x \<and> x \<le> b) xs) \<le> length xs"
    by (induction xs) auto
  then have few: "2 * length (filter (\<lambda>x. x < a) ys) < length ys" "2 * length (filter (\<lambda>x. b < x) ys) < length ys"
    using assms by (simp_all add: cnt len)
  have low: "a \<le> ys ! k" if "k < length ys" "length ys \<le> 2 * Suc k" for k
    using sorted_below [OF srt that(1), of a] few(1) that(2) by fastforce
  have high: "ys ! k \<le> b" if "k < length ys" "2 * k \<le> length ys" for k
    using sorted_above [OF srt that(1), of b] few(2) that(2) by fastforce
  have pos: "0 < length ys" using few(1) by (cases ys) simp_all
  show ?thesis
  proof (cases "length ys mod 2 = 0")
    case False
    then show ?thesis using low [of "length ys div 2"] high [of "length ys div 2"] pos
      by (simp add: middle_def ys_def [symmetric] Let_def)
  next
    case True
    define m where "m = length ys div 2"
    have m: "length ys = 2 * m" "0 < m" using True pos unfolding m_def by presburger+
    have "a \<le> ys ! (m - 1)" "a \<le> ys ! m" "ys ! (m - 1) \<le> b" "ys ! m \<le> b" using m by (auto intro: low high)
    then show ?thesis using True by (simp add: middle_def ys_def [symmetric] m_def [symmetric] Let_def exact_lit)
  qed
qed

text \<open>C38: The centre the correction is made from cannot be moved by a minority: in arithmetic without rounding, when more than
  half of the residuals used lie in an interval, whatever the others are, the centre lies in it, and the spread is at
  most 1.4826 times the interval's length.\<close>

theorem calibration_centre_robust:
  assumes "0 < n" "n \<le> 64" "n \<le> length xs"
    and "2 * length (filter (\<lambda>x. a \<le> x \<and> x \<le> b) (take n xs)) > n"
  shows "a \<le> fst (robust_center_spread exact_doubles xs (int n)) \<and>
    fst (robust_center_spread exact_doubles xs (int n)) \<le> b \<and>
    0 \<le> snd (robust_center_spread exact_doubles xs (int n)) \<and>
    snd (robust_center_spread exact_doubles xs (int n)) \<le> 14826 / 10000 * (b - a)"
proof -
  define ys where "ys = take n xs"
  define c where "c = middle exact_doubles (sort ys)"
  have len: "length ys = n" using assms(3) by (simp add: ys_def)
  have c: "a \<le> c" "c \<le> b" unfolding c_def using majority_middle [of ys a b] assms(4) by (simp_all add: len ys_def)
  let ?d = "map (\<lambda>x. \<bar>x - c\<bar>) ys"
  have "length (filter (\<lambda>x. a \<le> x \<and> x \<le> b) ys) \<le> length (filter (\<lambda>x. 0 \<le> x \<and> x \<le> b - a) ?d)"
    using c by (induction ys) auto
  then have "0 \<le> middle exact_doubles (sort ?d) \<and> middle exact_doubles (sort ?d) \<le> b - a"
    using assms(4) by (intro majority_middle) (simp add: len ys_def [symmetric])
  moreover have "robust_center_spread exact_doubles xs (int n) = (c, 14826 / 10000 * middle exact_doubles (sort ?d))"
    using assms(1,2) by (simp add: robust_center_spread_def CALIBRATION_RECENT_def qsort_exact ys_def [symmetric]
        c_def [symmetric] Let_def exact_lit)
  ultimately show ?thesis using c by simp
qed

theorem calibration_centre_robust_witness:
  "10 \<le> fst (robust_center_spread exact_doubles [10, 11, 500, 12, 900] (int 5)) \<and>
   fst (robust_center_spread exact_doubles [10, 11, 500, 12, 900] (int 5)) \<le> 12"
  using calibration_centre_robust [of 5 "[10, 11, 500, 12, 900]" 10 12] by simp

subsection \<open>One source in the buffer\<close>

text \<open>The residuals the buffer holds, oldest first, and what the blocks of a GSM calibration recorded, with its source.\<close>

definition residuals :: "'d calibration_tracker \<Rightarrow> 'd list" where
  "residuals t = (if recent_count t < CALIBRATION_RECENT then take (recent_count t) (recent_ppm t)
     else drop (recent_head t) (recent_ppm t) @ take (recent_head t) (recent_ppm t))"

definition block_records :: "'d double_ops \<Rightarrow> ('f, 'd) calibration_block \<Rightarrow> 'd calibration_tracker \<Rightarrow> (int \<times> 'd) list" where
  "block_records D b t =
     (case fst (calibration_track D (have_fcch b) (have_centroid b) t) of
        CALIBRATION_USE_FCCH \<Rightarrow> [(CALIBRATION_SOURCE_FCCH, fcch_ppm b)]
      | CALIBRATION_USE_CENTROID \<Rightarrow> [(CALIBRATION_SOURCE_CENTROID, centroid_ppm b)]
      | _ \<Rightarrow> [])"

fun gsm_session :: "'d double_ops \<Rightarrow> 'f sample_ops \<Rightarrow> ('f, 'd) calibration_block list \<Rightarrow> 'd calibration_tracker \<Rightarrow>
    'd calibration_tracker \<times> (int \<times> 'd) list" where
  "gsm_session D F [] t = (t, [])"
| "gsm_session D F (b # bs) t =
     (let (t', records) = gsm_session D F bs (gsm_calibration_block D F b t) in (t', block_records D b t @ records))"

definition last_n :: "nat \<Rightarrow> 'a list \<Rightarrow> 'a list" where
  "last_n n xs = drop (length xs - n) xs"

definition buffer_ok :: "'d calibration_tracker \<Rightarrow> (int \<times> 'd) list \<Rightarrow> bool" where
  "buffer_ok t records =
     (length (recent_ppm t) = 64 \<and> recent_head t < 64 \<and> recent_count t \<le> 64 \<and>
      (recent_count t < 64 \<longrightarrow> recent_head t = recent_count t) \<and> recent_count t \<le> length records \<and>
      (source t = CALIBRATION_SOURCE_CENTROID \<or> source t = CALIBRATION_SOURCE_FCCH) \<and>
      last_n (recent_count t) records = map (Pair (source t)) (residuals t))"

lemma last_n_simps [simp]: "last_n 0 xs = []" "length xs = n \<Longrightarrow> last_n n xs = xs"
  by (simp_all add: last_n_def)

lemma last_n_snoc: "n < length xs \<Longrightarrow> last_n (Suc n) (xs @ [x]) = last_n n xs @ [x]" "n = length xs \<Longrightarrow> last_n (Suc n) (xs @ [x]) = last_n n xs @ [x]"
  by (simp_all add: last_n_def)

lemma reset_fields [simp]:
  "recent_count (calibration_tracker_reset D t) = 0" "recent_head (calibration_tracker_reset D t) = 0"
  "recent_ppm (calibration_tracker_reset D t) = recent_ppm t" "source (calibration_tracker_reset D t) = source t"
  "fcch_miss (calibration_tracker_reset D t) = fcch_miss t" "fcch_locked (calibration_tracker_reset D t) = fcch_locked t"
  by (simp_all add: calibration_tracker_reset_def)

lemma observe_fields [simp]:
  "recent_ppm (calibration_tracker_observe D x t) = (recent_ppm t)[recent_head t := x]"
  "recent_head (calibration_tracker_observe D x t) = (recent_head t + 1) mod 64"
  "recent_count (calibration_tracker_observe D x t) = (if recent_count t < 64 then recent_count t + 1 else recent_count t)"
  "source (calibration_tracker_observe D x t) = source t"
  "fcch_miss (calibration_tracker_observe D x t) = fcch_miss t"
  by (simp_all add: calibration_tracker_observe_def CALIBRATION_RECENT_def Let_def split: prod.split)

lemma record_fields [simp]:
  "recent_ppm (record_residual D F b x t) = (recent_ppm t)[recent_head t := x]"
  "recent_head (record_residual D F b x t) = (recent_head t + 1) mod 64"
  "recent_count (record_residual D F b x t) = (if recent_count t < 64 then recent_count t + 1 else recent_count t)"
  "source (record_residual D F b x t) = source t"
  "fcch_miss (record_residual D F b x t) = fcch_miss t"
  by (simp_all add: record_residual_def Let_def)

lemma ring_push:
  assumes "length ring = 64" "head < 64"
  shows "drop ((head + 1) mod 64) (ring[head := x]) @ take ((head + 1) mod 64) (ring[head := x]) =
    tl (drop head ring @ take head ring) @ [x]"
proof (cases "head = 63")
  case True
  then show ?thesis using assms
    by (intro nth_equalityI) (auto simp: nth_append nth_list_update nth_tl min_def)
next
  case False
  then have "(head + 1) mod 64 = Suc head" using assms by simp
  moreover have "drop head ring = ring ! head # drop (Suc head) ring" using assms by (simp add: Cons_nth_drop_Suc)
  moreover have "take (Suc head) (ring[head := x]) = take head ring @ [x]" using assms by simp
  moreover have "drop (Suc head) (ring[head := x]) = drop (Suc head) ring" by simp
  ultimately show ?thesis by simp
qed

lemma residuals_record:
  assumes "length (recent_ppm t) = 64" "recent_head t < 64" "recent_count t \<le> 64"
    and "recent_count t < 64 \<longrightarrow> recent_head t = recent_count t"
  shows "residuals (record_residual D F b x t) =
    (if recent_count t < 64 then residuals t @ [x] else tl (residuals t) @ [x])"
proof (cases "recent_count t < 64")
  case False
  then show ?thesis using assms ring_push [of "recent_ppm t" "recent_head t" x]
    by (simp add: residuals_def CALIBRATION_RECENT_def)
next
  case less: True
  show ?thesis
  proof (cases "recent_count t = 63")
    case True
    have "(recent_ppm t)[63 := x] = take (Suc 63) ((recent_ppm t)[63 := x])" using assms(1) by simp
    also have "\<dots> = take 63 (recent_ppm t) @ [x]" using assms(1) by (subst take_Suc_update) simp_all
    finally show ?thesis using True assms by (simp add: residuals_def CALIBRATION_RECENT_def)
  next
    case False
    then show ?thesis using less assms by (simp add: residuals_def CALIBRATION_RECENT_def)
  qed
qed

lemma buffer_record:
  assumes "buffer_ok t records"
  shows "buffer_ok (record_residual D F b x t) (records @ [(source t, x)])"
proof -
  note ok = assms [unfolded buffer_ok_def]
  have len: "length (residuals t) = recent_count t" using ok by (auto simp: residuals_def CALIBRATION_RECENT_def)
  have res: "residuals (record_residual D F b x t) =
    (if recent_count t < 64 then residuals t @ [x] else tl (residuals t) @ [x])"
    using ok by (intro residuals_record) auto
  have "last_n (recent_count (record_residual D F b x t)) (records @ [(source t, x)]) =
      map (Pair (source t)) (residuals (record_residual D F b x t))"
  proof (cases "recent_count t < 64")
    case True
    then show ?thesis using ok last_n_snoc [of "recent_count t" records "(source t, x)"]
      by (auto simp: res le_less)
  next
    case False
    then have "last_n 64 (records @ [(source t, x)]) = tl (last_n 64 records) @ [(source t, x)]"
      using ok by (simp add: last_n_def tl_drop Suc_diff_le [symmetric] drop_Suc [symmetric])
    moreover have "recent_count t = 64" "last_n 64 records = map (Pair (source t)) (residuals t)" using False ok by auto
    ultimately show ?thesis by (simp add: res map_tl)
  qed
  then show ?thesis using ok by (auto simp: buffer_ok_def)
qed

lemma buffer_empty:
  "buffer_ok t records \<Longrightarrow> recent_count t' = 0 \<Longrightarrow> recent_head t' = 0 \<Longrightarrow> recent_ppm t' = recent_ppm t \<Longrightarrow>
    source t' = CALIBRATION_SOURCE_CENTROID \<or> source t' = CALIBRATION_SOURCE_FCCH \<Longrightarrow> buffer_ok t' records"
  by (auto simp: buffer_ok_def residuals_def CALIBRATION_RECENT_def)

lemma buffer_same:
  "buffer_ok t records \<Longrightarrow> recent_count t' = recent_count t \<Longrightarrow> recent_head t' = recent_head t \<Longrightarrow>
    recent_ppm t' = recent_ppm t \<Longrightarrow> source t' = source t \<Longrightarrow> buffer_ok t' records"
  by (simp add: buffer_ok_def residuals_def)

lemma track_buffer:
  assumes "buffer_ok t records" "calibration_track D hf hc t = (a, t')"
  shows "buffer_ok t' records \<and> (a = CALIBRATION_USE_FCCH \<longrightarrow> source t' = CALIBRATION_SOURCE_FCCH) \<and>
    (a = CALIBRATION_USE_CENTROID \<longrightarrow> source t' = CALIBRATION_SOURCE_CENTROID)"
proof -
  have src: "source t = CALIBRATION_SOURCE_CENTROID \<or> source t = CALIBRATION_SOURCE_FCCH"
    using assms(1) by (simp add: buffer_ok_def)
  show ?thesis
    using assms(2) src
    by (auto simp: calibration_track_def calibration_source_matches_def Let_def split: if_splits
        intro: buffer_empty [OF assms(1)] buffer_same [OF assms(1)])
qed

lemma gsm_block_buffer:
  assumes "buffer_ok t records"
  shows "buffer_ok (gsm_calibration_block D F b t) (records @ block_records D b t)"
proof -
  obtain a t' where tr: "calibration_track D (have_fcch b) (have_centroid b) t = (a, t')" by fastforce
  note ok = track_buffer [OF assms tr]
  show ?thesis
    using ok buffer_record [of t' records D F b "fcch_ppm b"] buffer_record [of t' records D F b "centroid_ppm b"]
    by (cases a) (simp_all add: gsm_calibration_block_def block_records_def tr)
qed

lemma gsm_session_buffer:
  "buffer_ok t records \<Longrightarrow> buffer_ok (fst (gsm_session D F bs t)) (records @ snd (gsm_session D F bs t))"
proof (induction bs arbitrary: t records)
  case (Cons b bs)
  show ?case using Cons.IH [OF gsm_block_buffer [OF Cons.prems, of D F b]] by (simp add: case_prod_unfold Let_def)
qed simp

text \<open>C22: The residuals the gate judges all come from one source. Whatever a GSM calibration's blocks bring, the buffer
  holds exactly the residuals last recorded, at most sixty-four, and each of them was measured by the source the
  tracker names; no residual of another source is among them.\<close>

theorem calibration_buffer_one_source:
  assumes "length (recent_ppm t0) = 64"
    and "gsm_session D F blocks (calibration_tracker_init D t0) = (t, records)"
  shows "recent_count t \<le> 64 \<and> recent_count t \<le> length records \<and>
    last_n (recent_count t) records = map (Pair (source t)) (residuals t)"
proof -
  have "buffer_ok (calibration_tracker_init D t0) []"
    using assms(1) by (simp add: buffer_ok_def residuals_def calibration_tracker_init_def CALIBRATION_RECENT_def)
  from gsm_session_buffer [OF this, of D F blocks] show ?thesis using assms(2) by (simp add: buffer_ok_def)
qed

definition quiet_block :: "(real, real) calibration_block" where
  "quiet_block = \<lparr>elapsed = 9, have_fcch = False, have_centroid = True, fcch_ppm = 0, centroid_ppm = 7,
     have_cell = False, lte_ppm = 0, quality = 20\<rparr>"

definition fresh_tracker :: "real calibration_tracker" where
  "fresh_tracker = \<lparr>source = 0, fcch_locked = False, fcch_miss = 0, fcch_hits = 0, measurements = 0,
     recent_ppm = replicate 64 0, recent_count = 0, recent_head = 0, recent_center = 0, recent_spread = 0,
     recent_sem = 0, stable = False\<rparr>"

theorem calibration_buffer_one_source_witness:
  "\<exists>t records. gsm_session exact_doubles exact_samples [quiet_block, quiet_block\<lparr>have_fcch := True, fcch_ppm := 3\<rparr>, quiet_block]
      (calibration_tracker_init exact_doubles fresh_tracker) = (t, records) \<and>
    last_n (recent_count t) records = map (Pair (source t)) (residuals t)"
proof -
  let ?s = "gsm_session exact_doubles exact_samples [quiet_block, quiet_block\<lparr>have_fcch := True, fcch_ppm := 3\<rparr>, quiet_block]
      (calibration_tracker_init exact_doubles fresh_tracker)"
  have "?s = (fst ?s, snd ?s)" by simp
  moreover have "length (recent_ppm fresh_tracker) = 64" by (simp add: fresh_tracker_def)
  ultimately show ?thesis using calibration_buffer_one_source by blast
qed

subsection \<open>Giving up the tone\<close>

lemma miss_bound_block:
  "source t = CALIBRATION_SOURCE_FCCH \<longrightarrow> 0 \<le> fcch_miss t \<and> fcch_miss t < 12 \<Longrightarrow>
   source (gsm_calibration_block D F b t) = CALIBRATION_SOURCE_FCCH \<longrightarrow>
     0 \<le> fcch_miss (gsm_calibration_block D F b t) \<and> fcch_miss (gsm_calibration_block D F b t) < 12"
  by (auto simp: gsm_calibration_block_def calibration_track_def calibration_hold_through_miss_def
      CALIBRATION_FCCH_MISS_LIMIT_def Let_def source_defs split: if_splits)

lemma gsm_session_append:
  "fst (gsm_session D F (xs @ ys) t) = fst (gsm_session D F ys (fst (gsm_session D F xs t)))"
  by (induction xs arbitrary: t) (simp_all add: case_prod_unfold Let_def)

lemma miss_bound_session:
  "source t = CALIBRATION_SOURCE_FCCH \<longrightarrow> 0 \<le> fcch_miss t \<and> fcch_miss t < 12 \<Longrightarrow>
   source (fst (gsm_session D F bs t)) = CALIBRATION_SOURCE_FCCH \<longrightarrow>
     0 \<le> fcch_miss (fst (gsm_session D F bs t)) \<and> fcch_miss (fst (gsm_session D F bs t)) < 12"
proof (induction bs arbitrary: t)
  case (Cons b bs)
  show ?case using Cons.IH [OF miss_bound_block [OF Cons.prems, of D F b]] by (simp add: case_prod_unfold Let_def)
qed simp

lemma quiet_block_centroid:
  "\<not> have_fcch b \<Longrightarrow> source t \<noteq> CALIBRATION_SOURCE_FCCH \<Longrightarrow>
    source (gsm_calibration_block D F b t) = source t"
  by (auto simp: gsm_calibration_block_def calibration_track_def Let_def)

lemma gsm_session_source:
  "source t = CALIBRATION_SOURCE_CENTROID \<or> source t = CALIBRATION_SOURCE_FCCH \<Longrightarrow>
    source (fst (gsm_session D F bs t)) = CALIBRATION_SOURCE_CENTROID \<or>
    source (fst (gsm_session D F bs t)) = CALIBRATION_SOURCE_FCCH"
proof (induction bs arbitrary: t)
  case (Cons b bs)
  have "source (gsm_calibration_block D F b t) = CALIBRATION_SOURCE_CENTROID \<or>
      source (gsm_calibration_block D F b t) = CALIBRATION_SOURCE_FCCH"
    using Cons.prems by (auto simp: gsm_calibration_block_def calibration_track_def Let_def calibration_source_matches_def)
  from Cons.IH [OF this] show ?case by (simp add: case_prod_unfold Let_def)
qed simp

lemma quiet_block_hold:
  "\<not> have_fcch b \<Longrightarrow> source t = CALIBRATION_SOURCE_FCCH \<Longrightarrow> fcch_miss t + 1 < 12 \<Longrightarrow>
    gsm_calibration_block D F b t = t\<lparr>fcch_miss := fcch_miss t + 1\<rparr>"
  by (simp add: gsm_calibration_block_def calibration_track_def calibration_hold_through_miss_def
      CALIBRATION_FCCH_MISS_LIMIT_def Let_def)

lemma quiet_block_last:
  "\<not> have_fcch b \<Longrightarrow> source t = CALIBRATION_SOURCE_FCCH \<Longrightarrow> \<not> fcch_miss t + 1 < 12 \<Longrightarrow>
    source (gsm_calibration_block D F b t) = CALIBRATION_SOURCE_CENTROID"
  by (auto simp: gsm_calibration_block_def calibration_track_def calibration_hold_through_miss_def
      CALIBRATION_FCCH_MISS_LIMIT_def Let_def)

lemma quiet_session_centroid:
  "list_all (\<lambda>b. \<not> have_fcch b) bs \<Longrightarrow> source t \<noteq> CALIBRATION_SOURCE_FCCH \<Longrightarrow>
    source (fst (gsm_session D F bs t)) = source t"
  by (induction bs arbitrary: t) (simp_all add: case_prod_unfold Let_def quiet_block_centroid)

lemma quiet_session:
  assumes "list_all (\<lambda>b. \<not> have_fcch b) bs" "source t = CALIBRATION_SOURCE_FCCH" "0 \<le> fcch_miss t" "fcch_miss t < 12"
  shows "if fcch_miss t + int (length bs) < 12
    then fst (gsm_session D F bs t) = t\<lparr>fcch_miss := fcch_miss t + int (length bs)\<rparr>
    else source (fst (gsm_session D F bs t)) = CALIBRATION_SOURCE_CENTROID"
  using assms
proof (induction bs arbitrary: t)
  case (Cons b bs)
  let ?t = "gsm_calibration_block D F b t"
  show ?case
  proof (cases "fcch_miss t + 1 < 12")
    case True
    then have t: "?t = t\<lparr>fcch_miss := fcch_miss t + 1\<rparr>" using Cons.prems by (intro quiet_block_hold) simp_all
    show ?thesis using Cons.IH [of ?t, unfolded t] Cons.prems True
      by (auto simp: t case_prod_unfold Let_def add.assoc [symmetric] add.commute [of _ 1] split: if_splits)
  next
    case False
    then have "source ?t = CALIBRATION_SOURCE_CENTROID" using Cons.prems by (intro quiet_block_last) simp_all
    then have "source (fst (gsm_session D F bs ?t)) = CALIBRATION_SOURCE_CENTROID"
      using Cons.prems(1) quiet_session_centroid [of bs ?t D F] by (simp add: source_defs)
    then show ?thesis using False by (simp add: case_prod_unfold Let_def)
  qed
qed simp

text \<open>C23: A tone that has gone is given up: in every state a GSM calibration reaches, twelve blocks without a tone leave the
  tracker on the centroid, whatever else they bring; and while it still holds, which is through at most eleven, the blocks
  without a tone change nothing but the count of them.\<close>

theorem calibration_gives_up_tone:
  assumes "t = fst (gsm_session D F blocks (calibration_tracker_init D t0))"
    and "list_all (\<lambda>b. \<not> have_fcch b) silence"
  shows "(length silence \<ge> 12 \<longrightarrow> source (fst (gsm_session D F silence t)) = CALIBRATION_SOURCE_CENTROID) \<and>
    (source (fst (gsm_session D F silence t)) = CALIBRATION_SOURCE_FCCH \<longrightarrow>
       length silence \<le> 11 \<and> fst (gsm_session D F silence t) = t\<lparr>fcch_miss := fcch_miss t + int (length silence)\<rparr>)"
proof -
  have init: "source (calibration_tracker_init D t0) = CALIBRATION_SOURCE_CENTROID"
    by (simp add: calibration_tracker_init_def)
  then have miss: "source t = CALIBRATION_SOURCE_FCCH \<longrightarrow> 0 \<le> fcch_miss t \<and> fcch_miss t < 12"
    unfolding assms(1) by (intro miss_bound_session) (simp add: source_defs)
  have "source t = CALIBRATION_SOURCE_CENTROID \<or> source t = CALIBRATION_SOURCE_FCCH"
    unfolding assms(1) by (rule gsm_session_source) (simp add: init)
  then show ?thesis
  proof
    assume "source t = CALIBRATION_SOURCE_CENTROID"
    then show ?thesis using quiet_session_centroid [OF assms(2), of t D F] by (simp add: source_defs)
  next
    assume t: "source t = CALIBRATION_SOURCE_FCCH"
    then have "if fcch_miss t + int (length silence) < 12
      then fst (gsm_session D F silence t) = t\<lparr>fcch_miss := fcch_miss t + int (length silence)\<rparr>
      else source (fst (gsm_session D F silence t)) = CALIBRATION_SOURCE_CENTROID"
      using miss by (intro quiet_session [OF assms(2)]) simp_all
    then show ?thesis using t miss by (auto simp: source_defs split: if_splits)
  qed
qed

theorem calibration_gives_up_tone_witness:
  "source (fst (gsm_session exact_doubles exact_samples (replicate 12 quiet_block)
     (fst (gsm_session exact_doubles exact_samples [quiet_block\<lparr>have_fcch := True\<rparr>]
       (calibration_tracker_init exact_doubles fresh_tracker))))) = CALIBRATION_SOURCE_CENTROID"
  using calibration_gives_up_tone [OF refl, of "replicate 12 quiet_block" exact_doubles exact_samples
      "[quiet_block\<lparr>have_fcch := True\<rparr>]" fresh_tracker]
  by (simp add: list_all_iff quiet_block_def)

text \<open>An LTE calibration's buffer is another matter: the tracker of a GSM one does not empty it, and a centroid's residual
  joins those of the cell under the cell's name. A calibration that begins with \<open>calibration_tracker_init\<close> never gets
  there.\<close>

lemma calibration_track_keeps_lte:
  assumes "source t = CALIBRATION_SOURCE_LTE"
  shows "calibration_track D False True t = (CALIBRATION_USE_CENTROID, t\<lparr>fcch_locked := False\<rparr>)"
  using assms by (simp add: calibration_track_def source_defs)

end
