(* ===== verification/Config.thy ===== *)
theory Config
  imports C_Text
begin

unbundle bit_operations_syntax

text \<open>
  The settings that outlive a run, \<open>src/src/runtime/config.c\<close> and its header: what the operator said of the
  installation, the sites, antennas and calibrations remembered, and the file they are kept in. A \<open>char\<close> array is
  the string it holds, an array with its count the list of the entries in use; a line is parsed and printed
  character by character. Only the path and the file operations are left out.
\<close>

subsection \<open>The settings\<close>

definition CONFIG_VALUE_MAX :: nat where "CONFIG_VALUE_MAX = 96"
definition CONFIG_UNKNOWN_MAX :: nat where "CONFIG_UNKNOWN_MAX = 8"
definition CONFIG_SITES_MAX :: nat where "CONFIG_SITES_MAX = 12"
definition CONFIG_ANTENNAS_MAX :: nat where "CONFIG_ANTENNAS_MAX = 8"
definition CONFIG_ANTENNA_DEFAULT :: string where "CONFIG_ANTENNA_DEFAULT = ''telescopic''"
definition CONFIG_CALIBRATIONS_MAX :: nat where "CONFIG_CALIBRATIONS_MAX = 32"

record config_site =
  site_label :: string
  site_ppm :: int

record config_calibration =
  cal_receiver :: string
  cal_site :: string
  cal_ppm :: int

record config =
  antenna :: string
  fft_size :: int
  site :: string
  sites :: "config_site list"
  calibrations :: "config_calibration list"
  antennas :: "string list"
  unknown :: "string list"

definition copy_value :: "nat \<Rightarrow> string \<Rightarrow> string" where
  "copy_value size_out v = take (size_out - 1) v"

definition config_defaults :: config where
  "config_defaults = \<lparr>antenna = copy_value CONFIG_VALUE_MAX CONFIG_ANTENNA_DEFAULT, fft_size = 0, site = [],
     sites = [], calibrations = [], antennas = [copy_value CONFIG_VALUE_MAX CONFIG_ANTENNA_DEFAULT], unknown = []\<rparr>"

text \<open>The loop that looks for an entry does not stop at the first: the last one that matches is found.\<close>

definition last_index :: "('a \<Rightarrow> bool) \<Rightarrow> 'a list \<Rightarrow> nat option" where
  "last_index P xs = foldl (\<lambda>found i. if P (xs ! i) then Some i else found) None [0..<length xs]"

text \<open>The two shifts of an array: an entry to the front, and a new one there, the last one lost when there is no
  room.\<close>

definition move_front :: "nat \<Rightarrow> 'a list \<Rightarrow> 'a list" where
  "move_front k xs = xs ! k # take k xs @ drop (k + 1) xs"

definition push_front :: "nat \<Rightarrow> 'a \<Rightarrow> 'a list \<Rightarrow> 'a list" where
  "push_front most x xs = (let n = (if length xs < most then length xs + 1 else length xs) in x # take (n - 1) xs)"

definition config_remember_site :: "config \<Rightarrow> string \<Rightarrow> config \<times> int" where
  "config_remember_site c s =
     (if s = [] then (c, 0)
      else case last_index (\<lambda>x. site_label x = s) (sites c) of
             Some k \<Rightarrow> (if k = 0 then (c, 0) else (c\<lparr>sites := move_front k (sites c)\<rparr>, 0))
           | None \<Rightarrow> (c\<lparr>sites := push_front CONFIG_SITES_MAX
               \<lparr>site_label = copy_value CONFIG_VALUE_MAX s, site_ppm = 0\<rparr> (sites c)\<rparr>, 1))"

definition config_remember_antenna :: "config \<Rightarrow> string \<Rightarrow> config \<times> int" where
  "config_remember_antenna c a =
     (if a = [] then (c, 0)
      else case last_index (\<lambda>x. x = a) (antennas c) of
             Some k \<Rightarrow> (if k = 0 then (c, 0) else (c\<lparr>antennas := move_front k (antennas c)\<rparr>, 0))
           | None \<Rightarrow> (c\<lparr>antennas := push_front CONFIG_ANTENNAS_MAX (copy_value CONFIG_VALUE_MAX a) (antennas c)\<rparr>, 1))"

definition config_site_ppm :: "config \<Rightarrow> string \<Rightarrow> int" where
  "config_site_ppm c s =
     (if s = [] then 0
      else case find (\<lambda>x. site_label x = s) (sites c) of Some x \<Rightarrow> site_ppm x | None \<Rightarrow> 0)"

definition config_set_site_ppm :: "config \<Rightarrow> string \<Rightarrow> int \<Rightarrow> config \<times> int" where
  "config_set_site_ppm c s ppm =
     (if s = [] then (c, 0)
      else
        let c = fst (config_remember_site c s) in
        case first_index (\<lambda>x. site_label x = s) (sites c) of
          Some k \<Rightarrow> (if site_ppm (sites c ! k) = ppm then (c, 0)
                      else (c\<lparr>sites := (sites c)[k := (sites c ! k)\<lparr>site_ppm := ppm\<rparr>]\<rparr>, 1))
        | None \<Rightarrow> (c, 0))"

definition sdr_dsp_fft_size_valid :: "int \<Rightarrow> bool" where
  "sdr_dsp_fft_size_valid n = (n \<ge> 256 \<and> n \<le> 16384 \<and> n AND (n - 1) = 0)"

definition config_set_fft_size :: "config \<Rightarrow> int \<Rightarrow> config \<times> int" where
  "config_set_fft_size c n =
     (if \<not> sdr_dsp_fft_size_valid n then (c, 0) else if fft_size c = n then (c, 0) else (c\<lparr>fft_size := n\<rparr>, 1))"

definition config_calibration_ppm :: "config \<Rightarrow> string \<Rightarrow> string \<Rightarrow> int option" where
  "config_calibration_ppm c r s =
     (if r = [] \<or> s = [] then None
      else map_option cal_ppm (find (\<lambda>x. cal_receiver x = r \<and> cal_site x = s) (calibrations c)))"

definition config_set_calibration :: "config \<Rightarrow> string \<Rightarrow> string \<Rightarrow> int \<Rightarrow> config \<times> int" where
  "config_set_calibration c r s ppm =
     (if r = [] \<or> s = [] then (c, - 1)
      else case first_index (\<lambda>x. cal_receiver x = r \<and> cal_site x = s) (calibrations c) of
             Some k \<Rightarrow> (if cal_ppm (calibrations c ! k) = ppm then (c, 0)
               else (c\<lparr>calibrations := (calibrations c)[k := (calibrations c ! k)\<lparr>cal_ppm := ppm\<rparr>]\<rparr>, 1))
           | None \<Rightarrow>
               if length (calibrations c) \<ge> CONFIG_CALIBRATIONS_MAX then (c, - 1)
               else (c\<lparr>calibrations := calibrations c @ [\<lparr>cal_receiver = copy_value CONFIG_VALUE_MAX r,
                       cal_site = copy_value CONFIG_VALUE_MAX s, cal_ppm = ppm\<rparr>]\<rparr>, 1))"

definition config_clear_legacy_ppm :: "config \<Rightarrow> string \<Rightarrow> config \<times> int" where
  "config_clear_legacy_ppm c s =
     (if s = [] then (c, 0)
      else case first_index (\<lambda>x. site_label x = s) (sites c) of
             Some k \<Rightarrow> (if site_ppm (sites c ! k) = 0 then (c, 0)
                         else (c\<lparr>sites := (sites c)[k := (sites c ! k)\<lparr>site_ppm := 0\<rparr>]\<rparr>, 1))
           | None \<Rightarrow> (c, 0))"

subsection \<open>Reading the file\<close>

definition blank :: "char \<Rightarrow> bool" where "blank ch = (ch = CHR '' '' \<or> ch = CHR 0x09)"

function text_lines :: "string \<Rightarrow> string list" where
  "text_lines [] = []"
| "text_lines (ch # s) = takeWhile (\<lambda>x. x \<noteq> CHR 0x0A) (ch # s) #
     text_lines (drop 1 (dropWhile (\<lambda>x. x \<noteq> CHR 0x0A) (ch # s)))"
  by pat_completeness auto
termination
  by (relation "measure length") (auto simp: less_Suc_eq_le intro: le_trans [OF diff_le_self] length_dropWhile_le)

definition trim_end :: "string \<Rightarrow> string" where
  "trim_end s = rev (dropWhile (\<lambda>x. x = CHR '' '') (rev s))"

definition atoi :: "string \<Rightarrow> int" where
  "atoi s = (case strtol s of None \<Rightarrow> 0 | Some (v, _, _) \<Rightarrow> to_int v)"

definition parse_calibration :: "string \<Rightarrow> config \<Rightarrow> config" where
  "parse_calibration v c =
     (let receiver = takeWhile (\<lambda>x. \<not> blank x) v; after = dropWhile (\<lambda>x. \<not> blank x) v
      in if after = [] then c
         else case strtol (dropWhile blank after) of
                None \<Rightarrow> c
              | Some (ppm, after, _) \<Rightarrow>
                  if after = [] \<or> \<not> blank (hd after) then c
                  else
                    let s = dropWhile blank after
                    in if s \<noteq> [] \<and> receiver \<noteq> [] \<and> length (calibrations c) < CONFIG_CALIBRATIONS_MAX
                       then c\<lparr>calibrations := calibrations c @ [\<lparr>cal_receiver = copy_value CONFIG_VALUE_MAX receiver,
                              cal_site = copy_value CONFIG_VALUE_MAX s, cal_ppm = to_int ppm\<rparr>]\<rparr>
                       else c)"

definition parse_known_site :: "string \<Rightarrow> config \<Rightarrow> config" where
  "parse_known_site v c =
     (let (ppm, label) =
        (if v \<noteq> [] \<and> (hd v = CHR ''-'' \<or> hd v = CHR ''+'' \<or> isdigit (hd v)) then
           case strtol v of
             None \<Rightarrow> (0, v)
           | Some (parsed, after, _) \<Rightarrow>
               if after \<noteq> [] \<and> blank (hd after) then (to_int parsed, dropWhile blank after) else (0, v)
         else (0, v))
      in if length (sites c) < CONFIG_SITES_MAX \<and> label \<noteq> []
         then c\<lparr>sites := sites c @ [\<lparr>site_label = copy_value CONFIG_VALUE_MAX label, site_ppm = ppm\<rparr>]\<rparr> else c)"

definition parse_setting :: "string \<Rightarrow> string \<Rightarrow> config \<times> int \<Rightarrow> config \<times> int" where
  "parse_setting key v = (\<lambda>(c, recognised).
     (if key = ''antenna'' then (c\<lparr>antenna := copy_value CONFIG_VALUE_MAX v\<rparr>, recognised + 1)
      else if key = ''fft_size'' then
        (if sdr_dsp_fft_size_valid (atoi v) then c\<lparr>fft_size := atoi v\<rparr> else c, recognised + 1)
      else if key = ''site'' then (c\<lparr>site := copy_value CONFIG_VALUE_MAX v\<rparr>, recognised + 1)
      else if key = ''known_antenna'' then
        (if v \<noteq> [] then fst (config_remember_antenna c v) else c, recognised + 1)
      else if key = ''calibration'' then (parse_calibration v c, recognised + 1)
      else if key = ''known_site'' then (parse_known_site v c, recognised + 1)
      else if length (unknown c) < CONFIG_UNKNOWN_MAX then
        (c\<lparr>unknown := unknown c @ [take (CONFIG_VALUE_MAX * 2 - 1) (key @ CHR '' '' # v)]\<rparr>, recognised)
      else (c, recognised)))"

definition parse_line :: "config \<times> int \<Rightarrow> string \<Rightarrow> config \<times> int" where
  "parse_line st line =
     (let key = trim_end (dropWhile blank (take (CONFIG_VALUE_MAX * 2 - 1) line))
      in if key = [] \<or> hd key = CHR ''#'' then st
         else parse_setting (takeWhile (\<lambda>x. \<not> blank x) key) (dropWhile blank (dropWhile (\<lambda>x. \<not> blank x) key)) st)"

definition config_parse :: "string \<Rightarrow> config \<times> int" where
  "config_parse text_in = foldl parse_line (config_defaults, 0) (text_lines text_in)"

subsection \<open>Writing it\<close>

definition format_head :: "string \<Rightarrow> string" where
  "format_head a = ''# sdrprobe. What describes the receiver'' @ [CHR 0x27] @ ''s situation'' @ [CHR 0x0A] @
     ''# rather than one run of it. Edited by --antenna and'' @ [CHR 0x0A] @
     ''# --site, and by hand if you prefer.'' @ [CHR 0x0A] @ ''antenna '' @ a @ [CHR 0x0A]"

definition format_pieces :: "config \<Rightarrow> string list" where
  "format_pieces c =
     [format_head (antenna c)] @
     (if fft_size c > 0 then [''fft_size '' @ signed_decimal (fft_size c) @ [CHR 0x0A]] else []) @
     (if site c \<noteq> [] then [''site '' @ site c @ [CHR 0x0A]] else []) @
     map (\<lambda>a. ''known_antenna '' @ a @ [CHR 0x0A]) (rev (antennas c)) @
     map (\<lambda>s. ''known_site '' @ signed_decimal (site_ppm s) @ '' '' @ site_label s @ [CHR 0x0A]) (sites c) @
     map (\<lambda>k. ''calibration '' @ cal_receiver k @ '' '' @ signed_decimal (cal_ppm k) @ '' '' @ cal_site k @ [CHR 0x0A])
       (calibrations c) @
     map (\<lambda>u. u @ [CHR 0x0A]) (unknown c)"

text \<open>Each \<open>snprintf\<close> in its turn, and the refusal when it does not fit; \<open>None\<close> is \<open>-1\<close>.\<close>

fun write_pieces :: "nat \<Rightarrow> string \<Rightarrow> string list \<Rightarrow> string option" where
  "write_pieces size_out out [] = Some out"
| "write_pieces size_out out (p # ps) =
     (if length out + length p \<ge> size_out then None else write_pieces size_out (out @ p) ps)"

definition config_format :: "config \<Rightarrow> nat \<Rightarrow> string option" where
  "config_format c size_out = write_pieces size_out [] (format_pieces c)"

text \<open>The bytes of the file: what \<open>config_save\<close> writes, and what \<open>config_load\<close> makes of a file it could open.\<close>

definition config_save_bytes :: "config \<Rightarrow> string option" where
  "config_save_bytes c = config_format c 4096"

definition config_load_bytes :: "string option \<Rightarrow> config \<times> int" where
  "config_load_bytes file =
     (case file of None \<Rightarrow> (config_defaults, 1)
      | Some bytes \<Rightarrow> (fst (config_parse (takeWhile (\<lambda>x. x \<noteq> CHR 0x00) (take 4095 bytes))), 0))"

end
