(* ===== verification/Config_File.thy ===== *)
theory Config_File
  imports Config
begin

text \<open>
  What the operations on the settings keep, and that the file gives them back: the lists of names as
  most-recently-used lists, the calibrations as a map, and the round trip through \<open>config_format\<close> and
  \<open>config_parse\<close> for the settings the operations reach with names the file can hold: tidy ones, a receiver without a
  space in it, and with its site at most 160 characters.
\<close>

subsection \<open>Remembering\<close>

lemma last_index_upto:
  "case foldl (\<lambda>found i. if Q i then Some i else found) None [0..<n] of
     None \<Rightarrow> \<forall>i<n. \<not> Q i | Some k \<Rightarrow> k < n \<and> Q k"
  by (induction n) (auto split: option.splits simp: less_Suc_eq)

lemma last_index_cases:
  "(last_index P xs = None \<and> (\<forall>x\<in>set xs. \<not> P x)) \<or> (\<exists>k. last_index P xs = Some k \<and> k < length xs \<and> P (xs ! k))"
  using last_index_upto [where Q = "\<lambda>i. P (xs ! i)" and n = "length xs"]
  by (auto simp: last_index_def in_set_conv_nth split: option.splits)

lemma move_front_filter:
  assumes "distinct (map f xs)" "k < length xs"
  shows "move_front k xs = xs ! k # filter (\<lambda>x. f x \<noteq> f (xs ! k)) xs"
proof -
  obtain pre y post where xs: "xs = pre @ y # post" "length pre = k"
    using id_take_nth_drop [OF assms(2)] assms(2) by (metis length_take min.absorb4)
  have "f y \<notin> f ` set pre" "f y \<notin> f ` set post" using assms(1) by (auto simp: xs(1))
  then have "filter (\<lambda>x. f x \<noteq> f y) pre = pre" "filter (\<lambda>x. f x \<noteq> f y) post = post"
    unfolding filter_id_conv by (metis imageI)+
  then show ?thesis unfolding move_front_def xs(1) by (simp add: xs(2) [symmetric] nth_append)
qed

lemma push_front_take: "0 < most \<Longrightarrow> length xs \<le> most \<Longrightarrow> push_front most x xs = x # take (most - 1) xs"
  by (auto simp: push_front_def Let_def)

lemma copy_value_short [simp]: "length v \<le> 95 \<Longrightarrow> copy_value CONFIG_VALUE_MAX v = v"
  by (simp add: copy_value_def CONFIG_VALUE_MAX_def)

text \<open>A name remembered is the first of at most eight, and the others keep their order.\<close>

definition recent :: "'a list \<Rightarrow> 'a \<Rightarrow> 'a list" where
  "recent xs x = x # take 7 (filter (\<lambda>y. y \<noteq> x) xs)"

lemma remember_antenna_recent:
  assumes "distinct (antennas c)" "length (antennas c) \<le> 8" "a \<noteq> []" "length a \<le> 95"
  shows "fst (config_remember_antenna c a) = c\<lparr>antennas := recent (antennas c) a\<rparr>"
  using last_index_cases [of "\<lambda>x. x = a" "antennas c"]
proof
  assume none: "last_index (\<lambda>x. x = a) (antennas c) = None \<and> (\<forall>x\<in>set (antennas c). x \<noteq> a)"
  then have "filter (\<lambda>y. y \<noteq> a) (antennas c) = antennas c" by (simp add: filter_id_conv)
  then show ?thesis using none assms
    by (simp add: config_remember_antenna_def recent_def push_front_take CONFIG_ANTENNAS_MAX_def)
next
  assume "\<exists>k. last_index (\<lambda>x. x = a) (antennas c) = Some k \<and> k < length (antennas c) \<and> antennas c ! k = a"
  then obtain k where k: "last_index (\<lambda>x. x = a) (antennas c) = Some k" "k < length (antennas c)" "antennas c ! k = a" by blast
  have mf: "move_front k (antennas c) = a # filter (\<lambda>y. y \<noteq> a) (antennas c)"
    using move_front_filter [of "\<lambda>x. x" "antennas c" k] assms(1) k by simp
  have "length (filter (\<lambda>y. y \<noteq> a) (antennas c)) < length (antennas c)"
    by (rule length_filter_less [of a]) (use k in auto)
  then have short: "take 7 (filter (\<lambda>y. y \<noteq> a) (antennas c)) = filter (\<lambda>y. y \<noteq> a) (antennas c)" using assms(2) by simp
  show ?thesis
  proof (cases "k = 0")
    case False
    then show ?thesis using k assms(3) mf short by (simp add: config_remember_antenna_def recent_def)
  next
    case True
    then have "move_front k (antennas c) = antennas c" using k by (cases "antennas c") (simp_all add: move_front_def)
    then show ?thesis using True k assms(3) mf short by (simp add: config_remember_antenna_def recent_def)
  qed
qed

lemma recent_keeps:
  assumes "distinct xs" "length xs \<le> 8"
  shows "distinct (recent xs x)" "length (recent xs x) \<le> 8" "set (recent xs x) \<subseteq> insert x (set xs)"
    "t \<in> set xs \<or> length xs = 8 \<Longrightarrow> t \<in> set (recent xs x) \<or> length (recent xs x) = 8"
proof -
  have sub: "set (take 7 (filter (\<lambda>y. y \<noteq> x) xs)) \<subseteq> {y \<in> set xs. y \<noteq> x}" using set_take_subset by fastforce
  show "distinct (recent xs x)" using assms(1) sub by (auto simp: recent_def)
  show "length (recent xs x) \<le> 8" by (simp add: recent_def)
  show "set (recent xs x) \<subseteq> insert x (set xs)" using sub by (auto simp: recent_def)
  have len: "length xs - 1 \<le> length (filter (\<lambda>y. y \<noteq> x) xs)"
  proof (cases "x \<in> set xs")
    case True
    have "filter (\<lambda>y. y \<noteq> x) xs = remove1 x xs" using distinct_remove1_removeAll [OF assms(1)] by (simp add: removeAll_filter_not_eq eq_commute)
    then show ?thesis using True by (simp add: length_remove1)
  next
    case False
    then have "filter (\<lambda>y. y \<noteq> x) xs = xs" by (auto simp: filter_id_conv)
    then show ?thesis by simp
  qed
  show "t \<in> set (recent xs x) \<or> length (recent xs x) = 8" if t: "t \<in> set xs \<or> length xs = 8"
  proof (cases "length (filter (\<lambda>y. y \<noteq> x) xs) \<le> 7 \<and> length xs \<noteq> 8")
    case True
    then have "take 7 (filter (\<lambda>y. y \<noteq> x) xs) = filter (\<lambda>y. y \<noteq> x) xs" by simp
    then show ?thesis using t True by (auto simp: recent_def)
  next
    case False
    then show ?thesis using len assms(2) by (auto simp: recent_def)
  qed
qed

lemma recent_restored:
  assumes "distinct xs" "length xs \<le> 8"
  shows "foldl recent [t] (rev xs) = take 8 (xs @ (if t \<in> set xs then [] else [t]))"
  using assms
proof (induction xs)
  case (Cons x xs)
  have f: "filter (\<lambda>y. y \<noteq> x) xs = xs" using Cons.prems(1) by (auto simp: filter_id_conv)
  have "foldl recent [t] (rev (x # xs)) = recent (take 8 (xs @ (if t \<in> set xs then [] else [t]))) x"
    using Cons by simp
  also have "\<dots> = recent (xs @ (if t \<in> set xs then [] else [t])) x" using Cons.prems(2) by simp
  also have "\<dots> = take 8 ((x # xs) @ (if t \<in> set (x # xs) then [] else [t]))"
    using Cons.prems(2) by (auto simp: recent_def f)
  finally show ?case .
qed simp

text \<open>A site remembered keeps its correction, and comes first.\<close>

lemma remember_site_cases:
  assumes "distinct (map site_label (sites c))" "length (sites c) \<le> 12" "s \<noteq> []" "length s \<le> 95"
  shows "(s \<notin> site_label ` set (sites c) \<and>
      fst (config_remember_site c s) = c\<lparr>sites := \<lparr>site_label = s, site_ppm = 0\<rparr> # take 11 (sites c)\<rparr>) \<or>
    (\<exists>x\<in>set (sites c). site_label x = s \<and>
      fst (config_remember_site c s) = c\<lparr>sites := x # filter (\<lambda>y. site_label y \<noteq> s) (sites c)\<rparr>)"
  using last_index_cases [of "\<lambda>x. site_label x = s" "sites c"]
proof
  assume "last_index (\<lambda>x. site_label x = s) (sites c) = None \<and> (\<forall>x\<in>set (sites c). site_label x \<noteq> s)"
  then show ?thesis using assms
    by (auto simp: config_remember_site_def push_front_take CONFIG_SITES_MAX_def)
next
  assume "\<exists>k. last_index (\<lambda>x. site_label x = s) (sites c) = Some k \<and> k < length (sites c) \<and> site_label (sites c ! k) = s"
  then obtain k where k: "last_index (\<lambda>x. site_label x = s) (sites c) = Some k" "k < length (sites c)"
    "site_label (sites c ! k) = s" by blast
  have mf: "move_front k (sites c) = sites c ! k # filter (\<lambda>y. site_label y \<noteq> s) (sites c)"
    using move_front_filter [OF assms(1) k(2)] k(3) by simp
  have "fst (config_remember_site c s) = c\<lparr>sites := move_front k (sites c)\<rparr>"
  proof (cases "k = 0")
    case True
    then have "move_front k (sites c) = sites c" using k(2) by (cases "sites c") (simp_all add: move_front_def)
    then show ?thesis using True k assms(3) by (simp add: config_remember_site_def)
  qed (use k assms(3) in \<open>simp add: config_remember_site_def\<close>)
  then show ?thesis using k mf by (intro disjI2 bexI [of _ "sites c ! k"]) auto
qed

subsection \<open>One line\<close>

text \<open>A value the file can carry: no blank before it, no space after it, no line end and no zero in it.\<close>

definition tidy :: "string \<Rightarrow> bool" where
  "tidy v = ((v = [] \<or> \<not> blank (hd v) \<and> last v \<noteq> CHR '' '') \<and> CHR 0x0A \<notin> set v \<and> CHR 0x00 \<notin> set v)"

definition word_like :: "string \<Rightarrow> bool" where
  "word_like w = (w \<noteq> [] \<and> (\<forall>x\<in>set w. \<not> blank x) \<and> CHR 0x0A \<notin> set w \<and> CHR 0x00 \<notin> set w)"

lemma dropWhile_first: "\<not> P x \<Longrightarrow> dropWhile P (x # xs) = x # xs" by simp

lemma trim_end_keep: "s = [] \<or> last s \<noteq> CHR '' '' \<Longrightarrow> trim_end s = s"
  by (simp add: trim_end_def dropWhile_hd hd_rev)

lemma trim_end_space: "w \<noteq> [] \<Longrightarrow> last w \<noteq> CHR '' '' \<Longrightarrow> trim_end (w @ [CHR '' '']) = w"
  by (simp add: trim_end_def dropWhile_hd hd_rev)

lemma word_takeWhile:
  assumes "\<forall>x\<in>set w. \<not> blank x" "rest = [] \<or> blank (hd rest)"
  shows "takeWhile (\<lambda>x. \<not> blank x) (w @ rest) = w" "dropWhile (\<lambda>x. \<not> blank x) (w @ rest) = rest"
  using assms by (simp_all add: takeWhile_append2 dropWhile_append2 takeWhile_hd dropWhile_hd)

lemma word_ends: "word_like w \<Longrightarrow> \<not> blank (hd w) \<and> last w \<noteq> CHR '' ''"
  by (auto simp: word_like_def blank_def)

lemma parse_line_setting:
  assumes "word_like key" "hd key \<noteq> CHR ''#''" "tidy v" "length key + length v \<le> 190"
  shows "parse_line st (key @ CHR '' '' # v) = parse_setting key v st"
proof -
  let ?line = "key @ CHR '' '' # v"
  have ends: "\<not> blank (hd key)" "last key \<noteq> CHR '' ''" "key \<noteq> []" using assms(1) word_ends by (auto simp: word_like_def)
  have whole: "dropWhile blank (take (CONFIG_VALUE_MAX * 2 - 1) ?line) = ?line"
    using assms(4) ends by (simp add: CONFIG_VALUE_MAX_def dropWhile_hd)
  have sp: "blank (CHR '' '')" by (simp add: blank_def)
  show ?thesis
  proof (cases "v = []")
    case True
    then have trim: "trim_end ?line = key" using ends by (simp add: trim_end_space)
    have "takeWhile (\<lambda>x. \<not> blank x) key = key" "dropWhile (\<lambda>x. \<not> blank x) key = []"
      using word_takeWhile [of key "[]"] assms(1) by (simp_all add: word_like_def)
    note w = this
    show ?thesis unfolding parse_line_def Let_def whole trim w using ends assms(2) True by simp
  next
    case False
    then have trim: "trim_end ?line = ?line" using assms(3) by (intro trim_end_keep) (simp add: tidy_def)
    have "takeWhile (\<lambda>x. \<not> blank x) ?line = key" "dropWhile (\<lambda>x. \<not> blank x) ?line = CHR '' '' # v"
      using word_takeWhile [of key "CHR '' '' # v"] assms(1) sp by (simp_all add: word_like_def)
    moreover have "dropWhile blank (CHR '' '' # v) = v" using assms(3) sp False by (simp add: tidy_def dropWhile_hd)
    ultimately show ?thesis unfolding parse_line_def Let_def whole trim using ends assms(2) by simp
  qed
qed

lemma parse_line_comment:
  assumes "hd l = CHR ''#''" "l \<noteq> []" shows "parse_line st l = st"
proof -
  obtain xs where l: "l = CHR ''#'' # xs" using assms by (cases l) auto
  let ?t = "take (CONFIG_VALUE_MAX * 2 - 1) l"
  have t: "?t = CHR ''#'' # take 190 xs" by (simp add: l CONFIG_VALUE_MAX_def)
  have "trim_end (CHR ''#'' # ys) = CHR ''#'' # trim_end ys \<or> trim_end (CHR ''#'' # ys) = [CHR ''#'']" for ys
    by (auto simp: trim_end_def dropWhile_append)
  moreover have "dropWhile blank (CHR ''#'' # ys) = CHR ''#'' # ys" for ys by (simp add: blank_def)
  ultimately show ?thesis unfolding parse_line_def Let_def t by (metis list.sel(1))
qed

lemma text_lines_line:
  "CHR 0x0A \<notin> set l \<Longrightarrow> text_lines (l @ CHR 0x0A # rest) = l # text_lines rest"
proof -
  assume "CHR 0x0A \<notin> set l"
  then have "takeWhile (\<lambda>x. x \<noteq> CHR 0x0A) l = l" "dropWhile (\<lambda>x. x \<noteq> CHR 0x0A) l = []"
    unfolding takeWhile_eq_all_conv dropWhile_eq_Nil_conv by blast+
  then have "takeWhile (\<lambda>x. x \<noteq> CHR 0x0A) (l @ CHR 0x0A # rest) = l"
    "dropWhile (\<lambda>x. x \<noteq> CHR 0x0A) (l @ CHR 0x0A # rest) = CHR 0x0A # rest"
    by (simp_all only: takeWhile_tail dropWhile_append3 simp_thms append_Nil)
  moreover have "text_lines (x # xs) = takeWhile (\<lambda>x. x \<noteq> CHR 0x0A) (x # xs) #
      text_lines (drop 1 (dropWhile (\<lambda>x. x \<noteq> CHR 0x0A) (x # xs)))" for x xs by (rule text_lines.simps(2))
  ultimately show ?thesis by (cases l) simp_all
qed

lemma text_lines_lines:
  "\<forall>l\<in>set ls. CHR 0x0A \<notin> set l \<Longrightarrow> text_lines (concat (map (\<lambda>l. l @ [CHR 0x0A]) ls)) = ls"
  by (induction ls) (simp_all add: text_lines_line del: text_lines.simps(2))

lemma write_pieces_Some: "write_pieces n out ps = Some r \<Longrightarrow> length out < n \<Longrightarrow> r = out @ concat ps \<and> length r < n"
  by (induction n out ps rule: write_pieces.induct) (auto split: if_splits)

subsection \<open>The settings a line carries\<close>

lemma signed_decimal_facts:
  assumes "\<bar>p\<bar> < 10 ^ 10"
  shows "signed_decimal p \<noteq> []" "length (signed_decimal p) \<le> 11" "\<forall>x\<in>set (signed_decimal p). \<not> blank x"
    "CHR 0x0A \<notin> set (signed_decimal p)" "CHR 0x00 \<notin> set (signed_decimal p)"
    "hd (signed_decimal p) = CHR ''-'' \<or> isdigit (hd (signed_decimal p))"
proof -
  have len: "length (decimal (nat q)) \<le> 10" if "q < 10 ^ 10" for q using that by (intro decimal_props(4)) (simp_all add: nat_less_iff)
  have dig: "x \<in> set (decimal n) \<Longrightarrow> isdigit x" for x n using decimal_props(1) [of n] by (simp add: list_all_iff)
  have not: "isdigit x \<Longrightarrow> \<not> blank x \<and> x \<noteq> CHR 0x0A \<and> x \<noteq> CHR 0x00" for x by (auto simp: isdigit_def blank_def)
  show "signed_decimal p \<noteq> []" by (simp add: signed_decimal_def decimal_props(2))
  show "length (signed_decimal p) \<le> 11" using len [of p] len [of "- p"] assms by (auto simp: signed_decimal_def)
  show "\<forall>x\<in>set (signed_decimal p). \<not> blank x" "CHR 0x0A \<notin> set (signed_decimal p)" "CHR 0x00 \<notin> set (signed_decimal p)"
    using dig not by (auto simp: signed_decimal_def blank_def)
  show "hd (signed_decimal p) = CHR ''-'' \<or> isdigit (hd (signed_decimal p))" by (simp add: signed_decimal_def hd_decimal)
qed

definition int32 :: "int \<Rightarrow> bool" where "int32 p = (- (2 ^ 31) \<le> p \<and> p < 2 ^ 31)"

lemma int32_facts: "int32 p \<Longrightarrow> \<bar>p\<bar> < 10 ^ 10" "int32 p \<Longrightarrow> to_int p = p" "int32 p \<Longrightarrow> - (2 ^ 63) \<le> p \<and> p < 2 ^ 63"
  by (auto simp: int32_def to_int_same abs_less_iff)

lemma strtol_word:
  assumes "int32 p" shows "strtol (signed_decimal p @ CHR '' '' # s) = Some (p, CHR '' '' # s, False)"
  using int32_facts(3) [OF assms] by (intro strtol_decimal_rest) (simp_all add: isdigit_def)

lemma parse_known_site_printed:
  assumes "int32 p" "label \<noteq> []" "\<not> blank (hd label)" "length label \<le> 95" "length (sites c) < 12"
  shows "parse_known_site (signed_decimal p @ CHR '' '' # label) c =
    c\<lparr>sites := sites c @ [\<lparr>site_label = label, site_ppm = p\<rparr>]\<rparr>"
proof -
  note d = signed_decimal_facts [OF int32_facts(1) [OF assms(1)]]
  have "dropWhile blank (CHR '' '' # label) = label" using assms(3) by (simp add: blank_def dropWhile_hd [unfolded blank_def])
  moreover have "blank (CHR '' '')" by (simp add: blank_def)
  ultimately show ?thesis
    unfolding parse_known_site_def Let_def strtol_word [OF assms(1)]
    using d(1,6) assms int32_facts(2) [OF assms(1)] by (auto simp: CONFIG_SITES_MAX_def hd_append)
qed

lemma parse_calibration_printed:
  assumes "word_like r" "length r \<le> 95" "int32 p" "s \<noteq> []" "\<not> blank (hd s)" "length s \<le> 95" "length (calibrations c) < 32"
  shows "parse_calibration (r @ CHR '' '' # signed_decimal p @ CHR '' '' # s) c =
    c\<lparr>calibrations := calibrations c @ [\<lparr>cal_receiver = r, cal_site = s, cal_ppm = p\<rparr>]\<rparr>"
proof -
  note d = signed_decimal_facts [OF int32_facts(1) [OF assms(3)]]
  have sp: "blank (CHR '' '')" by (simp add: blank_def)
  have w: "takeWhile (\<lambda>x. \<not> blank x) (r @ CHR '' '' # v) = r" "dropWhile (\<lambda>x. \<not> blank x) (r @ CHR '' '' # v) = CHR '' '' # v" for v
    using word_takeWhile [of r "CHR '' '' # v"] assms(1) sp by (simp_all add: word_like_def)
  have n: "dropWhile blank (CHR '' '' # signed_decimal p @ CHR '' '' # s) = signed_decimal p @ CHR '' '' # s"
    using d(1,3) sp by (simp add: dropWhile_hd hd_append)
  have s: "dropWhile blank (CHR '' '' # s) = s" using assms(5) sp by (simp add: dropWhile_hd)
  have "r \<noteq> []" using assms(1) by (simp add: word_like_def)
  then show ?thesis
    unfolding parse_calibration_def Let_def w n strtol_word [OF assms(3)]
    using assms s sp int32_facts(2) [OF assms(3)] by (simp add: CONFIG_CALIBRATIONS_MAX_def)
qed

subsection \<open>The whole file\<close>

definition name_ok :: "string \<Rightarrow> bool" where "name_ok a = (a \<noteq> [] \<and> tidy a \<and> length a \<le> 95)"

definition known_keys :: "string list" where
  "known_keys = [''antenna'', ''fft_size'', ''site'', ''known_antenna'', ''calibration'', ''known_site'']"

definition unknown_ok :: "string \<Rightarrow> bool" where
  "unknown_ok u = (\<exists>key v. u = key @ CHR '' '' # v \<and> word_like key \<and> hd key \<noteq> CHR ''#'' \<and> key \<notin> set known_keys \<and>
     tidy v \<and> length key + length v \<le> 190)"

definition site_ok :: "config_site \<Rightarrow> bool" where
  "site_ok x = (name_ok (site_label x) \<and> int32 (site_ppm x))"

definition calibration_ok :: "config_calibration \<Rightarrow> bool" where
  "calibration_ok k = (word_like (cal_receiver k) \<and> length (cal_receiver k) \<le> 95 \<and> name_ok (cal_site k) \<and>
     length (cal_receiver k) + length (cal_site k) \<le> 160 \<and> int32 (cal_ppm k))"

definition config_ok :: "config \<Rightarrow> bool" where
  "config_ok c =
     ((tidy (antenna c) \<and> length (antenna c) \<le> 95) \<and> (tidy (site c) \<and> length (site c) \<le> 95) \<and>
      (fft_size c = 0 \<or> sdr_dsp_fft_size_valid (fft_size c)) \<and>
      (distinct (antennas c) \<and> length (antennas c) \<le> 8 \<and> (\<forall>a\<in>set (antennas c). name_ok a) \<and>
       (CONFIG_ANTENNA_DEFAULT \<in> set (antennas c) \<or> length (antennas c) = 8)) \<and>
      (distinct (map site_label (sites c)) \<and> length (sites c) \<le> 12 \<and> (\<forall>x\<in>set (sites c). site_ok x)) \<and>
      (length (calibrations c) \<le> 32 \<and> (\<forall>k\<in>set (calibrations c). calibration_ok k)) \<and>
      (length (unknown c) \<le> 8 \<and> (\<forall>u\<in>set (unknown c). unknown_ok u)))"

definition config_lines :: "config \<Rightarrow> string list" where
  "config_lines c =
     [''# sdrprobe. What describes the receiver'' @ [CHR 0x27] @ ''s situation'',
      ''# rather than one run of it. Edited by --antenna and'', ''# --site, and by hand if you prefer.''] @
     [''antenna'' @ CHR '' '' # antenna c] @
     (if fft_size c > 0 then [''fft_size'' @ CHR '' '' # signed_decimal (fft_size c)] else []) @
     (if site c \<noteq> [] then [''site'' @ CHR '' '' # site c] else []) @
     map (\<lambda>a. ''known_antenna'' @ CHR '' '' # a) (rev (antennas c)) @
     map (\<lambda>s. ''known_site'' @ CHR '' '' # signed_decimal (site_ppm s) @ CHR '' '' # site_label s) (sites c) @
     map (\<lambda>k. ''calibration'' @ CHR '' '' # cal_receiver k @ CHR '' '' # signed_decimal (cal_ppm k) @ CHR '' '' # cal_site k)
       (calibrations c) @
     unknown c"

lemma format_lines: "concat (format_pieces c) = concat (map (\<lambda>l. l @ [CHR 0x0A]) (config_lines c))"
  by (simp add: format_pieces_def config_lines_def format_head_def comp_def)

lemma key_word: "word_like ''antenna'' \<and> word_like ''fft_size'' \<and> word_like ''site'' \<and> word_like ''known_antenna'' \<and>
    word_like ''known_site'' \<and> word_like ''calibration''"
  by (simp add: word_like_def blank_def)

lemma printed_number_tidy: "int32 p \<Longrightarrow> tidy (signed_decimal p) \<and> length (signed_decimal p) \<le> 11"
  using signed_decimal_facts [OF int32_facts(1)] by (auto simp: tidy_def blank_def dest: last_in_set)

lemma tidy_join: "tidy a \<Longrightarrow> tidy b \<Longrightarrow> a \<noteq> [] \<Longrightarrow> b \<noteq> [] \<Longrightarrow> tidy (a @ CHR '' '' # b)"
  by (auto simp: tidy_def)

lemma word_tidy: "word_like w \<Longrightarrow> tidy w \<and> w \<noteq> []"
  using word_ends [of w] by (simp add: tidy_def word_like_def)

lemma valid_fft_int32: "sdr_dsp_fft_size_valid n \<Longrightarrow> int32 n \<and> n > 0"
  by (auto simp: sdr_dsp_fft_size_valid_def int32_def)

lemma atoi_printed: "int32 p \<Longrightarrow> atoi (signed_decimal p) = p"
  using int32_facts(2,3) by (simp add: atoi_def strtol_decimal)

lemma fold_antennas:
  "\<forall>a\<in>set as. name_ok a \<Longrightarrow> distinct (antennas c) \<Longrightarrow> length (antennas c) \<le> 8 \<Longrightarrow>
   \<exists>n'. foldl parse_line (c, n) (map (\<lambda>a. ''known_antenna'' @ CHR '' '' # a) as) =
     (c\<lparr>antennas := foldl recent (antennas c) as\<rparr>, n')"
proof (induction as arbitrary: c n)
  case (Cons a as)
  have a: "name_ok a" using Cons.prems(1) by simp
  have "parse_line (c, n) (''known_antenna'' @ CHR '' '' # a) = parse_setting ''known_antenna'' a (c, n)"
    using a key_word by (intro parse_line_setting) (auto simp: name_ok_def)
  also have "\<dots> = (c\<lparr>antennas := recent (antennas c) a\<rparr>, n + 1)"
    using a Cons.prems by (simp add: parse_setting_def remember_antenna_recent name_ok_def)
  finally have line: "parse_line (c, n) (''known_antenna'' @ CHR '' '' # a) = (c\<lparr>antennas := recent (antennas c) a\<rparr>, n + 1)" .
  show ?case
    using Cons.IH [of "c\<lparr>antennas := recent (antennas c) a\<rparr>" "n + 1"] Cons.prems recent_keeps(1,2) [of "antennas c" a]
    by (simp only: list.map foldl_Cons line) simp
qed simp

lemma fold_sites:
  "\<forall>x\<in>set xs. site_ok x \<Longrightarrow> length (sites c) + length xs \<le> 12 \<Longrightarrow>
   \<exists>n'. foldl parse_line (c, n)
     (map (\<lambda>s. ''known_site'' @ CHR '' '' # signed_decimal (site_ppm s) @ CHR '' '' # site_label s) xs) =
     (c\<lparr>sites := sites c @ xs\<rparr>, n')"
proof (induction xs arbitrary: c n)
  case (Cons x xs)
  have x: "name_ok (site_label x)" "int32 (site_ppm x)" using Cons.prems(1) by (simp_all add: site_ok_def)
  note p = printed_number_tidy [OF x(2)] signed_decimal_facts(1) [OF int32_facts(1) [OF x(2)]]
  let ?line = "''known_site'' @ CHR '' '' # signed_decimal (site_ppm x) @ CHR '' '' # site_label x"
  have "parse_line (c, n) ?line = parse_setting ''known_site'' (signed_decimal (site_ppm x) @ CHR '' '' # site_label x) (c, n)"
    using x(1) p key_word by (intro parse_line_setting) (auto simp: name_ok_def intro!: tidy_join)
  also have "\<dots> = (c\<lparr>sites := sites c @ [x]\<rparr>, n + 1)"
    using parse_known_site_printed [of "site_ppm x" "site_label x" c] x Cons.prems(2)
    by (auto simp: parse_setting_def name_ok_def tidy_def)
  finally have line: "parse_line (c, n) ?line = (c\<lparr>sites := sites c @ [x]\<rparr>, n + 1)" .
  show ?case
    using Cons.IH [of "c\<lparr>sites := sites c @ [x]\<rparr>" "n + 1"] Cons.prems by (simp only: list.map foldl_Cons line) simp
qed simp

lemma fold_calibrations:
  "\<forall>x\<in>set xs. calibration_ok x \<Longrightarrow> length (calibrations c) + length xs \<le> 32 \<Longrightarrow>
   \<exists>n'. foldl parse_line (c, n)
     (map (\<lambda>k. ''calibration'' @ CHR '' '' # cal_receiver k @ CHR '' '' # signed_decimal (cal_ppm k) @ CHR '' '' # cal_site k) xs) =
     (c\<lparr>calibrations := calibrations c @ xs\<rparr>, n')"
proof (induction xs arbitrary: c n)
  case (Cons x xs)
  have x: "word_like (cal_receiver x)" "length (cal_receiver x) \<le> 95" "name_ok (cal_site x)"
    "length (cal_receiver x) + length (cal_site x) \<le> 160" "int32 (cal_ppm x)"
    using Cons.prems(1) by (simp_all add: calibration_ok_def)
  note p = printed_number_tidy [OF x(5)] signed_decimal_facts(1) [OF int32_facts(1) [OF x(5)]]
  let ?v = "cal_receiver x @ CHR '' '' # signed_decimal (cal_ppm x) @ CHR '' '' # cal_site x"
  have "parse_line (c, n) (''calibration'' @ CHR '' '' # ?v) = parse_setting ''calibration'' ?v (c, n)"
    using x p key_word word_tidy [OF x(1)] by (intro parse_line_setting) (auto simp: name_ok_def intro!: tidy_join)
  also have "\<dots> = (c\<lparr>calibrations := calibrations c @ [x]\<rparr>, n + 1)"
    using parse_calibration_printed [of "cal_receiver x" "cal_ppm x" "cal_site x" c] x Cons.prems(2)
    by (auto simp: parse_setting_def name_ok_def tidy_def)
  finally have line: "parse_line (c, n) (''calibration'' @ CHR '' '' # ?v) = (c\<lparr>calibrations := calibrations c @ [x]\<rparr>, n + 1)" .
  show ?case
    using Cons.IH [of "c\<lparr>calibrations := calibrations c @ [x]\<rparr>" "n + 1"] Cons.prems
    by (simp only: list.map foldl_Cons line) simp
qed simp

lemma fold_unknown:
  "\<forall>u\<in>set us. unknown_ok u \<Longrightarrow> length (unknown c) + length us \<le> 8 \<Longrightarrow>
   foldl parse_line (c, n) us = (c\<lparr>unknown := unknown c @ us\<rparr>, n)"
proof (induction us arbitrary: c)
  case (Cons u us)
  obtain key v where u: "u = key @ CHR '' '' # v" "word_like key" "hd key \<noteq> CHR ''#''" "key \<notin> set known_keys" "tidy v"
    "length key + length v \<le> 190" using Cons.prems(1) by (auto simp: unknown_ok_def)
  have "parse_line (c, n) u = parse_setting key v (c, n)" unfolding u(1) by (rule parse_line_setting) (use u in simp_all)
  also have "\<dots> = (c\<lparr>unknown := unknown c @ [u]\<rparr>, n)"
    using u Cons.prems(2) by (simp add: parse_setting_def known_keys_def CONFIG_UNKNOWN_MAX_def CONFIG_VALUE_MAX_def)
  finally have line: "parse_line (c, n) u = (c\<lparr>unknown := unknown c @ [u]\<rparr>, n)" .
  show ?case using Cons.IH [of "c\<lparr>unknown := unknown c @ [u]\<rparr>"] Cons.prems by (simp only: foldl_Cons line) simp
qed simp

lemma join_clean: "tidy a \<Longrightarrow> tidy b \<Longrightarrow> CHR 0x0A \<notin> set (a @ CHR '' '' # b) \<and> CHR 0x00 \<notin> set (a @ CHR '' '' # b)"
  by (simp add: tidy_def)

lemma lines_clean:
  assumes "config_ok c" "l \<in> set (config_lines c)"
  shows "CHR 0x0A \<notin> set l \<and> CHR 0x00 \<notin> set l"
proof -
  note ok = assms(1) [unfolded config_ok_def]
  have num: "int32 p \<Longrightarrow> CHR 0x0A \<notin> set (signed_decimal p) \<and> CHR 0x00 \<notin> set (signed_decimal p)" for p
    using printed_number_tidy [of p] by (simp add: tidy_def)
  have "CHR 0x0A \<notin> set l \<and> CHR 0x00 \<notin> set l" if "l \<in> set (unknown c)"
    using ok that join_clean by (auto simp: unknown_ok_def word_like_def tidy_def)
  moreover have "CHR 0x0A \<notin> set (cal_receiver k) \<and> CHR 0x00 \<notin> set (cal_receiver k) \<and> CHR 0x0A \<notin> set (cal_site k) \<and>
      CHR 0x00 \<notin> set (cal_site k) \<and> int32 (cal_ppm k)" if "k \<in> set (calibrations c)" for k
    using ok that by (auto simp: calibration_ok_def word_like_def name_ok_def tidy_def)
  moreover have "CHR 0x0A \<notin> set (site_label k) \<and> CHR 0x00 \<notin> set (site_label k) \<and> int32 (site_ppm k)" if "k \<in> set (sites c)" for k
    using ok that by (auto simp: site_ok_def name_ok_def tidy_def)
  moreover have "CHR 0x0A \<notin> set a \<and> CHR 0x00 \<notin> set a" if "a \<in> set (antennas c) \<or> a = antenna c \<or> a = site c" for a
    using ok that by (auto simp: name_ok_def tidy_def)
  moreover have "fft_size c > 0 \<Longrightarrow> int32 (fft_size c)" using ok valid_fft_int32 by auto
  ultimately show ?thesis using assms(2) num by (auto simp: config_lines_def split: if_splits)
qed

lemma parse_restores:
  assumes "config_ok c"
  shows "fst (foldl parse_line (config_defaults, 0) (config_lines c)) = c"
proof -
  note ok = assms [unfolded config_ok_def]
  have cut: "foldl parse_line (d, n) (l # ls) = foldl parse_line (parse_line (d, n) l) ls" for d n l ls by simp
  have comment: "parse_line st l = st" if "l = CHR ''#'' # xs" for st l xs using that parse_line_comment [of l st] by simp
  have ant: "parse_line (d, n) (''antenna'' @ CHR '' '' # antenna c) = (d\<lparr>antenna := antenna c\<rparr>, n + 1)" for d n
    using ok key_word parse_line_setting [of "''antenna''" "antenna c" "(d, n)"] by (simp add: parse_setting_def)
  have fft: "fst (foldl parse_line (d, n) (if fft_size c > 0 then [''fft_size'' @ CHR '' '' # signed_decimal (fft_size c)] else [])) =
      d\<lparr>fft_size := fft_size c\<rparr>" if "fft_size d = 0" for d n
  proof (cases "fft_size c > 0")
    case True
    then have v: "sdr_dsp_fft_size_valid (fft_size c)" using ok by auto
    note i = valid_fft_int32 [OF v, THEN conjunct1]
    have "parse_line (d, n) (''fft_size'' @ CHR '' '' # signed_decimal (fft_size c)) =
        parse_setting ''fft_size'' (signed_decimal (fft_size c)) (d, n)"
      using printed_number_tidy [OF i] key_word by (intro parse_line_setting) auto
    also have "\<dots> = (d\<lparr>fft_size := fft_size c\<rparr>, n + 1)" using v i by (simp add: parse_setting_def atoi_printed)
    finally show ?thesis using True by simp
  next
    case False
    then have "fft_size c = 0" using ok by (auto dest: valid_fft_int32)
    then show ?thesis using that by (cases d) simp
  qed
  have st: "fst (foldl parse_line (d, n) (if site c \<noteq> [] then [''site'' @ CHR '' '' # site c] else [])) = d\<lparr>site := site c\<rparr>"
    if "site d = []" for d n
  proof (cases "site c = []")
    case True then show ?thesis using that by (cases d) simp
  next
    case False
    have "parse_line (d, n) (''site'' @ CHR '' '' # site c) = (d\<lparr>site := site c\<rparr>, n + 1)"
      using ok key_word parse_line_setting [of "''site''" "site c" "(d, n)"] by (simp add: parse_setting_def)
    then show ?thesis using False by simp
  qed
  have chain: "fst (foldl parse_line (d, n) (xs @ ys)) = e2"
    if "\<And>n. fst (foldl parse_line (d, n) xs) = e1" "\<And>n. fst (foldl parse_line (e1, n) ys) = e2" for d n xs ys e1 e2
    using that(1) [of n] that(2) [of "snd (foldl parse_line (d, n) xs)"] by (metis foldl_append prod.collapse)
  have ants: "fst (foldl parse_line (d, n) (map (\<lambda>a. ''known_antenna'' @ CHR '' '' # a) (rev (antennas c)))) =
      d\<lparr>antennas := antennas c\<rparr>" if "antennas d = [CONFIG_ANTENNA_DEFAULT]" for d n
  proof -
    have "take 8 (antennas c @ (if CONFIG_ANTENNA_DEFAULT \<in> set (antennas c) then [] else [CONFIG_ANTENNA_DEFAULT])) = antennas c"
      using ok by auto
    then have "foldl recent (antennas d) (rev (antennas c)) = antennas c"
      using recent_restored [of "antennas c" CONFIG_ANTENNA_DEFAULT] ok that by simp
    then show ?thesis using fold_antennas [of "rev (antennas c)" d n] ok that by auto
  qed
  have known: "fst (foldl parse_line (d, n) (map (\<lambda>s. ''known_site'' @ CHR '' '' # signed_decimal (site_ppm s) @
      CHR '' '' # site_label s) (sites c))) = d\<lparr>sites := sites c\<rparr>" if "sites d = []" for d n
    using fold_sites [of "sites c" d n] ok that by auto
  have cals: "fst (foldl parse_line (d, n) (map (\<lambda>k. ''calibration'' @ CHR '' '' # cal_receiver k @ CHR '' '' #
      signed_decimal (cal_ppm k) @ CHR '' '' # cal_site k) (calibrations c))) = d\<lparr>calibrations := calibrations c\<rparr>"
    if "calibrations d = []" for d n
    using fold_calibrations [of "calibrations c" d n] ok that by auto
  have unk: "fst (foldl parse_line (d, n) (unknown c)) = d\<lparr>unknown := unknown c\<rparr>" if "unknown d = []" for d n
    using fold_unknown [of "unknown c" d n] ok that by auto
  have head: "fst (foldl parse_line (d, n) [''# sdrprobe. What describes the receiver'' @ [CHR 0x27] @ ''s situation'',
      ''# rather than one run of it. Edited by --antenna and'', ''# --site, and by hand if you prefer.'']) = d" for d n
    by (simp add: comment)
  have one: "fst (foldl parse_line (d, n) [''antenna'' @ CHR '' '' # antenna c]) = d\<lparr>antenna := antenna c\<rparr>" for d n
    using ant by simp
  have d0: "fft_size config_defaults = 0" "site config_defaults = []" "antennas config_defaults = [CONFIG_ANTENNA_DEFAULT]"
    "sites config_defaults = []" "calibrations config_defaults = []" "unknown config_defaults = []"
    by (simp_all add: config_defaults_def copy_value_def CONFIG_VALUE_MAX_def CONFIG_ANTENNA_DEFAULT_def)
  show ?thesis unfolding config_lines_def
    by (rule chain, rule head, rule chain, rule one, rule chain, rule fft, simp add: d0, rule chain, rule st,
        simp add: d0, rule chain, rule ants, simp add: d0, rule chain, rule known, simp add: d0, rule chain, rule cals,
        simp add: d0, rule trans, rule unk) (simp_all add: d0 config.equality)
qed

lemma saved_is_loaded:
  assumes "config_ok c" "config_save_bytes c = Some bytes"
  shows "config_load_bytes (Some bytes) = (c, 0)"
proof -
  have "bytes = concat (format_pieces c)" and "length bytes < 4096"
    using write_pieces_Some [OF assms(2) [unfolded config_save_bytes_def config_format_def]] by auto
  then have bytes: "bytes = concat (map (\<lambda>l. l @ [CHR 0x0A]) (config_lines c))" "take 4095 bytes = bytes"
    by (simp_all add: format_lines)
  have "CHR 0x00 \<notin> set bytes" using lines_clean [OF assms(1)] by (auto simp: bytes(1))
  then have whole: "takeWhile (\<lambda>x. x \<noteq> CHR 0x00) bytes = bytes" unfolding takeWhile_eq_all_conv by auto
  have "text_lines bytes = config_lines c" unfolding bytes(1) using lines_clean [OF assms(1)] by (intro text_lines_lines) blast
  then show ?thesis
    using parse_restores [OF assms(1)] by (simp add: config_load_bytes_def bytes(2) whole config_parse_def)
qed

text \<open>A name longer than an entry holds is accepted and cut, so it is not found again and is stored a second time.\<close>

lemma long_receiver_not_found:
  "let r = replicate 96 CHR ''r''; c = fst (config_set_calibration config_defaults r ''roof'' 5)
   in config_calibration_ppm c r ''roof'' = None \<and> length (calibrations c) = 1 \<and>
     length (calibrations (fst (config_set_calibration c r ''roof'' 5))) = 2"
  by code_simp

subsection \<open>Every settings the program can reach\<close>

text \<open>What the program does to the settings between reading and writing them. The names come from the operator; the
  premises say that they are names the file can carry.\<close>

inductive settings :: "config \<Rightarrow> bool" where
  start: "settings config_defaults"
| antenna_said: "settings c \<Longrightarrow> tidy a \<Longrightarrow> length a \<le> 95 \<Longrightarrow> settings (c\<lparr>antenna := a\<rparr>)"
| site_said: "settings c \<Longrightarrow> tidy s \<Longrightarrow> length s \<le> 95 \<Longrightarrow> settings (c\<lparr>site := s\<rparr>)"
| antenna_remembered: "settings c \<Longrightarrow> name_ok a \<Longrightarrow> settings (fst (config_remember_antenna c a))"
| site_remembered: "settings c \<Longrightarrow> name_ok s \<Longrightarrow> settings (fst (config_remember_site c s))"
| site_ppm_set: "settings c \<Longrightarrow> name_ok s \<Longrightarrow> int32 ppm \<Longrightarrow> settings (fst (config_set_site_ppm c s ppm))"
| legacy_cleared: "settings c \<Longrightarrow> settings (fst (config_clear_legacy_ppm c s))"
| calibrated: "settings c \<Longrightarrow> word_like r \<Longrightarrow> length r \<le> 95 \<Longrightarrow> name_ok s \<Longrightarrow> length r + length s \<le> 160 \<Longrightarrow> int32 ppm \<Longrightarrow>
    settings (fst (config_set_calibration c r s ppm))"
| fft_set: "settings c \<Longrightarrow> settings (fst (config_set_fft_size c n))"

definition sites_ok :: "config_site list \<Rightarrow> bool" where
  "sites_ok xs = (distinct (map site_label xs) \<and> length xs \<le> 12 \<and> (\<forall>x\<in>set xs. site_ok x))"

lemma config_ok_sites: "config_ok c \<Longrightarrow> sites_ok xs \<Longrightarrow> config_ok (c\<lparr>sites := xs\<rparr>)"
  by (simp add: config_ok_def sites_ok_def)

lemma sites_ok_of: "config_ok c \<Longrightarrow> sites_ok (sites c)" by (simp add: config_ok_def sites_ok_def)

lemma sites_ok_move:
  assumes "sites_ok xs" "x \<in> set xs"
  shows "sites_ok (x # filter (\<lambda>y. site_label y \<noteq> site_label x) xs)"
proof -
  have "length (filter (\<lambda>y. site_label y \<noteq> site_label x) xs) < length xs"
    using assms(2) by (intro length_filter_less [of x]) simp_all
  then show ?thesis using assms by (auto simp: sites_ok_def distinct_map_filter)
qed

lemma sites_ok_push:
  assumes "sites_ok xs" "s \<notin> site_label ` set xs" "name_ok s"
  shows "sites_ok (\<lparr>site_label = s, site_ppm = 0\<rparr> # take 11 xs)"
proof -
  have "s \<notin> site_label ` set (take 11 xs)" using assms(2) set_take_subset by fastforce
  moreover have "distinct (map site_label (take 11 xs))" using assms(1) by (simp add: sites_ok_def take_map [symmetric])
  moreover have "\<forall>x\<in>set (take 11 xs). site_ok x" using assms(1) set_take_subset by (fastforce simp: sites_ok_def)
  ultimately show ?thesis using assms by (simp add: sites_ok_def site_ok_def int32_def)
qed

lemma sites_ok_ppm:
  assumes "sites_ok xs" "k < length xs" "int32 p"
  shows "sites_ok (xs[k := (xs ! k)\<lparr>site_ppm := p\<rparr>])"
proof -
  have "map site_label (xs[k := (xs ! k)\<lparr>site_ppm := p\<rparr>]) = map site_label xs"
    using assms(2) by (simp add: map_update list_update_id [of "map site_label xs" k, unfolded nth_map [OF assms(2)]])
  moreover have "site_ok ((xs ! k)\<lparr>site_ppm := p\<rparr>)" using assms by (simp add: sites_ok_def site_ok_def)
  ultimately show ?thesis using assms set_update_subset_insert [of xs k] by (fastforce simp: sites_ok_def)
qed

lemma remember_site_ok:
  assumes "config_ok c" "name_ok s"
  shows "config_ok (fst (config_remember_site c s))"
proof -
  have "distinct (map site_label (sites c))" "length (sites c) \<le> 12" "s \<noteq> []" "length s \<le> 95"
    using sites_ok_of [OF assms(1)] assms(2) by (simp_all add: sites_ok_def name_ok_def)
  from remember_site_cases [OF this] show ?thesis
    using sites_ok_move sites_ok_push sites_ok_of [OF assms(1)] assms by (auto intro!: config_ok_sites)
qed

lemma set_site_ppm_ok:
  assumes "config_ok c" "name_ok s" "int32 p"
  shows "config_ok (fst (config_set_site_ppm c s p))"
  using remember_site_ok [OF assms(1,2)] first_index_cases [of "\<lambda>x. site_label x = s" "sites (fst (config_remember_site c s))"] assms
  by (auto simp: config_set_site_ppm_def Let_def intro!: config_ok_sites sites_ok_ppm sites_ok_of)

lemma clear_legacy_ok: "config_ok c \<Longrightarrow> config_ok (fst (config_clear_legacy_ppm c s))"
  using first_index_cases [of "\<lambda>x. site_label x = s" "sites c"]
  by (auto simp: config_clear_legacy_ppm_def int32_def intro!: config_ok_sites sites_ok_ppm sites_ok_of)

lemma remember_antenna_ok:
  assumes "config_ok c" "name_ok a"
  shows "config_ok (fst (config_remember_antenna c a))"
proof -
  have a: "distinct (antennas c)" "length (antennas c) \<le> 8" "a \<noteq> []" "length a \<le> 95"
    using assms by (simp_all add: config_ok_def name_ok_def)
  show ?thesis unfolding remember_antenna_recent [OF a]
    using assms recent_keeps [OF a(1,2), of a] recent_keeps(4) [OF a(1,2), of CONFIG_ANTENNA_DEFAULT a] by (auto simp: config_ok_def)
qed

definition calibrations_ok :: "config_calibration list \<Rightarrow> bool" where
  "calibrations_ok xs = (length xs \<le> 32 \<and> (\<forall>k\<in>set xs. calibration_ok k))"

lemma calibrations_ok_ppm:
  assumes "calibrations_ok xs" "k < length xs" "int32 p"
  shows "calibrations_ok (xs[k := (xs ! k)\<lparr>cal_ppm := p\<rparr>])"
proof -
  have "calibration_ok ((xs ! k)\<lparr>cal_ppm := p\<rparr>)" using assms by (simp add: calibrations_ok_def calibration_ok_def)
  then show ?thesis using assms(1) set_update_subset_insert [of xs k] by (fastforce simp: calibrations_ok_def)
qed

lemma set_calibration_ok:
  assumes "config_ok c" "word_like r" "length r \<le> 95" "name_ok s" "length r + length s \<le> 160" "int32 p"
  shows "config_ok (fst (config_set_calibration c r s p))"
proof -
  have ok: "calibrations_ok (calibrations c)" using assms(1) by (simp add: config_ok_def calibrations_ok_def)
  have put: "config_ok (c\<lparr>calibrations := xs\<rparr>)" if "calibrations_ok xs" for xs
    using assms(1) that by (simp add: config_ok_def calibrations_ok_def)
  have new: "calibration_ok \<lparr>cal_receiver = r, cal_site = s, cal_ppm = p\<rparr>" and short: "length s \<le> 95"
    using assms by (simp_all add: calibration_ok_def name_ok_def)
  show ?thesis using first_index_cases [of "\<lambda>x. cal_receiver x = r \<and> cal_site x = s" "calibrations c"]
  proof
    assume "first_index (\<lambda>x. cal_receiver x = r \<and> cal_site x = s) (calibrations c) = None \<and>
      (\<forall>x\<in>set (calibrations c). \<not> (cal_receiver x = r \<and> cal_site x = s))"
    moreover have "length (calibrations c) < 32 \<Longrightarrow>
        calibrations_ok (calibrations c @ [\<lparr>cal_receiver = r, cal_site = s, cal_ppm = p\<rparr>])"
      using ok new by (simp add: calibrations_ok_def)
    ultimately show ?thesis using assms(1,3) short put
      by (simp add: config_set_calibration_def CONFIG_CALIBRATIONS_MAX_def)
  next
    assume "\<exists>k. first_index (\<lambda>x. cal_receiver x = r \<and> cal_site x = s) (calibrations c) = Some k \<and> k < length (calibrations c) \<and>
      cal_receiver (calibrations c ! k) = r \<and> cal_site (calibrations c ! k) = s"
    then obtain k where "first_index (\<lambda>x. cal_receiver x = r \<and> cal_site x = s) (calibrations c) = Some k"
      "k < length (calibrations c)" by blast
    then show ?thesis using assms(1) put [OF calibrations_ok_ppm [OF ok _ assms(6)]]
      by (simp add: config_set_calibration_def)
  qed
qed

lemma defaults_ok: "config_ok config_defaults"
  by (simp add: config_ok_def config_defaults_def copy_value_def CONFIG_VALUE_MAX_def CONFIG_ANTENNA_DEFAULT_def name_ok_def
      tidy_def blank_def)

lemma settings_ok: "settings c \<Longrightarrow> config_ok c"
proof (induction rule: settings.induct)
  case (fft_set c n)
  then show ?case by (auto simp: config_set_fft_size_def config_ok_def)
qed (simp_all add: defaults_ok remember_antenna_ok remember_site_ok set_site_ppm_ok clear_legacy_ok set_calibration_ok,
    simp_all add: config_ok_def)

subsection \<open>The calibrations are a map\<close>

lemma find_other_update:
  "k < length xs \<Longrightarrow> \<not> Q y \<Longrightarrow> \<not> Q (xs ! k) \<Longrightarrow> find Q (xs[k := y]) = find Q xs"
proof (induction xs arbitrary: k)
  case (Cons x xs)
  then show ?case by (cases k) auto
qed simp

lemma find_append_one: "find P (xs @ [y]) = (case find P xs of Some z \<Rightarrow> Some z | None \<Rightarrow> if P y then Some y else None)"
  by (induction xs) simp_all

lemma calibration_map:
  assumes "r \<noteq> []" "s \<noteq> []" "length r \<le> 95" "length s \<le> 95"
  shows "if snd (config_set_calibration c r s p) = - 1
    then fst (config_set_calibration c r s p) = c \<and> config_calibration_ppm c r s = None \<and> length (calibrations c) \<ge> 32
    else config_calibration_ppm (fst (config_set_calibration c r s p)) r' s' =
      (if r' = r \<and> s' = s then Some p else config_calibration_ppm c r' s')"
proof -
  let ?P = "\<lambda>x. cal_receiver x = r \<and> cal_site x = s"
  let ?Q = "\<lambda>x. cal_receiver x = r' \<and> cal_site x = s'"
  show ?thesis using first_index_cases [of ?P "calibrations c"]
  proof
    assume none: "first_index ?P (calibrations c) = None \<and> (\<forall>x\<in>set (calibrations c). \<not> ?P x)"
    then have "find ?P (calibrations c) = None" by (simp add: find_None_iff)
    then show ?thesis using none assms
      by (auto simp: config_set_calibration_def config_calibration_ppm_def CONFIG_CALIBRATIONS_MAX_def find_append_one
          split: option.splits)
  next
    assume "\<exists>k. first_index ?P (calibrations c) = Some k \<and> k < length (calibrations c) \<and> ?P (calibrations c ! k)"
    then obtain k where k: "first_index ?P (calibrations c) = Some k" "k < length (calibrations c)" "?P (calibrations c ! k)" by blast
    let ?y = "(calibrations c ! k)\<lparr>cal_ppm := p\<rparr>"
    have same: "find ?P (calibrations c) = Some (calibrations c ! k)" by (rule first_index_find [OF k(1)])
    have new: "find ?P ((calibrations c)[k := ?y]) = Some ?y" using k(3) by (intro find_first_update [OF k(1)]) simp
    have other: "\<not> (r' = r \<and> s' = s) \<Longrightarrow> find ?Q ((calibrations c)[k := ?y]) = find ?Q (calibrations c)"
      using k by (intro find_other_update) auto
    show ?thesis
    proof (cases "r' = r \<and> s' = s")
      case True
      then show ?thesis using k assms same new by (simp add: config_set_calibration_def config_calibration_ppm_def)
    next
      case False
      then show ?thesis using k assms other [OF False] by (auto simp: config_set_calibration_def config_calibration_ppm_def)
    qed
  qed
qed

text \<open>C40: The calibrations are a map from a receiver at a site to its correction, for names that are not empty and have at most
  the 95 characters an entry holds: a correction that is accepted, new or overwriting, is the one read for that receiver
  and site from then on, and no other reading changes; the call is refused only for a new pair when thirty-two are
  held.\<close>

theorem calibration_is_map:
  assumes "r \<noteq> []" "s \<noteq> []" "length r \<le> 95" "length s \<le> 95"
  shows "if snd (config_set_calibration c r s p) = - 1
    then fst (config_set_calibration c r s p) = c \<and> config_calibration_ppm c r s = None \<and> length (calibrations c) \<ge> 32
    else config_calibration_ppm (fst (config_set_calibration c r s p)) r' s' =
      (if r' = r \<and> s' = s then Some p else config_calibration_ppm c r' s')"
  by (rule calibration_map [OF assms])

lemma calibration_is_map_witness:
  "config_calibration_ppm (fst (config_set_calibration (fst (config_set_calibration config_defaults ''rtl 0'' ''roof'' 3))
     ''rtl 0'' ''roof'' 5)) ''rtl 0'' ''roof'' = Some 5"
  using calibration_is_map [of "''rtl 0''" "''roof''" "fst (config_set_calibration config_defaults ''rtl 0'' ''roof'' 3)" 5
      "''rtl 0''" "''roof''"]
  by (simp add: config_set_calibration_def config_defaults_def first_index_def CONFIG_CALIBRATIONS_MAX_def copy_value_def
      CONFIG_VALUE_MAX_def)

text \<open>C25: What is saved is what the next run loads. Every settings that the operations reach from the defaults, with names the
  file can carry (at most 95 characters and neither a line break nor a zero in them, no blank at either end; a receiver is
  a single word, and with its site at most 160 characters long), is written by \<open>config_save\<close> so that \<open>config_load\<close> reads
  the same settings back, field by field and in the same order, whenever they fit in the four kilobytes.\<close>

theorem settings_survive_restart:
  assumes "settings c" "config_save_bytes c = Some bytes"
  shows "config_load_bytes (Some bytes) = (c, 0)"
  using saved_is_loaded [OF settings_ok [OF assms(1)] assms(2)] .

definition sample_settings :: config where
  "sample_settings = fst (config_set_calibration (fst (config_remember_antenna (fst (config_set_site_ppm
     (fst (config_set_fft_size (config_defaults\<lparr>site := ''Rua da Prata 2''\<rparr>) 2048))
     ''Rua da Prata 2'' (- 7))) ''discone on the roof'')) ''rtlsdr-0001'' ''Rua da Prata 2'' 3)"

lemma sample_settings_reached: "settings sample_settings"
  unfolding sample_settings_def
  by (intro settings.calibrated settings.antenna_remembered settings.site_ppm_set settings.fft_set settings.site_said settings.start)
    (simp_all add: name_ok_def tidy_def word_like_def blank_def int32_def)

lemma settings_survive_restart_witness:
  "\<exists>bytes. config_save_bytes sample_settings = Some bytes \<and> config_load_bytes (Some bytes) = (sample_settings, 0)"
proof -
  have "config_save_bytes sample_settings \<noteq> None" by code_simp
  then obtain bytes where "config_save_bytes sample_settings = Some bytes" by blast
  with settings_survive_restart [OF sample_settings_reached this] show ?thesis by blast
qed

end
