(* ===== verification/Installation.thy ===== *)
theory Installation
  imports Config_File
begin

text \<open>
  The receiving setup, \<open>src/src/runtime/installation.h\<close> and \<open>installation.c\<close>: which receiver, at which site, on
  which antenna, and the corrections calibrated for it; what it takes from the settings, what it writes back to them,
  and the name its survey history is kept under. A \<open>char\<close> array is the string it holds. What the file operations
  of \<open>config_save\<close> return is an argument.
\<close>

subsection \<open>The setup in hand\<close>

definition INSTALLATION_ID_MAX :: nat where "INSTALLATION_ID_MAX = 64"
definition INSTALLATION_PROFILES_MAX :: nat where "INSTALLATION_PROFILES_MAX = 32"

record calibration_profile =
  prof_receiver :: string
  prof_site :: string
  prof_ppm :: int

record installation =
  inst_receiver :: string
  inst_site :: string
  inst_antenna :: string
  profile :: "calibration_profile list"
  dirty :: bool

definition installation_reset :: installation where
  "installation_reset = \<lparr>inst_receiver = [], inst_site = [], inst_antenna = [], profile = [], dirty = False\<rparr>"

definition installation_set_id :: "string \<Rightarrow> string" where
  "installation_set_id v = take (INSTALLATION_ID_MAX - 1) v"

definition installation_identify :: "installation \<Rightarrow> string \<Rightarrow> string \<Rightarrow> installation" where
  "installation_identify inst serial label =
     (if label \<noteq> [] then inst\<lparr>inst_receiver := installation_set_id label\<rparr>
      else if serial \<noteq> [] then inst\<lparr>inst_receiver := installation_set_id serial\<rparr>
      else inst\<lparr>inst_receiver := []\<rparr>)"

definition installation_identified :: "installation \<Rightarrow> bool" where
  "installation_identified inst = (inst_receiver inst \<noteq> [])"

text \<open>An empty receiver asks for a legacy value, which belongs to a site and to no receiver.\<close>

definition profile_matches :: "string \<Rightarrow> string \<Rightarrow> calibration_profile \<Rightarrow> bool" where
  "profile_matches r s p = (prof_site p = s \<and> (if r \<noteq> [] then prof_receiver p = r else prof_receiver p = []))"

definition installation_find :: "installation \<Rightarrow> string \<Rightarrow> string \<Rightarrow> nat option" where
  "installation_find inst r s = (if s = [] then None else first_index (profile_matches r s) (profile inst))"

definition installation_ppm :: "installation \<Rightarrow> int option" where
  "installation_ppm inst =
     (if \<not> installation_identified inst then None
      else map_option (\<lambda>at. prof_ppm (profile inst ! at)) (installation_find inst (inst_receiver inst) (inst_site inst)))"

definition installation_legacy_ppm :: "installation \<Rightarrow> int option" where
  "installation_legacy_ppm inst = map_option (\<lambda>at. prof_ppm (profile inst ! at)) (installation_find inst [] (inst_site inst))"

definition set_profile_ppm :: "installation \<Rightarrow> nat \<Rightarrow> int \<Rightarrow> installation" where
  "set_profile_ppm inst at ppm =
     (if prof_ppm (profile inst ! at) \<noteq> ppm
      then inst\<lparr>profile := (profile inst)[at := (profile inst ! at)\<lparr>prof_ppm := ppm\<rparr>], dirty := True\<rparr> else inst)"

text \<open>A new profile is the next of the array, zero until the number is set.\<close>

definition installation_record_ppm :: "installation \<Rightarrow> int \<Rightarrow> installation \<times> int" where
  "installation_record_ppm inst ppm =
     (if \<not> installation_identified inst \<or> inst_site inst = [] then (inst, - 1)
      else case installation_find inst (inst_receiver inst) (inst_site inst) of
             Some at \<Rightarrow> (set_profile_ppm inst at ppm, 0)
           | None \<Rightarrow>
               if length (profile inst) \<ge> INSTALLATION_PROFILES_MAX then (inst, - 1)
               else (set_profile_ppm (inst\<lparr>profile := profile inst @ [\<lparr>prof_receiver = installation_set_id (inst_receiver inst),
                       prof_site = installation_set_id (inst_site inst), prof_ppm = 0\<rparr>]\<rparr>) (length (profile inst)) ppm, 0))"

definition installation_claim_legacy :: "installation \<Rightarrow> installation \<times> int" where
  "installation_claim_legacy inst =
     (if \<not> installation_identified inst then (inst, - 1)
      else case installation_find inst [] (inst_site inst) of
             None \<Rightarrow> (inst, - 1)
           | Some k \<Rightarrow> (inst\<lparr>profile := (profile inst)[k := (profile inst ! k)
               \<lparr>prof_receiver := installation_set_id (inst_receiver inst)\<rparr>], dirty := True\<rparr>, 0))"

definition installation_records_ppm :: "bool \<Rightarrow> bool \<Rightarrow> bool" where
  "installation_records_ppm ppm_given claimed = (ppm_given \<and> claimed)"

subsection \<open>The name of its history\<close>

definition installation_history_key :: "installation \<Rightarrow> nat \<Rightarrow> string option" where
  "installation_history_key inst size_out =
     (if size_out = 0 then None
      else if inst_site inst = [] \<or> inst_antenna inst = [] \<or> \<not> installation_identified inst then None
      else if length (inst_receiver inst) + length (inst_site inst) + length (inst_antenna inst) + 3 > size_out then None
      else Some (inst_receiver inst @ ''/'' @ inst_site inst @ ''/'' @ inst_antenna inst))"

definition history_char_ok :: "char \<Rightarrow> bool" where
  "history_char_ok c = (of_char c \<ge> (97::nat) \<and> of_char c \<le> (122::nat) \<or> of_char c \<ge> (65::nat) \<and> of_char c \<le> (90::nat) \<or>
     of_char c \<ge> (48::nat) \<and> of_char c \<le> (57::nat) \<or> c = CHR ''-'' \<or> c = CHR ''_'')"

definition history_safe :: "string \<Rightarrow> string" where
  "history_safe key = map (\<lambda>c. if history_char_ok c then c else CHR ''-'') (take (INSTALLATION_ID_MAX * 3 + 3 - 1) key)"

definition installation_history_path :: "installation \<Rightarrow> nat \<Rightarrow> string option" where
  "installation_history_path inst size_out =
     (case installation_history_key inst (INSTALLATION_ID_MAX * 3 + 3) of
        None \<Rightarrow> None
      | Some key \<Rightarrow>
          if history_safe key = [] then None
          else
            let path = ''surveys/history-'' @ history_safe key @ ''.txt''
            in if length path \<ge> size_out then None else Some path)"

subsection \<open>Between the setup and the settings\<close>

definition load_calibration :: "calibration_profile list \<Rightarrow> config_calibration \<Rightarrow> calibration_profile list" where
  "load_calibration ps k =
     (if length ps < INSTALLATION_PROFILES_MAX
      then ps @ [\<lparr>prof_receiver = installation_set_id (cal_receiver k), prof_site = installation_set_id (cal_site k),
                  prof_ppm = cal_ppm k\<rparr>] else ps)"

definition load_legacy :: "calibration_profile list \<Rightarrow> config_site \<Rightarrow> calibration_profile list" where
  "load_legacy ps s =
     (if length ps < INSTALLATION_PROFILES_MAX then
        if site_ppm s = 0 then ps
        else ps @ [\<lparr>prof_receiver = [], prof_site = installation_set_id (site_label s), prof_ppm = site_ppm s\<rparr>]
      else ps)"

definition installation_load :: "config \<Rightarrow> string \<Rightarrow> string \<Rightarrow> installation" where
  "installation_load c serial label =
     (let inst = installation_identify installation_reset serial label;
          inst = inst\<lparr>inst_site := installation_set_id (site c), inst_antenna := installation_set_id (antenna c)\<rparr>
      in inst\<lparr>profile := foldl load_legacy (foldl load_calibration [] (calibrations c)) (sites c), dirty := False\<rparr>)"

definition commit_profile :: "config \<Rightarrow> calibration_profile \<Rightarrow> config" where
  "commit_profile c p =
     (if prof_receiver p = [] \<or> prof_site p = [] then c
      else fst (config_clear_legacy_ppm (fst (config_set_calibration c (prof_receiver p) (prof_site p) (prof_ppm p)))
        (prof_site p)))"

definition config_save :: "(string \<Rightarrow> int) \<Rightarrow> config \<Rightarrow> int" where
  "config_save write_file c = (case config_save_bytes c of None \<Rightarrow> - 1 | Some bytes \<Rightarrow> write_file bytes)"

definition commit_names :: "installation \<Rightarrow> config \<Rightarrow> config" where
  "commit_names inst c =
     (let c = (if inst_site inst \<noteq> []
               then fst (config_remember_site (c\<lparr>site := copy_value CONFIG_VALUE_MAX (inst_site inst)\<rparr>) (inst_site inst)) else c)
      in if inst_antenna inst \<noteq> []
         then fst (config_remember_antenna (c\<lparr>antenna := copy_value CONFIG_VALUE_MAX (inst_antenna inst)\<rparr>) (inst_antenna inst))
         else c)"

definition installation_commit :: "(string \<Rightarrow> int) \<Rightarrow> installation \<Rightarrow> config \<Rightarrow> installation \<times> config \<times> int" where
  "installation_commit write_file inst c =
     (if \<not> dirty inst then (inst, c, 0)
      else
        let c = foldl commit_profile (commit_names inst c) (profile inst);
            wrote = config_save write_file c
        in (if wrote = 0 then inst\<lparr>dirty := False\<rparr> else inst, c, wrote))"


subsection \<open>The correction in hand is this receiver's\<close>

definition short_names :: "config \<Rightarrow> bool" where
  "short_names c = (length (site c) \<le> 63 \<and> length (antenna c) \<le> 63 \<and>
     (\<forall>k\<in>set (calibrations c). length (cal_receiver k) \<le> 63 \<and> length (cal_site k) \<le> 63))"

definition as_profile :: "config_calibration \<Rightarrow> calibration_profile" where
  "as_profile k = \<lparr>prof_receiver = cal_receiver k, prof_site = cal_site k, prof_ppm = cal_ppm k\<rparr>"

lemma set_id_short [simp]: "length v \<le> 63 \<Longrightarrow> installation_set_id v = v"
  by (simp add: installation_set_id_def INSTALLATION_ID_MAX_def)


lemma set_id_nonempty: "v \<noteq> [] \<Longrightarrow> installation_set_id v \<noteq> []"
  by (cases v) (simp_all add: installation_set_id_def INSTALLATION_ID_MAX_def)

lemma load_calibrations:
  "\<forall>k\<in>set ks. length (cal_receiver k) \<le> 63 \<and> length (cal_site k) \<le> 63 \<Longrightarrow> length ps + length ks \<le> 32 \<Longrightarrow>
   foldl load_calibration ps ks = ps @ map as_profile ks"
  by (induction ks arbitrary: ps) (simp_all add: load_calibration_def INSTALLATION_PROFILES_MAX_def as_profile_def)

lemma load_legacies:
  "\<exists>qs. foldl load_legacy ps ss = ps @ qs \<and> (\<forall>q\<in>set qs. prof_receiver q = []) \<and> (length ps \<le> 32 \<longrightarrow> length ps + length qs \<le> 32)"
proof (induction ss arbitrary: ps)
  case (Cons s ss)
  have "\<exists>q. load_legacy ps s = ps @ q \<and> (\<forall>x\<in>set q. prof_receiver x = []) \<and> (length ps \<le> 32 \<longrightarrow> length ps + length q \<le> 32)"
    by (auto simp: load_legacy_def INSTALLATION_PROFILES_MAX_def)
  then obtain q where q: "load_legacy ps s = ps @ q" "\<forall>x\<in>set q. prof_receiver x = []"
    "length ps \<le> 32 \<longrightarrow> length ps + length q \<le> 32" by blast
  from Cons.IH [of "ps @ q"] obtain qs where "foldl load_legacy (ps @ q) ss = ps @ q @ qs" "\<forall>x\<in>set qs. prof_receiver x = []"
    "length (ps @ q) \<le> 32 \<longrightarrow> length (ps @ q) + length qs \<le> 32" by auto
  then show ?case using q by (intro exI [of _ "q @ qs"]) auto
qed simp

lemma loaded:
  assumes "settings c" "short_names c"
  obtains qs where "profile (installation_load c serial label) = map as_profile (calibrations c) @ qs"
    "\<forall>q\<in>set qs. prof_receiver q = []" "length (profile (installation_load c serial label)) \<le> 32"
    "inst_site (installation_load c serial label) = site c" "inst_antenna (installation_load c serial label) = antenna c"
    "dirty (installation_load c serial label) = False"
proof -
  have n: "length (calibrations c) \<le> 32" using settings_ok [OF assms(1)] by (simp add: config_ok_def)
  then have cal: "foldl load_calibration [] (calibrations c) = map as_profile (calibrations c)"
    using load_calibrations [of "calibrations c" "[]"] assms(2) by (simp add: short_names_def)
  obtain qs where "foldl load_legacy (map as_profile (calibrations c)) (sites c) = map as_profile (calibrations c) @ qs"
    "\<forall>q\<in>set qs. prof_receiver q = []" "length (map as_profile (calibrations c) @ qs) \<le> 32"
    using load_legacies [of "map as_profile (calibrations c)" "sites c"] n by auto
  then show ?thesis using assms(2) n
    by (intro that [of qs]) (simp_all add: installation_load_def Let_def cal short_names_def installation_identify_def installation_reset_def)
qed

lemma map_find: "map_option f (find P xs) = map_option (\<lambda>k. f (xs ! k)) (first_index P xs)"
  using first_index_cases [of P xs] by (auto simp: first_index_find find_None_iff)

lemma installation_ppm_find:
  "inst_receiver inst \<noteq> [] \<Longrightarrow> inst_site inst \<noteq> [] \<Longrightarrow> installation_ppm inst =
     map_option prof_ppm (find (\<lambda>p. prof_site p = inst_site inst \<and> prof_receiver p = inst_receiver inst) (profile inst))"
proof -
  assume "inst_receiver inst \<noteq> []" "inst_site inst \<noteq> []"
  moreover have "inst_receiver inst \<noteq> [] \<Longrightarrow> profile_matches (inst_receiver inst) (inst_site inst) =
      (\<lambda>p. prof_site p = inst_site inst \<and> prof_receiver p = inst_receiver inst)"
    by (simp add: fun_eq_iff profile_matches_def)
  ultimately show ?thesis
    by (simp add: installation_ppm_def installation_identified_def installation_find_def map_find option.map_comp comp_def)
qed

lemma find_map: "find P (map f xs) = map_option f (find (P \<circ> f) xs)"
  by (induction xs) simp_all

lemma find_append_none: "(\<forall>y\<in>set ys. \<not> P y) \<Longrightarrow> find P (xs @ ys) = find P xs"
  by (induction xs) (auto simp: find_None_iff)

lemma applied_correction:
  assumes "settings c" "short_names c"
  shows "installation_ppm (installation_load c serial label) =
    config_calibration_ppm c (inst_receiver (installation_load c serial label)) (site c)"
proof -
  obtain qs where p: "profile (installation_load c serial label) = map as_profile (calibrations c) @ qs"
    "\<forall>q\<in>set qs. prof_receiver q = []" "inst_site (installation_load c serial label) = site c" by (rule loaded [OF assms])
  show ?thesis
  proof (cases "inst_receiver (installation_load c serial label) = [] \<or> site c = []")
    case True
    then show ?thesis using p(3)
      by (auto simp: installation_ppm_def installation_identified_def config_calibration_ppm_def installation_find_def)
  next
    case False
    then have "installation_ppm (installation_load c serial label) = map_option prof_ppm (find (\<lambda>p. prof_site p = site c \<and>
        prof_receiver p = inst_receiver (installation_load c serial label)) (map as_profile (calibrations c)))"
      using p by (simp add: installation_ppm_find) (subst find_append_none, auto)
    then show ?thesis using False
      by (simp add: find_map comp_def as_profile_def option.map_comp config_calibration_ppm_def conj_commute)
  qed
qed

text \<open>C27: When no name in the settings is longer than the 63 characters a profile holds, the correction a setup applies is the
  one the settings hold for its receiver at its site, and no other: not another receiver's, not another site's, and never a
  legacy value, which belongs to a site alone; with no receiver identity or no site there is none. A longer site is cut,
  and then it can be another's (\<open>long_site_is_anothers\<close>).\<close>

theorem correction_is_this_receivers:
  assumes "settings c" "short_names c"
  shows "installation_ppm (installation_load c serial label) =
    config_calibration_ppm c (inst_receiver (installation_load c serial label)) (site c)"
  by (rule applied_correction [OF assms])

lemma correction_is_this_receivers_witness:
  "installation_ppm (installation_load sample_settings ''rtlsdr-0001'' []) = Some 3 \<and>
   installation_ppm (installation_load sample_settings ''rtlsdr-0002'' []) = None"
proof -
  have s: "short_names sample_settings" by code_simp
  have "config_calibration_ppm sample_settings (inst_receiver (installation_load sample_settings ''rtlsdr-0001'' []))
      (site sample_settings) = Some 3"
    "config_calibration_ppm sample_settings (inst_receiver (installation_load sample_settings ''rtlsdr-0002'' []))
      (site sample_settings) = None" by code_simp+
  then show ?thesis unfolding correction_is_this_receivers [OF sample_settings_reached s] by blast
qed

subsection \<open>A recorded correction comes back\<close>


lemma others_keep_calibrations [simp]:
  "calibrations (fst (config_remember_antenna c a)) = calibrations c"
  "calibrations (fst (config_remember_site c s)) = calibrations c"
  "calibrations (fst (config_set_site_ppm c s p)) = calibrations c"
  "calibrations (fst (config_clear_legacy_ppm c s)) = calibrations c"
  "calibrations (fst (config_set_fft_size c n)) = calibrations c"
  by (auto simp: config_remember_antenna_def config_remember_site_def config_set_site_ppm_def config_clear_legacy_ppm_def
      config_set_fft_size_def Let_def split: option.splits)



definition profile_pair :: "calibration_profile \<Rightarrow> string \<times> string" where
  "profile_pair p = (prof_receiver p, prof_site p)"

definition owned :: "calibration_profile \<Rightarrow> bool" where
  "owned p = (prof_receiver p \<noteq> [] \<and> prof_site p \<noteq> [])"


lemma clear_legacy_ppm_reading [simp]:
  "config_calibration_ppm (fst (config_clear_legacy_ppm c s)) = config_calibration_ppm c"
  by (simp add: config_calibration_ppm_def fun_eq_iff)







lemma pair_profile [simp]: "profile_pair (p\<lparr>prof_ppm := x\<rparr>) = profile_pair p" "owned (p\<lparr>prof_ppm := x\<rparr>) = owned p"
  by (simp_all add: profile_pair_def owned_def)





text \<open>What the code does that its decision records refuse. A legacy correction that nobody claimed is cleared when another
  receiver is calibrated at its site.\<close>

definition legacy_settings :: config where
  "legacy_settings = fst (config_set_site_ppm (config_defaults\<lparr>site := ''roof''\<rparr>) ''roof'' 32)"

lemma legacy_value_lost:
  "let inst = fst (installation_record_ppm (installation_load legacy_settings ''rtlsdr-0001'' []) 5);
       c = fst (snd (installation_commit (\<lambda>_. 0) inst legacy_settings))
   in installation_legacy_ppm inst = Some 32 \<and> installation_legacy_ppm (installation_load c ''rtlsdr-0001'' []) = None"
  by code_simp

text \<open>A label with a space in it is an identity that the file cannot carry: the line written for its correction is read as
  none.\<close>

lemma label_with_space_lost: "parse_calibration (''blue dongle'' @ '' '' @ signed_decimal 5 @ '' '' @ ''roof'') c = c"
proof -
  have "takeWhile (\<lambda>x. \<not> blank x) (''blue dongle'' @ r) = ''blue''" "dropWhile (\<lambda>x. \<not> blank x) (''blue dongle'' @ r) = '' dongle'' @ r"
    "dropWhile blank ('' dongle'' @ r) = ''dongle'' @ r" for r by (simp_all add: blank_def)
  note w = this
  have "strtol (''dongle'' @ r) = None" for r by (simp add: strtol_def isspace_def isdigit_def Let_def)
  then show ?thesis unfolding parse_calibration_def Let_def w by simp
qed

text \<open>A first correction of zero changes nothing that a commit would write.\<close>

lemma zero_correction_not_dirty:
  "let (inst, rc) = installation_record_ppm (installation_load (config_defaults\<lparr>site := ''roof''\<rparr>) ''rtlsdr-0001'' []) 0
   in rc = 0 \<and> installation_ppm inst = Some 0 \<and> \<not> dirty inst"
  by code_simp

text \<open>A site may have 95 characters in the settings and has 63 in a profile: two that agree in those share a correction.\<close>

definition long_site_settings :: config where
  "long_site_settings = config_defaults\<lparr>site := replicate 63 CHR ''a'' @ ''-north'',
     calibrations := [\<lparr>cal_receiver = ''rtlsdr-0001'', cal_site = replicate 63 CHR ''a'' @ ''-south'', cal_ppm = 7\<rparr>]\<rparr>"

lemma long_site_is_anothers:
  "installation_ppm (installation_load long_site_settings ''rtlsdr-0001'' []) = Some 7 \<and>
   config_calibration_ppm long_site_settings ''rtlsdr-0001'' (site long_site_settings) = None"
  by code_simp

subsection \<open>The key of a history\<close>

lemma split_at_slash:
  "CHR ''/'' \<notin> set a \<Longrightarrow> CHR ''/'' \<notin> set b \<Longrightarrow> a @ CHR ''/'' # x = b @ CHR ''/'' # y \<Longrightarrow> a = b \<and> x = y"
proof (induction a arbitrary: b)
  case Nil then show ?case by (cases b) auto
next
  case (Cons z a) then show ?case by (cases b) auto
qed

text \<open>Two setups with one history key are one setup: the same receiver, the same site and the same antenna, provided
  the names of the receiver and the site have no slash in them; nothing is cut to make the key fit.\<close>

theorem history_key_is_setup:
  assumes "installation_history_key a n = Some key" "installation_history_key b m = Some key"
    "\<forall>x\<in>{a, b}. CHR ''/'' \<notin> set (inst_receiver x) \<and> CHR ''/'' \<notin> set (inst_site x)"
  shows "inst_receiver a = inst_receiver b \<and> inst_site a = inst_site b \<and> inst_antenna a = inst_antenna b"
proof -
  have "inst_receiver a @ CHR ''/'' # (inst_site a @ CHR ''/'' # inst_antenna a) = key"
    "inst_receiver b @ CHR ''/'' # (inst_site b @ CHR ''/'' # inst_antenna b) = key"
    using assms(1,2) by (simp_all add: installation_history_key_def split: if_splits)
  then have first: "inst_receiver a @ CHR ''/'' # (inst_site a @ CHR ''/'' # inst_antenna a) =
      inst_receiver b @ CHR ''/'' # (inst_site b @ CHR ''/'' # inst_antenna b)" by simp
  from split_at_slash [OF _ _ first] have "inst_receiver a = inst_receiver b"
    and rest: "inst_site a @ CHR ''/'' # inst_antenna a = inst_site b @ CHR ''/'' # inst_antenna b" using assms(3) by simp_all
  with split_at_slash [OF _ _ rest] show ?thesis using assms(3) by simp
qed

lemma history_key_is_setup_witness:
  "\<exists>key. installation_history_key (installation_load sample_settings ''rtlsdr-0001'' []) 195 = Some key \<and>
     inst_antenna (installation_load sample_settings ''rtlsdr-0001'' []) = ''telescopic''"
proof -
  let ?a = "installation_load sample_settings ''rtlsdr-0001'' []" and ?b = "installation_load sample_settings [] ''rtlsdr-0001''"
  have "installation_history_key ?a 195 \<noteq> None" by code_simp
  then obtain key where key: "installation_history_key ?a 195 = Some key" by blast
  have "installation_history_key ?b 200 = installation_history_key ?a 195" by code_simp
  moreover have "CHR ''/'' \<notin> set (inst_receiver ?a) \<and> CHR ''/'' \<notin> set (inst_site ?a)"
    "CHR ''/'' \<notin> set (inst_receiver ?b) \<and> CHR ''/'' \<notin> set (inst_site ?b)" by code_simp+
  ultimately have "inst_antenna ?a = inst_antenna ?b"
    by (intro history_key_is_setup [OF key, of ?b 200, THEN conjunct2, THEN conjunct2]) (simp only: key, blast)
  moreover have "inst_antenna ?b = ''telescopic''" by code_simp
  ultimately show ?thesis using key by (simp only:) blast
qed

text \<open>The file name keeps less: two antennas of one receiver at one site can share a history.\<close>

lemma history_files_collide:
  "let a = installation_load (config_defaults\<lparr>site := ''roof'', antenna := ''loop 1''\<rparr>) ''rtlsdr-0001'' [];
       b = installation_load (config_defaults\<lparr>site := ''roof'', antenna := ''loop-1''\<rparr>) ''rtlsdr-0001'' []
   in installation_history_path a 512 = Some ''surveys/history-rtlsdr-0001-roof-loop-1.txt'' \<and>
      installation_history_path b 512 = Some ''surveys/history-rtlsdr-0001-roof-loop-1.txt''"
  by code_simp

end
