(* ===== verification/Cell_Evidence.thy ===== *)
theory Cell_Evidence
  imports Floating "HOL-Library.Signed_Division"
begin

text \<open>
  When a decode may be believed: the tally of cell identities of \<open>src/src/tech/lte_confirm.h\<close>, which confirms an
  identity by its own broadcast channel and not by how often it was seen, and the continuity of GSM synchronization
  bursts of \<open>src/src/tech/gsm_continuity.h\<close>. The cells in use are a list, its length the count.
\<close>

subsection \<open>Cell identities\<close>

definition LTE_CONFIRM_MAX_CELLS :: nat where "LTE_CONFIRM_MAX_CELLS = 16"
definition LTE_CONFIRM_MIN_MESSAGES :: int where "LTE_CONFIRM_MIN_MESSAGES = 2"
definition LTE_CONFIRM_MIN_LOOKS :: int where "LTE_CONFIRM_MIN_LOOKS = 2"

datatype lte_cell_verdict = LTE_CELL_PENDING | LTE_CELL_CONFIRMED | LTE_CELL_UNREAD | LTE_CELL_SPURIOUS

record lte_cell_sighting =
  sighted_pci :: int
  looks :: int
  decodes :: int

record lte_cell_tally =
  cells :: "lte_cell_sighting list"
  tally_blocks :: int

definition lte_confirm_saw :: "lte_cell_tally \<Rightarrow> int \<Rightarrow> bool \<Rightarrow> lte_cell_tally" where
  "lte_confirm_saw tally pci message =
     (case first_index (\<lambda>c. sighted_pci c = pci) (cells tally) of
        Some i \<Rightarrow> tally\<lparr>cells := (cells tally)[i := (cells tally ! i)\<lparr>looks := looks (cells tally ! i) + 1,
                    decodes := decodes (cells tally ! i) + (if message then 1 else 0)\<rparr>]\<rparr>
      | None \<Rightarrow>
          if length (cells tally) \<ge> LTE_CONFIRM_MAX_CELLS then
            case first_index (\<lambda>c. looks c = 1 \<and> decodes c = 0) (cells tally) of
              Some i \<Rightarrow> tally\<lparr>cells := (cells tally)[i := (cells tally ! i)\<lparr>sighted_pci := pci,
                          decodes := (if message then 1 else 0)\<rparr>]\<rparr>
            | None \<Rightarrow> tally
          else tally\<lparr>cells := cells tally @ [\<lparr>sighted_pci = pci, looks = 1, decodes = (if message then 1 else 0)\<rparr>]\<rparr>)"

definition lte_confirm_block :: "lte_cell_tally \<Rightarrow> lte_cell_tally" where
  "lte_confirm_block tally = tally\<lparr>tally_blocks := tally_blocks tally + 1\<rparr>"

definition lte_cell_verdict_for :: "lte_cell_sighting \<Rightarrow> lte_cell_verdict" where
  "lte_cell_verdict_for seen =
     (if looks seen \<le> 0 then LTE_CELL_PENDING
      else if decodes seen \<ge> LTE_CONFIRM_MIN_MESSAGES then LTE_CELL_CONFIRMED
      else if looks seen < LTE_CONFIRM_MIN_LOOKS then LTE_CELL_SPURIOUS
      else LTE_CELL_UNREAD)"

definition lte_cell_verdict_name :: "lte_cell_verdict \<Rightarrow> string" where
  "lte_cell_verdict_name v =
     (case v of LTE_CELL_CONFIRMED \<Rightarrow> ''confirmed'' | LTE_CELL_UNREAD \<Rightarrow> ''unread'' | LTE_CELL_SPURIOUS \<Rightarrow> ''spurious''
      | LTE_CELL_PENDING \<Rightarrow> ''pending'')"

text \<open>The sightings a run reports, and what they say of one identity.\<close>

definition tally_of :: "(int \<times> bool) list \<Rightarrow> lte_cell_tally" where
  "tally_of sightings = foldl (\<lambda>t (pci, message). lte_confirm_saw t pci message) \<lparr>cells = [], tally_blocks = 0\<rparr> sightings"

definition seen_times :: "(int \<times> bool) list \<Rightarrow> int \<Rightarrow> int" where
  "seen_times sightings pci = int (length (filter (\<lambda>s. fst s = pci) sightings))"

definition read_times :: "(int \<times> bool) list \<Rightarrow> int \<Rightarrow> int" where
  "read_times sightings pci = int (length (filter (\<lambda>s. fst s = pci \<and> snd s) sightings))"

definition tally_ok :: "(int \<times> bool) list \<Rightarrow> lte_cell_tally \<Rightarrow> bool" where
  "tally_ok h t = (length (cells t) \<le> 16 \<and> distinct (map sighted_pci (cells t)) \<and> sighted_pci ` set (cells t) \<subseteq> fst ` set h \<and>
     (\<forall>c\<in>set (cells t). 1 \<le> looks c \<and> looks c \<le> seen_times h (sighted_pci c) \<and> 0 \<le> decodes c \<and>
        decodes c \<le> read_times h (sighted_pci c)))"

definition tally_exact :: "(int \<times> bool) list \<Rightarrow> lte_cell_tally \<Rightarrow> bool" where
  "tally_exact h t = (sighted_pci ` set (cells t) = fst ` set h \<and>
     (\<forall>c\<in>set (cells t). looks c = seen_times h (sighted_pci c) \<and> decodes c = read_times h (sighted_pci c)))"

lemma times_snoc:
  "seen_times (h @ [(p, m)]) q = seen_times h q + (if q = p then 1 else 0)"
  "read_times (h @ [(p, m)]) q = read_times h q + (if q = p \<and> m then 1 else 0)"
  by (auto simp: seen_times_def read_times_def)

lemma times_none: "q \<notin> fst ` set h \<Longrightarrow> seen_times h q = 0 \<and> read_times h q = 0"
  by (auto simp: seen_times_def read_times_def filter_empty_conv)

lemma times_least: "0 \<le> seen_times h q" "0 \<le> read_times h q"
  by (simp_all add: seen_times_def read_times_def)

lemma map_update_same: "i < length xs \<Longrightarrow> f y = f (xs ! i) \<Longrightarrow> map f (xs[i := y]) = map f xs"
  by (simp add: map_update list_update_same_conv)

lemma in_update: "x \<in> set (xs[i := y]) \<Longrightarrow> i < length xs \<Longrightarrow> x = y \<or> (\<exists>j<length xs. j \<noteq> i \<and> x = xs ! j)"
  by (auto simp: in_set_conv_nth nth_list_update split: if_splits)

lemma tally_ok_cells: "tally_ok h (t\<lparr>cells := xs\<rparr>) = (length xs \<le> 16 \<and> distinct (map sighted_pci xs) \<and>
    sighted_pci ` set xs \<subseteq> fst ` set h \<and> (\<forall>c\<in>set xs. 1 \<le> looks c \<and> looks c \<le> seen_times h (sighted_pci c) \<and>
      0 \<le> decodes c \<and> decodes c \<le> read_times h (sighted_pci c)))"
  by (simp add: tally_ok_def)

lemma tally_exact_cells: "tally_exact h (t\<lparr>cells := xs\<rparr>) = (sighted_pci ` set xs = fst ` set h \<and>
    (\<forall>c\<in>set xs. looks c = seen_times h (sighted_pci c) \<and> decodes c = read_times h (sighted_pci c)))"
  by (simp add: tally_exact_def)

lemma saw_ok:
  assumes "tally_ok h t" shows "tally_ok (h @ [(p, m)]) (lte_confirm_saw t p m)"
proof -
  note ok = assms [unfolded tally_ok_def]
  have grow: "1 \<le> looks c \<and> looks c \<le> seen_times (h @ [(p, m)]) (sighted_pci c) \<and> 0 \<le> decodes c \<and>
      decodes c \<le> read_times (h @ [(p, m)]) (sighted_pci c)" if "c \<in> set (cells t)" for c
    using ok that by (fastforce simp: times_snoc)
  show ?thesis using first_index_cases [of "\<lambda>c. sighted_pci c = p" "cells t"]
  proof
    assume none: "first_index (\<lambda>c. sighted_pci c = p) (cells t) = None \<and> (\<forall>c\<in>set (cells t). sighted_pci c \<noteq> p)"
    show ?thesis
    proof (cases "length (cells t) \<ge> 16")
      case False
      then show ?thesis using none ok grow
        by (auto simp: lte_confirm_saw_def LTE_CONFIRM_MAX_CELLS_def tally_ok_def times_snoc times_least)
    next
      case True
      show ?thesis using first_index_cases [of "\<lambda>c. looks c = 1 \<and> decodes c = 0" "cells t"]
      proof
        assume "first_index (\<lambda>c. looks c = 1 \<and> decodes c = 0) (cells t) = None \<and> (\<forall>c\<in>set (cells t). \<not> (looks c = 1 \<and> decodes c = 0))"
        then show ?thesis using none True ok grow
          by (auto simp: lte_confirm_saw_def LTE_CONFIRM_MAX_CELLS_def tally_ok_def)
      next
        assume "\<exists>i. first_index (\<lambda>c. looks c = 1 \<and> decodes c = 0) (cells t) = Some i \<and> i < length (cells t) \<and>
          looks (cells t ! i) = 1 \<and> decodes (cells t ! i) = 0"
        then obtain i where i: "first_index (\<lambda>c. looks c = 1 \<and> decodes c = 0) (cells t) = Some i" "i < length (cells t)"
          "looks (cells t ! i) = 1" by blast
        let ?y = "(cells t ! i)\<lparr>sighted_pci := p, decodes := (if m then 1 else 0)\<rparr>"
        have t': "lte_confirm_saw t p m = t\<lparr>cells := (cells t)[i := ?y]\<rparr>"
          using none True i by (simp add: lte_confirm_saw_def LTE_CONFIRM_MAX_CELLS_def)
        have "distinct (map sighted_pci ((cells t)[i := ?y]))"
          unfolding map_update by (rule distinct_list_update) (use ok none in auto)
        moreover have "\<forall>c\<in>set ((cells t)[i := ?y]). 1 \<le> looks c \<and> looks c \<le> seen_times (h @ [(p, m)]) (sighted_pci c) \<and>
            0 \<le> decodes c \<and> decodes c \<le> read_times (h @ [(p, m)]) (sighted_pci c)"
        proof
          fix c assume "c \<in> set ((cells t)[i := ?y])"
          then have "c = ?y \<or> c \<in> set (cells t)" using set_update_subset_insert [of "cells t" i ?y] by blast
          then show "1 \<le> looks c \<and> looks c \<le> seen_times (h @ [(p, m)]) (sighted_pci c) \<and>
            0 \<le> decodes c \<and> decodes c \<le> read_times (h @ [(p, m)]) (sighted_pci c)"
          proof
            assume "c = ?y"
            then show ?thesis using i(3) times_least by (simp add: times_snoc)
          qed (rule grow)
        qed
        moreover have "sighted_pci ` set ((cells t)[i := ?y]) \<subseteq> fst ` set (h @ [(p, m)])"
        proof
          fix q assume "q \<in> sighted_pci ` set ((cells t)[i := ?y])"
          then obtain c where c: "c \<in> set ((cells t)[i := ?y])" "q = sighted_pci c" by blast
          then have "c = ?y \<or> c \<in> set (cells t)" using set_update_subset_insert [of "cells t" i ?y] by blast
          then show "q \<in> fst ` set (h @ [(p, m)])"
          proof
            assume "c = ?y"
            then show ?thesis using c(2) by simp
          next
            assume "c \<in> set (cells t)"
            then have "q \<in> fst ` set h" using ok c(2) by blast
            then show ?thesis by auto
          qed
        qed
        ultimately show ?thesis unfolding t' tally_ok_cells length_list_update using ok by blast
      qed
    qed
  next
    assume "\<exists>i. first_index (\<lambda>c. sighted_pci c = p) (cells t) = Some i \<and> i < length (cells t) \<and> sighted_pci (cells t ! i) = p"
    then obtain i where i: "first_index (\<lambda>c. sighted_pci c = p) (cells t) = Some i" "i < length (cells t)" "sighted_pci (cells t ! i) = p"
      by blast
    let ?y = "(cells t ! i)\<lparr>looks := looks (cells t ! i) + 1, decodes := decodes (cells t ! i) + (if m then 1 else 0)\<rparr>"
    have t': "lte_confirm_saw t p m = t\<lparr>cells := (cells t)[i := ?y]\<rparr>" using i by (simp add: lte_confirm_saw_def)
    have same: "map sighted_pci ((cells t)[i := ?y]) = map sighted_pci (cells t)" using i by (simp add: map_update_same)
    then have img: "sighted_pci ` set ((cells t)[i := ?y]) = sighted_pci ` set (cells t)" by (metis set_map)
    have all: "\<forall>c\<in>set ((cells t)[i := ?y]). 1 \<le> looks c \<and> looks c \<le> seen_times (h @ [(p, m)]) (sighted_pci c) \<and>
        0 \<le> decodes c \<and> decodes c \<le> read_times (h @ [(p, m)]) (sighted_pci c)"
    proof
      fix c assume "c \<in> set ((cells t)[i := ?y])"
      then have "c = ?y \<or> c \<in> set (cells t)" using set_update_subset_insert [of "cells t" i ?y] by blast
      moreover have "cells t ! i \<in> set (cells t)" using i by simp
      ultimately show "1 \<le> looks c \<and> looks c \<le> seen_times (h @ [(p, m)]) (sighted_pci c) \<and>
        0 \<le> decodes c \<and> decodes c \<le> read_times (h @ [(p, m)]) (sighted_pci c)"
        using grow ok i(3) by (auto simp: times_snoc)
    qed
    have more: "fst ` set h \<subseteq> fst ` set (h @ [(p, m)])" by auto
    show ?thesis unfolding t' tally_ok_cells length_list_update same img
      by (intro conjI all) (use ok in simp, use ok in simp, rule subset_trans [OF _ more], use ok in simp)
  qed
qed

lemma tally_of_ok: "tally_ok h (tally_of h)"
proof (induction h rule: rev_induct)
  case (snoc x h)
  then show ?case using saw_ok [of h "tally_of h" "fst x" "snd x"] by (simp add: tally_of_def case_prod_unfold)
qed (simp add: tally_ok_def tally_of_def)

lemma tally_of_exact: "card (fst ` set h) \<le> 16 \<Longrightarrow> tally_exact h (tally_of h)"
proof (induction h rule: rev_induct)
  case (snoc x h)
  obtain p m where x: "x = (p, m)" by force
  have "card (fst ` set h) \<le> card (fst ` set (h @ [x]))" by (intro card_mono) auto
  then have ex: "tally_exact h (tally_of h)" using snoc by simp
  note ex' = ex [unfolded tally_exact_def] and ok = tally_of_ok [of h, unfolded tally_ok_def]
  let ?t = "tally_of h"
  have step: "tally_of (h @ [x]) = lte_confirm_saw ?t p m" by (simp add: tally_of_def x)
  show ?case using first_index_cases [of "\<lambda>c. sighted_pci c = p" "cells ?t"]
  proof
    assume none: "first_index (\<lambda>c. sighted_pci c = p) (cells ?t) = None \<and> (\<forall>c\<in>set (cells ?t). sighted_pci c \<noteq> p)"
    then have new: "p \<notin> fst ` set h" using ex' by (metis imageE)
    have "length (cells ?t) = card (fst ` set h)" using ok ex' by (metis distinct_card length_map set_map)
    moreover have "card (fst ` set (h @ [x])) = Suc (card (fst ` set h))" using new by (simp add: x)
    ultimately have "length (cells ?t) < 16" using snoc.prems by simp
    then have t': "tally_of (h @ [x]) =
        ?t\<lparr>cells := cells ?t @ [\<lparr>sighted_pci = p, looks = 1, decodes = (if m then 1 else 0)\<rparr>]\<rparr>"
      using none by (simp add: step lte_confirm_saw_def LTE_CONFIRM_MAX_CELLS_def)
    have "sighted_pci c \<noteq> p" if "c \<in> set (cells ?t)" for c using none that by blast
    then show ?thesis unfolding tally_exact_def t' using ex' times_none [OF new] by (simp add: x times_snoc)
  next
    assume "\<exists>i. first_index (\<lambda>c. sighted_pci c = p) (cells ?t) = Some i \<and> i < length (cells ?t) \<and> sighted_pci (cells ?t ! i) = p"
    then obtain i where i: "first_index (\<lambda>c. sighted_pci c = p) (cells ?t) = Some i" "i < length (cells ?t)" "sighted_pci (cells ?t ! i) = p"
      by blast
    let ?y = "(cells ?t ! i)\<lparr>looks := looks (cells ?t ! i) + 1, decodes := decodes (cells ?t ! i) + (if m then 1 else 0)\<rparr>"
    have t': "tally_of (h @ [x]) = ?t\<lparr>cells := (cells ?t)[i := ?y]\<rparr>" using i by (simp add: step lte_confirm_saw_def)
    have "map sighted_pci ((cells ?t)[i := ?y]) = map sighted_pci (cells ?t)" using i by (simp add: map_update_same)
    then have img: "sighted_pci ` set ((cells ?t)[i := ?y]) = sighted_pci ` set (cells ?t)" by (metis set_map)
    have old: "p \<in> fst ` set h" using ex' i by (metis imageI nth_mem)
    have all: "looks c = seen_times (h @ [x]) (sighted_pci c) \<and> decodes c = read_times (h @ [x]) (sighted_pci c)"
      if "c \<in> set ((cells ?t)[i := ?y])" for c
      using in_update [OF that i(2)]
    proof
      assume "c = ?y"
      moreover have "cells ?t ! i \<in> set (cells ?t)" using i by simp
      ultimately show ?thesis using ex' i(3) by (auto simp: x times_snoc)
    next
      assume "\<exists>j<length (cells ?t). j \<noteq> i \<and> c = cells ?t ! j"
      then obtain j where j: "j < length (cells ?t)" "j \<noteq> i" "c = cells ?t ! j" by blast
      then have "sighted_pci c \<noteq> p"
        using conjunct1 [OF conjunct2 [OF ok]] i nth_eq_iff_index_eq [of "map sighted_pci (cells ?t)" i j] by simp
      then show ?thesis using ex' j by (auto simp: x times_snoc)
    qed
    have "fst ` set (h @ [x]) = insert p (fst ` set h)" by (simp add: x)
    then have "sighted_pci ` set ((cells ?t)[i := ?y]) = fst ` set (h @ [x])"
      unfolding img insert_absorb [OF old] using ex' by simp
    then show ?thesis unfolding t' tally_exact_cells by (rule conjI) (rule ballI, rule all)
  qed
qed (simp add: tally_exact_def tally_of_def)

lemma confirmed_read:
  assumes "c \<in> set (cells (tally_of h))" "lte_cell_verdict_for c = LTE_CELL_CONFIRMED"
  shows "2 \<le> read_times h (sighted_pci c)"
  using assms tally_of_ok [of h]
  by (fastforce simp: tally_ok_def lte_cell_verdict_for_def LTE_CONFIRM_MIN_MESSAGES_def split: if_splits)

lemma read_confirmed:
  assumes "card (fst ` set h) \<le> 16" "pci \<in> fst ` set h"
  shows "\<exists>c\<in>set (cells (tally_of h)). sighted_pci c = pci \<and>
    (lte_cell_verdict_for c = LTE_CELL_CONFIRMED) = (2 \<le> read_times h pci)"
proof -
  obtain c where c: "c \<in> set (cells (tally_of h))" "sighted_pci c = pci"
    using tally_of_exact [OF assms(1)] assms(2) by (force simp: tally_exact_def)
  then have "looks c > 0" "decodes c = read_times h pci"
    using tally_of_exact [OF assms(1)] tally_of_ok [of h] by (force simp: tally_exact_def tally_ok_def)+
  then show ?thesis
    using c by (intro bexI [of _ c]) (simp_all add: lte_cell_verdict_for_def LTE_CONFIRM_MIN_MESSAGES_def LTE_CONFIRM_MIN_LOOKS_def)
qed

text \<open>An identity is confirmed on its own broadcast channel and on nothing else: whatever sightings a run reports, an
  entry that is confirmed was decoded at least twice under that identity, however often it or another was seen, and the
  table holds no identity twice; while at most sixteen identities have been seen, each of them is in it, and confirmed
  exactly when it was decoded twice.\<close>

theorem lte_confirmed_was_decoded_twice:
  "distinct (map sighted_pci (cells (tally_of h))) \<and>
   (\<forall>c\<in>set (cells (tally_of h)). lte_cell_verdict_for c = LTE_CELL_CONFIRMED \<longrightarrow> 2 \<le> read_times h (sighted_pci c)) \<and>
   (card (fst ` set h) \<le> 16 \<longrightarrow> (\<forall>pci\<in>fst ` set h. \<exists>c\<in>set (cells (tally_of h)). sighted_pci c = pci \<and>
      (lte_cell_verdict_for c = LTE_CELL_CONFIRMED) = (2 \<le> read_times h pci)))"
  using tally_of_ok [of h] confirmed_read [of _ h] read_confirmed [of h] by (simp add: tally_ok_def)

lemma lte_confirmed_was_decoded_twice_witness:
  "\<exists>c\<in>set (cells (tally_of [(402, True), (410, False), (402, False), (410, False), (410, False), (402, True)])).
     sighted_pci c = 410 \<and> lte_cell_verdict_for c \<noteq> LTE_CELL_CONFIRMED"
proof -
  let ?h = "[(402, True), (410, False), (402, False), (410, False), (410, False), (402, True)] :: (int \<times> bool) list"
  have "card (fst ` set ?h) \<le> 16" "read_times ?h 410 = 0" by (simp_all add: read_times_def card_insert_if)
  then show ?thesis using lte_confirmed_was_decoded_twice [of ?h] by simp
qed

subsection \<open>Continuity of synchronization bursts\<close>

definition GSM_T1_MODULUS :: int where "GSM_T1_MODULUS = 2048"
definition GSM_T1_FRAMES :: int where "GSM_T1_FRAMES = 1326"
definition GSM_FRAME_SECONDS :: "'d double_ops \<Rightarrow> 'd" where "GSM_FRAME_SECONDS D = d_div D (d_lit D 600 1) (d_lit D 130000 1)"
definition GSM_T1_SECONDS :: "'d double_ops \<Rightarrow> 'd" where
  "GSM_T1_SECONDS D = d_mul D (d_of_int D GSM_T1_FRAMES) (GSM_FRAME_SECONDS D)"

record 'd gsm_sch_continuity =
  have_last :: bool
  last_t1 :: int
  last_bsic :: int
  last_time :: 'd
  implausible :: bool

definition gsm_continuity_reset :: "'d double_ops \<Rightarrow> 'd gsm_sch_continuity" where
  "gsm_continuity_reset D = \<lparr>have_last = False, last_t1 = 0, last_bsic = - 1, last_time = d_lit D 0 1, implausible = False\<rparr>"

text \<open>The remainder has the sign of the dividend.\<close>

definition gsm_t1_advance :: "int \<Rightarrow> int \<Rightarrow> int" where
  "gsm_t1_advance previous current =
     (let advance = (current - previous) smod GSM_T1_MODULUS
      in if advance < 0 then advance + GSM_T1_MODULUS else advance)"

definition gsm_t1_allowed_advance :: "'d double_ops \<Rightarrow> 'd \<Rightarrow> int" where
  "gsm_t1_allowed_advance D seconds =
     (if \<not> d_gt D seconds (d_lit D 0 1) then 1 else d_to_int D (d_div D seconds (GSM_T1_SECONDS D)) + 1)"

definition gsm_continuity_observe ::
    "'d double_ops \<Rightarrow> 'd gsm_sch_continuity \<Rightarrow> int \<Rightarrow> int \<Rightarrow> 'd \<Rightarrow> 'd gsm_sch_continuity \<times> bool" where
  "gsm_continuity_observe D c t1 bsic now =
     (if \<not> have_last c then
        (c\<lparr>have_last := True, last_t1 := t1, last_bsic := bsic, last_time := now, implausible := False\<rparr>, True)
      else
        let bad = (gsm_t1_advance (last_t1 c) t1 > gsm_t1_allowed_advance D (d_sub D now (last_time c)) \<or> bsic \<noteq> last_bsic c)
        in (c\<lparr>implausible := bad, last_t1 := t1, last_bsic := bsic, last_time := now\<rparr>, \<not> bad))"

lemma advance_mod: "gsm_t1_advance a b = (b - a) mod 2048"
proof (cases "0 \<le> b - a")
  case True
  then have "(b - a) smod 2048 = (b - a) mod 2048" by (cases "b = a") (simp_all add: signed_modulo_int_def)
  moreover have "0 \<le> (b - a) mod 2048" by simp
  ultimately show ?thesis by (simp add: gsm_t1_advance_def GSM_T1_MODULUS_def Let_def)
next
  case False
  have "(b - a) smod 2048 = - ((a - b) mod 2048)" using False by (simp add: signed_modulo_int_def)
  moreover have "(b - a) mod 2048 = (if (a - b) mod 2048 = 0 then 0 else 2048 - (a - b) mod 2048)"
    using zmod_zminus1_eq_if [of "a - b" 2048] by simp
  moreover have "0 < (a - b) mod 2048 \<or> (a - b) mod 2048 = 0" using pos_mod_sign [of 2048 "a - b"] by linarith
  ultimately show ?thesis by (auto simp: gsm_t1_advance_def GSM_T1_MODULUS_def Let_def)
qed

text \<open>The decodes of one cell: its BSIC, and at each time the reduced frame number of that moment.\<close>

definition true_t1 :: "real \<Rightarrow> real \<Rightarrow> int" where "true_t1 origin t = \<lfloor>(t - origin) / (1326 * (60 / 13000))\<rfloor> mod 2048"

fun hear_cell :: "real \<Rightarrow> int \<Rightarrow> real gsm_sch_continuity \<Rightarrow> real list \<Rightarrow> bool list" where
  "hear_cell origin bsic c [] = []"
| "hear_cell origin bsic c (t # ts) =
     (let (c, ok) = gsm_continuity_observe exact_doubles c (true_t1 origin t) bsic t in ok # hear_cell origin bsic c ts)"

lemma advance_allowed:
  assumes "t \<le> t'"
  shows "gsm_t1_advance (true_t1 origin t) (true_t1 origin t') \<le> gsm_t1_allowed_advance exact_doubles (t' - t)"
proof -
  let ?T = "1326 * (60 / 13000) :: real"
  let ?a = "\<lfloor>(t - origin) / ?T\<rfloor>" and ?b = "\<lfloor>(t' - origin) / ?T\<rfloor>"
  have le: "?a \<le> ?b" using assms by (intro floor_mono divide_right_mono) simp_all
  have adv: "gsm_t1_advance (true_t1 origin t) (true_t1 origin t') = (?b - ?a) mod 2048"
    by (simp add: advance_mod true_t1_def mod_diff_eq)
  also have "\<dots> \<le> ?b - ?a" using le by (intro zmod_le_nonneg_dividend) simp
  finally have bound: "gsm_t1_advance (true_t1 origin t) (true_t1 origin t') \<le> ?b - ?a" .
  show ?thesis
  proof (cases "t' - t > 0")
    case False
    then have "t' = t" using assms by simp
    then show ?thesis using bound by (simp add: gsm_t1_allowed_advance_def exact_lit)
  next
    case True
    have "(t' - origin) / ?T - (t - origin) / ?T = (t' - t) / ?T" by (simp add: diff_divide_distrib [symmetric])
    then have "?b - ?a \<le> \<lfloor>(t' - t) / ?T\<rfloor> + 1" by linarith
    moreover have "gsm_t1_allowed_advance exact_doubles (t' - t) = \<lfloor>(t' - t) / ?T\<rfloor> + 1"
      using True by (simp add: gsm_t1_allowed_advance_def GSM_T1_SECONDS_def GSM_FRAME_SECONDS_def GSM_T1_FRAMES_def
          exact_lit exact_doubles_def)
    ultimately show ?thesis using bound by linarith
  qed
qed

lemma hear_cell_plausible:
  "have_last c \<longrightarrow> last_bsic c = bsic \<and> last_t1 c = true_t1 origin (last_time c) \<and> (\<forall>t\<in>set ts. last_time c \<le> t) \<Longrightarrow>
   sorted ts \<Longrightarrow> list_all (\<lambda>ok. ok) (hear_cell origin bsic c ts)"
proof (induction ts arbitrary: c)
  case (Cons t ts)
  obtain c' ok where obs: "gsm_continuity_observe exact_doubles c (true_t1 origin t) bsic t = (c', ok)" by force
  have "ok \<and> have_last c' \<and> last_bsic c' = bsic \<and> last_t1 c' = true_t1 origin (last_time c') \<and> last_time c' = t"
    using obs Cons.prems(1) advance_allowed [of "last_time c" t origin]
    by (auto simp: gsm_continuity_observe_def Let_def split: if_splits)
  then show ?case using Cons.IH [of c'] Cons.prems(2) by (simp add: obs)
qed simp

text \<open>The warning does not cry wolf: of the decodes of one cell, heard at any times however far apart, across the wrap
  of the frame number as well, none is flagged.\<close>

theorem continuity_of_a_cell:
  assumes "sorted instants"
  shows "list_all (\<lambda>ok. ok) (hear_cell origin bsic (gsm_continuity_reset exact_doubles) instants)"
  by (rule hear_cell_plausible) (simp_all add: gsm_continuity_reset_def assms)

lemma continuity_of_a_cell_witness:
  "list_all (\<lambda>ok. ok) (hear_cell 0 42 (gsm_continuity_reset exact_doubles) [1, 10, 12520, 12540])"
  by (rule continuity_of_a_cell) simp

end
