(* ===== verification/Lte_Scan.thy ===== *)
theory Lte_Scan
  imports Floating "HOL-Library.Multiset"
begin

unbundle bit_operations_syntax

text \<open>
  Channel numbers and the order an LTE band is searched in: the band table and the EARFCN arithmetic of
  \<open>src/src/tech/lte_dsp.c\<close>, the GSM 900 channel numbers of \<open>gsm_dsp.c\<close>, and the scan of
  \<open>src/src/tech/lte_scan.h\<close>. \<open>double\<close> is any type with \<open>double_ops\<close>; a \<open>NULL\<close> band is \<open>None\<close>.
\<close>

subsection \<open>Bands and channel numbers\<close>

record 'd lte_band =
  band_number :: int
  earfcn_low :: u32
  earfcn_high :: u32
  downlink_low_hz :: 'd
  band_name :: string

definition lte_bands :: "'d double_ops \<Rightarrow> 'd lte_band list" where
  "lte_bands D =
     [\<lparr>band_number = 1, earfcn_low = 0, earfcn_high = 599, downlink_low_hz = d_lit D 21100000000 1, band_name = ''2100 MHz''\<rparr>,
      \<lparr>band_number = 3, earfcn_low = 1200, earfcn_high = 1949, downlink_low_hz = d_lit D 18050000000 1, band_name = ''1800 MHz''\<rparr>,
      \<lparr>band_number = 7, earfcn_low = 2750, earfcn_high = 3449, downlink_low_hz = d_lit D 26200000000 1, band_name = ''2600 MHz''\<rparr>,
      \<lparr>band_number = 8, earfcn_low = 3450, earfcn_high = 3799, downlink_low_hz = d_lit D 9250000000 1, band_name = ''900 MHz''\<rparr>,
      \<lparr>band_number = 20, earfcn_low = 6150, earfcn_high = 6449, downlink_low_hz = d_lit D 7910000000 1, band_name = ''800 MHz''\<rparr>,
      \<lparr>band_number = 28, earfcn_low = 27210, earfcn_high = 27509, downlink_low_hz = d_lit D 7580000000 1, band_name = ''700 MHz''\<rparr>]"

definition lte_band_count :: "'d double_ops \<Rightarrow> int" where "lte_band_count D = int (length (lte_bands D))"

definition lte_band_at :: "'d double_ops \<Rightarrow> int \<Rightarrow> 'd lte_band option" where
  "lte_band_at D index = (if index < 0 \<or> index \<ge> lte_band_count D then None else Some (lte_bands D ! nat index))"

definition lte_band_for_number :: "'d double_ops \<Rightarrow> int \<Rightarrow> 'd lte_band option" where
  "lte_band_for_number D number = find (\<lambda>b. band_number b = number) (lte_bands D)"

definition lte_band_for_earfcn :: "'d double_ops \<Rightarrow> u32 \<Rightarrow> 'd lte_band option" where
  "lte_band_for_earfcn D earfcn = find (\<lambda>b. earfcn \<ge> earfcn_low b \<and> earfcn \<le> earfcn_high b) (lte_bands D)"

definition raster_hz :: "'d double_ops \<Rightarrow> 'd" where "raster_hz D = d_lit D 1000000 1"

definition band_span_hz :: "'d double_ops \<Rightarrow> 'd lte_band \<Rightarrow> 'd" where
  "band_span_hz D b = d_mul D (d_of_int D (uint (earfcn_high b - earfcn_low b))) (raster_hz D)"

text \<open>The answer is kept in ascending order of frequency as it is built, and cut to the caller's room last.\<close>

definition LTE_BANDS_MAX :: nat where "LTE_BANDS_MAX = 8"

definition insert_band :: "'d double_ops \<Rightarrow> 'd lte_band \<Rightarrow> int list \<Rightarrow> int list" where
  "insert_band D b all_bands =
     (let before = (\<lambda>n. case lte_band_for_number D n of
                          Some x \<Rightarrow> \<not> d_gt D (downlink_low_hz x) (downlink_low_hz b) | None \<Rightarrow> False)
      in takeWhile before all_bands @ [band_number b] @ dropWhile before all_bands)"

definition reachable_step :: "'d double_ops \<Rightarrow> 'd \<Rightarrow> 'd \<Rightarrow> int list \<Rightarrow> 'd lte_band \<Rightarrow> int list" where
  "reachable_step D lower upper all_bands b =
     (if d_gt D lower (downlink_low_hz b) \<or> d_gt D (d_add D (downlink_low_hz b) (band_span_hz D b)) upper then all_bands
      else if length all_bands \<ge> LTE_BANDS_MAX then all_bands
      else insert_band D b all_bands)"

definition lte_bands_reachable :: "'d double_ops \<Rightarrow> 'd \<Rightarrow> 'd \<Rightarrow> int \<Rightarrow> int list" where
  "lte_bands_reachable D lower upper room =
     (if room \<le> 0 \<or> \<not> d_gt D upper lower then []
      else take (nat room) (foldl (reachable_step D lower upper) [] (lte_bands D)))"

definition lte_earfcn_downlink_hz :: "'d double_ops \<Rightarrow> u32 \<Rightarrow> u32 option" where
  "lte_earfcn_downlink_hz D earfcn =
     (case lte_band_for_earfcn D earfcn of
        None \<Rightarrow> None
      | Some b \<Rightarrow> Some (word_of_int (d_to_int D (d_add D (downlink_low_hz b)
          (d_mul D (raster_hz D) (d_of_int D (uint (earfcn - earfcn_low b))))))))"

definition lte_earfcn_for_hz :: "'d double_ops \<Rightarrow> 'd \<Rightarrow> int" where
  "lte_earfcn_for_hz D hz =
     (case find (\<lambda>b. \<not> (d_gt D (d_sub D (downlink_low_hz b) (d_lit D 500000 1)) hz \<or>
              d_gt D hz (d_add D (d_add D (downlink_low_hz b) (band_span_hz D b)) (d_lit D 500000 1)))) (lte_bands D) of
        None \<Rightarrow> 0
      | Some b \<Rightarrow>
          let steps = d_div D (d_sub D hz (downlink_low_hz b)) (raster_hz D);
              index = d_to_int D (d_floor D (d_add D steps (d_lit D 5 1)));
              most = uint (earfcn_high b - earfcn_low b);
              index = (if index < 0 then 0 else index);
              index = (if index > most then most else index)
          in uint (earfcn_low b + word_of_int index))"

definition gsm_downlink_hz :: "u32 \<Rightarrow> u32 option" where
  "gsm_downlink_hz arfcn = (if arfcn < 1 \<or> arfcn > 124 then None else Some (935000000 + arfcn * 200000))"

definition nearer_arfcn :: "'d double_ops \<Rightarrow> 'd \<Rightarrow> int \<times> 'd \<Rightarrow> int \<Rightarrow> int \<times> 'd" where
  "nearer_arfcn D hz best arfcn =
     (case gsm_downlink_hz (word_of_int arfcn) of
        None \<Rightarrow> best
      | Some carrier \<Rightarrow>
          let away = d_abs D (d_sub D hz (d_of_int D (uint carrier)))
          in if fst best = 0 \<or> d_gt D (snd best) away then (arfcn, away) else best)"

definition gsm_arfcn_for_hz :: "'d double_ops \<Rightarrow> 'd \<Rightarrow> int" where
  "gsm_arfcn_for_hz D hz =
     (let (nearest, away) = foldl (nearer_arfcn D hz) (0, d_lit D 0 1) [1..124]
      in if nearest = 0 \<or> d_gt D away (d_lit D 1000000 1) then 0 else nearest)"

subsection \<open>The scan\<close>

definition LTE_SCAN_SETTLE_SECONDS :: "'d double_ops \<Rightarrow> 'd" where "LTE_SCAN_SETTLE_SECONDS D = d_lit D 20 2"
definition LTE_SCAN_PROBE_SECONDS :: "'d double_ops \<Rightarrow> 'd" where "LTE_SCAN_PROBE_SECONDS D = d_lit D 12 2"
definition LTE_SCAN_MIN_LOOKS :: int where "LTE_SCAN_MIN_LOOKS = 3"
definition LTE_SCAN_MAX_LOOKS :: int where "LTE_SCAN_MAX_LOOKS = 5"
definition LTE_SCAN_CONFIRMATIONS :: int where "LTE_SCAN_CONFIRMATIONS = 2"
definition LTE_SCAN_CONFIRM_LOOKS :: int where "LTE_SCAN_CONFIRM_LOOKS = 5"
definition LTE_SCAN_CONFIRM_AGREE :: int where "LTE_SCAN_CONFIRM_AGREE = 2"
definition LTE_SCAN_COARSE_STEP :: int where "LTE_SCAN_COARSE_STEP = 10"
definition LTE_SCAN_MEDIUM_STEP :: int where "LTE_SCAN_MEDIUM_STEP = 5"
definition LTE_SCAN_MIN_CARRIER_GAP_HZ :: "'d double_ops \<Rightarrow> 'd" where
  "LTE_SCAN_MIN_CARRIER_GAP_HZ D = d_lit D 14000000 1"

definition lte_scan_confirmed :: "int \<Rightarrow> bool" where
  "lte_scan_confirmed agreements = (agreements \<ge> LTE_SCAN_CONFIRM_AGREE)"

definition lte_scan_same_carrier :: "'d double_ops \<Rightarrow> 'd \<Rightarrow> 'd \<Rightarrow> bool" where
  "lte_scan_same_carrier D a_hz b_hz =
     (let gap = d_sub D a_hz b_hz; gap = (if d_gt D (d_lit D 0 1) gap then d_neg D gap else gap)
      in d_gt D (LTE_SCAN_MIN_CARRIER_GAP_HZ D) gap)"

record 'f lte_found_cell =
  found_earfcn :: u32
  found_frequency_hz :: u32
  found_pci :: int
  found_pss :: 'f
  found_sss_margin :: 'f

text \<open>The entries in use are the list; its length is the count that is returned.\<close>

definition lte_scan_remove :: "'f lte_found_cell list \<Rightarrow> int \<Rightarrow> 'f lte_found_cell list" where
  "lte_scan_remove found index =
     (if index < 0 \<or> index \<ge> int (length found) then found
      else take (nat index) found @ drop (nat index + 1) found)"

definition lte_scan_count :: "'d lte_band option \<Rightarrow> int" where
  "lte_scan_count b = (case b of None \<Rightarrow> 0 | Some b \<Rightarrow> sint (earfcn_high b - earfcn_low b) + 1)"

text \<open>The last pass: the \<open>index\<close>-th offset that is not a multiple of five.\<close>

fun skipped_offset :: "int list \<Rightarrow> int \<Rightarrow> int option" where
  "skipped_offset [] index = None"
| "skipped_offset (offset # rest) index =
     (if offset mod LTE_SCAN_MEDIUM_STEP = 0 then skipped_offset rest index
      else if index = 0 then Some offset
      else skipped_offset rest (index - 1))"

definition lte_scan_candidate :: "'d lte_band option \<Rightarrow> int \<Rightarrow> u32" where
  "lte_scan_candidate band index =
     (case band of
        None \<Rightarrow> 0
      | Some b \<Rightarrow>
          let count = lte_scan_count band in
          if index < 0 \<or> index \<ge> count then 0
          else
            let coarse = (count + LTE_SCAN_COARSE_STEP - 1) div LTE_SCAN_COARSE_STEP in
            if index < coarse then earfcn_low b + word_of_int (index * LTE_SCAN_COARSE_STEP)
            else
              let index = index - coarse;
                  medium = (count - LTE_SCAN_MEDIUM_STEP + LTE_SCAN_COARSE_STEP - 1) div LTE_SCAN_COARSE_STEP;
                  medium = (if medium < 0 then 0 else medium)
              in if index < medium then earfcn_low b + word_of_int (LTE_SCAN_MEDIUM_STEP + index * LTE_SCAN_COARSE_STEP)
                 else case skipped_offset [0..count - 1] (index - medium) of
                        Some offset \<Rightarrow> earfcn_low b + word_of_int offset
                      | None \<Rightarrow> 0)"

definition lte_scan_seconds :: "'d double_ops \<Rightarrow> 'd lte_band option \<Rightarrow> 'd" where
  "lte_scan_seconds D band = d_mul D (d_of_int D (lte_scan_count band))
     (d_add D (LTE_SCAN_SETTLE_SECONDS D) (d_mul D (d_of_int D LTE_SCAN_MIN_LOOKS) (LTE_SCAN_PROBE_SECONDS D)))"

definition lte_scan_confirm_seconds :: "'d double_ops \<Rightarrow> int \<Rightarrow> 'd" where
  "lte_scan_confirm_seconds D found_count =
     (if found_count \<le> 0 then d_lit D 0 1
      else d_mul D (d_of_int D found_count)
        (d_add D (LTE_SCAN_SETTLE_SECONDS D) (d_mul D (d_of_int D LTE_SCAN_CONFIRM_LOOKS) (LTE_SCAN_PROBE_SECONDS D))))"

definition lte_scan_first_pass_seconds :: "'d double_ops \<Rightarrow> 'd lte_band option \<Rightarrow> 'd" where
  "lte_scan_first_pass_seconds D band =
     d_mul D (d_of_int D ((lte_scan_count band + LTE_SCAN_COARSE_STEP - 1) div LTE_SCAN_COARSE_STEP))
       (d_add D (LTE_SCAN_SETTLE_SECONDS D) (d_mul D (d_of_int D LTE_SCAN_MIN_LOOKS) (LTE_SCAN_PROBE_SECONDS D)))"

subsection \<open>Every channel once\<close>

lemma skipped_offset_nth:
  "0 \<le> i \<Longrightarrow> skipped_offset xs i =
    (let ys = filter (\<lambda>x. x mod 5 \<noteq> 0) xs in if nat i < length ys then Some (ys ! nat i) else None)"
proof (induction xs arbitrary: i)
  case (Cons x xs)
  show ?case
  proof (cases "x mod 5 = 0 \<or> i = 0")
    case True
    then show ?thesis using Cons by (auto simp: LTE_SCAN_MEDIUM_STEP_def Let_def)
  next
    case False
    then have "nat i = Suc (nat (i - 1))" "0 \<le> i - 1" using Cons.prems by linarith+
    then show ?thesis using Cons.IH [of "i - 1"] False by (simp add: LTE_SCAN_MEDIUM_STEP_def Let_def)
  qed
qed simp

text \<open>The offsets in the order of the three passes.\<close>

definition scan_order :: "int \<Rightarrow> int list" where
  "scan_order n = map (\<lambda>k. k * 10) [0..(n + 9) div 10 - 1] @ map (\<lambda>k. 5 + k * 10) [0..(n + 4) div 10 - 1] @
     filter (\<lambda>x. x mod 5 \<noteq> 0) [0..n - 1]"

lemma scan_order_set:
  assumes "0 \<le> n" shows "set (scan_order n) = {0..n - 1}"
proof -
  have "x \<in> set (scan_order n) \<longleftrightarrow> x \<in> {0..n - 1}" for x
  proof -
    have "x \<in> (\<lambda>k. k * 10) ` {0..(n + 9) div 10 - 1} \<longleftrightarrow> x mod 10 = 0 \<and> 0 \<le> x \<and> x < n"
      by (auto simp: image_iff intro!: bexI [of _ "x div 10"])
    moreover have "x \<in> (\<lambda>k. 5 + k * 10) ` {0..(n + 4) div 10 - 1} \<longleftrightarrow> x mod 10 = 5 \<and> 0 \<le> x \<and> x < n"
      by (auto simp: image_iff intro!: bexI [of _ "x div 10"]) presburger+
    moreover have "x mod 5 \<noteq> 0 \<longleftrightarrow> x mod 10 \<noteq> 0 \<and> x mod 10 \<noteq> 5" by presburger
    ultimately show ?thesis by (auto simp: scan_order_def)
  qed
  then show ?thesis by blast
qed

lemma scan_order_distinct: "distinct (scan_order n)"
  by (auto simp: scan_order_def distinct_map inj_on_def) presburger+

lemma scan_order_mset: "0 \<le> n \<Longrightarrow> mset (scan_order n) = mset [0..n - 1]"
  by (intro iffD1 [OF set_eq_iff_mset_eq_distinct]) (simp_all add: scan_order_set scan_order_distinct)

lemma scan_order_length: "0 \<le> n \<Longrightarrow> length (scan_order n) = nat n"
  using scan_order_mset [of n] by (metis size_mset length_upto diff_add_cancel diff_zero add.commute)

lemma third_pass_index:
  fixes c m i n :: int
  shows "0 \<le> c \<Longrightarrow> 0 \<le> m \<Longrightarrow> c + m \<le> i \<Longrightarrow> i < n \<Longrightarrow> nat c + nat m + l = nat n \<Longrightarrow>
    nat (i - c - m) < l \<and> nat i - nat c - nat m = nat (i - c - m) \<and> \<not> nat i < nat c \<and> \<not> nat i - nat c < nat m"
  by linarith

lemma candidate_order:
  assumes "0 \<le> i" "i < lte_scan_count (Some b)"
  shows "lte_scan_candidate (Some b) i = earfcn_low b + word_of_int (scan_order (lte_scan_count (Some b)) ! nat i)"
proof -
  let ?n = "lte_scan_count (Some b)"
  let ?c = "(?n + 9) div 10" and ?m = "(?n + 4) div 10"
  have n: "?c \<ge> 0" "?m \<ge> 0" "length (scan_order ?n) = nat ?n" using assms scan_order_length [of ?n] by simp_all
  have "i < ?c \<or> ?c \<le> i \<and> i < ?c + ?m \<or> ?c + ?m \<le> i" by linarith
  then show ?thesis
  proof (elim disjE conjE)
    assume "i < ?c"
    then show ?thesis using assms
      by (simp add: lte_scan_candidate_def Let_def LTE_SCAN_COARSE_STEP_def scan_order_def nth_append nat_less_iff add.commute)
  next
    assume i: "?c \<le> i" "i < ?c + ?m"
    have idx: "nat i - nat ?c = nat (i - ?c)" using n(1) i by (simp add: nat_diff_distrib)
    have "scan_order ?n ! nat i = 5 + (i - ?c) * 10"
      unfolding scan_order_def using n(1) i by (simp add: nth_append nat_less_iff idx)
    moreover have "lte_scan_candidate (Some b) i = earfcn_low b + word_of_int (5 + (i - ?c) * 10)"
    proof -
      obtain c m where cm: "?c = c" "?m = m" by simp
      then have e: "(?n + 10 - 1) div 10 = c" "(?n - 5 + 10 - 1) div 10 = m" by (simp_all add: add.commute)
      show ?thesis using assms i n(2)
        unfolding lte_scan_candidate_def Let_def LTE_SCAN_COARSE_STEP_def LTE_SCAN_MEDIUM_STEP_def option.case e cm by simp
    qed
    ultimately show ?thesis by simp
  next
    assume i: "?c + ?m \<le> i"
    let ?ys = "filter (\<lambda>x. x mod 5 \<noteq> 0) [0..?n - 1]"
    have len: "nat ?c + nat ?m + length ?ys = nat ?n" using n(3) by (simp add: scan_order_def)
    note third = third_pass_index [OF n(1,2) i assms(2) len]
    note third [THEN conjunct1]
    then have "skipped_offset [0..?n - 1] (i - ?c - ?m) = Some (?ys ! nat (i - ?c - ?m))"
      using i by (subst skipped_offset_nth) (simp_all add: Let_def)
    moreover have "scan_order ?n ! nat i = ?ys ! nat (i - ?c - ?m)"
      unfolding scan_order_def nth_append length_map length_upto
      using third by (simp only: if_False diff_0_right diff_add_cancel add_diff_cancel simp_thms diff_add_eq)
    moreover have "lte_scan_candidate (Some b) i = (case skipped_offset [0..?n - 1] (i - ?c - ?m) of
        Some offset \<Rightarrow> earfcn_low b + word_of_int offset | None \<Rightarrow> 0)"
    proof -
      obtain c m where cm: "?c = c" "?m = m" by simp
      then have e: "(?n + 10 - 1) div 10 = c" "(?n - 5 + 10 - 1) div 10 = m" by (simp_all add: add.commute)
      show ?thesis using assms i n(1,2)
        unfolding lte_scan_candidate_def Let_def LTE_SCAN_COARSE_STEP_def LTE_SCAN_MEDIUM_STEP_def option.case e cm by simp
    qed
    ultimately show ?thesis by simp
  qed
qed

lemma candidates_order:
  "map (lte_scan_candidate (Some b)) [0..lte_scan_count (Some b) - 1] =
    map (\<lambda>off. earfcn_low b + word_of_int off) (scan_order (lte_scan_count (Some b)))" if "0 \<le> lte_scan_count (Some b)"
proof (rule nth_equalityI)
  show "length (map (lte_scan_candidate (Some b)) [0..lte_scan_count (Some b) - 1]) =
      length (map (\<lambda>off. earfcn_low b + word_of_int off) (scan_order (lte_scan_count (Some b))))"
    using that by (simp add: scan_order_length)
qed (use that in \<open>simp add: scan_order_length candidate_order\<close>)

text \<open>A scan of a band tries every channel of the band exactly once, in whatever order the three passes put them, and
  answers zero past the end and only there, or at channel number zero.\<close>

theorem lte_scan_every_channel_once:
  assumes "earfcn_low b \<le> earfcn_high b" "uint (earfcn_high b) - uint (earfcn_low b) < 2 ^ 31 - 1"
  shows "mset (map (lte_scan_candidate (Some b)) [0..lte_scan_count (Some b) - 1]) =
      mset (map word_of_int [uint (earfcn_low b)..uint (earfcn_high b)]) \<and>
    (\<forall>i. i < 0 \<or> lte_scan_count (Some b) \<le> i \<longrightarrow> lte_scan_candidate (Some b) i = 0)"
proof -
  let ?lo = "uint (earfcn_low b)" and ?hi = "uint (earfcn_high b)" and ?n = "lte_scan_count (Some b)"
  have le: "?lo \<le> ?hi" using assms(1) by (simp add: word_le_def)
  then have "uint (earfcn_high b - earfcn_low b) = ?hi - ?lo" using assms(1) by (simp add: uint_sub_lem word_le_def)
  then have "sint (earfcn_high b - earfcn_low b) = ?hi - ?lo"
    using assms(2) le by (simp add: sint_uint signed_take_bit_int_eq_self)
  then have n: "?n = ?hi - ?lo + 1" by (simp add: lte_scan_count_def)
  then have n0: "0 \<le> ?n" using le by simp
  have shift: "[?lo..?hi] = map (\<lambda>x. ?lo + x) [0..?n - 1]"
    using le n by (intro nth_equalityI) simp_all
  have "mset (map (lte_scan_candidate (Some b)) [0..?n - 1]) =
      image_mset (\<lambda>off. earfcn_low b + word_of_int off) (mset [0..?n - 1])"
    by (simp only: candidates_order [OF n0] mset_map scan_order_mset [OF n0])
  also have "\<dots> = mset (map word_of_int [?lo..?hi])"
    unfolding shift by (simp add: comp_def)
  finally show ?thesis by (auto simp: lte_scan_candidate_def Let_def)
qed

lemma lte_scan_every_channel_once_witness:
  "mset (map (lte_scan_candidate (Some (lte_bands exact_doubles ! 4))) [0..lte_scan_count (Some (lte_bands exact_doubles ! 4)) - 1]) =
    mset (map word_of_int [6150..6449])"
  using lte_scan_every_channel_once [of "lte_bands exact_doubles ! 4"] by (simp add: lte_bands_def)

text \<open>Band 1 begins at channel number zero, which the scan's callers read as the end of the band.\<close>

lemma band_one_ends_before_it_begins:
  "lte_scan_candidate (lte_band_for_number D 1) 0 = 0 \<and> lte_scan_count (lte_band_for_number D 1) = 600"
  by (simp add: lte_band_for_number_def lte_bands_def lte_scan_candidate_def lte_scan_count_def Let_def LTE_SCAN_COARSE_STEP_def)

subsection \<open>Channel numbers and frequencies\<close>

definition band_window :: "real \<Rightarrow> real lte_band \<Rightarrow> bool" where
  "band_window hz b = (downlink_low_hz b - 50000 \<le> hz \<and>
     hz \<le> downlink_low_hz b + of_int (uint (earfcn_high b - earfcn_low b)) * 100000 + 50000)"

lemma band_for_hz:
  "lte_earfcn_for_hz exact_doubles hz =
    (case find (band_window hz) (lte_bands exact_doubles) of None \<Rightarrow> 0
     | Some b \<Rightarrow>
         let index = \<lfloor>(hz - downlink_low_hz b) / 100000 + 1 / 2\<rfloor>; most = uint (earfcn_high b - earfcn_low b);
             index = (if index < 0 then 0 else index)
         in uint (earfcn_low b + word_of_int (if index > most then most else index)))"
proof -
  have "(\<lambda>b. \<not> (d_gt exact_doubles (d_sub exact_doubles (downlink_low_hz b) (d_lit exact_doubles 500000 1)) hz \<or>
      d_gt exact_doubles hz (d_add exact_doubles (d_add exact_doubles (downlink_low_hz b) (band_span_hz exact_doubles b))
        (d_lit exact_doubles 500000 1)))) = band_window hz"
    by (simp add: fun_eq_iff band_window_def band_span_hz_def raster_hz_def exact_lit not_less)
  then show ?thesis
    by (simp add: lte_earfcn_for_hz_def raster_hz_def exact_lit Let_def split: option.split)
qed

lemma band_cases:
  assumes "lte_band_for_earfcn D e = Some b"
  shows "b \<in> set (lte_bands D) \<and> earfcn_low b \<le> e \<and> e \<le> earfcn_high b"
  using assms by (auto simp: lte_band_for_earfcn_def find_Some_iff)

lemma table_length: "length (lte_bands D) = 6" by (simp add: lte_bands_def)

definition band_room :: "real lte_band \<Rightarrow> real" where
  "band_room b = of_int (uint (earfcn_high b - earfcn_low b))"

lemma band_window_room: "band_window hz b = (downlink_low_hz b - 50000 \<le> hz \<and> hz \<le> downlink_low_hz b + band_room b * 100000 + 50000)"
  by (simp add: band_window_def band_room_def)

lemma band_table:
  "downlink_low_hz (lte_bands exact_doubles ! 0) = 2110000000" "band_room (lte_bands exact_doubles ! 0) = 599"
  "downlink_low_hz (lte_bands exact_doubles ! 1) = 1805000000" "band_room (lte_bands exact_doubles ! 1) = 749"
  "downlink_low_hz (lte_bands exact_doubles ! 2) = 2620000000" "band_room (lte_bands exact_doubles ! 2) = 699"
  "downlink_low_hz (lte_bands exact_doubles ! 3) = 925000000" "band_room (lte_bands exact_doubles ! 3) = 349"
  "downlink_low_hz (lte_bands exact_doubles ! 4) = 791000000" "band_room (lte_bands exact_doubles ! 4) = 299"
  "downlink_low_hz (lte_bands exact_doubles ! 5) = 758000000" "band_room (lte_bands exact_doubles ! 5) = 299"
  by (simp_all add: lte_bands_def band_room_def exact_lit)

lemma table_window:
  assumes "b \<in> set (lte_bands exact_doubles)" "0 \<le> k" "k \<le> uint (earfcn_high b - earfcn_low b)" "\<bar>away\<bar> < 50000"
  shows "find (band_window (downlink_low_hz b + 100000 * of_int k + away)) (lte_bands exact_doubles) = Some b"
proof -
  obtain i where i: "i < 6" "b = lte_bands exact_doubles ! i" using assms(1) unfolding in_set_conv_nth
    by (auto simp: table_length)
  have k: "0 \<le> real_of_int k" "real_of_int k \<le> band_room b" unfolding band_room_def
    using assms(2,3) by (simp_all only: of_int_0_le_iff of_int_le_iff)
  have "band_window (downlink_low_hz b + 100000 * of_int k + away) (lte_bands exact_doubles ! i)"
    using k assms(4) by (simp add: band_window_room i(2) [symmetric] abs_less_iff)
  moreover have "\<not> band_window (downlink_low_hz b + 100000 * of_int k + away) (lte_bands exact_doubles ! j)" if "j < i" for j
  proof -
    have "i \<in> {0, 1, 2, 3, 4, 5}" "j \<in> {0, 1, 2, 3, 4, 5}" using i(1) that by auto
    then show ?thesis using that k assms(4) unfolding i(2) band_window_room by (auto simp: band_table band_table [unfolded One_nat_def] abs_less_iff)
  qed
  ultimately show ?thesis using i unfolding find_Some_iff by (intro exI [of _ i]) (simp add: table_length)
qed

lemma table_range: "b \<in> set (lte_bands D) \<Longrightarrow> uint (earfcn_low b) < 30000 \<and> uint (earfcn_high b - earfcn_low b) < 800 \<and>
    uint (earfcn_high b - earfcn_low b) = uint (earfcn_high b) - uint (earfcn_low b)"
  by (auto simp: lte_bands_def)

lemma table_low: "b \<in> set (lte_bands exact_doubles) \<Longrightarrow>
    \<exists>n. downlink_low_hz b = of_int n \<and> 0 \<le> n \<and> n < 3000000000"
  by (auto simp: lte_bands_def exact_lit intro: exI [of _ "2110000000"] exI [of _ "1805000000"] exI [of _ "2620000000"]
      exI [of _ "925000000"] exI [of _ "791000000"] exI [of _ "758000000"])

text \<open>A channel number of the table names a frequency, and every frequency within half a step of the raster from it
  names the channel again.\<close>

theorem earfcn_round_trip:
  assumes "lte_earfcn_downlink_hz exact_doubles earfcn = Some hz" "\<bar>away\<bar> < 50000"
  shows "lte_earfcn_for_hz exact_doubles (real_of_int (uint hz) + away) = uint earfcn"
proof -
  obtain b where b: "lte_band_for_earfcn exact_doubles earfcn = Some b"
    and hz: "hz = word_of_int (d_to_int exact_doubles (downlink_low_hz b + 100000 * of_int (uint (earfcn - earfcn_low b))))"
    using assms(1) by (auto simp: lte_earfcn_downlink_hz_def raster_hz_def exact_lit split: option.splits)
  let ?k = "uint (earfcn - earfcn_low b)"
  note tab = band_cases [OF b]
  note rng = table_range [OF tab [THEN conjunct1]]
  have k: "?k = uint earfcn - uint (earfcn_low b)" using tab by (simp add: uint_sub_lem word_le_def)
  then have le: "0 \<le> ?k" "?k \<le> uint (earfcn_high b - earfcn_low b)" using rng tab by (simp_all add: word_le_def)
  obtain n where n: "downlink_low_hz b = of_int n" "0 \<le> n" "n < 3000000000" using table_low tab by blast
  have "downlink_low_hz b + 100000 * of_int ?k = of_int (n + 100000 * ?k)" by (simp add: n(1))
  then have hz': "hz = word_of_int (n + 100000 * ?k)" unfolding hz by (simp only: exact_ops)
  have u: "uint hz = n + 100000 * ?k"
    unfolding hz' uint_word_of_int_eq by (rule take_bit_int_eq_self) (use n(2,3) le rng in linarith, use n(2,3) le rng in simp)
  have f: "real_of_int (uint hz) + away = downlink_low_hz b + 100000 * of_int ?k + away" by (simp add: u n(1))
  have "\<lfloor>(downlink_low_hz b + 100000 * of_int ?k + away - downlink_low_hz b) / 100000 + 1 / 2\<rfloor> = ?k"
    using assms(2) by (intro floor_unique) (simp_all add: field_simps abs_less_iff)
  then show ?thesis
    unfolding band_for_hz f table_window [OF tab [THEN conjunct1] le assms(2)] using le k by (simp add: Let_def)
qed

lemma earfcn_round_trip_witness: "lte_earfcn_for_hz exact_doubles 796040000 = 6200"
proof -
  have "lte_band_for_earfcn exact_doubles 6200 = Some (lte_bands exact_doubles ! 4)"
    by (simp add: lte_band_for_earfcn_def lte_bands_def)
  moreover have "d_to_int exact_doubles 796000000 = 796000000"
    using exact_ops(15) [of 796000000] by simp
  ultimately have "lte_earfcn_downlink_hz exact_doubles 6200 = Some 796000000"
    by (simp add: lte_earfcn_downlink_hz_def lte_bands_def raster_hz_def exact_lit)
  from earfcn_round_trip [OF this, of 40000] show ?thesis by simp
qed

end
