(* ===== verification/Startup_Session.thy ===== *)
theory Startup_Session
  imports Sweep_Plan Calibration_Gate Lte_Scan
begin

text \<open>
  The calibration a run begins with, \<open>src/src/runtime/startup_session.c\<close> and its header: the machine that scans for a
  reference, has it prove what it is, measures the crystal against it and says when it is done. The state is passed
  through every function with the event the tick reports. The detectors of the signal processing are an argument, so what
  is proved holds whatever they answer; \<open>double\<close> and \<open>float\<close> are any types with their operations; a status line is a
  constructor with what it prints.
\<close>

definition LTE_SAMPLE_RATE_HZ :: u32 where "LTE_SAMPLE_RATE_HZ = 1920000"
definition LTE_HALF_FRAME_SAMPLES :: nat where "LTE_HALF_FRAME_SAMPLES = 9600"
definition LTE_FFT_SIZE :: nat where "LTE_FFT_SIZE = 128"
definition GSM_FCCH_TONE_HZ :: "'d double_ops \<Rightarrow> 'd" where
  "GSM_FCCH_TONE_HZ D = d_div D (d_lit D 16250000 1) (d_lit D 240 1)"
definition GSM900_BASE_HZ :: "'d double_ops \<Rightarrow> 'd" where "GSM900_BASE_HZ D = d_lit D 9350000000 1"
definition GSM900_ARFCN_SPACING_HZ :: "'d double_ops \<Rightarrow> 'd" where "GSM900_ARFCN_SPACING_HZ D = d_lit D 2000000 1"
definition STARTUP_MEASURE_SECONDS :: "'d double_ops \<Rightarrow> 'd" where "STARTUP_MEASURE_SECONDS D = d_lit D 900 1"
definition STARTUP_VERIFY_BLOCKS :: int where "STARTUP_VERIFY_BLOCKS = 8"
definition STARTUP_AGREE_PPM :: "'d double_ops \<Rightarrow> 'd" where "STARTUP_AGREE_PPM D = d_lit D 40 1"
definition STARTUP_TONE_REPEAT_PPM :: "'d double_ops \<Rightarrow> 'd" where "STARTUP_TONE_REPEAT_PPM D = d_lit D 10 1"
definition STARTUP_TONE_SHIFT_HZ :: int where "STARTUP_TONE_SHIFT_HZ = 200000"
definition STARTUP_TONE_BLOCKS :: int where "STARTUP_TONE_BLOCKS = 4"
definition STARTUP_LTE_LOOKS :: int where "STARTUP_LTE_LOOKS = LTE_SCAN_MIN_LOOKS"
definition STARTUP_LTE_AGREE :: int where "STARTUP_LTE_AGREE = LTE_SCAN_CONFIRMATIONS"

subsection \<open>The state\<close>

text \<open>What the signal processing answers of a block: \<open>samples\<close> is all it is given of one, the samples, their rate and number,
  the spectrum and the scratch space. The power of a channel is written where it was measured.\<close>

record ('b, 'f, 'd) startup_detectors =
  channel_powers :: "'b \<Rightarrow> 'd \<Rightarrow> 'd \<Rightarrow> 'd \<Rightarrow> 'd \<Rightarrow> (nat \<Rightarrow> 'f) \<Rightarrow> nat \<Rightarrow> 'f"
  fcch_detect :: "'b \<Rightarrow> 'd \<Rightarrow> bool \<times> 'f \<times> 'd"
  sch_decode :: "'b \<Rightarrow> 'd \<Rightarrow> (int \<times> int \<times> int) option"
  cell_search :: "'b \<Rightarrow> (int \<times> 'f \<times> 'd) option"
  channel_center :: "'b \<Rightarrow> 'd \<Rightarrow> 'd \<Rightarrow> 'd \<Rightarrow> ('d \<times> 'f \<times> 'f \<times> 'f) option"

record ('b, 'd) startup_block =
  samples :: 'b
  pair_count :: nat
  has_spectrum :: bool
  has_scratch :: bool
  centre_hz :: 'd
  block_rate :: 'd

datatype startup_phase = STARTUP_IDLE | STARTUP_SCAN_GSM | STARTUP_VERIFY_GSM | STARTUP_CONFIRM_TONE | STARTUP_MEASURE_GSM
  | STARTUP_SCAN_LTE | STARTUP_MEASURE_LTE | STARTUP_LOCKED | STARTUP_FAILED | STARTUP_SKIPPED

datatype startup_reason = STARTUP_REASON_NONE | STARTUP_REASON_LOCKED | STARTUP_REASON_NO_CELL | STARTUP_REASON_TOO_FEW
  | STARTUP_REASON_SEM_WIDE | STARTUP_REASON_TIMEOUT | STARTUP_REASON_NO_TUNE | STARTUP_REASON_SKIPPED | STARTUP_REASON_DISAGREE

definition startup_reason_name :: "startup_reason \<Rightarrow> string" where
  "startup_reason_name r =
     (case r of STARTUP_REASON_LOCKED \<Rightarrow> ''locked'' | STARTUP_REASON_NO_CELL \<Rightarrow> ''no-cell''
      | STARTUP_REASON_TOO_FEW \<Rightarrow> ''too-few-measurements'' | STARTUP_REASON_SEM_WIDE \<Rightarrow> ''sem-too-wide''
      | STARTUP_REASON_TIMEOUT \<Rightarrow> ''timeout'' | STARTUP_REASON_NO_TUNE \<Rightarrow> ''no-tune''
      | STARTUP_REASON_SKIPPED \<Rightarrow> ''skipped'' | STARTUP_REASON_DISAGREE \<Rightarrow> ''references-disagree''
      | STARTUP_REASON_NONE \<Rightarrow> ''none'')"

definition startup_phase_name :: "startup_phase \<Rightarrow> string" where
  "startup_phase_name p =
     (case p of STARTUP_SCAN_GSM \<Rightarrow> ''scan-gsm'' | STARTUP_VERIFY_GSM \<Rightarrow> ''verify-gsm''
      | STARTUP_CONFIRM_TONE \<Rightarrow> ''confirm-tone'' | STARTUP_MEASURE_GSM \<Rightarrow> ''measure-gsm'' | STARTUP_SCAN_LTE \<Rightarrow> ''scan-lte''
      | STARTUP_MEASURE_LTE \<Rightarrow> ''measure-lte'' | STARTUP_LOCKED \<Rightarrow> ''locked'' | STARTUP_FAILED \<Rightarrow> ''failed''
      | STARTUP_SKIPPED \<Rightarrow> ''skipped'' | STARTUP_IDLE \<Rightarrow> ''idle'')"

datatype 'd startup_status = No_status | Looking_gsm nat nat | Not_gsm_channel int | Measuring_gsm int u32 | No_second_carrier int int
  | Checking_gsm int | Is_gsm int int int int | No_burst int | Tone_stopped int | Tone_holds int 'd | Tone_moved int 'd
  | Not_lte_channel u32 | Measuring_lte int u32 u32 | Looking_lte int int int | No_reference_reachable | No_cell_in_band int
  | Acquiring bool int int 'd int | No_cell_in_block u32 | Calibrated int bool 'd int | Checking_against int int
  | Only_one_carrier int int 'd | References_agree int int int int int | References_disagree int int int int
  | Could_not_settle startup_reason int | Would_not_tune u32 string | Calibration_skipped

record ('f, 'd) startup_session =
  phase :: startup_phase
  reason :: startup_reason
  want_hz :: u32
  want_rate_hz :: u32
  tuned :: bool
  step_started_at :: 'd
  plan :: "'d scan_plan"
  step :: nat
  channel_power :: "nat \<Rightarrow> 'f"
  bcch_conf :: "nat \<Rightarrow> 'f"
  arfcn :: int
  arfcn_confidence :: 'f
  verify_blocks :: int
  verified :: bool
  bsic :: int
  tone_first_hz :: 'd
  tone_second_hz :: 'd
  tone_blocks :: int
  tone_second_look :: bool
  tone_moved_hz :: 'd
  cross_check :: bool
  references :: int
  first_ppm :: int
  first_arfcn :: int
  first_bsic :: int
  second_ppm :: int
  second_arfcn :: int
  rejected :: "nat \<Rightarrow> bool"
  rejected_arfcn :: int
  rejected_why :: "'d startup_status"
  band :: "'d lte_band option"
  lte_index :: int
  lte_looks :: int
  lte_agreements :: int
  lte_pci :: int
  earfcn :: u32
  pci :: int
  pss :: 'f
  track :: "'d calibration_tracker"
  expected_hz :: u32
  applied_ppm :: int
  suggested_ppm :: int
  measured_hz :: 'd
  offset_hz :: 'd
  session_quality :: 'f
  measure_started_at :: 'd
  measure_budget :: 'd
  reported :: int
  allow_centroid :: bool
  peak_dbfs :: 'f
  floor_dbfs :: 'f
  prominence_db :: 'f
  status :: "'d startup_status"

record startup_event =
  retune_hz :: u32
  retune_rate_hz :: u32
  scan_finished :: bool
  candidate_rejected :: bool
  measure_began :: bool
  measured :: bool
  finished :: bool
  release_receiver :: bool

definition event_clear :: startup_event where
  "event_clear = \<lparr>retune_hz = 0, retune_rate_hz = 0, scan_finished = False, candidate_rejected = False, measure_began = False,
     measured = False, finished = False, release_receiver = False\<rparr>"

type_synonym ('f, 'd) startup_state = "('f, 'd) startup_session \<times> startup_event"

definition startup_session_reset :: "'f sample_ops \<Rightarrow> 'd double_ops \<Rightarrow> ('f, 'd) startup_session" where
  "startup_session_reset F D =
     (let z = d_lit D 0 1; zf = s_lit F 0 1 in
      \<lparr>phase = STARTUP_IDLE, reason = STARTUP_REASON_NONE, want_hz = 0, want_rate_hz = 0, tuned = False, step_started_at = z,
       plan = \<lparr>accept_half_hz = z, step_hz = z, first_center_hz = z, scan_step_count = 0\<rparr>, step = 0,
       channel_power = (\<lambda>_. zf), bcch_conf = (\<lambda>_. zf), arfcn = 0, arfcn_confidence = zf, verify_blocks = 0, verified = False,
       bsic = 0, tone_first_hz = z, tone_second_hz = z, tone_blocks = 0, tone_second_look = False, tone_moved_hz = z,
       cross_check = False, references = 0, first_ppm = 0, first_arfcn = 0, first_bsic = 0, second_ppm = 0, second_arfcn = 0,
       rejected = (\<lambda>_. False), rejected_arfcn = 0, rejected_why = No_status, band = None, lte_index = 0, lte_looks = 0,
       lte_agreements = 0, lte_pci = 0, earfcn = 0, pci = 0, pss = zf,
       track = calibration_tracker_init D \<lparr>source = 0, fcch_locked = False, fcch_miss = 0, fcch_hits = 0, measurements = 0,
         recent_ppm = replicate CALIBRATION_RECENT z, recent_count = 0, recent_head = 0, recent_center = z,
         recent_spread = z, recent_sem = z, stable = False\<rparr>,
       expected_hz = 0, applied_ppm = 0, suggested_ppm = 0, measured_hz = z, offset_hz = z, session_quality = zf,
       measure_started_at = z, measure_budget = z, reported = 0, allow_centroid = False, peak_dbfs = zf, floor_dbfs = zf,
       prominence_db = zf, status = No_status\<rparr>)"

definition startup_session_running :: "('f, 'd) startup_session \<Rightarrow> bool" where
  "startup_session_running s = (phase s = STARTUP_SCAN_GSM \<or> phase s = STARTUP_VERIFY_GSM \<or> phase s = STARTUP_CONFIRM_TONE \<or>
     phase s = STARTUP_MEASURE_GSM \<or> phase s = STARTUP_SCAN_LTE \<or> phase s = STARTUP_MEASURE_LTE)"

definition startup_session_may_commit :: "('f, 'd) startup_session \<Rightarrow> bool" where
  "startup_session_may_commit s = (\<not> startup_session_running s)"

definition startup_session_source :: "('f, 'd) startup_session \<Rightarrow> int" where
  "startup_session_source s = source (track s)"

definition want_tuning :: "u32 \<Rightarrow> u32 \<Rightarrow> ('f, 'd) startup_state \<Rightarrow> ('f, 'd) startup_state" where
  "want_tuning hz rate = (\<lambda>(s, out).
     (s\<lparr>want_hz := hz, want_rate_hz := rate, tuned := False\<rparr>, out\<lparr>retune_hz := hz, retune_rate_hz := rate\<rparr>))"

definition finish :: "startup_phase \<Rightarrow> startup_reason \<Rightarrow> ('f, 'd) startup_state \<Rightarrow> ('f, 'd) startup_state" where
  "finish p r = (\<lambda>(s, out). (s\<lparr>phase := p, reason := r\<rparr>, out\<lparr>finished := True, release_receiver := True\<rparr>))"

definition say_status :: "'d startup_status \<Rightarrow> ('f, 'd) startup_state \<Rightarrow> ('f, 'd) startup_state" where
  "say_status m = (\<lambda>(s, out). (s\<lparr>status := m\<rparr>, out))"

subsection \<open>The walk over GSM 900\<close>

definition gsm_step_begin :: "'d double_ops \<Rightarrow> ('f, 'd) startup_state \<Rightarrow> ('f, 'd) startup_state" where
  "gsm_step_begin D = (\<lambda>(s, out).
     say_status (Looking_gsm (step s + 1) (scan_step_count (plan s)))
       (want_tuning (word_of_int (d_to_int D (scan_plan_step_centre D (plan s) (step s)))) 0 (s, out)))"

definition measure_gsm_begin :: "'d double_ops \<Rightarrow> 'd \<Rightarrow> ('f, 'd) startup_state \<Rightarrow> ('f, 'd) startup_state" where
  "measure_gsm_begin D now = (\<lambda>(s, out).
     (case (if arfcn s < 1 \<or> arfcn s > int SCAN_ARFCN_LAST then None else gsm_downlink_hz (word_of_int (arfcn s))) of
        None \<Rightarrow> say_status (Not_gsm_channel (arfcn s)) (finish STARTUP_FAILED STARTUP_REASON_NO_CELL (s, out))
      | Some channel_hz \<Rightarrow>
          let s = s\<lparr>expected_hz := channel_hz, phase := STARTUP_MEASURE_GSM, measure_started_at := now,
                    track := calibration_tracker_init D (track s), reported := 0\<rparr>;
              (s, out) = want_tuning (channel_hz - 400000) 0 (s, out)
          in say_status (Measuring_gsm (arfcn s) channel_hz) (s, out\<lparr>measure_began := True\<rparr>)))"

subsection \<open>The walk over an LTE band\<close>

definition measure_lte_begin :: "'d double_ops \<Rightarrow> 'd \<Rightarrow> ('f, 'd) startup_state \<Rightarrow> ('f, 'd) startup_state" where
  "measure_lte_begin D now = (\<lambda>(s, out).
     (case lte_earfcn_downlink_hz D (earfcn s) of
        None \<Rightarrow> say_status (Not_lte_channel (earfcn s)) (finish STARTUP_FAILED STARTUP_REASON_NO_CELL (s, out))
      | Some carrier \<Rightarrow>
          let s = s\<lparr>expected_hz := carrier, phase := STARTUP_MEASURE_LTE, measure_started_at := now,
                    track := calibration_tracker_use D CALIBRATION_SOURCE_LTE (calibration_tracker_init D (track s)),
                    reported := 0\<rparr>;
              (s, out) = want_tuning carrier LTE_SAMPLE_RATE_HZ (s, out)
          in say_status (Measuring_lte (pci s) (earfcn s) carrier) (s, out\<lparr>measure_began := True\<rparr>)))"

definition lte_step_begin :: "'d double_ops \<Rightarrow> ('f, 'd) startup_state \<Rightarrow> ('f, 'd) startup_state" where
  "lte_step_begin D = (\<lambda>(s, out).
     (let channel = lte_scan_candidate (band s) (lte_index s);
          s = s\<lparr>lte_looks := 0, lte_agreements := 0, lte_pci := - 1\<rparr>
      in case (if channel = 0 then None else lte_earfcn_downlink_hz D channel) of
           None \<Rightarrow> (s\<lparr>earfcn := 0\<rparr>, out)
         | Some carrier \<Rightarrow>
             say_status (Looking_lte (case band s of Some b \<Rightarrow> band_number b | None \<Rightarrow> 0) (lte_index s + 1) (lte_scan_count (band s)))
               (want_tuning carrier LTE_SAMPLE_RATE_HZ (s\<lparr>earfcn := channel\<rparr>, out))))"

definition lte_scan_begin_at :: "'d double_ops \<Rightarrow> 'd \<Rightarrow> ('f, 'd) startup_state \<Rightarrow> ('f, 'd) startup_state" where
  "lte_scan_begin_at D now = (\<lambda>(s, out).
     (if band s = None then say_status No_reference_reachable (finish STARTUP_FAILED STARTUP_REASON_NO_CELL (s, out))
      else
        let (s, out) = lte_step_begin D (s\<lparr>phase := STARTUP_SCAN_LTE, lte_index := 0, step_started_at := now\<rparr>, out)
        in if earfcn s = 0 then finish STARTUP_FAILED STARTUP_REASON_NO_CELL (s, out) else (s, out)))"

text \<open>One look at a channel, and whether its identity has repeated often enough.\<close>

definition lte_look :: "('b, 'f, 'd) startup_detectors \<Rightarrow> ('b, 'd) startup_block option \<Rightarrow> ('f, 'd) startup_session \<Rightarrow>
    ('f, 'd) startup_session \<times> bool" where
  "lte_look dsp block s =
     (case block of
        None \<Rightarrow> (s, False)
      | Some b \<Rightarrow>
          if pair_count b < LTE_HALF_FRAME_SAMPLES + LTE_FFT_SIZE then (s, False)
          else
            let s = s\<lparr>lte_looks := lte_looks s + 1\<rparr> in
            case cell_search dsp (samples b) of
              None \<Rightarrow> (s, False)
            | Some (cell_pci, correlation, _) \<Rightarrow>
                let s = (if lte_pci s = cell_pci then s\<lparr>lte_agreements := lte_agreements s + 1\<rparr>
                         else s\<lparr>lte_pci := cell_pci, lte_agreements := 1\<rparr>)
                in (s\<lparr>pci := cell_pci, pss := correlation\<rparr>, lte_agreements s \<ge> STARTUP_LTE_AGREE))"

definition lte_scan_tick :: "('b, 'f, 'd) startup_detectors \<Rightarrow> 'd double_ops \<Rightarrow> ('b, 'd) startup_block option \<Rightarrow> 'd \<Rightarrow>
    ('f, 'd) startup_state \<Rightarrow> ('f, 'd) startup_state" where
  "lte_scan_tick dsp D block now = (\<lambda>(s, out).
     (let elapsed = d_sub D now (step_started_at s) in
      if \<not> tuned s \<or> d_gt D (LTE_SCAN_SETTLE_SECONDS D) elapsed then (s, out)
      else
        let (s, agreed) = lte_look dsp block s
        in if agreed then measure_lte_begin D now (s, out\<lparr>scan_finished := True\<rparr>)
           else if d_gt D (d_add D (LTE_SCAN_SETTLE_SECONDS D) (d_mul D (LTE_SCAN_PROBE_SECONDS D) (d_of_int D STARTUP_LTE_LOOKS)))
             elapsed then (s, out)
           else
             let (s, out) = lte_step_begin D (s\<lparr>lte_index := lte_index s + 1, step_started_at := now\<rparr>, out)
             in if earfcn s = 0
                then say_status (No_cell_in_band (case band s of Some b \<Rightarrow> band_number b | None \<Rightarrow> 0))
                  (finish STARTUP_FAILED STARTUP_REASON_NO_CELL (s, out))
                else (s, out)))"

subsection \<open>A candidate proves what it is\<close>

definition verify_gsm_begin :: "'f sample_ops \<Rightarrow> 'd double_ops \<Rightarrow> 'd \<Rightarrow> ('f, 'd) startup_state \<Rightarrow> ('f, 'd) startup_state" where
  "verify_gsm_begin F D now = (\<lambda>(s, out).
     (let s = s\<lparr>arfcn := int (scan_select_bcch F (channel_power s) (bcch_conf s))\<rparr> in
      case (if arfcn s \<le> 0 then None else gsm_downlink_hz (word_of_int (arfcn s))) of
        None \<Rightarrow>
          if references s \<ge> 1 then
            let s = s\<lparr>arfcn := first_arfcn s, suggested_ppm := first_ppm s, bsic := first_bsic s\<rparr>
            in say_status (No_second_carrier (first_ppm s) (first_arfcn s)) (finish STARTUP_LOCKED STARTUP_REASON_LOCKED (s, out))
          else lte_scan_begin_at D now (s\<lparr>arfcn := 0\<rparr>, out)
      | Some channel_hz \<Rightarrow>
          say_status (Checking_gsm (arfcn s))
            (want_tuning (channel_hz - 400000) 0
              (s\<lparr>arfcn_confidence := bcch_conf s (nat (arfcn s)), phase := STARTUP_VERIFY_GSM, verify_blocks := 0,
                 verified := False, bsic := - 1, expected_hz := channel_hz\<rparr>, out))))"

definition verify_gsm_rejected :: "'f sample_ops \<Rightarrow> 'd double_ops \<Rightarrow> 'd \<Rightarrow> ('f, 'd) startup_state \<Rightarrow> ('f, 'd) startup_state" where
  "verify_gsm_rejected F D now = (\<lambda>(s, out).
     verify_gsm_begin F D now
       (if arfcn s > 0 \<and> arfcn s \<le> int SCAN_ARFCN_LAST then
          (s\<lparr>rejected := (rejected s)(nat (arfcn s) := True), bcch_conf := (bcch_conf s)(nat (arfcn s) := s_lit F 0 1),
             rejected_arfcn := arfcn s, rejected_why := status s\<rparr>, out\<lparr>candidate_rejected := True\<rparr>)
        else (s, out)))"

definition gsm_scan_finished :: "'f sample_ops \<Rightarrow> 'd double_ops \<Rightarrow> 'd \<Rightarrow> ('f, 'd) startup_state \<Rightarrow> ('f, 'd) startup_state" where
  "gsm_scan_finished F D now = (\<lambda>(s, out).
     (let out = out\<lparr>scan_finished := True\<rparr> in
      if scan_select_bcch F (channel_power s) (bcch_conf s) > 0 then verify_gsm_begin F D now (s, out)
      else lte_scan_begin_at D now (s\<lparr>arfcn := 0\<rparr>, out)))"

text \<open>One block's worth of a step: the powers, and the confidence held of each channel the step covers.\<close>

definition gsm_scan_block :: "('b, 'f, 'd) startup_detectors \<Rightarrow> 'f sample_ops \<Rightarrow> 'd double_ops \<Rightarrow> ('b, 'd) startup_block \<Rightarrow>
    ('f, 'd) startup_session \<Rightarrow> ('f, 'd) startup_session" where
  "gsm_scan_block dsp F D b s =
     (let centre = centre_hz b;
          lower = d_sub D centre (d_div D (block_rate b) (d_lit D 20 1));
          upper = d_add D centre (d_div D (block_rate b) (d_lit D 20 1));
          powers = channel_powers dsp (samples b) lower upper (d_sub D centre (accept_half_hz (plan s)))
            (d_add D centre (accept_half_hz (plan s))) (channel_power s);
          channel = (\<lambda>a. d_add D (GSM900_BASE_HZ D) (d_mul D (d_of_int D (int a)) (GSM900_ARFCN_SPACING_HZ D)))
      in s\<lparr>channel_power := powers,
           bcch_conf := (\<lambda>a. if SCAN_ARFCN_FIRST \<le> a \<and> a \<le> SCAN_ARFCN_LAST \<and> scan_plan_covers D (plan s) centre (channel a)
             then scan_hold_confidence F (bcch_conf s a)
               (fst (snd (fcch_detect dsp (samples b) (d_add D (d_sub D (channel a) centre) (GSM_FCCH_TONE_HZ D)))))
             else bcch_conf s a)\<rparr>)"

definition gsm_scan_tick :: "('b, 'f, 'd) startup_detectors \<Rightarrow> 'f sample_ops \<Rightarrow> 'd double_ops \<Rightarrow> ('b, 'd) startup_block option \<Rightarrow>
    'd \<Rightarrow> ('f, 'd) startup_state \<Rightarrow> ('f, 'd) startup_state" where
  "gsm_scan_tick dsp F D block now = (\<lambda>(s, out).
     (if \<not> tuned s then (s, out)
      else
        let elapsed = d_sub D now (step_started_at s);
            p = scan_step_phase_at D elapsed (int (step s)) (int (scan_step_count (plan s)))
        in if p = SCAN_STEP_SETTLING then (s, out)
           else
             let s = (case block of
                        Some b \<Rightarrow> if has_spectrum b \<and> pair_count b \<noteq> 0 then gsm_scan_block dsp F D b s else s
                      | None \<Rightarrow> s)
             in if p = SCAN_STEP_PROBING then (s, out)
                else if p = SCAN_STEP_FINISHED then gsm_scan_finished F D now (s, out)
                else gsm_step_begin D (s\<lparr>step := step s + 1\<rparr>, out)))"

definition confirm_tone_begin :: "'d double_ops \<Rightarrow> ('f, 'd) startup_state \<Rightarrow> ('f, 'd) startup_state" where
  "confirm_tone_begin D = (\<lambda>(s, out).
     (s\<lparr>phase := STARTUP_CONFIRM_TONE, tone_first_hz := d_lit D 0 1, tone_second_hz := d_lit D 0 1, tone_blocks := 0,
        tone_second_look := False, tone_moved_hz := d_lit D 0 1\<rparr>, out))"

definition verify_gsm_tick :: "('b, 'f, 'd) startup_detectors \<Rightarrow> 'f sample_ops \<Rightarrow> 'd double_ops \<Rightarrow> ('b, 'd) startup_block option \<Rightarrow>
    'd \<Rightarrow> ('f, 'd) startup_state \<Rightarrow> ('f, 'd) startup_state" where
  "verify_gsm_tick dsp F D block now = (\<lambda>(s, out).
     (case block of
        None \<Rightarrow> (s, out)
      | Some b \<Rightarrow>
          if \<not> tuned s \<or> pair_count b = 0 then (s, out)
          else
            let s = s\<lparr>verify_blocks := verify_blocks s + 1\<rparr> in
            case sch_decode dsp (samples b) (d_sub D (d_of_int D (uint (expected_hz s))) (centre_hz b)) of
              Some (code, ncc, bcc) \<Rightarrow>
                confirm_tone_begin D (say_status (Is_gsm (arfcn s) code ncc bcc) (s\<lparr>verified := True, bsic := code\<rparr>, out))
            | None \<Rightarrow>
                if verify_blocks s \<ge> STARTUP_VERIFY_BLOCKS
                then verify_gsm_rejected F D now (say_status (No_burst (arfcn s)) (s, out))
                else (s, out)))"

text \<open>The carrier a block's tone implies, or zero.\<close>

definition tone_carrier_hz :: "('b, 'f, 'd) startup_detectors \<Rightarrow> 'd double_ops \<Rightarrow> ('f, 'd) startup_session \<Rightarrow>
    ('b, 'd) startup_block \<Rightarrow> 'd" where
  "tone_carrier_hz dsp D s b =
     (let target = d_add D (d_sub D (d_of_int D (uint (expected_hz s))) (centre_hz b)) (GSM_FCCH_TONE_HZ D);
          (found, _, tone_hz) = fcch_detect dsp (samples b) target
      in if \<not> found then d_lit D 0 1 else d_sub D (d_add D (centre_hz b) tone_hz) (GSM_FCCH_TONE_HZ D))"

definition confirm_tone_tick :: "('b, 'f, 'd) startup_detectors \<Rightarrow> 'f sample_ops \<Rightarrow> 'd double_ops \<Rightarrow> ('b, 'd) startup_block option \<Rightarrow>
    'd \<Rightarrow> ('f, 'd) startup_state \<Rightarrow> ('f, 'd) startup_state" where
  "confirm_tone_tick dsp F D block now = (\<lambda>(s, out).
     (case block of
        None \<Rightarrow> (s, out)
      | Some b \<Rightarrow>
          if \<not> tuned s \<or> pair_count b = 0 then (s, out)
          else
            let carrier = tone_carrier_hz dsp D s b; s = s\<lparr>tone_blocks := tone_blocks s + 1\<rparr>;
                most = d_of_int D STARTUP_TONE_BLOCKS
            in if d_ge D (d_lit D 0 1) carrier then
                 if tone_blocks s > STARTUP_TONE_BLOCKS * 4
                 then verify_gsm_rejected F D now (say_status (Tone_stopped (arfcn s)) (s, out))
                 else (s, out)
               else if \<not> tone_second_look s then
                 let s = s\<lparr>tone_first_hz := d_add D (tone_first_hz s) carrier\<rparr> in
                 if tone_blocks s < STARTUP_TONE_BLOCKS then (s, out)
                 else want_tuning (word_of_int (d_to_int D (d_add D (centre_hz b) (d_of_int D STARTUP_TONE_SHIFT_HZ)))) 0
                   (s\<lparr>tone_first_hz := d_div D (tone_first_hz s) most, tone_second_look := True, tone_blocks := 0\<rparr>, out)
               else
                 let s = s\<lparr>tone_second_hz := d_add D (tone_second_hz s) carrier\<rparr> in
                 if tone_blocks s < STARTUP_TONE_BLOCKS then (s, out)
                 else
                   let s = s\<lparr>tone_second_hz := d_div D (tone_second_hz s) most\<rparr>;
                       s = s\<lparr>tone_moved_hz := d_sub D (tone_second_hz s) (tone_first_hz s)\<rparr>
                   in if d_ge D (d_div D (d_mul D (STARTUP_TONE_REPEAT_PPM D) (d_of_int D (uint (expected_hz s)))) (d_lit D 10000000 1))
                        (d_abs D (tone_moved_hz s))
                      then measure_gsm_begin D now (say_status (Tone_holds (arfcn s) (tone_moved_hz s)) (s, out))
                      else verify_gsm_rejected F D now (say_status (Tone_moved (arfcn s) (tone_moved_hz s)) (s, out))))"

subsection \<open>The measurement, and the gate over it\<close>

definition unmet_clause :: "'d double_ops \<Rightarrow> ('f, 'd) startup_session \<Rightarrow> startup_reason" where
  "unmet_clause D s =
     (if measurements (track s) < CALIBRATION_MIN_MEASUREMENTS then STARTUP_REASON_TOO_FEW
      else if d_gt D (recent_sem (track s)) (CALIBRATION_MAX_SEM_PPM D) then STARTUP_REASON_SEM_WIDE
      else STARTUP_REASON_TIMEOUT)"

definition sdr_dsp_corrected_ppm :: "'d double_ops \<Rightarrow> int \<Rightarrow> 'd \<Rightarrow> 'd \<Rightarrow> int" where
  "sdr_dsp_corrected_ppm D current_ppm measured_at expected =
     (if d_ge D (d_lit D 0 1) expected then current_ppm
      else current_ppm - d_to_int D (d_round D (d_mul D (d_div D (d_sub D measured_at expected) expected) (d_lit D 10000000 1))))"

definition observe :: "'f sample_ops \<Rightarrow> 'd double_ops \<Rightarrow> 'd \<Rightarrow> 'f \<Rightarrow> 'd \<Rightarrow> ('f, 'd) startup_state \<Rightarrow> ('f, 'd) startup_state" where
  "observe F D measured_at quality_now now = (\<lambda>(s, out).
     (let expected = d_of_int D (uint (expected_hz s));
          s = s\<lparr>measured_hz := measured_at, offset_hz := d_sub D measured_at expected, session_quality := quality_now\<rparr>;
          observed_ppm = d_mul D (d_div D (offset_hz s) expected) (d_lit D 10000000 1);
          s = s\<lparr>track := calibration_tracker_observe D observed_ppm (track s)\<rparr>;
          ppm = sdr_dsp_corrected_ppm D (applied_ppm s)
            (d_mul D expected (d_add D (d_lit D 10 1) (d_div D (recent_center (track s)) (d_lit D 10000000 1)))) expected;
          ppm = (if ppm < - 1000 then - 1000 else ppm);
          ppm = (if ppm > 1000 then 1000 else ppm);
          t = track s
      in (s\<lparr>suggested_ppm := ppm,
            track := t\<lparr>stable := calibration_is_stable D F (d_sub D now (measure_started_at s)) (measurements t) (recent_count t)
              (recent_sem t) (source t) quality_now\<rparr>\<rparr>, out\<lparr>measured := True\<rparr>)))"

definition measure_status :: "('f, 'd) startup_state \<Rightarrow> ('f, 'd) startup_state" where
  "measure_status = (\<lambda>(s, out).
     say_status (Acquiring (stable (track s)) (source (track s)) (measurements (track s)) (recent_sem (track s)) (suggested_ppm s))
       (s, out))"

definition measure_gsm_tick :: "('b, 'f, 'd) startup_detectors \<Rightarrow> 'f sample_ops \<Rightarrow> 'd double_ops \<Rightarrow> ('b, 'd) startup_block option \<Rightarrow>
    'd \<Rightarrow> ('f, 'd) startup_state \<Rightarrow> ('f, 'd) startup_state" where
  "measure_gsm_tick dsp F D block now = (\<lambda>(s, out).
     (case block of
        None \<Rightarrow> (s, out)
      | Some b \<Rightarrow>
          if \<not> tuned s \<or> pair_count b = 0 then (s, out)
          else
            let target = d_add D (d_sub D (d_of_int D (uint (expected_hz s))) (centre_hz b)) (GSM_FCCH_TONE_HZ D);
                (have_tone, confidence, tone_hz) = fcch_detect dsp (samples b) target;
                lower = d_sub D (centre_hz b) (d_div D (block_rate b) (d_lit D 20 1));
                upper = d_add D (centre_hz b) (d_div D (block_rate b) (d_lit D 20 1));
                estimate = (if allow_centroid s \<and> has_spectrum b \<and> has_scratch b
                            then channel_center dsp (samples b) lower upper (d_of_int D (uint (expected_hz s))) else None);
                s = (case estimate of
                       None \<Rightarrow> s
                     | Some (_, peak, bottom, prominence) \<Rightarrow> s\<lparr>peak_dbfs := peak, floor_dbfs := bottom, prominence_db := prominence\<rparr>);
                (action, t) = calibration_track D have_tone (estimate \<noteq> None) (track s);
                s = s\<lparr>track := t\<rparr>
            in measure_status
                 (case action of
                    CALIBRATION_USE_FCCH \<Rightarrow>
                      observe F D (d_sub D (d_add D (centre_hz b) tone_hz) (GSM_FCCH_TONE_HZ D)) confidence now (s, out)
                  | CALIBRATION_USE_CENTROID \<Rightarrow>
                      (case estimate of
                         Some (frequency, _, _, _) \<Rightarrow> observe F D frequency (prominence_db s) now (s, out)
                       | None \<Rightarrow> (s, out))
                  | CALIBRATION_HOLD_TONE \<Rightarrow> (s, out)
                  | CALIBRATION_NOTHING \<Rightarrow> (s, out))))"

definition measure_lte_tick :: "('b, 'f, 'd) startup_detectors \<Rightarrow> 'f sample_ops \<Rightarrow> 'd double_ops \<Rightarrow> ('b, 'd) startup_block option \<Rightarrow>
    'd \<Rightarrow> ('f, 'd) startup_state \<Rightarrow> ('f, 'd) startup_state" where
  "measure_lte_tick dsp F D block now = (\<lambda>(s, out).
     (case block of
        None \<Rightarrow> (s, out)
      | Some b \<Rightarrow>
          if \<not> tuned s \<or> pair_count b < LTE_HALF_FRAME_SAMPLES + LTE_FFT_SIZE then (s, out)
          else case cell_search dsp (samples b) of
                 None \<Rightarrow> say_status (No_cell_in_block (earfcn s)) (s, out)
               | Some (cell_pci, correlation, away) \<Rightarrow>
                   measure_status (observe F D (d_add D (d_of_int D (uint (expected_hz s))) away) correlation now
                     (s\<lparr>track := calibration_tracker_use D CALIBRATION_SOURCE_LTE (track s), pci := cell_pci\<rparr>, out))))"

subsection \<open>Beginning, and being told\<close>

text \<open>\<open>None\<close> is a plan whose count of steps does not end; the number returned is the function's.\<close>

definition startup_session_begin :: "'f sample_ops \<Rightarrow> 'd double_ops \<Rightarrow> 'd \<Rightarrow> int \<Rightarrow> bool \<Rightarrow> 'd lte_band option \<Rightarrow> 'd \<Rightarrow>
    (('f, 'd) startup_state \<times> int) option" where
  "startup_session_begin F D rate ppm gsm_reachable lte now =
     (let s = (startup_session_reset F D)\<lparr>applied_ppm := ppm, suggested_ppm := ppm, band := lte,
                measure_budget := STARTUP_MEASURE_SECONDS D, step_started_at := now, cross_check := False\<rparr>;
          without = (\<lambda>s. let (s, out) = lte_scan_begin_at D now (s, event_clear)
                     in ((s, out), if phase s = STARTUP_FAILED then - 1 else 0))
      in case scan_plan_make D rate of
           None \<Rightarrow> None
         | Some (Inl _) \<Rightarrow> Some (without s)
         | Some (Inr made) \<Rightarrow>
             let s = s\<lparr>plan := made\<rparr>
             in Some (if \<not> gsm_reachable then without s
                      else (gsm_step_begin D (s\<lparr>phase := STARTUP_SCAN_GSM, step := 0\<rparr>, event_clear), 0)))"

definition reference_settled :: "'f sample_ops \<Rightarrow> 'd double_ops \<Rightarrow> 'd \<Rightarrow> ('f, 'd) startup_state \<Rightarrow> ('f, 'd) startup_state" where
  "reference_settled F D now = (\<lambda>(s, out).
     (if \<not> cross_check s \<or> source (track s) \<noteq> CALIBRATION_SOURCE_FCCH then
        say_status (Calibrated (suggested_ppm s) (source (track s) = CALIBRATION_SOURCE_FCCH) (recent_sem (track s))
          (measurements (track s))) (finish STARTUP_LOCKED STARTUP_REASON_LOCKED (s, out))
      else if references s = 0 then
        let s = s\<lparr>references := 1, first_ppm := suggested_ppm s, first_arfcn := arfcn s, first_bsic := bsic s\<rparr>;
            s = (if arfcn s > 0 \<and> arfcn s \<le> int SCAN_ARFCN_LAST
                 then s\<lparr>bcch_conf := (bcch_conf s)(nat (arfcn s) := s_lit F 0 1)\<rparr> else s)
        in if scan_select_bcch F (channel_power s) (bcch_conf s) > 0 then
             let (s, out) = verify_gsm_begin F D now (s, out)
             in say_status (Checking_against (first_arfcn s) (first_ppm s)) (s, out)
           else say_status (Only_one_carrier (suggested_ppm s) (first_arfcn s) (recent_sem (track s)))
             (finish STARTUP_LOCKED STARTUP_REASON_LOCKED (s, out))
      else
        let s = s\<lparr>references := 2, second_ppm := suggested_ppm s, second_arfcn := arfcn s\<rparr> in
        if d_ge D (STARTUP_AGREE_PPM D) (d_abs D (d_sub D (d_of_int D (second_ppm s)) (d_of_int D (first_ppm s)))) then
          let s = s\<lparr>suggested_ppm := first_ppm s\<rparr>
          in say_status (References_agree (suggested_ppm s) (first_arfcn s) (second_arfcn s) (first_ppm s) (second_ppm s))
               (finish STARTUP_LOCKED STARTUP_REASON_LOCKED (s, out))
        else say_status (References_disagree (first_arfcn s) (first_ppm s) (second_arfcn s) (second_ppm s))
          (finish STARTUP_FAILED STARTUP_REASON_DISAGREE (s, out))))"

definition startup_phase_tick :: "('b, 'f, 'd) startup_detectors \<Rightarrow> 'f sample_ops \<Rightarrow> 'd double_ops \<Rightarrow>
    ('b, 'd) startup_block option \<Rightarrow> 'd \<Rightarrow> ('f, 'd) startup_state \<Rightarrow> ('f, 'd) startup_state" where
  "startup_phase_tick dsp F D block now = (\<lambda>(s, out).
     (case phase s of
        STARTUP_SCAN_GSM \<Rightarrow> gsm_scan_tick dsp F D block now (s, out)
      | STARTUP_VERIFY_GSM \<Rightarrow> verify_gsm_tick dsp F D block now (s, out)
      | STARTUP_CONFIRM_TONE \<Rightarrow> confirm_tone_tick dsp F D block now (s, out)
      | STARTUP_SCAN_LTE \<Rightarrow> lte_scan_tick dsp D block now (s, out)
      | STARTUP_MEASURE_GSM \<Rightarrow> measure_gsm_tick dsp F D block now (s, out)
      | STARTUP_MEASURE_LTE \<Rightarrow> measure_lte_tick dsp F D block now (s, out)
      | _ \<Rightarrow> (s, out)))"

definition startup_gate :: "'f sample_ops \<Rightarrow> 'd double_ops \<Rightarrow> 'd \<Rightarrow> ('f, 'd) startup_state \<Rightarrow> ('f, 'd) startup_state" where
  "startup_gate F D now = (\<lambda>(s, out).
     (if phase s \<noteq> STARTUP_MEASURE_GSM \<and> phase s \<noteq> STARTUP_MEASURE_LTE then (s, out)
      else if stable (track s) then reference_settled F D now (s, out)
      else if d_gt D (d_sub D now (measure_started_at s)) (measure_budget s) then
        say_status (Could_not_settle (unmet_clause D s) (measurements (track s))) (finish STARTUP_FAILED (unmet_clause D s) (s, out))
      else (s, out)))"

definition startup_session_tick :: "('b, 'f, 'd) startup_detectors \<Rightarrow> 'f sample_ops \<Rightarrow> 'd double_ops \<Rightarrow>
    ('b, 'd) startup_block option \<Rightarrow> 'd \<Rightarrow> ('f, 'd) startup_session \<Rightarrow> ('f, 'd) startup_state" where
  "startup_session_tick dsp F D block now s =
     (if \<not> startup_session_running s then (s, event_clear)
      else startup_gate F D now (startup_phase_tick dsp F D block now (s, event_clear)))"

definition startup_session_set_budget :: "'d double_ops \<Rightarrow> 'd \<Rightarrow> ('f, 'd) startup_session \<Rightarrow> ('f, 'd) startup_session" where
  "startup_session_set_budget D seconds_given s =
     (if d_gt D seconds_given (d_lit D 0 1) then s\<lparr>measure_budget := seconds_given\<rparr> else s)"

definition startup_session_measure_gsm :: "'f sample_ops \<Rightarrow> 'd double_ops \<Rightarrow> int \<Rightarrow> int \<Rightarrow> bool \<Rightarrow> 'd \<Rightarrow>
    ('f, 'd) startup_state \<times> int" where
  "startup_session_measure_gsm F D channel ppm centroid now =
     (let (s, out) = measure_gsm_begin D now ((startup_session_reset F D)\<lparr>applied_ppm := ppm, suggested_ppm := ppm,
            allow_centroid := centroid, measure_budget := STARTUP_MEASURE_SECONDS D, arfcn := channel\<rparr>, event_clear)
      in ((s, out), if phase s = STARTUP_MEASURE_GSM then 0 else - 1))"

definition startup_session_measure_lte :: "'f sample_ops \<Rightarrow> 'd double_ops \<Rightarrow> u32 \<Rightarrow> int \<Rightarrow> 'd \<Rightarrow>
    ('f, 'd) startup_state \<times> int" where
  "startup_session_measure_lte F D channel ppm now =
     (let (s, out) = measure_lte_begin D now ((startup_session_reset F D)\<lparr>applied_ppm := ppm, suggested_ppm := ppm,
            allow_centroid := False, measure_budget := STARTUP_MEASURE_SECONDS D, earfcn := channel\<rparr>, event_clear)
      in ((s, out), if phase s = STARTUP_MEASURE_LTE then 0 else - 1))"

definition startup_session_retuned :: "'d \<Rightarrow> ('f, 'd) startup_session \<Rightarrow> ('f, 'd) startup_session" where
  "startup_session_retuned now s =
     (if tuned s then s
      else
        let s = s\<lparr>tuned := True, step_started_at := now\<rparr>
        in if phase s = STARTUP_MEASURE_GSM \<or> phase s = STARTUP_MEASURE_LTE then s\<lparr>measure_started_at := now\<rparr> else s)"

definition startup_session_retune_failed :: "'f sample_ops \<Rightarrow> 'd double_ops \<Rightarrow> u32 \<Rightarrow> string \<Rightarrow> ('f, 'd) startup_session \<Rightarrow>
    ('f, 'd) startup_state" where
  "startup_session_retune_failed F D hz why s =
     (if \<not> startup_session_running s then (s, event_clear)
      else if phase s = STARTUP_SCAN_GSM then
        if step s + 1 \<ge> scan_step_count (plan s) then gsm_scan_finished F D (d_lit D 0 1) (s, event_clear)
        else gsm_step_begin D (s\<lparr>step := step s + 1\<rparr>, event_clear)
      else if phase s = STARTUP_SCAN_LTE then
        let (s, out) = lte_step_begin D (s\<lparr>lte_index := lte_index s + 1\<rparr>, event_clear)
        in if earfcn s = 0 then finish STARTUP_FAILED STARTUP_REASON_NO_CELL (s, out) else (s, out)
      else say_status (Would_not_tune hz why) (finish STARTUP_FAILED STARTUP_REASON_NO_TUNE (s, event_clear)))"

definition startup_session_skip :: "('f, 'd) startup_session \<Rightarrow> ('f, 'd) startup_state" where
  "startup_session_skip s =
     (if \<not> startup_session_running s then (s, event_clear)
      else say_status Calibration_skipped (finish STARTUP_SKIPPED STARTUP_REASON_SKIPPED (s, event_clear)))"

end
