(* ===== verification/Startup_Run.thy ===== *)
theory Startup_Run
  imports Startup_Session
begin

text \<open>
  What the startup machine promises: a search locks only on a reference that proved itself and through the gate, and it
  ends once and says so; and the one check that counts wrongly, the tone confirmation that divides by the silent blocks too.
\<close>

subsection \<open>The runs\<close>


text \<open>One of the blocks the search was given carried a synchronization burst with valid parity where the carrier it measures
  puts it, with the station's code the search reports.\<close>

definition proved :: "('b, 'f, 'd) startup_detectors \<Rightarrow> 'd double_ops \<Rightarrow> ('b, 'd) startup_block option list \<Rightarrow>
    ('f, 'd) startup_session \<Rightarrow> bool" where
  "proved dsp D hs s = (verified s \<and> (\<exists>b ncc bcc. Some b \<in> set hs \<and>
     sch_decode dsp (samples b) (d_sub D (d_of_int D (uint (expected_hz s))) (centre_hz b)) = Some (bsic s, ncc, bcc)))"

lemma proved_same: "verified s' = verified s \<Longrightarrow> expected_hz s' = expected_hz s \<Longrightarrow> bsic s' = bsic s \<Longrightarrow>
    proved dsp D hs s' = proved dsp D hs s"
  by (simp add: proved_def)


definition tone_held :: "'d double_ops \<Rightarrow> ('f, 'd) startup_session \<Rightarrow> bool" where
  "tone_held D s = d_ge D (d_div D (d_mul D (STARTUP_TONE_REPEAT_PPM D) (d_of_int D (uint (expected_hz s)))) (d_lit D 10000000 1))
     (d_abs D (tone_moved_hz s))"

definition gate_passed :: "'f sample_ops \<Rightarrow> 'd double_ops \<Rightarrow> ('f, 'd) startup_session \<Rightarrow> bool" where
  "gate_passed F D s = (\<exists>waited. calibration_is_stable D F waited (measurements (track s)) (recent_count (track s))
     (recent_sem (track s)) (source (track s)) (session_quality s))"

text \<open>What every step keeps, and what holds between a tick's phase and its gate.\<close>

definition single :: "('f, 'd) startup_session \<Rightarrow> bool" where
  "single s = (\<not> cross_check s \<and> references s = 0 \<and> \<not> allow_centroid s)"

definition earned :: "('b, 'f, 'd) startup_detectors \<Rightarrow> 'f sample_ops \<Rightarrow> 'd double_ops \<Rightarrow> ('b, 'd) startup_block option list \<Rightarrow> ('f, 'd) startup_session \<Rightarrow> bool" where
  "earned dsp F D hs s = (gate_passed F D s \<and> - 1000 \<le> suggested_ppm s \<and> suggested_ppm s \<le> 1000 \<and>
     (source (track s) = CALIBRATION_SOURCE_LTE \<or> source (track s) = CALIBRATION_SOURCE_FCCH \<and> proved dsp D hs s \<and> tone_held D s))"

definition half_ok :: "('b, 'f, 'd) startup_detectors \<Rightarrow> 'f sample_ops \<Rightarrow> 'd double_ops \<Rightarrow> ('b, 'd) startup_block option list \<Rightarrow> ('f, 'd) startup_session \<Rightarrow> bool" where
  "half_ok dsp F D hs s = (single s \<and> phase s \<noteq> STARTUP_LOCKED \<and>
     (phase s = STARTUP_VERIFY_GSM \<or> phase s = STARTUP_CONFIRM_TONE \<longrightarrow> gsm_downlink_hz (word_of_int (arfcn s)) = Some (expected_hz s)) \<and>
     (phase s = STARTUP_CONFIRM_TONE \<longrightarrow> proved dsp D hs s) \<and>
     (phase s = STARTUP_MEASURE_GSM \<longrightarrow> proved dsp D hs s \<and> tone_held D s \<and> (stable (track s) \<longrightarrow> earned dsp F D hs s)) \<and>
     (phase s = STARTUP_MEASURE_LTE \<longrightarrow> source (track s) = CALIBRATION_SOURCE_LTE \<and> (stable (track s) \<longrightarrow> earned dsp F D hs s)))"

definition search_ok :: "('b, 'f, 'd) startup_detectors \<Rightarrow> 'f sample_ops \<Rightarrow> 'd double_ops \<Rightarrow> ('b, 'd) startup_block option list \<Rightarrow> ('f, 'd) startup_session \<Rightarrow> bool" where
  "search_ok dsp F D hs s = (if phase s = STARTUP_LOCKED then single s \<and> earned dsp F D hs s
     else half_ok dsp F D hs s \<and> (phase s = STARTUP_MEASURE_GSM \<or> phase s = STARTUP_MEASURE_LTE \<longrightarrow> \<not> stable (track s)))"


lemma tracker_init [simp]:
  "stable (calibration_tracker_init D t) = False" "source (calibration_tracker_init D t) = CALIBRATION_SOURCE_CENTROID"
  by (simp_all add: calibration_tracker_init_def calibration_tracker_reset_def)

lemma tracker_use [simp]:
  "source (calibration_tracker_use D k t) = k" "\<not> stable t \<Longrightarrow> \<not> stable (calibration_tracker_use D k t)"
  by (simp_all add: calibration_tracker_use_def calibration_tracker_reset_def calibration_source_matches_def)

subsection \<open>Each step\<close>

lemma single_updates [simp]:
  "single (s\<lparr>arfcn := a\<rparr>) = single s" "single (s\<lparr>step := k\<rparr>) = single s" "single (s\<lparr>rejected := r\<rparr>) = single s"
  "single (s\<lparr>bcch_conf := c\<rparr>) = single s" "single (s\<lparr>rejected_arfcn := a\<rparr>) = single s" "single (s\<lparr>rejected_why := w\<rparr>) = single s"
  "single (s\<lparr>status := m\<rparr>) = single s" "single (s\<lparr>verify_blocks := v\<rparr>) = single s" "single (s\<lparr>tone_blocks := v\<rparr>) = single s"
  "single (s\<lparr>tone_first_hz := x\<rparr>) = single s" "single (s\<lparr>tone_second_hz := x\<rparr>) = single s" "single (s\<lparr>tone_moved_hz := x\<rparr>) = single s"
  "single (s\<lparr>lte_index := i\<rparr>) = single s" "single (s\<lparr>step_started_at := x\<rparr>) = single s" "single (s\<lparr>lte_looks := i\<rparr>) = single s"
  "single (s\<lparr>lte_agreements := i\<rparr>) = single s" "single (s\<lparr>lte_pci := i\<rparr>) = single s" "single (s\<lparr>pci := i\<rparr>) = single s"
  "single (s\<lparr>pss := q\<rparr>) = single s" "single (s\<lparr>track := t\<rparr>) = single s" "single (s\<lparr>phase := ph\<rparr>) = single s"
  "single (s\<lparr>reason := why\<rparr>) = single s" "single (s\<lparr>tuned := b\<rparr>) = single s" "single (s\<lparr>measure_started_at := x\<rparr>) = single s"
  "single (s\<lparr>measure_budget := x\<rparr>) = single s" "single (s\<lparr>want_hz := hz\<rparr>) = single s"
  "single (s\<lparr>want_rate_hz := hz\<rparr>) = single s" "single (s\<lparr>tone_second_look := b\<rparr>) = single s"
  by (simp_all add: single_def)










lemma gsm_scan_block_keeps: "single (gsm_scan_block dsp F D b s) = single s" "phase (gsm_scan_block dsp F D b s) = phase s"
  "tuned (gsm_scan_block dsp F D b s) = tuned s"
  by (simp_all add: gsm_scan_block_def Let_def single_def)





lemma lte_look_keeps: "single (fst (lte_look dsp block s)) = single s \<and> phase (fst (lte_look dsp block s)) = phase s"
  by (simp add: lte_look_def Let_def split: option.split)


lemma observe_keeps:
  "single (fst (observe F D x q now (s, out))) = single s \<and> phase (fst (observe F D x q now (s, out))) = phase s \<and>
   bsic (fst (observe F D x q now (s, out))) = bsic s \<and>
   verified (fst (observe F D x q now (s, out))) = verified s \<and> expected_hz (fst (observe F D x q now (s, out))) = expected_hz s \<and>
   tone_moved_hz (fst (observe F D x q now (s, out))) = tone_moved_hz s \<and> arfcn (fst (observe F D x q now (s, out))) = arfcn s \<and>
   source (track (fst (observe F D x q now (s, out)))) = source (track s) \<and>
   - 1000 \<le> suggested_ppm (fst (observe F D x q now (s, out))) \<and> suggested_ppm (fst (observe F D x q now (s, out))) \<le> 1000 \<and>
   (stable (track (fst (observe F D x q now (s, out)))) \<longrightarrow> gate_passed F D (fst (observe F D x q now (s, out))))"
  by (auto simp: observe_def Let_def single_def calibration_tracker_observe_def gate_passed_def case_prod_unfold)






subsection \<open>A search's lock is earned\<close>

lemma search_half: "search_ok dsp F D hs s \<Longrightarrow> phase s \<noteq> STARTUP_LOCKED \<Longrightarrow> half_ok dsp F D hs s" by (simp add: search_ok_def)

















subsection \<open>A search ends once, and says so\<close>

definition quiet :: "startup_event \<Rightarrow> bool" where "quiet out = (\<not> finished out \<and> \<not> release_receiver out)"

definition told :: "('f, 'd) startup_state \<Rightarrow> bool" where
  "told st = (if startup_session_running (fst st) then quiet (snd st) else finished (snd st) \<and> release_receiver (snd st))"

lemma told_finish: "p = STARTUP_FAILED \<or> p = STARTUP_LOCKED \<or> p = STARTUP_SKIPPED \<Longrightarrow> told (finish p r st)"
  by (cases st) (auto simp: told_def finish_def startup_session_running_def)

lemma told_status [simp]: "told (say_status m st) = told st"
  by (cases st) (simp add: told_def say_status_def startup_session_running_def)

lemma told_want [simp]: "told (want_tuning hz rate st) = told st"
  by (cases st) (simp add: told_def want_tuning_def startup_session_running_def quiet_def)

lemma told_running: "startup_session_running s \<Longrightarrow> quiet out \<Longrightarrow> told (s, out)" by (simp add: told_def)

lemma lte_step_quiet: "told (lte_step_begin D (s, out)) = told (s, out)"
proof -
  have "told (s\<lparr>lte_looks := a, lte_agreements := b, lte_pci := c, earfcn := d\<rparr>, out) = told (s, out)" for a b c d
    by (simp add: told_def startup_session_running_def)
  then show ?thesis by (simp add: lte_step_begin_def Let_def split: option.split)
qed

lemma lte_scan_begin_told:
  assumes "quiet out" shows "told (lte_scan_begin_at D now (s, out))"
proof -
  let ?s = "s\<lparr>phase := STARTUP_SCAN_LTE, lte_index := 0, step_started_at := now\<rparr>"
  have "told (?s, out)" using assms by (intro told_running) (simp_all add: startup_session_running_def)
  then have "told (lte_step_begin D (?s, out))" by (simp only: lte_step_quiet)
  then show ?thesis by (simp add: lte_scan_begin_at_def told_finish Let_def case_prod_unfold)
qed

lemma measure_begin_told:
  assumes "quiet out"
  shows "told (measure_gsm_begin D now (s, out))" "told (measure_lte_begin D now (s, out))"
  using assms
  by (simp_all add: measure_gsm_begin_def measure_lte_begin_def Let_def want_tuning_def case_prod_unfold told_finish split: option.split)
    (simp_all add: told_def startup_session_running_def quiet_def)

lemma verify_gsm_begin_told:
  assumes "quiet out" shows "told (verify_gsm_begin F D now (s, out))"
proof -
  have verifying: "told (s\<lparr>arfcn := a, arfcn_confidence := q, phase := STARTUP_VERIFY_GSM, verify_blocks := 0, verified := False,
      bsic := c, expected_hz := hz\<rparr>, out)" for a q c hz
    using assms by (intro told_running) (simp_all add: startup_session_running_def)
  show ?thesis
    unfolding verify_gsm_begin_def prod.case Let_def
    by (simp add: told_finish verifying lte_scan_begin_told [OF assms] split: option.split)
qed

lemma rejected_told: "quiet out \<Longrightarrow> told (verify_gsm_rejected F D now (s, out))"
  by (simp add: verify_gsm_rejected_def verify_gsm_begin_told quiet_def)

lemma scan_finished_told: "quiet out \<Longrightarrow> told (gsm_scan_finished F D now (s, out))"
  by (simp add: gsm_scan_finished_def verify_gsm_begin_told lte_scan_begin_told quiet_def Let_def)


lemma gsm_step_told: "told (gsm_step_begin D (s, out)) = told (s, out)"
  by (simp add: gsm_step_begin_def)

lemma told_same: "phase s' = phase s \<Longrightarrow> told (s', out) = told (s, out)"
  by (simp add: told_def startup_session_running_def)

lemma gsm_scan_told:
  assumes "phase s = STARTUP_SCAN_GSM" "quiet out" shows "told (gsm_scan_tick dsp F D block now (s, out))"
proof -
  have t: "told (s', out)" if "phase s' = STARTUP_SCAN_GSM" for s'
    using that assms by (intro told_running) (simp_all add: startup_session_running_def)
  obtain s' where s': "s' = (case block of Some b \<Rightarrow> if has_spectrum b \<and> pair_count b \<noteq> 0 then gsm_scan_block dsp F D b s else s
      | None \<Rightarrow> s)" by simp
  then have "phase s' = STARTUP_SCAN_GSM" using assms by (auto simp: gsm_scan_block_keeps split: option.splits)
  then show ?thesis unfolding gsm_scan_tick_def prod.case Let_def s' [symmetric]
    using assms by (simp add: t scan_finished_told gsm_step_told)
qed

lemma verify_gsm_told:
  assumes "phase s = STARTUP_VERIFY_GSM" "quiet out" shows "told (verify_gsm_tick dsp F D block now (s, out))"
proof -
  have t: "told (s', out)" if "phase s' = STARTUP_VERIFY_GSM \<or> phase s' = STARTUP_CONFIRM_TONE" for s'
    using that assms by (intro told_running) (auto simp: startup_session_running_def)
  show ?thesis using assms
    by (auto simp: verify_gsm_tick_def t Let_def say_status_def confirm_tone_begin_def intro!: rejected_told split: option.split prod.split)
qed

lemma confirm_told:
  assumes "phase s = STARTUP_CONFIRM_TONE" "quiet out" shows "told (confirm_tone_tick dsp F D block now (s, out))"
proof -
  have t: "told (s', out)" if "phase s' = STARTUP_CONFIRM_TONE" for s'
    using that assms by (intro told_running) (auto simp: startup_session_running_def)
  have "told (verify_gsm_rejected F D now (say_status m (s', out)))" "told (measure_gsm_begin D now (say_status m (s', out)))" for m s'
    using assms by (simp_all add: say_status_def rejected_told measure_begin_told)
  then show ?thesis unfolding confirm_tone_tick_def prod.case Let_def
    using assms by (simp add: t split: option.split)
qed

lemma lte_scan_told:
  assumes "phase s = STARTUP_SCAN_LTE" "quiet out" shows "told (lte_scan_tick dsp D block now (s, out))"
proof -
  have t: "told (s', out)" if "phase s' = STARTUP_SCAN_LTE" for s'
    using that assms by (intro told_running) (auto simp: startup_session_running_def)
  obtain s' agreed where look: "lte_look dsp block s = (s', agreed)" by force
  then have s': "phase s' = STARTUP_SCAN_LTE" using lte_look_keeps [of dsp block s] assms by simp
  obtain u out' where u: "lte_step_begin D (s'\<lparr>lte_index := lte_index s' + 1, step_started_at := now\<rparr>, out) = (u, out')" by force
  have "told (lte_step_begin D (s'\<lparr>lte_index := lte_index s' + 1, step_started_at := now\<rparr>, out))"
    using s' by (simp add: lte_step_quiet t)
  then show ?thesis
    unfolding lte_scan_tick_def prod.case Let_def look u
    using assms s' by (simp add: t told_finish measure_begin_told quiet_def)
qed

lemma observe_event: "quiet (snd (observe F D x q now (s, out))) = quiet out"
  by (simp add: observe_def Let_def quiet_def)

lemma observe_told: "told (observe F D x q now (s, out)) = told (s, out)"
proof -
  have "finished (snd (observe F D x q now (s, out))) = finished out \<and> release_receiver (snd (observe F D x q now (s, out))) = release_receiver out"
    by (simp add: observe_def Let_def)
  then show ?thesis using observe_keeps [of F D x q now s out] by (simp add: told_def startup_session_running_def quiet_def)
qed

lemma measure_status_told [simp]: "told (measure_status st) = told st"
  by (cases st) (simp add: measure_status_def)

lemma measure_told:
  assumes "quiet out"
  shows "phase s = STARTUP_MEASURE_GSM \<Longrightarrow> told (measure_gsm_tick dsp F D block now (s, out))"
    and "phase s = STARTUP_MEASURE_LTE \<Longrightarrow> told (measure_lte_tick dsp F D block now (s, out))"
proof -
  have t: "told (s', out)" if "phase s' = STARTUP_MEASURE_GSM \<or> phase s' = STARTUP_MEASURE_LTE" for s'
    using that assms by (intro told_running) (auto simp: startup_session_running_def)
  show "told (measure_gsm_tick dsp F D block now (s, out))" if "phase s = STARTUP_MEASURE_GSM"
    using that by (simp add: measure_gsm_tick_def Let_def case_prod_unfold observe_told t split: option.split calibration_action.split)
  show "told (measure_lte_tick dsp F D block now (s, out))" if "phase s = STARTUP_MEASURE_LTE"
    using that by (simp add: measure_lte_tick_def observe_told t split: option.split)
qed

lemma settled_told:
  assumes "quiet out" shows "told (reference_settled F D now (s, out))"
  by (simp add: reference_settled_def Let_def told_finish case_prod_unfold verify_gsm_begin_told [OF assms])

lemma gate_told:
  assumes "told (s, out)" shows "told (startup_gate F D now (s, out))"
proof -
  have "quiet out" if "phase s = STARTUP_MEASURE_GSM \<or> phase s = STARTUP_MEASURE_LTE"
    using that assms by (auto simp: told_def startup_session_running_def)
  moreover have "unmet_clause D s = r \<Longrightarrow> told (finish STARTUP_FAILED r (s, out))" for r by (simp add: told_finish)
  ultimately show ?thesis using assms by (simp add: startup_gate_def settled_told told_finish)
qed

lemma phase_tick_told:
  assumes "startup_session_running s" "quiet out" shows "told (startup_phase_tick dsp F D block now (s, out))"
  using assms unfolding startup_session_running_def
  by (elim disjE) (simp_all add: startup_phase_tick_def gsm_scan_told verify_gsm_told confirm_told lte_scan_told measure_told)

text \<open>A tick reports the end of a search exactly when the search ends in it: it was running and is not any more. That is when
  the receiver is given back, and a search that has ended does nothing more.\<close>

theorem startup_ends_once:
  "finished (snd (startup_session_tick dsp F D block now s)) =
     (startup_session_running s \<and> \<not> startup_session_running (fst (startup_session_tick dsp F D block now s))) \<and>
   release_receiver (snd (startup_session_tick dsp F D block now s)) = finished (snd (startup_session_tick dsp F D block now s))"
proof (cases "startup_session_running s")
  case True
  have "quiet event_clear" by (simp add: quiet_def event_clear_def)
  from phase_tick_told [OF True this, of dsp F D block now] have "told (startup_session_tick dsp F D block now s)"
    using True gate_told [of "fst (startup_phase_tick dsp F D block now (s, event_clear))" "snd (startup_phase_tick dsp F D block now (s, event_clear))" F D now]
    by (simp add: startup_session_tick_def)
  then show ?thesis using True by (auto simp: told_def quiet_def split: if_splits)
next
  case False
  then show ?thesis by (simp add: startup_session_tick_def event_clear_def)
qed

subsection \<open>The check that counts what it did not see\<close>

definition steady_tone :: "(bool, real, real) startup_detectors" where
  "steady_tone = \<lparr>channel_powers = (\<lambda>_ _ _ _ _ powers. powers), fcch_detect = (\<lambda>b target. (b, 1, target)), sch_decode = (\<lambda>_ _. None),
     cell_search = (\<lambda>_. None), channel_center = (\<lambda>_ _ _ _. None)\<rparr>"

definition tone_session :: "(real, real) startup_session" where
  "tone_session = (startup_session_reset exact_samples exact_doubles)\<lparr>phase := STARTUP_CONFIRM_TONE, tuned := True, arfcn := 1,
     verified := True, expected_hz := 935200000\<rparr>"

definition tone_block :: "bool \<Rightarrow> (bool, real) startup_block" where
  "tone_block hears = \<lparr>samples = hears, pair_count = 1, has_spectrum = False, has_scratch = False, centre_hz = 934800000, block_rate = 2000000\<rparr>"

text \<open>A block without the tone is counted among the four the carrier is averaged over, and adds nothing to their sum. One
  such block and three that hear a tone exactly where it belongs are averaged to three quarters of the carrier.\<close>

lemma confirm_tone_divides_by_silence:
  "tone_first_hz (foldl (\<lambda>s hears. fst (confirm_tone_tick steady_tone exact_samples exact_doubles (Some (tone_block hears)) 0 (s, event_clear)))
     tone_session [False, True, True, True]) = 935200000 * (3 / 4)"
  by (simp add: confirm_tone_tick_def tone_session_def tone_block_def steady_tone_def tone_carrier_hz_def Let_def STARTUP_TONE_BLOCKS_def
      exact_lit want_tuning_def startup_session_reset_def GSM_FCCH_TONE_HZ_def)

end
