(* ===== verification/Spec2Isabelle.thy ===== *)
theory Spec2Isabelle
  imports Receiver_Session Websocket_Frames Viewer_Command Rds Tetra_Channels Gsm_Bcch Lte_Transport Lte_Mib
    Adsb_Position Iq_Ring Device_Profile Input_Routing Srd_Frames Sweep_Plan Calibration_Gate Installation
    Cell_Evidence Startup_Steady
begin

text \<open>
  SDRProbe, a workbench for a software-defined radio: a model of the parts of the C program that decide something, and
  the theorems that make each of them correct. Paths are those of the manifest: the repository is the directory \<open>src\<close>, so
  that the program's own code lies under \<open>src/src\<close>.

  \<^bold>\<open>The program.\<close> One receiver serves every screen. A worker thread (\<open>runtime/acquisition.c\<close>) reads blocks of samples
  from it through a table of function pointers and pushes them into a rolling buffer; the main loop hands each block to
  the technology on the screen, whose decoder turns it into bits and the bits into messages. A screen that needs another
  frequency borrows the receiver and gives it back; every change of tuning is one transaction over the device. Before
  anything is measured, a startup machine looks for a cell whose carrier is known, has it prove what it is and derives the
  crystal's correction, which is kept per receiver and site in a settings file. A band survey and a GSM scan cover a range
  of frequencies in steps. A viewer on the network connects by WebSocket and sends commands, one line each.

  \<^bold>\<open>The theories, from the device up.\<close>

  \<^item> \<open>Prelude\<close>, \<open>Floating\<close>, \<open>C_Text\<close>: what the components share. \<open>Prelude\<close> names the C integer types and holds the rewrite
    collections and generic lemmas. \<open>Floating\<close> holds the records of operations through which the code's \<open>float\<close> and \<open>double\<close>
    are arguments of the model, and their instances on the reals. \<open>C_Text\<close> holds the character classes, \<open>strtol\<close>,
    \<open>strtoul\<close> and \<open>%d\<close> as the parsers and printers use them.
  \<^item> \<open>Device_Backend\<close> (\<open>runtime/device_backend.h\<close>, the control calls of \<open>backend_capture.c\<close> and \<open>backend_rtlsdr.c\<close>): a
    session is a record of optional operations over a world, a NULL entry being \<open>None\<close>. The locale \<open>tunable_device\<close>
    states what a caller relies on; a capture satisfies it, and so does an RTL-SDR over a driver that keeps what it is set to.
  \<^item> \<open>Receiver_Runtime\<close> (\<open>receiver_runtime.c\<close>): \<open>apply_locked\<close> and its parts, with the two tunes above it. A transaction
    leaves the applied record as it was or applies all of it and counts one generation, whatever the device answers; over a
    \<open>tunable_device\<close> the device is in step with the record after every transaction.
  \<^item> \<open>Receiver_Lease\<close> (\<open>receiver_lease.h\<close>): the bounded stack of tuning snapshots, its two arrays and its 32-bit
    generations; it refines an abstract stack, hands back the snapshot that was recorded and refuses stale tokens until the
    counter comes round. The locale \<open>claim_stack\<close> is the contract of the stack, interpreted on those arrays.
  \<^item> \<open>Receiver_Session\<close> (the receiver half of \<open>app_runtime.c\<close>): retunes, borrowing and returning; what is borrowed is
    given back.
  \<^item> \<open>Iq_Ring\<close> (\<open>core/iq_ring.c\<close>): the rolling buffer. Any run of pushes and configurations keeps exactly the newest
    octets; a snapshot taken with an unsplit capacity is coherent.
  \<^item> \<open>Device_Profile\<close> (\<open>core/device_profile.h\<close>), \<open>Input_Routing\<close> (\<open>runtime/input_route.h\<close>, \<open>view_input.h\<close>): the profiles
    the code builds pass its own check; no surface that takes typing lets a key through to the shortcuts.
  \<^item> \<open>Check_Register\<close>, \<open>Trellis\<close>: two libraries for the block and convolutional codes, models of no file. A check register
    is a cyclic code's divider in either of the two forms the code writes; the trellis is add-compare-select with its walk
    back. Their locales prove once that every burst up to the register's width is seen, and that the survivor is a best
    path; each decoder supplies its register or its metric. RDS, TETRA, GSM, LTE and ADS-B interpret a register; the TETRA
    decoder interprets the trellis, and the GSM and LTE decoders instantiate it once per row of scores.
  \<^item> \<open>Rds\<close> (\<open>tech/rds.c\<close>, \<open>rds.h\<close>): block code, synchronization, station. A stream of groups is read from its first
    bit, every group once and in order.
  \<^item> \<open>Tetra_Sync\<close> (\<open>tech/tetra_sync.c\<close>) and \<open>Tetra_Channels\<close>: the decoder, and a transmitter written from the standard that
    shares no definition with it; the decoder reads what the transmitter sends, on both channels.
  \<^item> \<open>Gsm_Bcch\<close> (\<open>tech/gsm_bcch.c\<close>): the soft Viterbi decoder finds a codeword no other codeword beats, and a block of
    the broadcast channel survives coding and decoding.
  \<^item> \<open>Lte_Turbo\<close>, \<open>Lte_Transport\<close>, \<open>Lte_Mib\<close> (\<open>tech/lte_turbo.c\<close>, \<open>lte_transport.c\<close>, \<open>lte_mib.c\<close>, \<open>lte_gold.h\<close>): the
    interleaver is a permutation for every one of the 188 sizes; a transport block survives rate matching and the
    turbo code; the tail-biting decoder is a maximum-likelihood decoder, and the broadcast message is found in whichever
    quarter of its period it is looked for.
  \<^item> \<open>Adsb\<close>, \<open>Adsb_Frame\<close>, \<open>Adsb_Scan\<close>, \<open>Adsb_Position\<close> (\<open>tech/adsb_dsp.c\<close>, \<open>adsb_session.c\<close>, \<open>adsb_analysis.h\<close>): from
    magnitudes to messages and positions. The scan finds the frames a modulator wrote and no others; its counters add up;
    a position comes only from two halves of one aircraft, and inverts the encoding to half a step.
  \<^item> \<open>Srd\<close>, \<open>Srd_Frames\<close> (\<open>tech/srd_frame.c\<close>, parts of \<open>srd_dsp.c\<close>): runs, chips, Manchester bits and the two kinds of frame.
  \<^item> \<open>Sweep_Plan\<close> (\<open>core/survey_sweep.h\<close>, \<open>runtime/scan_plan.h\<close>): the steps of the survey and of the GSM scan, which leave
    no frequency out, and the choice among the channels found.
  \<^item> \<open>Lte_Scan\<close> (\<open>tech/lte_scan.h\<close>, the band tables of \<open>lte_dsp.c\<close> and \<open>gsm_dsp.c\<close>): channel numbers, which go to hertz
    and back, and the order of a band's search, which visits every channel once.
  \<^item> \<open>Cell_Evidence\<close> (\<open>tech/lte_confirm.h\<close>, \<open>gsm_continuity.h\<close>): when a decode counts as a cell. A confirmed identity was
    read twice from its own broadcast channel; a cell whose frame counter goes on is never called implausible.
  \<^item> \<open>Calibration_Gate\<close> (\<open>runtime/calibration_gate.h\<close> and the block step of \<open>calibration_runtime.c\<close>): the robust statistics,
    the gate and the tracker that keeps residuals of two sources apart.
  \<^item> \<open>Startup_Session\<close>, \<open>Startup_Run\<close>, \<open>Startup_Steady\<close> (\<open>runtime/startup_session.c\<close>): the startup machine, every phase of
    it. \<open>startup_reached\<close> is what a run can come to, with the blocks it was given; a lock is earned, a search ends once and
    says so, and one that meets a steady cell ends locked on it.
  \<^item> \<open>Config\<close>, \<open>Config_File\<close>, \<open>Installation\<close> (\<open>runtime/config.c\<close>, \<open>installation.c\<close>): settings, the file, and the correction of
    a receiver at a site, through saving and loading.
  \<^item> \<open>Websocket_Crypto\<close>, \<open>Websocket_Http\<close>, \<open>Websocket_Frames\<close> (\<open>server/websocket.c\<close>): the handshake's primitives, the
    upgrade request, frames and messages.
  \<^item> \<open>Viewer_Command\<close> (\<open>server/viewer_command.c\<close>): a request is read as its command, and nothing but a request is.

  The components meet in these places: \<open>Receiver_Session\<close> calls \<open>Receiver_Lease\<close> and \<open>Receiver_Runtime\<close>, which calls the
  device; \<open>Startup_Session\<close> runs \<open>Sweep_Plan\<close>'s GSM scan and \<open>Lte_Scan\<close>'s order and measures through
  \<open>Calibration_Gate\<close>; \<open>Installation\<close> reads and writes \<open>Config\<close>; \<open>Lte_Transport\<close> carries \<open>Lte_Turbo\<close>. Theorems that span two
  components stand in the theory of the upper one.

  \<^bold>\<open>How C became HOL.\<close>

  \<^item> A struct is a record, an enumeration a datatype, and a function that writes through pointers returns what it wrote. A
    return code keeps its \<open>int\<close>; a message is a constructor with the values printed into it. NULL is \<open>None\<close>.
  \<^item> Integers keep their width where the code lets them wrap: lease generations, the lengths of a frame, the registers, the
    numbers a command carries. Indices and the counters that cannot reach their width are naturals or integers; where a
    theory relies on that, its opening says why (the counters of \<open>Rds\<close>, the costs of \<open>Tetra_Sync\<close>, the steps of
    \<open>Sweep_Plan\<close>).
  \<^item> \<open>float\<close> and \<open>double\<close> are any types with the operations of \<open>Floating\<close>, or with the few that one decoder uses. A theorem
    that needs nothing of them holds for the machine's arithmetic. A decoder's theorem that compares sums states when
    sums are exact: soft values up to \<open>2 ^ 15\<close> for GSM, \<open>2 ^ 17\<close> for the LTE broadcast channel, which keep every sum within
    the \<open>2 ^ 24\<close> up to which a \<open>float\<close> holds every integer. A theorem about hertz, steps and positions is of
    arithmetic without rounding and says so. \<open>d_to_int\<close> is the cast to \<open>int\<close>, used within its range.
  \<^item> Detectors of the signal processing, the driver, and what the file system answers are arguments.
  \<^item> Memory that outlives a call (survivor tables, the decoders' static arrays) is the argument \<open>old\<close>; a buffer changed in
    place is returned as it is left. Where C has no defined outcome the model has an outcome of its own instead of a made-up
    result: \<open>Frame_overrun\<close> when the unmasking loop, written as the code writes it, leaves its buffer.
    \<open>realloc\<close> of 0 bytes is taken as a refusal that keeps the old block; the C library may also release it.
  \<^item> Loops are recursions over what they consume. Two may not end for every argument and are partial functions into
    \<open>option\<close>: \<open>adsb_scan\<close> and \<open>scan_count\<close>. Both are proved to return, the first for every buffer, the second for
    arithmetic without rounding. No definition takes fuel.

  \<^bold>\<open>Limits of the theorems.\<close> Names in the settings are kept through a restart when they are at most 95 characters, tidy, the
  receiver a single word and no longer with its site than 160; the installation's own names hold 63. The turbo code's round
  trip needs at least one iteration and an allocation of at most 18,476 bits, beyond which the code sends nothing. A
  frame is decoded within the buffer unless it declares a length within 14 bytes of \<open>2 ^ 64\<close>. A snapshot starts on a
  pair when the capacity holds whole pairs, which a refused \<open>realloc\<close> can break. The manifest's
  findings say what happens outside these limits, and for most of them a lemma beside the theorem shows it.

  \<^bold>\<open>What is not modelled.\<close> The link to the viewer and its sessions (sockets, threads, \<open>snprintf\<close>); the band survey's records,
  reports and carrier estimates; the option parser; the site history and the reading and writing of files; the
  acquisition worker; the transforms, filters and detectors of the signal processing; the records and log of the SRD
  decoder; the SoapySDR and UHD backends, which only call libraries outside the repository; the sessions that put detectors and
  decoders together for GSM, LTE, FM and TETRA; the screens and their drawing; the entry points; vendored code, scripts and
  tests. Threads are not modelled either: each operation that the code runs under a mutex is one step.
\<close>

end
